(* ===== verification/Prelude.thy ===== *)
theory Prelude
  imports Main "HOL-Library.Word" "HOL-Library.Multiset"
begin

text \<open>
  Types, result codes and generic lemmas shared by the component theories.

  A machine integer is a word of its C width (\<open>u8\<close>, \<open>u16\<close>, \<open>u32\<close>, \<open>u64\<close>) where the code
  works on its bits or relies on wrap-around, and a \<open>nat\<close> or \<open>int\<close> with the cast written out
  where the code uses it as a size or an offset.  A C buffer is a list of bytes.
\<close>

unbundle bit_operations_syntax

section \<open>Types\<close>

type_synonym u8 = "8 word"
type_synonym u16 = "16 word"
type_synonym u32 = "32 word"
type_synonym u64 = "64 word"
type_synonym i64 = "64 word"
type_synonym bytes = "u8 list"

text \<open>A page number (\<open>Pgno\<close>): an unsigned 32-bit quantity, 0 for ``no page''.\<close>

type_synonym pgno = nat

section \<open>Result codes\<close>

text \<open>The primary and extended result codes the modelled routines return.\<close>

text \<open>The detail an extended I/O error code carries in its second byte.\<close>

datatype io_detail =
    IO_READ | IO_SHORT_READ | IO_WRITE | IO_FSYNC | IO_TRUNCATE | IO_FSTAT | IO_UNLOCK
  | IO_RDLOCK | IO_NOMEM | IO_CHECKRESERVEDLOCK | IO_LOCK | IO_CORRUPTFS

primrec io_code :: "io_detail \<Rightarrow> nat" where
  "io_code IO_READ = 1"
| "io_code IO_SHORT_READ = 2"
| "io_code IO_WRITE = 3"
| "io_code IO_FSYNC = 4"
| "io_code IO_TRUNCATE = 6"
| "io_code IO_FSTAT = 7"
| "io_code IO_UNLOCK = 8"
| "io_code IO_RDLOCK = 9"
| "io_code IO_NOMEM = 12"
| "io_code IO_CHECKRESERVEDLOCK = 14"
| "io_code IO_LOCK = 15"
| "io_code IO_CORRUPTFS = 33"

datatype rc =
    SQLITE_OK | SQLITE_ERROR | SQLITE_PERM | SQLITE_ABORT | SQLITE_BUSY | SQLITE_LOCKED
  | SQLITE_NOMEM | SQLITE_READONLY | SQLITE_INTERRUPT | SQLITE_IOERR | SQLITE_CORRUPT
  | SQLITE_NOTFOUND | SQLITE_FULL | SQLITE_CANTOPEN | SQLITE_PROTOCOL | SQLITE_EMPTY
  | SQLITE_TOOBIG | SQLITE_MISUSE | SQLITE_NOTADB | SQLITE_DONE | SQLITE_BUSY_RECOVERY
  | SQLITE_CONSTRAINT_PINNED | SQLITE_READONLY_RECOVERY | SQLITE_READONLY_CANTINIT | SQLITE_BUSY_SNAPSHOT
  | SQLITE_IOERR_EXT io_detail

primrec rc_code :: "rc \<Rightarrow> nat" where
  "rc_code SQLITE_OK = 0"
| "rc_code SQLITE_ERROR = 1"
| "rc_code SQLITE_PERM = 3"
| "rc_code SQLITE_ABORT = 4"
| "rc_code SQLITE_BUSY = 5"
| "rc_code SQLITE_LOCKED = 6"
| "rc_code SQLITE_NOMEM = 7"
| "rc_code SQLITE_READONLY = 8"
| "rc_code SQLITE_INTERRUPT = 9"
| "rc_code SQLITE_IOERR = 10"
| "rc_code SQLITE_CORRUPT = 11"
| "rc_code SQLITE_NOTFOUND = 12"
| "rc_code SQLITE_FULL = 13"
| "rc_code SQLITE_CANTOPEN = 14"
| "rc_code SQLITE_PROTOCOL = 15"
| "rc_code SQLITE_EMPTY = 16"
| "rc_code SQLITE_TOOBIG = 18"
| "rc_code SQLITE_MISUSE = 21"
| "rc_code SQLITE_NOTADB = 26"
| "rc_code SQLITE_DONE = 101"
| "rc_code SQLITE_BUSY_RECOVERY = 5 + 1 * 256"
| "rc_code SQLITE_CONSTRAINT_PINNED = 19 + 3 * 256"
| "rc_code SQLITE_READONLY_RECOVERY = 8 + 1 * 256"
| "rc_code SQLITE_READONLY_CANTINIT = 8 + 5 * 256"
| "rc_code SQLITE_BUSY_SNAPSHOT = 5 + 2 * 256"
| "rc_code (SQLITE_IOERR_EXT d) = 10 + io_code d * 256"

abbreviation SQLITE_IOERR_READ :: rc where "SQLITE_IOERR_READ \<equiv> SQLITE_IOERR_EXT IO_READ"
abbreviation SQLITE_IOERR_SHORT_READ :: rc where "SQLITE_IOERR_SHORT_READ \<equiv> SQLITE_IOERR_EXT IO_SHORT_READ"
abbreviation SQLITE_IOERR_WRITE :: rc where "SQLITE_IOERR_WRITE \<equiv> SQLITE_IOERR_EXT IO_WRITE"
abbreviation SQLITE_IOERR_FSYNC :: rc where "SQLITE_IOERR_FSYNC \<equiv> SQLITE_IOERR_EXT IO_FSYNC"
abbreviation SQLITE_IOERR_TRUNCATE :: rc where "SQLITE_IOERR_TRUNCATE \<equiv> SQLITE_IOERR_EXT IO_TRUNCATE"
abbreviation SQLITE_IOERR_FSTAT :: rc where "SQLITE_IOERR_FSTAT \<equiv> SQLITE_IOERR_EXT IO_FSTAT"
abbreviation SQLITE_IOERR_UNLOCK :: rc where "SQLITE_IOERR_UNLOCK \<equiv> SQLITE_IOERR_EXT IO_UNLOCK"
abbreviation SQLITE_IOERR_RDLOCK :: rc where "SQLITE_IOERR_RDLOCK \<equiv> SQLITE_IOERR_EXT IO_RDLOCK"
abbreviation SQLITE_IOERR_NOMEM :: rc where "SQLITE_IOERR_NOMEM \<equiv> SQLITE_IOERR_EXT IO_NOMEM"
abbreviation SQLITE_IOERR_CHECKRESERVEDLOCK :: rc where "SQLITE_IOERR_CHECKRESERVEDLOCK \<equiv> SQLITE_IOERR_EXT IO_CHECKRESERVEDLOCK"
abbreviation SQLITE_IOERR_LOCK :: rc where "SQLITE_IOERR_LOCK \<equiv> SQLITE_IOERR_EXT IO_LOCK"
abbreviation SQLITE_IOERR_CORRUPTFS :: rc where "SQLITE_IOERR_CORRUPTFS \<equiv> SQLITE_IOERR_EXT IO_CORRUPTFS"

section \<open>Collections of rewrite rules\<close>

named_theorems byte_simps \<open>evaluation of the byte-level accessors\<close>
named_theorems wf_intros \<open>preservation of the components' invariants\<close>

section \<open>Memory allocation\<close>

text \<open>
  Whether each of the next allocations succeeds is an input of the routines that allocate: a list
  of answers, consumed one per call, with failure once it is exhausted.
\<close>

type_synonym heap_answers = "bool list"

fun next_alloc :: "heap_answers \<Rightarrow> bool \<times> heap_answers" where
  "next_alloc [] = (False, [])"
| "next_alloc (b # al) = (b, al)"

section \<open>Buffers\<close>

text \<open>
  Reading a byte of a buffer.  A read past the end is undefined behaviour in C; it gives 0 here,
  and every property that depends on a byte has the byte inside the buffer.
\<close>

definition byte_at :: "bytes \<Rightarrow> nat \<Rightarrow> u8" where
  "byte_at xs i = (if i < length xs then xs ! i else 0)"

definition subbytes :: "bytes \<Rightarrow> nat \<Rightarrow> nat \<Rightarrow> bytes" where
  "subbytes xs i n = take n (drop i xs)"

text \<open>Overwriting the bytes from offset \<open>i\<close> on (\<open>memcpy(&xs[i], ys, length ys)\<close>).\<close>

definition blit :: "bytes \<Rightarrow> nat \<Rightarrow> bytes \<Rightarrow> bytes" where
  "blit xs i ys = take i xs @ take (length xs - i) ys @ drop (i + length ys) xs"

lemma length_blit [simp]: "length (blit xs i ys) = length xs"
  by (auto simp: blit_def)

lemma nth_blit:
  assumes "k < length xs"
  shows "blit xs i ys ! k = (if i \<le> k \<and> k < i + length ys then ys ! (k - i) else xs ! k)"
  using assms by (auto simp: blit_def nth_append min_def)

lemma byte_at_blit:
  "byte_at (blit xs i ys) k =
     (if k < length xs \<and> i \<le> k \<and> k < i + length ys then ys ! (k - i) else byte_at xs k)"
  by (auto simp: byte_at_def nth_blit)

lemma blit_Nil [simp]: "blit xs i [] = xs"
  by (auto simp: blit_def)

lemma byte_at_append [byte_simps]:
  "byte_at (xs @ ys) i = (if i < length xs then byte_at xs i else byte_at ys (i - length xs))"
  by (auto simp: byte_at_def nth_append)

lemma byte_at_Cons [byte_simps]:
  "byte_at (x # xs) i = (if i = 0 then x else byte_at xs (i - 1))"
  by (auto simp: byte_at_def nth_Cons')

lemma byte_at_Nil [simp]: "byte_at [] i = 0"
  by (simp add: byte_at_def)

lemma byte_at_drop [byte_simps]: "byte_at (drop n xs) i = byte_at xs (n + i)"
  by (auto simp: byte_at_def add.commute)

lemma length_subbytes [simp]: "length (subbytes xs i n) = min n (length xs - i)"
  by (simp add: subbytes_def)

lemma subbytes_append_exact: "length xs = i \<Longrightarrow> length ys = n \<Longrightarrow> subbytes (xs @ ys @ zs) i n = ys"
  by (simp add: subbytes_def)

lemma subbytes_eq_iff:
  assumes "i + n \<le> length xs" "j + n \<le> length ys"
  shows "subbytes xs i n = subbytes ys j n \<longleftrightarrow> (\<forall>k<n. xs ! (i + k) = ys ! (j + k))"
  using assms by (auto simp: subbytes_def list_eq_iff_nth_eq)

section \<open>Wrap-around\<close>

lemma mod_nested:
  fixes a b c m :: nat
  shows "(a + b mod m + c) mod m = (a + b + c) mod m"
    and "(a + (b + c mod m)) mod m = (a + (b + c)) mod m"
    and "(a + (b + (d + c mod m))) mod m = (a + (b + (d + c))) mod m"
  by (intro mod_add_cong mod_mod_trivial refl)+

section \<open>Words\<close>

text \<open>
  An equation between words of a fixed length is a conjunction of equations between bits; over a
  concrete length the simplifier evaluates it bit by bit.
\<close>

lemma upt_8: "[0..<8] = [0, 1, 2, 3, 4, 5, 6, 7]"
  by (simp add: upt_rec)

lemma upt_32: "[0..<32] =
    [0, 1, 2, 3, 4, 5, 6, 7, 8, 9, 10, 11, 12, 13, 14, 15, 16, 17, 18, 19, 20, 21,
     22, 23, 24, 25, 26, 27, 28, 29, 30, 31]"
  by (simp add: upt_rec)

lemma upt_64: "[0..<64] =
    [0, 1, 2, 3, 4, 5, 6, 7, 8, 9, 10, 11, 12, 13, 14, 15, 16, 17, 18, 19, 20, 21,
     22, 23, 24, 25, 26, 27, 28, 29, 30, 31, 32, 33, 34, 35, 36, 37, 38, 39, 40, 41,
     42, 43, 44, 45, 46, 47, 48, 49, 50, 51, 52, 53, 54, 55, 56, 57, 58, 59, 60, 61,
     62, 63]"
  by (simp add: upt_rec)

lemma u64_eqI:
  assumes "\<forall>n\<in>set [0..<64]. bit (x :: u64) n = bit y n"
  shows "x = y"
  using assms by (intro bit_word_eqI) auto

lemma u32_eqI:
  assumes "\<forall>n\<in>set [0..<32]. bit (x :: u32) n = bit y n"
  shows "x = y"
  using assms by (intro bit_word_eqI) auto

lemma u8_eqI:
  assumes "\<forall>n\<in>set [0..<8]. bit (x :: u8) n = bit y n"
  shows "x = y"
  using assms by (intro bit_word_eqI) auto

lemma u8_bit_beyond: "8 \<le> n \<Longrightarrow> bit (x :: u8) n = False"
  using bit_imp_le_length [of x n] by auto

lemma u32_bit_beyond: "32 \<le> n \<Longrightarrow> bit (x :: u32) n = False"
  using bit_imp_le_length [of x n] by auto

lemma u64_bit_beyond: "64 \<le> n \<Longrightarrow> bit (x :: u64) n = False"
  using bit_imp_le_length [of x n] by auto

text \<open>The rules that evaluate a fixed bit of a term built from shifts, masks and casts.\<close>

lemmas bitblast_simps =
  upt_8 upt_32 upt_64 bit_simps u8_bit_beyond u32_bit_beyond u64_bit_beyond

lemma and_0x80_u8: "(x :: u8) AND 0x80 = 0 \<longleftrightarrow> \<not> bit x 7"
proof -
  have "x AND 0x80 = 0 \<longleftrightarrow> (\<forall>n\<in>set [0..<8]. \<not> bit (x AND 0x80) n)"
    by (metis u8_eqI bit_0_eq bot_apply bot_bool_def)
  then show ?thesis
    by (simp add: bitblast_simps)
qed

lemma and_0x80_u32: "(x :: u32) AND 0x80 = 0 \<longleftrightarrow> \<not> bit x 7"
proof -
  have "x AND 0x80 = 0 \<longleftrightarrow> (\<forall>n\<in>set [0..<32]. \<not> bit (x AND 0x80) n)"
    by (metis u32_eqI bit_0_eq bot_apply bot_bool_def)
  then show ?thesis
    by (simp add: bitblast_simps)
qed

lemma unat_u8_less [simp]: "unat (x :: u8) < 256"
proof -
  have "unat x < 2 ^ LENGTH(8)" by (rule unsigned_less)
  then show ?thesis by simp
qed

lemma unat_u32_less [simp]: "unat (x :: u32) < 4294967296"
proof -
  have "unat x < 2 ^ LENGTH(32)" by (rule unsigned_less)
  then show ?thesis by simp
qed

lemma unat_ucast_u32_u64 [simp]: "unat (ucast (v :: u32) :: u64) = unat v"
  using unat_u32_less [of v] by (simp add: unsigned_ucast_eq take_bit_nat_eq_self_iff del: unat_u32_less)

end
