(* ===== verification/Varint.thy ===== *)
theory Varint
  imports Prelude
begin

text \<open>
  Integer codecs of \<open>src/src/util.c\<close>, \<open>src/src/btreelite_compat.c\<close> and the macros of
  \<open>src/src/sqliteInt.h\<close> and \<open>src/src/btreeInt.h\<close>: the variable-length integers of the cell
  headers and the big-endian two and four byte integers of page headers and child pointers.

  An encoder returns the bytes it writes (the C routine writes them at \<open>p\<close> and returns their
  number); a decoder takes the buffer from \<open>p\<close> on and returns the value with the number of
  bytes read.
\<close>

section \<open>Encoding a variable-length integer\<close>

text \<open>The loop \<open>for(i=7; i>=0; i--)\<close> of the nine-byte form fills the buffer from the right.\<close>

fun put9_loop :: "nat \<Rightarrow> u64 \<Rightarrow> bytes \<Rightarrow> bytes" where
  "put9_loop 0 v acc = acc"
| "put9_loop (Suc i) v acc =
     put9_loop i (drop_bit 7 v) (ucast ((v AND 0x7f) OR 0x80) # acc)"

lemma drop_bit_7_less: "drop_bit 7 (v :: u64) \<noteq> 0 \<Longrightarrow> unat (drop_bit 7 v) < unat v"
proof -
  assume nz: "drop_bit 7 v \<noteq> 0"
  have "unat (drop_bit 7 v) = unat v div 128"
    by (simp add: drop_bit_eq_div unat_div)
  moreover have "unat v \<noteq> 0"
    using nz by (metis drop_bit_of_0 gr_zeroI unat_eq_zero bot_nat_0.not_eq_extremum)
  ultimately show ?thesis
    by simp
qed

text \<open>
  The \<open>do ... while(v)\<close> loop collects seven bits at a time, least significant first.  The loop
  ends since \<open>v\<close> gets smaller.
\<close>

function put_digits :: "u64 \<Rightarrow> bytes" where
  "put_digits v =
     ucast ((v AND 0x7f) OR 0x80) # (let v' = drop_bit 7 v in if v' = 0 then [] else put_digits v')"
  by pat_completeness auto
termination
  by (relation "measure unat") (auto simp: drop_bit_7_less)

declare put_digits.simps [simp del]

text \<open>Reversing \<open>buf[0..n-1]\<close> in place by swapping \<open>buf[i]\<close> and \<open>buf[n-1-i]\<close> for \<open>i < n/2\<close>.\<close>

fun swap_loop :: "nat \<Rightarrow> bytes \<Rightarrow> bytes" where
  "swap_loop 0 buf = buf"
| "swap_loop (Suc k) buf =
     (let i = length buf div 2 - Suc k; j = buf ! i; m = length buf - 1 - i
      in swap_loop k (buf[i := buf ! m, m := j]))"

definition putVarint64 :: "u64 \<Rightarrow> bytes" where
  "putVarint64 v =
     (if v AND push_bit 32 0xff000000 \<noteq> 0
      then put9_loop 8 (drop_bit 8 v) [ucast v]
      else
        let buf = put_digits v;
            buf = buf[0 := (buf ! 0) AND 0x7f]
        in swap_loop (length buf div 2) buf)"

definition sqlite3PutVarint :: "u64 \<Rightarrow> bytes" where
  "sqlite3PutVarint v =
     (if v \<le> 0x7f then [ucast (v AND 0x7f)]
      else if v \<le> 0x3fff then [ucast ((drop_bit 7 v AND 0x7f) OR 0x80), ucast (v AND 0x7f)]
      else putVarint64 v)"

text \<open>\<open>sqlite3PutVarint32\<close> and the macro \<open>putVarint32\<close> agree: one byte, or the general routine.\<close>

definition sqlite3PutVarint32 :: "u32 \<Rightarrow> bytes" where
  "sqlite3PutVarint32 v =
     (if v AND NOT 0x7f = 0 then [ucast v] else sqlite3PutVarint (ucast v))"

definition putVarint32 :: "u32 \<Rightarrow> bytes" where
  "putVarint32 v = (if v < 0x80 then [ucast v] else sqlite3PutVarint (ucast v))"

text \<open>\<open>sqlite3VarintLen\<close>: the loop \<open>for(i=1; (v >>= 7)!=0; i++)\<close>.\<close>

function varintLen_loop :: "nat \<Rightarrow> u64 \<Rightarrow> nat" where
  "varintLen_loop i v = (let v' = drop_bit 7 v in if v' \<noteq> 0 then varintLen_loop (Suc i) v' else i)"
  by pat_completeness auto
termination
  by (relation "measure (\<lambda>(i, v). unat v)") (auto simp: drop_bit_7_less)

declare varintLen_loop.simps [simp del]

definition sqlite3VarintLen :: "u64 \<Rightarrow> nat" where
  "sqlite3VarintLen v = varintLen_loop 1 v"

section \<open>Decoding a variable-length integer\<close>

abbreviation SLOT_2_0 :: u32 where "SLOT_2_0 \<equiv> 0x001fc07f"
abbreviation SLOT_4_2_0 :: u32 where "SLOT_4_2_0 \<equiv> 0xf01fc07f"

text \<open>A byte of the buffer read into a 32-bit variable.\<close>

abbreviation b32 :: "bytes \<Rightarrow> nat \<Rightarrow> u32" where
  "b32 p i \<equiv> ucast (byte_at p i)"

abbreviation hi_lo :: "u32 \<Rightarrow> u32 \<Rightarrow> u64" where
  "hi_lo s a \<equiv> push_bit 32 (ucast s) OR ucast a"

text \<open>
  The unrolled decoder.  Each step names the value of \<open>a\<close>, \<open>b\<close> or \<open>s\<close> after the assignments of
  the corresponding block of the C routine; the comments of the source give their meaning, for
  example \<open>a2\<close> is \<open>p0<<14 | p2 (unmasked)\<close>.
\<close>

definition sqlite3GetVarint :: "bytes \<Rightarrow> u64 \<times> nat" where
  "sqlite3GetVarint p =
     (if byte_at p 0 AND 0x80 = 0 then (ucast (byte_at p 0), 1)
      else if byte_at p 1 AND 0x80 = 0 then
        (ucast (push_bit 7 (b32 p 0 AND 0x7f) OR b32 p 1), 2)
      else
      let a = push_bit 14 (b32 p 0); b = b32 p 1; a = a OR b32 p 2 in
      if a AND 0x80 = 0 then
        (let a = a AND SLOT_2_0; b = b AND 0x7f; b = push_bit 7 b; a = a OR b in (ucast a, 3))
      else
      let a = a AND SLOT_2_0; b = push_bit 14 b; b = b OR b32 p 3 in
      if b AND 0x80 = 0 then
        (let b = b AND SLOT_2_0; a = push_bit 7 a; a = a OR b in (ucast a, 4))
      else
      let b = b AND SLOT_2_0; s = a; a = push_bit 14 a; a = a OR b32 p 4 in
      if a AND 0x80 = 0 then
        (let b = push_bit 7 b; a = a OR b; s = drop_bit 18 s in (hi_lo s a, 5))
      else
      let s = push_bit 7 s; s = s OR b; b = push_bit 14 b; b = b OR b32 p 5 in
      if b AND 0x80 = 0 then
        (let a = a AND SLOT_2_0; a = push_bit 7 a; a = a OR b; s = drop_bit 18 s
         in (hi_lo s a, 6))
      else
      let a = push_bit 14 a; a = a OR b32 p 6 in
      if a AND 0x80 = 0 then
        (let a = a AND SLOT_4_2_0; b = b AND SLOT_2_0; b = push_bit 7 b; a = a OR b;
             s = drop_bit 11 s
         in (hi_lo s a, 7))
      else
      let a = a AND SLOT_2_0; b = push_bit 14 b; b = b OR b32 p 7 in
      if b AND 0x80 = 0 then
        (let b = b AND SLOT_4_2_0; a = push_bit 7 a; a = a OR b; s = drop_bit 4 s
         in (hi_lo s a, 8))
      else
      let a = push_bit 15 a; a = a OR b32 p 8;
          b = b AND SLOT_2_0; b = push_bit 8 b; a = a OR b;
          s = push_bit 4 s; b = b32 p 4; b = b AND 0x7f; b = drop_bit 3 b; s = s OR b
      in (hi_lo s a, 9))"

definition sqlite3GetVarint32 :: "bytes \<Rightarrow> u32 \<times> nat" where
  "sqlite3GetVarint32 p =
     (if byte_at p 1 AND 0x80 = 0 then (push_bit 7 (b32 p 0 AND 0x7f) OR b32 p 1, 2)
      else if byte_at p 2 AND 0x80 = 0 then
        (push_bit 14 (b32 p 0 AND 0x7f) OR push_bit 7 (b32 p 1 AND 0x7f) OR b32 p 2, 3)
      else
        let (v64, n) = sqlite3GetVarint p
        in (if v64 AND 0xffffffff \<noteq> v64 then 0xffffffff else ucast v64, n))"

definition getVarint32 :: "bytes \<Rightarrow> u32 \<times> nat" where
  "getVarint32 p =
     (if byte_at p 0 < 0x80 then (ucast (byte_at p 0), 1) else sqlite3GetVarint32 p)"

section \<open>Big-endian integers\<close>

definition sqlite3Get4byte :: "bytes \<Rightarrow> u32" where
  "sqlite3Get4byte p =
     push_bit 24 (b32 p 0) OR push_bit 16 (b32 p 1) OR push_bit 8 (b32 p 2) OR b32 p 3"

definition sqlite3Put4byte :: "u32 \<Rightarrow> bytes" where
  "sqlite3Put4byte v =
     [ucast (drop_bit 24 v), ucast (drop_bit 16 v), ucast (drop_bit 8 v), ucast v]"

definition get2byte :: "bytes \<Rightarrow> nat" where
  "get2byte p = unat (byte_at p 0) * 256 + unat (byte_at p 1)"

definition put2byte :: "nat \<Rightarrow> bytes" where
  "put2byte v = [word_of_nat (v div 256), word_of_nat v]"

text \<open>\<open>(((((int)get2byte(X))-1)&0xffff)+1)\<close>: a stored zero stands for 65536.\<close>

definition get2byteNotZero :: "bytes \<Rightarrow> nat" where
  "get2byteNotZero p = nat ((int (get2byte p) - 1) mod 65536) + 1"

section \<open>Reference definitions\<close>

text \<open>
  The format: up to eight bytes carry seven bits each, most significant group first, with the top
  bit set on every byte but the last; a ninth byte carries eight bits.  \<open>varint_ref k acc p i\<close>
  decodes at offset \<open>i\<close> when \<open>k\<close> seven-bit bytes may still follow.
\<close>

fun varint_ref :: "nat \<Rightarrow> u64 \<Rightarrow> bytes \<Rightarrow> nat \<Rightarrow> u64 \<times> nat" where
  "varint_ref 0 acc p i = (push_bit 8 acc OR ucast (byte_at p i), i + 1)"
| "varint_ref (Suc k) acc p i =
     (if byte_at p i AND 0x80 = 0 then (push_bit 7 acc OR ucast (byte_at p i), i + 1)
      else varint_ref k (push_bit 7 acc OR ucast (byte_at p i AND 0x7f)) p (i + 1))"

text \<open>The \<open>k\<close>-th group of seven bits, with the continuation bit.\<close>

definition digit :: "u64 \<Rightarrow> nat \<Rightarrow> u8" where
  "digit v k = ucast ((drop_bit (7 * k) v AND 0x7f) OR 0x80)"

section \<open>The encoder\<close>

lemma digit_0: "digit v 0 = ucast ((v AND 0x7f) OR 0x80)"
  by (simp add: digit_def)

lemma digit_drop_bit: "digit (drop_bit 7 v) k = digit v (Suc k)"
  by (simp add: digit_def drop_bit_drop_bit add.commute)

lemma bit_7_digit: "bit (digit v k) 7"
  by (simp add: digit_def bitblast_simps)

lemma push_digit:
  "push_bit 7 (drop_bit (7 * Suc k) v) OR ucast (digit v k AND 0x7f) = drop_bit (7 * k) v"
  by (rule u64_eqI) (simp add: digit_def bitblast_simps ac_simps)

lemma push_last_digit:
  "push_bit 7 (drop_bit 7 v) OR ucast (digit v 0 AND 0x7f) = v"
  using push_digit [of 0 v] by simp

lemma map_digit_drop_bit: "map (digit (drop_bit 7 v)) [0..<n] = map (digit v) [Suc 0..<Suc n]"
proof -
  have "map (digit v) [Suc 0..<Suc n] = map (digit v) (map Suc [0..<n])"
    by (simp only: map_Suc_upt)
  then show ?thesis by (simp add: digit_drop_bit)
qed

lemma put9_loop_digits: "put9_loop n v acc = map (digit v) (rev [0..<n]) @ acc"
proof (induction n arbitrary: v acc)
  case (Suc n)
  have "rev (map (digit v) [0..<Suc n]) = rev (map (digit v) [Suc 0..<Suc n]) @ [digit v 0]"
    by (simp add: upt_conv_Cons del: upt_Suc)
  also have "\<dots> = rev (map (digit (drop_bit 7 v)) [0..<n]) @ [digit v 0]"
    by (simp only: map_digit_drop_bit)
  finally show ?case
    using Suc.IH by (simp add: digit_0 rev_map)
qed simp

lemma put_digits_map: "put_digits v = map (digit v) [0..<length (put_digits v)]"
proof (induction v rule: put_digits.induct)
  case (1 v)
  show ?case
  proof (cases "drop_bit 7 v = 0")
    case True
    then show ?thesis by (simp add: put_digits.simps [of v] digit_0)
  next
    case False
    let ?n = "length (put_digits (drop_bit 7 v))"
    have "put_digits (drop_bit 7 v) = map (digit (drop_bit 7 v)) [0..<?n]"
      using "1.IH" False by simp
    also have "\<dots> = map (digit v) [Suc 0..<Suc ?n]"
      by (rule map_digit_drop_bit)
    finally have "put_digits v = map (digit v) [0..<Suc ?n]"
      using False by (simp add: put_digits.simps [of v] digit_0 upt_conv_Cons del: upt_Suc)
    then show ?thesis
      using False by (simp add: put_digits.simps [of v])
  qed
qed

lemma put_digits_complete: "drop_bit (7 * length (put_digits v)) v = 0"
proof (induction v rule: put_digits.induct)
  case (1 v)
  then show ?case
    by (cases "drop_bit 7 v = 0") (simp_all add: put_digits.simps [of v] drop_bit_drop_bit add.commute)
qed

lemma put_digits_length_le: "drop_bit (7 * k) v = 0 \<Longrightarrow> 0 < k \<Longrightarrow> length (put_digits v) \<le> k"
proof (induction v arbitrary: k rule: put_digits.induct)
  case (1 v)
  show ?case
  proof (cases "drop_bit 7 v = 0")
    case True
    then show ?thesis using 1 by (simp add: put_digits.simps [of v])
  next
    case False
    obtain j where k: "k = Suc j" using 1 by (cases k) auto
    have "drop_bit (7 * j) (drop_bit 7 v) = 0"
      using 1 k by (simp add: drop_bit_drop_bit add.commute)
    moreover have "0 < j" using False 1 k by (cases j) auto
    ultimately have "length (put_digits (drop_bit 7 v)) \<le> j" using 1 False by simp
    then show ?thesis using False k by (simp add: put_digits.simps [of v])
  qed
qed

lemma length_put_digits_pos: "0 < length (put_digits v)"
  by (simp add: put_digits.simps [of v])

lemma length_swap_loop [simp]: "length (swap_loop k buf) = length buf"
  by (induction k buf rule: swap_loop.induct) (auto simp: Let_def)

lemma swap_loop_nth:
  assumes "k \<le> length buf div 2" "x < length buf"
  shows "swap_loop k buf ! x =
    (if length buf div 2 - k \<le> x \<and> x < length buf - (length buf div 2 - k)
     then buf ! (length buf - 1 - x) else buf ! x)"
  using assms
proof (induction k arbitrary: buf)
  case 0
  have "x < length buf - length buf div 2 \<Longrightarrow> length buf div 2 \<le> x \<Longrightarrow> length buf - Suc x = x"
    using 0 by linarith
  then show ?case by auto
next
  case (Suc k)
  define n i m where "n = length buf" and "i = n div 2 - Suc k" and "m = n - 1 - i"
  define buf' where "buf' = buf[i := buf ! m, m := buf ! i]"
  have ord: "Suc i = n div 2 - k" "i < m" "m < n" "n - 1 - m = i" "n - Suc i = m"
    using Suc.prems unfolding n_def i_def m_def by linarith+
  have len: "length buf' = n" by (simp add: buf'_def n_def)
  have step: "swap_loop (Suc k) buf = swap_loop k buf'"
    by (simp add: Let_def buf'_def m_def i_def n_def)
  have IH: "swap_loop k buf' ! x =
      (if Suc i \<le> x \<and> x < m then buf' ! (n - 1 - x) else buf' ! x)"
    using Suc.IH [of buf'] Suc.prems ord len by (simp add: n_def)
  consider "x = i" | "x = m" | "x < i" | "m < x" | "i < x" "x < m" by linarith
  then have "swap_loop k buf' ! x = (if i \<le> x \<and> x < Suc m then buf ! (n - 1 - x) else buf ! x)"
    using Suc.prems ord unfolding IH by cases (auto simp: buf'_def n_def nth_list_update)
  moreover have "n - (n div 2 - Suc k) = Suc m" using ord by (simp add: i_def [symmetric])
  ultimately show ?case unfolding step n_def i_def by simp
qed

lemma swap_loop_rev: "swap_loop (length buf div 2) buf = rev buf"
  by (rule nth_equalityI) (simp_all add: swap_loop_nth rev_nth)

lemma varint_ref_digits:
  assumes "j \<le> k" "j \<le> m" "\<forall>t<j. byte_at p (i + t) = digit v (m - 1 - t)"
  shows "varint_ref k (drop_bit (7 * m) v) p i =
    varint_ref (k - j) (drop_bit (7 * (m - j)) v) p (i + j)"
  using assms
proof (induction j arbitrary: k m i)
  case (Suc j)
  obtain k' m' where k: "k = Suc k'" and m: "m = Suc m'"
    using Suc.prems by (cases k; cases m) auto
  have b: "byte_at p i = digit v m'"
    using Suc.prems m by (auto dest: spec [of _ 0])
  have "varint_ref k (drop_bit (7 * m) v) p i = varint_ref k' (drop_bit (7 * m') v) p (Suc i)"
    unfolding k m by (simp add: b and_0x80_u8 bit_7_digit push_digit [unfolded mult_Suc_right] del: drop_bit_drop_bit)
  also have "\<dots> = varint_ref (k' - j) (drop_bit (7 * (m' - j)) v) p (Suc i + j)"
    using Suc.prems k m by (intro Suc.IH) (auto dest: spec [of _ "Suc _"])
  finally show ?case
    using k m by simp
qed simp

lemma mask_top_byte: "v AND 0xff00000000000000 = 0 \<longleftrightarrow> drop_bit 56 (v :: u64) = 0"
proof -
  have "v AND 0xff00000000000000 = 0 \<longleftrightarrow>
      (\<forall>n\<in>set [0..<64]. \<not> bit (v AND 0xff00000000000000) n)"
    by (metis u64_eqI bit_0_eq bot_apply bot_bool_def)
  moreover have "drop_bit 56 v = 0 \<longleftrightarrow> (\<forall>n\<in>set [0..<64]. \<not> bit (drop_bit 56 v) n)"
    by (metis u64_eqI bit_0_eq bot_apply bot_bool_def)
  ultimately show ?thesis
    by (simp add: bitblast_simps)
qed

lemma drop_bit_0_iff_le: "drop_bit 7 (v :: u64) = 0 \<longleftrightarrow> v \<le> 0x7f"
  "drop_bit 14 (v :: u64) = 0 \<longleftrightarrow> v \<le> 0x3fff"
  by (auto simp: drop_bit_eq_div word_le_nat_alt unat_div unat_eq_zero [symmetric] div_eq_0_iff simp del: unat_eq_0)

text \<open>The encoder: all groups but the last carry the continuation bit.\<close>

lemma put_digits_final:
  "(put_digits v)[0 := put_digits v ! 0 AND 0x7f] =
     (digit v 0 AND 0x7f) # map (digit v) [1..<length (put_digits v)]"
proof -
  have "put_digits v = digit v 0 # map (digit v) [1..<length (put_digits v)]"
    using put_digits_map [of v] length_put_digits_pos [of v]
    by (metis One_nat_def list.simps(9) upt_conv_Cons)
  then show ?thesis
    by (metis list_update_code(2) nth_Cons_0)
qed

lemma ucast_digit_0: "ucast (v AND 0x7f) = digit v 0 AND 0x7f"
  by (rule u8_eqI) (simp add: digit_def bitblast_simps)

lemma PutVarint_small:
  assumes "drop_bit 56 v = 0"
  shows "sqlite3PutVarint v =
    map (digit v) (rev [1..<length (put_digits v)]) @ [digit v 0 AND 0x7f]"
proof -
  consider (one) "v \<le> 0x7f" | (two) "\<not> v \<le> 0x7f" "v \<le> 0x3fff" | (many) "\<not> v \<le> 0x7f" "\<not> v \<le> 0x3fff"
    by blast
  then show ?thesis
  proof cases
    case one
    then have "put_digits v = [digit v 0]"
      by (simp add: put_digits.simps [of v] digit_0 drop_bit_0_iff_le)
    with one show ?thesis
      by (simp add: sqlite3PutVarint_def ucast_digit_0)
  next
    case two
    then have nz: "drop_bit 7 v \<noteq> 0" "drop_bit 7 (drop_bit 7 v) = 0"
      by (simp_all add: drop_bit_0_iff_le drop_bit_drop_bit)
    then have "length (put_digits v) = 2"
      by (simp add: put_digits.simps [of v] put_digits.simps [of "drop_bit 7 v"])
    with two show ?thesis
      by (simp add: sqlite3PutVarint_def ucast_digit_0 upt_rec) (simp add: digit_def)
  next
    case many
    have "sqlite3PutVarint v = rev ((put_digits v)[0 := put_digits v ! 0 AND 0x7f])"
      using many assms swap_loop_rev [of "(put_digits v)[0 := put_digits v ! 0 AND 0x7f]"]
      by (simp add: sqlite3PutVarint_def putVarint64_def mask_top_byte Let_def)
    then show ?thesis
      by (simp only: put_digits_final) (simp add: rev_map)
  qed
qed

lemma PutVarint_big:
  assumes "drop_bit 56 v \<noteq> 0"
  shows "sqlite3PutVarint v = map (digit (drop_bit 8 v)) (rev [0..<8]) @ [ucast v]"
proof -
  have "\<not> v \<le> 0x3fff" "\<not> v \<le> 0x7f"
    using assms drop_bit_0_iff_le [of v] by (auto simp: drop_bit_drop_bit dest: arg_cong [of _ 0 "drop_bit 42"] arg_cong [of _ 0 "drop_bit 49"])
  then show ?thesis
    using assms by (simp add: sqlite3PutVarint_def putVarint64_def mask_top_byte put9_loop_digits)
qed

lemma length_PutVarint:
  "length (sqlite3PutVarint v) = (if drop_bit 56 v = 0 then length (put_digits v) else 9)"
  using length_put_digits_pos [of v] by (simp add: PutVarint_small PutVarint_big)

lemma length_PutVarint_le: "0 < length (sqlite3PutVarint v) \<and> length (sqlite3PutVarint v) \<le> 9"
  using length_put_digits_pos [of v] put_digits_length_le [of 8 v] by (auto simp: length_PutVarint)

lemma varint_ref_PutVarint:
  "varint_ref 8 0 (sqlite3PutVarint v @ rest) 0 = (v, length (sqlite3PutVarint v))"
proof (cases "drop_bit 56 v = 0")
  case True
  define L where "L = length (put_digits v)"
  have L: "0 < L" "L \<le> 8"
    using length_put_digits_pos [of v] put_digits_length_le [of 8 v] True by (simp_all add: L_def)
  let ?p = "sqlite3PutVarint v @ rest"
  have enc: "?p = map (digit v) (rev [1..<L]) @ (digit v 0 AND 0x7f) # rest"
    using True by (simp add: PutVarint_small L_def)
  have pre: "\<forall>t<L - 1. byte_at ?p (0 + t) = digit v (L - 1 - t)"
    unfolding enc by (auto simp: byte_simps) (auto simp: byte_at_def rev_nth Suc_diff_Suc)
  have last: "byte_at ?p (L - 1) = digit v 0 AND 0x7f"
    unfolding enc by (simp add: byte_simps)
  have "varint_ref 8 0 ?p 0 = varint_ref 8 (drop_bit (7 * L) v) ?p 0"
    by (simp add: L_def put_digits_complete)
  also have "\<dots> = varint_ref (8 - (L - 1)) (drop_bit (7 * (L - (L - 1))) v) ?p (0 + (L - 1))"
    using L pre by (intro varint_ref_digits) auto
  also have "\<dots> = varint_ref (Suc (8 - L)) (drop_bit 7 v) ?p (L - 1)"
  proof -
    have "8 - (L - 1) = Suc (8 - L)" "L - (L - 1) = 1"
      using L by linarith+
    then show ?thesis by (simp only: add_0 mult_1_right)
  qed
  also have "\<dots> = (v, L)"
    using L by (simp add: last [unfolded One_nat_def] push_last_digit and_0x80_u8 bit_simps)
  finally show ?thesis
    using True by (simp add: length_PutVarint L_def)
next
  case False
  let ?p = "sqlite3PutVarint v @ rest"
  have enc: "?p = map (digit (drop_bit 8 v)) (rev [0..<8]) @ ucast v # rest"
    using False by (simp add: PutVarint_big)
  have pre: "\<forall>t<8. byte_at ?p (0 + t) = digit (drop_bit 8 v) (8 - 1 - t)"
    unfolding enc by (auto simp: byte_simps) (auto simp: byte_at_def rev_nth)
  have last: "byte_at ?p 8 = ucast v"
    unfolding enc by (simp add: byte_simps)
  have "varint_ref 8 0 ?p 0 = varint_ref 8 (drop_bit (7 * 8) (drop_bit 8 v)) ?p 0"
    by (simp add: drop_bit_drop_bit)
  also have "\<dots> = varint_ref 0 (drop_bit 8 v) ?p 8"
    using pre by (subst varint_ref_digits [where j = 8]) auto
  also have "\<dots> = (v, 9)"
    by (simp add: last, rule u64_eqI, simp add: bitblast_simps)
  finally show ?thesis
    using False by (simp add: length_PutVarint)
qed

lemma varint_ref_numeral:
  "varint_ref (numeral k) acc p i =
     (if byte_at p i AND 0x80 = 0 then (push_bit 7 acc OR ucast (byte_at p i), i + 1)
      else varint_ref (pred_numeral k) (push_bit 7 acc OR ucast (byte_at p i AND 0x7f)) p (i + 1))"
  by (simp add: numeral_eq_Suc)

lemma varint_ref_1:
  "varint_ref 1 acc p i =
     (if byte_at p i AND 0x80 = 0 then (push_bit 7 acc OR ucast (byte_at p i), i + 1)
      else varint_ref 0 (push_bit 7 acc OR ucast (byte_at p i AND 0x7f)) p (i + 1))"
  by simp

lemmas varint_ref_unfold = varint_ref_numeral varint_ref_1 varint_ref.simps(1)

lemma prod_if_cong:
  "c = c' \<Longrightarrow> (c' \<Longrightarrow> x = x') \<Longrightarrow> n = m \<Longrightarrow> (\<not> c' \<Longrightarrow> y = y') \<Longrightarrow>
   (if c then (x, n) else y) = (if c' then (x', m) else y')"
  by simp

lemma GetVarint_varint_ref: "sqlite3GetVarint p = varint_ref 8 0 p 0"
  unfolding sqlite3GetVarint_def Let_def
  apply (simp only: varint_ref_unfold and_0x80_u8 and_0x80_u32 pred_numeral_simps BitM.simps
      add_0 one_add_one numeral_plus_one semiring_norm)
  apply (rule prod_if_cong | (rule u64_eqI, simp add: bitblast_simps; fail)
      | (simp add: bitblast_simps; fail) | rule arg_cong2 [where f = Pair])+
  done

lemma u8_less_0x80: "(x :: u8) < 0x80 \<longleftrightarrow> \<not> bit x 7"
proof -
  have "x < 0x80 \<longleftrightarrow> drop_bit 7 x = 0"
    by (auto simp: drop_bit_eq_div word_less_nat_alt unat_div unat_eq_zero [symmetric]
        div_eq_0_iff simp del: unat_eq_0)
  also have "\<dots> \<longleftrightarrow> (\<forall>n\<in>set [0..<8]. \<not> bit (drop_bit 7 x) n)"
    by (metis u8_eqI bit_0_eq bot_apply bot_bool_def)
  finally show ?thesis
    by (simp add: bitblast_simps)
qed

lemma getVarint32_GetVarint:
  "getVarint32 p =
     (let (v, n) = sqlite3GetVarint p
      in (if v AND 0xffffffff \<noteq> v then 0xffffffff else ucast v, n))"
proof -
  have short: "(ucast (w :: u32) :: u64) AND 0xffffffff = ucast w" for w
    by (rule u64_eqI) (simp add: bitblast_simps)
  have short8: "(ucast (w :: u8) :: u64) AND 0xffffffff = ucast w" for w
    by (rule u64_eqI) (simp add: bitblast_simps)
  have cast: "(ucast (ucast (w :: u32) :: u64) :: u32) = w" for w
    by (rule u32_eqI) (simp add: bitblast_simps)
  have cast8: "(ucast (ucast (w :: u8) :: u64) :: u32) = ucast w" for w
    by (rule u32_eqI) (simp add: bitblast_simps)
  show ?thesis
  proof (cases "bit (byte_at p 0) 7 \<and> bit (byte_at p 1) 7")
    case False
    then show ?thesis
      by (auto simp: getVarint32_def sqlite3GetVarint32_def sqlite3GetVarint_def u8_less_0x80
          and_0x80_u8 short short8 cast cast8 Let_def)
  next
    case True
    have "push_bit 14 (b32 p 0 AND 0x7f) OR push_bit 7 (b32 p 1 AND 0x7f) OR b32 p 2 =
      (push_bit 14 (b32 p 0) OR b32 p 2) AND SLOT_2_0 OR push_bit 7 (b32 p 1 AND 0x7f)"
      if "\<not> bit (byte_at p 2) 7"
      using that by (intro u32_eqI) (auto simp: bitblast_simps)
    with True show ?thesis
      by (auto simp: getVarint32_def sqlite3GetVarint32_def sqlite3GetVarint_def u8_less_0x80
          and_0x80_u8 and_0x80_u32 bit_simps short cast Let_def)
  qed
qed

section \<open>The 32-bit entry points and the big-endian integers\<close>

lemma u32_less_0x80: "(v :: u32) < 0x80 \<longleftrightarrow> (\<forall>n\<in>set [0..<32]. 7 \<le> n \<longrightarrow> \<not> bit v n)"
proof -
  have "v < 0x80 \<longleftrightarrow> drop_bit 7 v = 0"
    by (auto simp: drop_bit_eq_div word_less_nat_alt unat_div unat_eq_zero [symmetric]
        div_eq_0_iff simp del: unat_eq_0)
  also have "\<dots> \<longleftrightarrow> (\<forall>n\<in>set [0..<32]. \<not> bit (drop_bit 7 v) n)"
    by (metis u32_eqI bit_0_eq bot_apply bot_bool_def)
  finally show ?thesis
    by (simp add: bitblast_simps)
qed

lemma putVarint32_PutVarint: "putVarint32 v = sqlite3PutVarint (ucast v)"
proof (cases "v < 0x80")
  case True
  then have "(ucast v :: u64) \<le> 0x7f"
    by (simp add: word_le_nat_alt word_less_nat_alt)
  moreover have "(ucast v :: u8) = ucast ((ucast v :: u64) AND 0x7f)"
    using True by (intro u8_eqI) (simp add: u32_less_0x80 bitblast_simps)
  ultimately show ?thesis
    using True by (simp add: putVarint32_def sqlite3PutVarint_def)
qed (simp add: putVarint32_def)

lemma sqlite3PutVarint32_eq: "sqlite3PutVarint32 v = putVarint32 v"
proof -
  have "v AND NOT 0x7f = 0 \<longleftrightarrow> (\<forall>n\<in>set [0..<32]. \<not> bit (v AND NOT 0x7f) n)"
    by (metis u32_eqI bit_0_eq bot_apply bot_bool_def)
  then have "v AND NOT 0x7f = 0 \<longleftrightarrow> v < 0x80"
    by (simp add: u32_less_0x80 bitblast_simps)
  then show ?thesis
    by (simp only: sqlite3PutVarint32_def putVarint32_def)
qed

lemma getVarint32_putVarint32:
  "getVarint32 (putVarint32 v @ rest) = (v, length (putVarint32 v))"
proof -
  have short: "(ucast v :: u64) AND 0xffffffff = ucast v"
    by (rule u64_eqI) (simp add: bitblast_simps)
  have cast: "(ucast (ucast v :: u64) :: u32) = v"
    by (rule u32_eqI) (simp add: bitblast_simps)
  show ?thesis
    by (simp add: getVarint32_GetVarint putVarint32_PutVarint GetVarint_varint_ref
        varint_ref_PutVarint short cast)
qed

lemma length_PutVarint_bound:
  assumes "unat v < 2 ^ (7 * k)" "0 < k" "k \<le> 8"
  shows "length (sqlite3PutVarint v) \<le> k"
proof -
  have 0: "drop_bit (7 * k) v = 0"
  proof -
    have "unat (drop_bit (7 * k) v) = 0"
      using assms by (simp only: unat_drop_bit_eq) (simp add: drop_bit_eq_div)
    then show ?thesis by (simp only: unat_eq_zero)
  qed
  have "drop_bit 56 v = drop_bit (56 - 7 * k) (drop_bit (7 * k) v)"
    using assms by (simp add: drop_bit_drop_bit)
  with 0 assms show ?thesis
    by (simp add: length_PutVarint put_digits_length_le)
qed

lemma length_putVarint32_bound:
  "0 < length (putVarint32 v)" "length (putVarint32 v) \<le> 5"
  "unat v < 16384 \<Longrightarrow> length (putVarint32 v) \<le> 2"
proof -
  show "0 < length (putVarint32 v)"
    using length_PutVarint_le by (simp add: putVarint32_PutVarint)
  have "unat v < 2 ^ 35"
    by (rule less_trans [OF unat_u32_less]) simp
  then show "length (putVarint32 v) \<le> 5"
    using length_PutVarint_bound [of "ucast v" 5] by (simp add: putVarint32_PutVarint)
  show "length (putVarint32 v) \<le> 2" if "unat v < 16384"
    using length_PutVarint_bound [of "ucast v" 2] that by (simp add: putVarint32_PutVarint)
qed

lemma Get4byte_Put4byte: "sqlite3Get4byte (sqlite3Put4byte v @ rest) = v"
  by (rule u32_eqI) (simp add: sqlite3Get4byte_def sqlite3Put4byte_def byte_simps bitblast_simps)

lemma get2byte_put2byte: "get2byte (put2byte v @ rest) = v mod 65536"
proof -
  have "get2byte (put2byte v @ rest) = v div 256 mod 256 * 256 + v mod 256"
    by (simp add: get2byte_def put2byte_def byte_simps unat_of_nat)
  also have "\<dots> = v mod (256 * 256)"
    by (simp only: mod_mult2_eq mult.commute)
  finally show ?thesis by simp
qed

lemma get2byte_less: "get2byte p < 65536"
  using unat_u8_less [of "byte_at p 0"] unat_u8_less [of "byte_at p 1"]
  unfolding get2byte_def by linarith

lemma get2byteNotZero_eq: "get2byteNotZero p = (if get2byte p = 0 then 65536 else get2byte p)"
  using get2byte_less [of p] by (simp add: get2byteNotZero_def nat_diff_distrib)

lemma varintLen_loop_put_digits: "varintLen_loop i v = i + length (put_digits v) - 1"
proof (induction i v rule: varintLen_loop.induct)
  case (1 i v)
  then show ?case
    using length_put_digits_pos [of "drop_bit 7 v"]
    by (cases "drop_bit 7 v = 0") (auto simp: varintLen_loop.simps [of i v] put_digits.simps [of v])
qed

lemma VarintLen_put_digits: "sqlite3VarintLen v = length (put_digits v)"
  by (simp add: sqlite3VarintLen_def varintLen_loop_put_digits)

section \<open>Properties\<close>

text \<open>
  C12: the unrolled decoder \<open>sqlite3GetVarint\<close> computes the value and the length of the reference
  decoder on every input, for each of the nine lengths.
\<close>

theorem GetVarint_correct: "sqlite3GetVarint p = varint_ref 8 0 p 0"
  by (rule GetVarint_varint_ref)

text \<open>
  C14: every 64-bit value written by \<open>sqlite3PutVarint\<close> is read back by \<open>sqlite3GetVarint\<close>, with
  the same number of bytes, whatever follows it in the buffer.
\<close>

theorem varint_roundtrip:
  "sqlite3GetVarint (sqlite3PutVarint v @ rest) = (v, length (sqlite3PutVarint v))"
  by (simp add: GetVarint_varint_ref varint_ref_PutVarint)

end
