(* ===== verification/Cell.thy ===== *)
theory Cell
  imports Varint
begin

text \<open>
  B-tree pages and KV cells (\<open>src/src/btreeInt.h\<close>, \<open>src/src/btree.c\<close>): the structures
  \<open>BtShared\<close>, \<open>MemPage\<close> and \<open>CellInfo\<close>, the page-type decoder and the two cell parsers with
  their cell-size routines.

  A pointer into a page is the offset of the byte it points at; the cell at a pointer is the buffer
  from that byte on.  The function pointers \<open>xParseCell\<close> and \<open>xCellSize\<close> of a page are chosen by
  \<open>decodeFlags\<close> together with \<open>leaf\<close>, so the model dispatches on \<open>leaf\<close>.
\<close>

section \<open>Structures\<close>

text \<open>
  The fields of \<open>BtShared\<close> the page and cell routines read.  \<open>fastSecure\<close> and \<open>secureDelete\<close> are
  the \<open>BTS_FAST_SECURE\<close> and \<open>BTS_SECURE_DELETE\<close> bits of \<open>btsFlags\<close>, \<open>cellSizeCk\<close> is the
  \<open>SQLITE_CellSizeCk\<close> bit of the connection's flags.
\<close>

record bt_shared =
  pageSize :: nat
  usableSize :: nat
  maxLeaf :: nat
  minLeaf :: nat
  nPage :: nat
  fastSecure :: bool
  secureDelete :: bool
  cellSizeCk :: bool

text \<open>The fields of \<open>MemPage\<close>.  \<open>nFree\<close> is \<open>-1\<close> while the free space is not computed.\<close>

record mempage =
  isInit :: bool
  intKey :: bool
  intKeyLeaf :: bool
  mpgno :: pgno
  leaf :: bool
  hdrOffset :: nat
  childPtrSize :: nat
  nOverflow :: nat
  maxLocal :: nat
  minLocal :: nat
  cellOffset :: nat
  nFree :: int
  nCell :: nat
  maskPage :: nat
  aiOvfl :: "nat list"
  apOvfl :: "bytes list"
  aData :: bytes

text \<open>
  \<open>CellInfo\<close>: \<open>pKey\<close> and \<open>pPayload\<close> are offsets from the start of the cell (0 for the null
  pointer an interior cell has as its payload).
\<close>

record cell_info =
  pPayload :: nat
  nPayload :: nat
  nLocal :: nat
  nSize :: nat
  pKey :: nat
  nKeyLen :: nat

section \<open>Local storage limits\<close>

text \<open>The limits \<open>lockBtree\<close> derives from the usable page size, as 16-bit values.\<close>

definition set_limits :: "bt_shared \<Rightarrow> bt_shared" where
  "set_limits pBt = pBt
     \<lparr>maxLeaf := (usableSize pBt - 35) mod 65536,
      minLeaf := ((usableSize pBt - 12) * 32 div 255 - 23) mod 65536\<rparr>"

abbreviation KV_CELL_MAX_HDR :: nat where "KV_CELL_MAX_HDR \<equiv> 5 + 2 + 255"
abbreviation KV_CELL_HDR_OVERAGE :: nat where "KV_CELL_HDR_OVERAGE \<equiv> KV_CELL_MAX_HDR - 14"

abbreviation PTF_INTKEY :: u8 where "PTF_INTKEY \<equiv> 0x01"
abbreviation PTF_LEAFDATA :: u8 where "PTF_LEAFDATA \<equiv> 0x04"
abbreviation PTF_LEAF :: u8 where "PTF_LEAF \<equiv> 0x08"

text \<open>A 16-bit subtraction, as in \<open>pPage->maxLocal = pBt->maxLeaf - KV_CELL_HDR_OVERAGE\<close>.\<close>

definition sub16 :: "nat \<Rightarrow> nat \<Rightarrow> nat" where
  "sub16 a b = (a + 65536 - b) mod 65536"

definition decodeFlags :: "bt_shared \<Rightarrow> mempage \<Rightarrow> u8 \<Rightarrow> rc \<times> mempage" where
  "decodeFlags pBt pPage flagByte =
     (if flagByte = PTF_LEAFDATA OR PTF_INTKEY OR PTF_LEAF then
        (SQLITE_OK, pPage\<lparr>childPtrSize := 0, leaf := True, intKey := True, intKeyLeaf := True,
           maxLocal := sub16 (maxLeaf pBt) KV_CELL_HDR_OVERAGE, minLocal := minLeaf pBt\<rparr>)
      else if flagByte = PTF_LEAFDATA OR PTF_INTKEY then
        (SQLITE_OK, pPage\<lparr>childPtrSize := 4, leaf := False, intKey := True, intKeyLeaf := False,
           maxLocal := maxLeaf pBt, minLocal := minLeaf pBt\<rparr>)
      else (SQLITE_CORRUPT, pPage))"

section \<open>Parsing a cell\<close>

text \<open>Unsigned 32-bit subtraction.\<close>

definition sub32 :: "nat \<Rightarrow> nat \<Rightarrow> nat" where
  "sub32 a b = (a + 2 ^ 32 - b) mod 2 ^ 32"

text \<open>
  How much of an overflowing payload stays on the page.  The same expression appears in
  \<open>btreeParseCellAdjustSizeForOverflow\<close>, \<open>kvCellSizeLeaf\<close> and \<open>fillInCell\<close>.
\<close>

definition btreeParseCellAdjustSizeForOverflow ::
    "bt_shared \<Rightarrow> mempage \<Rightarrow> cell_info \<Rightarrow> cell_info" where
  "btreeParseCellAdjustSizeForOverflow pBt pPage pInfo =
     (let surplus = minLocal pPage + sub32 (nPayload pInfo) (minLocal pPage) mod (usableSize pBt - 4);
          pInfo = (if surplus \<le> maxLocal pPage then pInfo\<lparr>nLocal := surplus mod 65536\<rparr>
                   else pInfo\<lparr>nLocal := minLocal pPage mod 65536\<rparr>)
      in pInfo\<lparr>nSize := ((pPayload pInfo + nLocal pInfo) mod 65536 + 4) mod 65536\<rparr>)"

definition kvParseCellLeaf :: "bt_shared \<Rightarrow> mempage \<Rightarrow> bytes \<Rightarrow> cell_info" where
  "kvParseCellLeaf pBt pPage pCell =
     (let (nValue, n1) = getVarint32 pCell;
          (nKey, n2) = getVarint32 (drop n1 pCell);
          pIter = n1 + n2;
          pInfo = \<lparr>pPayload = pIter + unat nKey, nPayload = unat nValue, nLocal = 0, nSize = 0,
                   pKey = pIter, nKeyLen = unat nKey\<rparr>
      in if unat nValue \<le> maxLocal pPage then
           let size = (unat nValue + (pIter + unat nKey)) mod 65536
           in pInfo\<lparr>nSize := (if size < 4 then 4 else size), nLocal := unat nValue mod 65536\<rparr>
         else btreeParseCellAdjustSizeForOverflow pBt pPage pInfo)"

definition kvParseCellInterior :: "bt_shared \<Rightarrow> mempage \<Rightarrow> bytes \<Rightarrow> cell_info" where
  "kvParseCellInterior pBt pPage pCell =
     (let (nKey, n1) = getVarint32 (drop 4 pCell)
      in \<lparr>pPayload = 0, nPayload = 0, nLocal = 0,
          nSize = (4 + n1 + unat nKey) mod 65536,
          pKey = 4 + n1, nKeyLen = unat nKey\<rparr>)"

definition xParseCell :: "bt_shared \<Rightarrow> mempage \<Rightarrow> bytes \<Rightarrow> cell_info" where
  "xParseCell pBt pPage pCell =
     (if leaf pPage then kvParseCellLeaf pBt pPage pCell else kvParseCellInterior pBt pPage pCell)"

section \<open>The size of a cell\<close>

definition kvCellSizeLeaf :: "bt_shared \<Rightarrow> mempage \<Rightarrow> bytes \<Rightarrow> nat" where
  "kvCellSizeLeaf pBt pPage pCell =
     (let (v1, n1) = getVarint32 pCell;
          (v2, n2) = getVarint32 (drop n1 pCell);
          pIter = n1 + n2 + unat v2;
          nSize = unat v1
      in if nSize \<le> maxLocal pPage then
           let nSize = (nSize + pIter) mod 2 ^ 32 in (if nSize < 4 then 4 else nSize) mod 65536
         else
           let nSize = minLocal pPage + sub32 nSize (minLocal pPage) mod (usableSize pBt - 4);
               nSize = (if nSize > maxLocal pPage then minLocal pPage else nSize)
           in (nSize + (4 + pIter mod 65536)) mod 65536)"

definition kvCellSizeInterior :: "bt_shared \<Rightarrow> mempage \<Rightarrow> bytes \<Rightarrow> nat" where
  "kvCellSizeInterior pBt pPage pCell =
     (let (v1, n1) = getVarint32 (drop 4 pCell)
      in (4 + n1 mod 65536 + unat v1 mod 65536) mod 65536)"

definition xCellSize :: "bt_shared \<Rightarrow> mempage \<Rightarrow> bytes \<Rightarrow> nat" where
  "xCellSize pBt pPage pCell =
     (if leaf pPage then kvCellSizeLeaf pBt pPage pCell else kvCellSizeInterior pBt pPage pCell)"

section \<open>Locating a cell\<close>

text \<open>The offset \<open>findCell(P,I) - P->aData\<close>, and the cell there.\<close>

definition findCell_ofst :: "mempage \<Rightarrow> nat \<Rightarrow> nat" where
  "findCell_ofst pPage i = maskPage pPage AND get2byte (drop (cellOffset pPage + 2 * i) (aData pPage))"

definition findCell :: "mempage \<Rightarrow> nat \<Rightarrow> bytes" where
  "findCell pPage i = drop (findCell_ofst pPage i) (aData pPage)"

definition btreeParseCell :: "bt_shared \<Rightarrow> mempage \<Rightarrow> nat \<Rightarrow> cell_info" where
  "btreeParseCell pBt pPage iCell = xParseCell pBt pPage (findCell pPage iCell)"

text \<open>The key bytes \<open>(pInfo->pKey, pInfo->nKeyLen)\<close> of a cell.\<close>

definition info_key :: "cell_info \<Rightarrow> bytes \<Rightarrow> bytes" where
  "info_key info pCell = subbytes pCell (pKey info) (nKeyLen info)"

text \<open>\<open>memcmp\<close> on two byte strings of the same length: the sign of the first difference.\<close>

fun memcmp :: "bytes \<Rightarrow> bytes \<Rightarrow> int" where
  "memcmp (x # xs) (y # ys) = (if x < y then -1 else if y < x then 1 else memcmp xs ys)"
| "memcmp xs ys = 0"

text \<open>Comparing the key of a cell with a search key, by \<open>memcmp\<close> with a length tie-break.\<close>

definition kvKeyCompare :: "bytes \<Rightarrow> bytes \<Rightarrow> int" where
  "kvKeyCompare cellKey k =
     (let nCmp = (if length cellKey < length k then length cellKey else length k);
          c = memcmp (take nCmp cellKey) (take nCmp k);
          c = (if c = 0 then int (length cellKey) - int (length k) else c)
      in if c < 0 then -1 else if c > 0 then 1 else 0)"

definition kvKeyCompareCell :: "bt_shared \<Rightarrow> mempage \<Rightarrow> nat \<Rightarrow> bytes \<Rightarrow> int" where
  "kvKeyCompareCell pBt pPage idx k =
     (let pCell = findCell pPage idx; info = xParseCell pBt pPage pCell
      in kvKeyCompare (info_key info pCell) k)"

section \<open>Facts\<close>

text \<open>The key order: lexicographic on bytes, a proper prefix first.\<close>

fun key_less :: "bytes \<Rightarrow> bytes \<Rightarrow> bool" where
  "key_less xs [] = False"
| "key_less [] (y # ys) = True"
| "key_less (x # xs) (y # ys) = (x < y \<or> x = y \<and> key_less xs ys)"

lemma kvKeyCompare_Cons:
  "kvKeyCompare (x # xs) (y # ys) = (if x < y then -1 else if y < x then 1 else kvKeyCompare xs ys)"
  by (auto simp: kvKeyCompare_def Let_def)

lemma kvKeyCompare_Nil:
  "kvKeyCompare [] [] = 0" "kvKeyCompare [] (y # ys) = -1" "kvKeyCompare (x # xs) [] = 1"
  by (auto simp: kvKeyCompare_def Let_def)

lemmas kvKeyCompare_simps = kvKeyCompare_Cons kvKeyCompare_Nil

lemma kvKeyCompare_spec:
  "kvKeyCompare xs ys = (if xs = ys then 0 else if key_less xs ys then -1 else 1)"
proof (induction xs ys rule: key_less.induct)
  case (1 xs)
  then show ?case by (cases xs) (auto simp: kvKeyCompare_simps)
qed (auto simp: kvKeyCompare_simps)

lemma key_less_irrefl [simp]: "\<not> key_less xs xs"
  by (induction xs) auto

lemma key_less_trans: "key_less xs ys \<Longrightarrow> key_less ys zs \<Longrightarrow> key_less xs zs"
proof (induction xs ys arbitrary: zs rule: key_less.induct)
  case (2 y ys)
  then show ?case by (cases zs) auto
next
  case (3 x xs y ys)
  then show ?case by (cases zs) auto
qed simp

lemma key_less_linear: "key_less xs ys \<or> xs = ys \<or> key_less ys xs"
proof (induction xs ys rule: key_less.induct)
  case (1 xs)
  then show ?case by (cases xs) auto
qed auto

lemma key_less_asym: "key_less xs ys \<Longrightarrow> \<not> key_less ys xs"
  using key_less_trans key_less_irrefl by blast

lemma set_limits_simps [simp]:
  "pageSize (set_limits pBt) = pageSize pBt" "usableSize (set_limits pBt) = usableSize pBt"
  by (simp_all add: set_limits_def)

text \<open>
  The header of a leaf cell as the two varints at its start.
\<close>

definition leaf_hdr :: "bytes \<Rightarrow> nat \<times> nat \<times> nat" where
  "leaf_hdr pCell =
     (let (v1, n1) = getVarint32 pCell; (v2, n2) = getVarint32 (drop n1 pCell)
      in (unat v1, unat v2, n1 + n2))"

text \<open>
  The size routines agree with the parsers.  For a leaf cell that is stored without overflow the
  routines cast to 16 bits at different points, so they agree when the cell fits in a page.
\<close>

lemma kvCellSizeLeaf_nSize:
  assumes hdr: "leaf_hdr pCell = (nValue, nKey, n)"
    and fits: "nValue \<le> maxLocal pPage \<Longrightarrow> nValue + n + nKey < 65536"
  shows "kvCellSizeLeaf pBt pPage pCell = nSize (kvParseCellLeaf pBt pPage pCell)"
proof -
  have up: "(k + (4 + p mod 65536)) mod 65536 = ((p + k mod 65536) mod 65536 + 4) mod 65536"
    for k p :: nat
    by (simp add: mod_simps mod_nested) (simp add: ac_simps)
  obtain v1 n1 v2 n2 where v: "getVarint32 pCell = (v1, n1)" "getVarint32 (drop n1 pCell) = (v2, n2)"
    by fastforce
  then have e: "nValue = unat v1" "nKey = unat v2" "n = n1 + n2"
    using hdr by (auto simp: leaf_hdr_def)
  show ?thesis
  proof (cases "unat v1 \<le> maxLocal pPage")
    case True
    with fits e have small: "unat v1 + (n1 + n2 + unat v2) < 65536" by simp
    then show ?thesis
      using True v by (simp add: kvCellSizeLeaf_def kvParseCellLeaf_def Let_def)
  next
    case False
    then show ?thesis
      using v
      by (simp add: kvCellSizeLeaf_def kvParseCellLeaf_def Let_def
          btreeParseCellAdjustSizeForOverflow_def up linorder_not_le del: mod_add_right_eq)
  qed
qed

lemma kvCellSizeInterior_nSize:
  "kvCellSizeInterior pBt pPage pCell = nSize (kvParseCellInterior pBt pPage pCell)"
  by (simp add: kvCellSizeInterior_def kvParseCellInterior_def mod_simps mod_nested split: prod.splits)

end
