(* ===== verification/Bitvec.thy ===== *)
theory Bitvec
  imports Prelude
begin

text \<open>
  The page bitmap of \<open>src/src/bitvec.c\<close>, which records the pages journalled by a transaction or
  moved to the free-list.  A bitmap of up to 3968 bits is a plain bit array; a larger one starts as
  a hash table of at most 123 values and turns into 62 sub-bitmaps when the table fills up.

  Refinement: every operation acts on the set \<open>bits p\<close> of the set bits as the abstract operation
  does, whatever representation each node has.
\<close>

section \<open>Structure\<close>

abbreviation BITVEC_USIZE :: nat where "BITVEC_USIZE \<equiv> 496"
abbreviation BITVEC_SZELEM :: nat where "BITVEC_SZELEM \<equiv> 8"
abbreviation BITVEC_NELEM :: nat where "BITVEC_NELEM \<equiv> 496"
abbreviation BITVEC_NBIT :: nat where "BITVEC_NBIT \<equiv> 3968"
abbreviation BITVEC_NINT :: nat where "BITVEC_NINT \<equiv> 124"
abbreviation BITVEC_MXHASH :: nat where "BITVEC_MXHASH \<equiv> 62"
abbreviation BITVEC_NPTR :: nat where "BITVEC_NPTR \<equiv> 62"

definition BITVEC_HASH :: "nat \<Rightarrow> nat" where
  "BITVEC_HASH x = x mod BITVEC_NINT"

text \<open>The union \<open>u\<close> of a \<open>Bitvec\<close> has one constructor per representation.\<close>

datatype bitvec = Bitvec (iSize: nat) (nSet: nat) (iDivisor: nat) (rep: bv_rep)
  and bv_rep = ABitmap bytes | AHash "nat list" | ApSub "bitvec option list"

section \<open>Operations\<close>

text \<open>The zeroed object of size \<open>n\<close>, and its allocation.\<close>

definition new_bitvec :: "nat \<Rightarrow> bitvec" where
  "new_bitvec n =
     Bitvec n 0 0 (if n \<le> BITVEC_NBIT then ABitmap (replicate BITVEC_NELEM 0)
                   else AHash (replicate BITVEC_NINT 0))"

definition sqlite3BitvecCreate :: "heap_answers \<Rightarrow> nat \<Rightarrow> bitvec option \<times> heap_answers" where
  "sqlite3BitvecCreate al n =
     (case next_alloc al of (ok, al) \<Rightarrow> (if ok then Some (new_bitvec n) else None, al))"

text \<open>
  Probing the hash table for \<open>v\<close> from slot \<open>h\<close>: the slot that holds \<open>v\<close> or the first free one.
  The first argument bounds the number of probes; after \<open>BITVEC_NINT\<close> of them every slot has been
  seen and the loop of the source would not end, which is the result \<open>None\<close>.
\<close>

fun probe :: "nat \<Rightarrow> nat list \<Rightarrow> nat \<Rightarrow> nat \<Rightarrow> nat option" where
  "probe 0 aHash h v = None"
| "probe (Suc n) aHash h v =
     (if aHash ! h = 0 \<or> aHash ! h = v then Some h
      else probe n aHash ((h + 1) mod BITVEC_NINT) v)"

text \<open>The sub-bitmap of a bin; the bins of a well-formed node are in range.\<close>

definition sub_at :: "bitvec option list \<Rightarrow> nat \<Rightarrow> bitvec option" where
  "sub_at subs bin = (if bin < length subs then subs ! bin else None)"

lemma size_sub_at [termination_simp]:
  assumes "sub_at subs bin = Some q"
  shows "size q < Suc (Suc (size_list (size_option size) subs))"
proof -
  have "Some q \<in> set subs"
    using assms by (auto simp: sub_at_def split: if_splits) (metis nth_mem)
  then have "size_option size (Some q) \<le> size_list (size_option size) subs"
    by (rule size_list_estimation') simp
  then show ?thesis by simp
qed

text \<open>The descent and the lookup of \<open>sqlite3BitvecTestNotNull\<close>, for a zero-based index.\<close>

fun bitvec_test :: "bitvec \<Rightarrow> nat \<Rightarrow> bool option" where
  "bitvec_test (Bitvec sz ns dv (ApSub subs)) i =
     (case sub_at subs (i div dv) of None \<Rightarrow> Some False | Some q \<Rightarrow> bitvec_test q (i mod dv))"
| "bitvec_test (Bitvec sz ns dv (ABitmap bm)) i =
     Some (bit (bm ! (i div BITVEC_SZELEM)) (i mod BITVEC_SZELEM))"
| "bitvec_test (Bitvec sz ns dv (AHash aHash)) i =
     map_option (\<lambda>h. aHash ! h \<noteq> 0) (probe BITVEC_NINT aHash (BITVEC_HASH i) (i + 1))"

definition sqlite3BitvecTestNotNull :: "bitvec \<Rightarrow> u32 \<Rightarrow> bool option" where
  "sqlite3BitvecTestNotNull p i =
     (let i = unat (i - 1) in if i \<ge> iSize p then Some False else bitvec_test p i)"

definition sqlite3BitvecTest :: "bitvec option \<Rightarrow> u32 \<Rightarrow> bool option" where
  "sqlite3BitvecTest p i =
     (case p of None \<Rightarrow> Some False | Some p \<Rightarrow> sqlite3BitvecTestNotNull p i)"

text \<open>
  Setting a bit.  The first argument bounds the depth of the descent and of the recursion through
  a re-hash (\<open>None\<close> when it is exceeded; \<open>bitvec_set_total\<close> shows that it never is).  \<open>i\<close> is the
  zero-based index.
\<close>

fun bitvec_set :: "nat \<Rightarrow> heap_answers \<Rightarrow> bitvec \<Rightarrow> nat \<Rightarrow> (rc \<times> heap_answers \<times> bitvec) option"
and bitvec_set_values ::
  "nat \<Rightarrow> heap_answers \<Rightarrow> bitvec \<Rightarrow> rc \<Rightarrow> nat list \<Rightarrow> (rc \<times> heap_answers \<times> bitvec) option" where
  "bitvec_set 0 al p i = None"
| "bitvec_set (Suc n) al (Bitvec sz ns dv (ApSub subs)) i =
     (case sub_at subs (i div dv) of
        None \<Rightarrow>
          (case sqlite3BitvecCreate al dv of
             (None, al) \<Rightarrow> Some (SQLITE_NOMEM, al, Bitvec sz ns dv (ApSub subs))
           | (Some q, al) \<Rightarrow>
               (case bitvec_set n al q (i mod dv) of None \<Rightarrow> None
                | Some (rc, al, q) \<Rightarrow> Some (rc, al, Bitvec sz ns dv (ApSub (subs[i div dv := Some q])))))
      | Some q \<Rightarrow>
          (case bitvec_set n al q (i mod dv) of None \<Rightarrow> None
           | Some (rc, al, q) \<Rightarrow> Some (rc, al, Bitvec sz ns dv (ApSub (subs[i div dv := Some q])))))"
| "bitvec_set (Suc n) al (Bitvec sz ns dv (ABitmap bm)) i =
     Some (SQLITE_OK, al, Bitvec sz ns dv
       (ABitmap (bm[i div BITVEC_SZELEM := bm ! (i div BITVEC_SZELEM) OR push_bit (i mod BITVEC_SZELEM) 1])))"
| "bitvec_set (Suc n) al (Bitvec sz ns dv (AHash aHash)) i =
     (case probe BITVEC_NINT aHash (BITVEC_HASH i) (i + 1) of
        None \<Rightarrow> None
      | Some h \<Rightarrow>
          if aHash ! h = i + 1 then Some (SQLITE_OK, al, Bitvec sz ns dv (AHash aHash))
          else if (h = BITVEC_HASH i \<and> ns < BITVEC_NINT - 1) \<or> ns < BITVEC_MXHASH then
            Some (SQLITE_OK, al, Bitvec sz (ns + 1) dv (AHash (aHash[h := i + 1])))
          else
            (case next_alloc al of
               (False, al) \<Rightarrow> Some (SQLITE_NOMEM, al, Bitvec sz ns dv (AHash aHash))
             | (True, al) \<Rightarrow>
                 let dv = sz div BITVEC_NPTR;
                     dv = (if sz mod BITVEC_NPTR \<noteq> 0 then dv + 1 else dv);
                     dv = (if dv < BITVEC_NBIT then BITVEC_NBIT else dv);
                     p = Bitvec sz ns dv (ApSub (replicate BITVEC_NPTR None))
                 in case bitvec_set n al p i of None \<Rightarrow> None
                    | Some (rc, al, p) \<Rightarrow> bitvec_set_values n al p rc aHash))"
| "bitvec_set_values n al p rc [] = Some (rc, al, p)"
| "bitvec_set_values n al p rc (v # vs) =
     (if v = 0 then bitvec_set_values n al p rc vs
      else case bitvec_set n al p (v - 1) of None \<Rightarrow> None
         | Some (rc', al, p) \<Rightarrow>
             bitvec_set_values n al p (if rc = SQLITE_OK then rc' else rc) vs)"

definition sqlite3BitvecSet ::
    "heap_answers \<Rightarrow> bitvec option \<Rightarrow> u32 \<Rightarrow> (rc \<times> heap_answers \<times> bitvec option) option" where
  "sqlite3BitvecSet al p i =
     (case p of None \<Rightarrow> Some (SQLITE_OK, al, None)
      | Some p \<Rightarrow> map_option (\<lambda>(rc, al, p). (rc, al, Some p)) (bitvec_set 9 al p (unat (i - 1))))"

text \<open>
  Clearing a bit rebuilds a hash table from its saved copy \<open>aiValues\<close>.
\<close>

fun clear_rehash :: "nat list \<Rightarrow> nat \<Rightarrow> nat \<Rightarrow> nat list \<Rightarrow> (nat \<times> nat list) option" where
  "clear_rehash [] i ns aHash = Some (ns, aHash)"
| "clear_rehash (v # vs) i ns aHash =
     (if v \<noteq> 0 \<and> v \<noteq> i + 1 then
        case probe BITVEC_NINT aHash (BITVEC_HASH (v - 1)) 0 of None \<Rightarrow> None
        | Some h \<Rightarrow> clear_rehash vs i (ns + 1) (aHash[h := v])
      else clear_rehash vs i ns aHash)"

fun bitvec_clear :: "bitvec \<Rightarrow> nat \<Rightarrow> bitvec option" where
  "bitvec_clear (Bitvec sz ns dv (ApSub subs)) i =
     (case sub_at subs (i div dv) of
        None \<Rightarrow> Some (Bitvec sz ns dv (ApSub subs))
      | Some q \<Rightarrow> (case bitvec_clear q (i mod dv) of None \<Rightarrow> None
          | Some q \<Rightarrow> Some (Bitvec sz ns dv (ApSub (subs[i div dv := Some q])))))"
| "bitvec_clear (Bitvec sz ns dv (ABitmap bm)) i =
     Some (Bitvec sz ns dv (ABitmap (bm[i div BITVEC_SZELEM :=
       bm ! (i div BITVEC_SZELEM) AND NOT (push_bit (i mod BITVEC_SZELEM) 1)])))"
| "bitvec_clear (Bitvec sz ns dv (AHash aHash)) i =
     (case clear_rehash aHash i 0 (replicate BITVEC_NINT 0) of None \<Rightarrow> None
      | Some (ns, aHash) \<Rightarrow> Some (Bitvec sz ns dv (AHash aHash)))"

definition sqlite3BitvecClear :: "bitvec option \<Rightarrow> u32 \<Rightarrow> bitvec option option" where
  "sqlite3BitvecClear p i =
     (case p of None \<Rightarrow> Some None | Some p \<Rightarrow> map_option Some (bitvec_clear p (unat (i - 1))))"

definition sqlite3BitvecSize :: "bitvec \<Rightarrow> nat" where
  "sqlite3BitvecSize p = iSize p"

section \<open>Abstraction and invariant\<close>

text \<open>The set bits, zero-based.\<close>

fun bv_mem :: "bitvec \<Rightarrow> nat \<Rightarrow> bool" where
  "bv_mem (Bitvec sz ns dv (ApSub subs)) i =
     (case sub_at subs (i div dv) of None \<Rightarrow> False | Some q \<Rightarrow> bv_mem q (i mod dv))"
| "bv_mem (Bitvec sz ns dv (ABitmap bm)) i =
     (i < BITVEC_SZELEM * length bm \<and> bit (bm ! (i div BITVEC_SZELEM)) (i mod BITVEC_SZELEM))"
| "bv_mem (Bitvec sz ns dv (AHash aHash)) i = (i + 1 \<in> set aHash)"

definition divisor :: "nat \<Rightarrow> nat" where
  "divisor sz =
     (let dv = sz div BITVEC_NPTR;
          dv = (if sz mod BITVEC_NPTR \<noteq> 0 then dv + 1 else dv)
      in if dv < BITVEC_NBIT then BITVEC_NBIT else dv)"

text \<open>Every stored value can be reached from its hash slot without crossing a free slot.\<close>

definition reach :: "nat list \<Rightarrow> nat \<Rightarrow> nat \<Rightarrow> bool" where
  "reach a h s \<longleftrightarrow> (\<exists>t<BITVEC_NINT. s = (h + t) mod BITVEC_NINT \<and>
     (\<forall>u<t. a ! ((h + u) mod BITVEC_NINT) \<noteq> 0))"

definition used :: "nat list \<Rightarrow> nat set" where
  "used a = {s. s < BITVEC_NINT \<and> a ! s \<noteq> 0}"

definition hash_ok :: "nat list \<Rightarrow> bool" where
  "hash_ok a \<longleftrightarrow> length a = BITVEC_NINT \<and> card (used a) < BITVEC_NINT \<and>
     (\<forall>s<BITVEC_NINT. a ! s \<noteq> 0 \<longrightarrow> reach a (BITVEC_HASH (a ! s - 1)) s) \<and>
     (\<forall>s<BITVEC_NINT. \<forall>s'<BITVEC_NINT. a ! s = a ! s' \<longrightarrow> a ! s \<noteq> 0 \<longrightarrow> s = s')"

fun bv_ok :: "bitvec \<Rightarrow> bool" where
  "bv_ok (Bitvec sz ns dv (ApSub subs)) \<longleftrightarrow>
     BITVEC_NBIT < sz \<and> dv = divisor sz \<and> length subs = BITVEC_NPTR \<and>
     list_all (\<lambda>q. case q of None \<Rightarrow> True | Some q \<Rightarrow> iSize q = dv \<and> bv_ok q) subs"
| "bv_ok (Bitvec sz ns dv (ABitmap bm)) \<longleftrightarrow> sz \<le> BITVEC_NBIT \<and> dv = 0 \<and> length bm = BITVEC_NELEM"
| "bv_ok (Bitvec sz ns dv (AHash a)) \<longleftrightarrow>
     BITVEC_NBIT < sz \<and> dv = 0 \<and> hash_ok a \<and> ns = card (used a) \<and> (\<forall>v\<in>set a. v \<le> sz)"

section \<open>Probing\<close>

lemma probe_Some:
  assumes "probe n a h v = Some s"
  shows "\<exists>t<n. s = (if t = 0 then h else (h + t) mod BITVEC_NINT) \<and> (a ! s = 0 \<or> a ! s = v) \<and>
    (\<forall>u<t. a ! (if u = 0 then h else (h + u) mod BITVEC_NINT) \<noteq> 0 \<and>
       a ! (if u = 0 then h else (h + u) mod BITVEC_NINT) \<noteq> v)"
  using assms
proof (induction n arbitrary: h)
  case (Suc n)
  show ?case
  proof (cases "a ! h = 0 \<or> a ! h = v")
    case True
    with Suc.prems show ?thesis by (auto intro!: exI [of _ 0])
  next
    case False
    let ?h = "(h + 1) mod BITVEC_NINT"
    have s: "(if u = 0 then ?h else (?h + u) mod BITVEC_NINT) = (h + Suc u) mod BITVEC_NINT" for u
      by (simp add: mod_simps)
    from False Suc.prems have "probe n a ?h v = Some s" by simp
    from Suc.IH [OF this] obtain t where t: "t < n" "s = (h + Suc t) mod BITVEC_NINT"
      "a ! s = 0 \<or> a ! s = v" "\<forall>u<t. a ! ((h + Suc u) mod BITVEC_NINT) \<noteq> 0 \<and> a ! ((h + Suc u) mod BITVEC_NINT) \<noteq> v"
      unfolding s by blast
    have "\<forall>u<Suc t. a ! (if u = 0 then h else (h + u) mod BITVEC_NINT) \<noteq> 0 \<and>
        a ! (if u = 0 then h else (h + u) mod BITVEC_NINT) \<noteq> v"
      using t(4) False by (auto simp: less_Suc_eq_0_disj)
    with t(1-3) show ?thesis by (intro exI [of _ "Suc t"]) auto
  qed
qed simp

lemma probe_total:
  assumes "t < n" "a ! ((h + t) mod BITVEC_NINT) = 0" "h < BITVEC_NINT"
  shows "probe n a h v \<noteq> None"
  using assms
proof (induction n arbitrary: h t)
  case (Suc n)
  show ?case
  proof (cases t)
    case 0
    with Suc.prems show ?thesis by simp
  next
    case (Suc t')
    with Suc.prems have "probe n a ((h + 1) mod BITVEC_NINT) v \<noteq> None"
      by (intro Suc.IH [of t']) (auto simp: mod_simps)
    then show ?thesis by simp
  qed
qed simp

lemma finite_used [simp]: "finite (used a)"
  by (simp add: used_def)

lemma BITVEC_HASH_less [simp]: "BITVEC_HASH v < BITVEC_NINT"
  by (simp add: BITVEC_HASH_def)

lemma hash_free_slot:
  assumes "hash_ok a"
  obtains s where "s < BITVEC_NINT" "a ! s = 0"
proof -
  have "used a \<noteq> {..<BITVEC_NINT}"
    using assms by (auto simp: hash_ok_def)
  then show thesis
    using that by (auto simp: used_def)
qed

lemma hash_probe:
  assumes ok: "hash_ok a" and h: "h < BITVEC_NINT"
  obtains s t where "probe BITVEC_NINT a h v = Some s" "s < BITVEC_NINT" "t < BITVEC_NINT"
    "s = (h + t) mod BITVEC_NINT" "a ! s = 0 \<or> a ! s = v"
    "\<forall>u<t. a ! ((h + u) mod BITVEC_NINT) \<noteq> 0 \<and> a ! ((h + u) mod BITVEC_NINT) \<noteq> v"
proof -
  obtain s0 where s0: "s0 < BITVEC_NINT" "a ! s0 = 0"
    using ok by (rule hash_free_slot)
  have "(h + (s0 + BITVEC_NINT - h) mod BITVEC_NINT) mod BITVEC_NINT = s0"
    using h s0 by (simp add: mod_simps)
  then have "probe BITVEC_NINT a h v \<noteq> None"
    using s0 h by (intro probe_total [where t = "(s0 + BITVEC_NINT - h) mod BITVEC_NINT"]) auto
  then obtain s where s: "probe BITVEC_NINT a h v = Some s" by blast
  have norm: "(if u = 0 then h else (h + u) mod BITVEC_NINT) = (h + u) mod BITVEC_NINT" for u
    using h by simp
  show thesis
    using probe_Some [OF s] that s unfolding norm by fastforce
qed

lemma hash_lookup:
  assumes ok: "hash_ok a" and v: "0 < v" and p: "probe BITVEC_NINT a (BITVEC_HASH (v - 1)) v = Some s"
  shows "a ! s \<noteq> 0 \<longleftrightarrow> v \<in> set a"
proof -
  let ?h = "BITVEC_HASH (v - 1)"
  have h: "?h < BITVEC_NINT" by (simp add: BITVEC_HASH_def)
  obtain s1 t where 1: "probe BITVEC_NINT a ?h v = Some s1"
    and t1: "s1 < BITVEC_NINT" "t < BITVEC_NINT" "s1 = (?h + t) mod BITVEC_NINT" "a ! s1 = 0 \<or> a ! s1 = v"
    "\<forall>u<t. a ! ((?h + u) mod BITVEC_NINT) \<noteq> 0 \<and> a ! ((?h + u) mod BITVEC_NINT) \<noteq> v"
    by (rule hash_probe [OF ok h])
  have "s1 = s" using 1 p by simp
  note t = t1 [unfolded this]
  have len: "length a = BITVEC_NINT" using ok by (simp add: hash_ok_def)
  show ?thesis
  proof
    assume "a ! s \<noteq> 0"
    with t(1,4) len show "v \<in> set a" by (metis nth_mem)
  next
    assume "v \<in> set a"
    then obtain s' where s': "s' < BITVEC_NINT" "a ! s' = v"
      using len by (metis in_set_conv_nth)
    with ok v obtain t' where t': "s' = (?h + t') mod BITVEC_NINT"
      "\<forall>u<t'. a ! ((?h + u) mod BITVEC_NINT) \<noteq> 0"
      unfolding hash_ok_def reach_def by (metis not_gr_zero)
    consider "t < t'" | "t = t'" | "t' < t" by linarith
    then show "a ! s \<noteq> 0"
      using t t' s' v by cases auto
  qed
qed

lemma hash_insert:
  assumes ok: "hash_ok a" and s: "s < BITVEC_NINT" "a ! s = 0" and r: "reach a (BITVEC_HASH (v - 1)) s"
    and v: "0 < v" "v \<notin> set a" and room: "card (used a) + 1 < BITVEC_NINT"
  shows "hash_ok (a[s := v])" "card (used (a[s := v])) = card (used a) + 1"
    "set (a[s := v]) - {0} = insert v (set a - {0})"
proof -
  have len: "length a = BITVEC_NINT" using ok by (simp add: hash_ok_def)
  have u: "used (a[s := v]) = insert s (used a)"
    using s v len by (auto simp: used_def nth_list_update)
  have "s \<notin> used a" using s by (simp add: used_def)
  with u show card: "card (used (a[s := v])) = card (used a) + 1" by simp
  have keep: "a ! x \<noteq> 0 \<Longrightarrow> a[s := v] ! x \<noteq> 0" for x
    using v s len by (cases "x = s") auto
  have mono: "reach a h x \<Longrightarrow> reach (a[s := v]) h x" for h x
    using keep unfolding reach_def by blast
  have v_slot: "a ! x \<noteq> v" if "x < BITVEC_NINT" for x
    using that v len by (metis nth_mem)
  show "hash_ok (a[s := v])"
    unfolding hash_ok_def
  proof (intro conjI allI impI)
    show "length (a[s := v]) = BITVEC_NINT" using len by simp
    show "card (used (a[s := v])) < BITVEC_NINT" using card room by simp
  next
    fix x assume "x < BITVEC_NINT" "a[s := v] ! x \<noteq> 0"
    then show "reach (a[s := v]) (BITVEC_HASH (a[s := v] ! x - 1)) x"
      using ok mono r len by (cases "x = s") (auto simp: hash_ok_def)
  next
    fix x y assume "x < BITVEC_NINT" "y < BITVEC_NINT" "a[s := v] ! x = a[s := v] ! y" "a[s := v] ! x \<noteq> 0"
    then show "x = y"
      using ok len s v_slot [of x] v_slot [of y]
      by (cases "x = s"; cases "y = s") (auto simp: hash_ok_def)
  qed
  have "x \<in> set (a[s := v])" if x: "x \<in> set a" "x \<noteq> 0" for x
  proof -
    obtain j where "j < length a" "a ! j = x" using x(1) by (metis in_set_conv_nth)
    then have "a[s := v] ! j = x" "j < length (a[s := v])" using x(2) s by (cases "j = s"; auto)+
    then show ?thesis by (metis nth_mem)
  qed
  moreover have "v \<in> set (a[s := v])" using s len by (simp add: set_update_memI)
  ultimately show "set (a[s := v]) - {0} = insert v (set a - {0})"
    using v set_update_subset_insert [of a s v] by auto
qed

lemma used_empty [simp]: "used (replicate BITVEC_NINT 0) = {}"
  by (auto simp: used_def)

lemma hash_ok_empty [simp]: "hash_ok (replicate BITVEC_NINT 0)"
  by (simp add: hash_ok_def)

lemma divisor_bounds:
  assumes "BITVEC_NBIT < sz"
  shows "BITVEC_NBIT \<le> divisor sz" "divisor sz < sz" "sz \<le> divisor sz * BITVEC_NPTR" "0 < divisor sz"
  using assms by (auto simp: divisor_def Let_def)

lemma divisor_pow:
  assumes "sz \<le> BITVEC_NBIT * BITVEC_NPTR ^ Suc k"
  shows "divisor sz \<le> BITVEC_NBIT * BITVEC_NPTR ^ k"
proof -
  define m where "m = BITVEC_NBIT * BITVEC_NPTR ^ k"
  have m: "BITVEC_NBIT \<le> m" "sz \<le> m * BITVEC_NPTR"
    using assms by (simp_all add: m_def)
  from m(2) have "sz div BITVEC_NPTR \<le> m"
    using div_le_mono [of sz "m * BITVEC_NPTR" BITVEC_NPTR] by simp
  moreover have "sz div BITVEC_NPTR < m" if "sz mod BITVEC_NPTR \<noteq> 0"
  proof -
    have "sz \<noteq> m * BITVEC_NPTR" using that by auto
    with m(2) have "sz < m * BITVEC_NPTR" by simp
    then show ?thesis by (rule less_mult_imp_div_less)
  qed
  ultimately show ?thesis
    using m(1) unfolding m_def [symmetric] by (auto simp: divisor_def Let_def)
qed

lemma same_bin: "(j :: nat) div d = i div d \<Longrightarrow> j mod d = i mod d \<longleftrightarrow> j = i"
  by (metis div_mult_mod_eq)

lemma sub_at_ok:
  assumes "bv_ok (Bitvec sz ns dv (ApSub subs))" "sub_at subs b = Some q"
  shows "bv_ok q" "iSize q = dv" "b < length subs"
  using assms by (auto simp: sub_at_def list_all_length split: if_splits dest: spec)

lemma bin_in_range:
  assumes "bv_ok (Bitvec sz ns dv (ApSub subs))" "i < sz"
  shows "i div dv < length subs" "i mod dv < dv" "0 < dv"
proof -
  have d: "0 < dv" "sz \<le> dv * BITVEC_NPTR" using assms divisor_bounds [of sz] by auto
  have "i div dv < BITVEC_NPTR"
    using d assms(2) by (auto simp: less_mult_imp_div_less mult.commute)
  with assms d show "i div dv < length subs" "i mod dv < dv" "0 < dv" by auto
qed

section \<open>Correctness of the operations\<close>

lemma bitvec_test_correct:
  "bv_ok p \<Longrightarrow> i < iSize p \<Longrightarrow> bitvec_test p i = Some (bv_mem p i)"
proof (induction p i rule: bitvec_test.induct)
  case (1 sz ns dv subs i)
  note ok = "1.prems"(1)
  show ?case
  proof (cases "sub_at subs (i div dv)")
    case (Some q)
    have "i mod dv < iSize q" "bv_ok q"
      using bin_in_range(2) [OF ok] sub_at_ok [OF ok Some] "1.prems"(2) by simp_all
    then show ?thesis using "1.IH" [OF Some] Some by simp
  qed simp
next
  case (2 sz ns dv bm i)
  then show ?case by auto
next
  case (3 sz ns dv a i)
  then have ok: "hash_ok a" by simp
  obtain s t where s: "probe BITVEC_NINT a (BITVEC_HASH i) (i + 1) = Some s"
    by (rule hash_probe [OF ok BITVEC_HASH_less])
  then show ?case
    using hash_lookup [OF ok, of "i + 1" s] by simp
qed

definition bits :: "bitvec \<Rightarrow> nat set" where
  "bits p = {i. i < iSize p \<and> bv_mem p i}"

fun is_ApSub :: "bitvec \<Rightarrow> bool" where
  "is_ApSub (Bitvec sz ns dv (ApSub subs)) = True"
| "is_ApSub p = False"

text \<open>Fuel \<open>n\<close> is enough for a node whose size is at most \<open>3968 * 62 ^ k\<close>.\<close>

definition fuel_ok :: "nat \<Rightarrow> nat \<Rightarrow> bitvec \<Rightarrow> bool" where
  "fuel_ok n k p \<longleftrightarrow> iSize p \<le> BITVEC_NBIT * BITVEC_NPTR ^ k \<and> (if is_ApSub p then 2 * k else 2 * k + 1) \<le> n"

text \<open>What setting bit \<open>i\<close> does to a node.\<close>

definition set_post :: "bitvec \<Rightarrow> nat set \<Rightarrow> rc \<times> heap_answers \<times> bitvec \<Rightarrow> bool" where
  "set_post p new r \<longleftrightarrow> (case r of (rc, al, p') \<Rightarrow>
     bv_ok p' \<and> iSize p' = iSize p \<and> (is_ApSub p \<longrightarrow> is_ApSub p') \<and>
     (rc = SQLITE_OK \<or> rc = SQLITE_NOMEM) \<and> bits p' \<subseteq> bits p \<union> new \<and>
     (rc = SQLITE_OK \<longrightarrow> bits p' = bits p \<union> new))"

lemma new_bitvec_simps [simp]:
  "bv_ok (new_bitvec n)" "iSize (new_bitvec n) = n" "bits (new_bitvec n) = {}" "\<not> is_ApSub (new_bitvec n)"
  by (auto simp: new_bitvec_def bits_def)

lemma bits_ApSub:
  assumes "bv_ok (Bitvec sz ns dv (ApSub subs))"
  shows "i \<in> bits (Bitvec sz ns dv (ApSub subs)) \<longleftrightarrow>
    i < sz \<and> (\<exists>q. sub_at subs (i div dv) = Some q \<and> i mod dv \<in> bits q)"
  using assms bin_in_range [of sz ns dv subs i] sub_at_ok [OF assms]
  by (auto simp: bits_def split: option.splits)

text \<open>Replacing the sub-bitmap of one bin.\<close>

lemma set_post_sub:
  assumes ok: "bv_ok (Bitvec sz ns dv (ApSub subs))" and i: "i < sz"
    and old: "B = (case sub_at subs (i div dv) of None \<Rightarrow> {} | Some q \<Rightarrow> bits q)"
    and q: "bv_ok q" "iSize q = dv" "bits q \<subseteq> B \<union> {i mod dv}" "rc = SQLITE_OK \<Longrightarrow> bits q = B \<union> {i mod dv}"
    and rc: "rc = SQLITE_OK \<or> rc = SQLITE_NOMEM"
  shows "set_post (Bitvec sz ns dv (ApSub subs)) {i}
    (rc, al, Bitvec sz ns dv (ApSub (subs[i div dv := Some q])))"
proof -
  let ?p = "Bitvec sz ns dv (ApSub subs)" and ?p' = "Bitvec sz ns dv (ApSub (subs[i div dv := Some q]))"
  note r = bin_in_range [OF ok i]
  have ok': "bv_ok ?p'"
    using ok q r by (auto simp: list_all_length nth_list_update split: option.splits)
  have at: "sub_at (subs[i div dv := Some q]) b = (if b = i div dv then Some q else sub_at subs b)" for b
    using r by (auto simp: sub_at_def)
  note same = same_bin [where d = dv]
  have mem: "j \<in> bits ?p' \<longleftrightarrow> (if j div dv = i div dv then j < sz \<and> j mod dv \<in> bits q else j \<in> bits ?p)" for j
    by (auto simp: bits_ApSub [OF ok'] bits_ApSub [OF ok] at)
  have memp: "j \<in> bits ?p \<longleftrightarrow> j < sz \<and> j mod dv \<in> B" if "j div dv = i div dv" for j
    using that by (auto simp: bits_ApSub [OF ok] old split: option.splits)
  have "bits ?p' \<subseteq> bits ?p \<union> {i}"
    using q(3) same memp by (auto simp: mem split: if_splits)
  moreover have "bits ?p' = bits ?p \<union> {i}" if "rc = SQLITE_OK"
    using q(4) [OF that] same memp i by (auto simp: mem split: if_splits)
  ultimately show ?thesis
    using ok' rc unfolding set_post_def by (simp del: bv_ok.simps)
qed


lemma set_post_trans:
  assumes "set_post p A (rc, al, p1)" "set_post p1 B (rc', al', p2)"
  shows "set_post p (A \<union> B) (if rc = SQLITE_OK then rc' else rc, al', p2)"
  using assms by (auto simp: set_post_def)

definition set_ok :: "nat \<Rightarrow> bool" where
  "set_ok n \<longleftrightarrow> (\<forall>al p i k. bv_ok p \<longrightarrow> i < iSize p \<longrightarrow> fuel_ok n k p \<longrightarrow>
     (\<exists>r. bitvec_set n al p i = Some r \<and> set_post p {i} r))"

lemma bitvec_set_values_post:
  assumes n: "set_ok n" and acc: "set_post p0 A (rc, al, p)"
    and p0: "is_ApSub p0" "fuel_ok n k p0" and vs: "\<forall>v\<in>set vs. v \<le> iSize p0"
  shows "\<exists>r. bitvec_set_values n al p rc vs = Some r \<and> set_post p0 (A \<union> {i. i + 1 \<in> set vs}) r"
  using acc vs
proof (induction vs arbitrary: A rc al p)
  case (Cons v vs)
  show ?case
  proof (cases v)
    case 0
    then have "{i. i + 1 \<in> set (v # vs)} = {i. i + 1 \<in> set vs}" by auto
    with 0 Cons show ?thesis by simp
  next
    case (Suc i)
    have p: "bv_ok p" "iSize p = iSize p0" "is_ApSub p"
      using Cons.prems(1) p0(1) by (auto simp: set_post_def)
    with p0 have "fuel_ok n k p" by (simp add: fuel_ok_def)
    moreover have "i < iSize p" using Cons.prems(2) Suc p by auto
    ultimately obtain rc' al' p' where set: "bitvec_set n al p i = Some (rc', al', p')"
      and post: "set_post p {i} (rc', al', p')"
      using n p(1) unfolding set_ok_def by (metis prod_cases3)
    from Cons.IH [OF set_post_trans [OF Cons.prems(1) post]] Cons.prems(2)
    obtain r where "bitvec_set_values n al' p' (if rc = SQLITE_OK then rc' else rc) vs = Some r"
      "set_post p0 (A \<union> {i} \<union> {i. i + 1 \<in> set vs}) r"
      by auto
    moreover have "A \<union> {i} \<union> {i. i + 1 \<in> set vs} = A \<union> {i. i + 1 \<in> set (v # vs)}"
      using Suc by auto
    ultimately show ?thesis using set Suc by simp
  qed
qed simp

lemma set_post_refl: "bv_ok p \<Longrightarrow> set_post p {i} (SQLITE_NOMEM, al, p)"
  by (auto simp: set_post_def)

lemma bitvec_set_sub:
  assumes n: "set_ok n" and ok: "bv_ok (Bitvec sz ns dv (ApSub subs))" and i: "i < sz"
    and fuel: "fuel_ok (Suc n) k (Bitvec sz ns dv (ApSub subs))"
  shows "\<exists>r. bitvec_set (Suc n) al (Bitvec sz ns dv (ApSub subs)) i = Some r \<and>
    set_post (Bitvec sz ns dv (ApSub subs)) {i} r"
proof -
  have sz: "BITVEC_NBIT < sz" "dv = divisor sz" using ok by auto
  obtain k' where k: "k = Suc k'" using fuel sz(1) by (cases k) (auto simp: fuel_ok_def)
  then have dvk: "dv \<le> BITVEC_NBIT * BITVEC_NPTR ^ k'" "2 * k' + 1 \<le> n"
    using divisor_pow [of sz k'] fuel sz by (auto simp: fuel_ok_def)
  have sub: "\<exists>rc al' q'. bitvec_set n al q (i mod dv) = Some (rc, al', q') \<and> set_post q {i mod dv} (rc, al', q')"
    if "bv_ok q" "iSize q = dv" for q al
  proof -
    have "fuel_ok n k' q" using dvk that by (auto simp: fuel_ok_def)
    then show ?thesis
      using n that bin_in_range(2) [OF ok i] unfolding set_ok_def by (metis prod_cases3)
  qed
  show ?thesis
  proof (cases "sub_at subs (i div dv)")
    case None
    show ?thesis
    proof (cases "sqlite3BitvecCreate al dv")
      case (Pair q al')
      show ?thesis
      proof (cases q)
        case None
        with Pair \<open>sub_at subs (i div dv) = None\<close> show ?thesis using set_post_refl [OF ok] by simp
      next
        case (Some q')
        have q': "q' = new_bitvec dv"
          using Pair Some by (auto simp: sqlite3BitvecCreate_def split: prod.splits if_splits)
        obtain rc al2 q2 where "bitvec_set n al' q' (i mod dv) = Some (rc, al2, q2)"
          "set_post q' {i mod dv} (rc, al2, q2)"
          using sub [of q' al'] q' by auto
        moreover from this(2) have "set_post (Bitvec sz ns dv (ApSub subs)) {i}
            (rc, al2, Bitvec sz ns dv (ApSub (subs[i div dv := Some q2])))"
          by (intro set_post_sub [OF ok i refl]) (auto simp: set_post_def None q')
        ultimately show ?thesis using Pair Some None by simp
      qed
    qed
  next
    case (Some q)
    obtain rc al2 q2 where "bitvec_set n al q (i mod dv) = Some (rc, al2, q2)"
      "set_post q {i mod dv} (rc, al2, q2)"
      using sub [of q al] sub_at_ok [OF ok Some] by auto
    moreover from this(2) have "set_post (Bitvec sz ns dv (ApSub subs)) {i}
        (rc, al2, Bitvec sz ns dv (ApSub (subs[i div dv := Some q2])))"
      using sub_at_ok [OF ok Some]
      by (intro set_post_sub [OF ok i refl]) (auto simp: set_post_def Some)
    ultimately show ?thesis using Some by simp
  qed
qed

text \<open>The bits of a plain bit array and of a hash table.\<close>

lemma bits_AHash:
  assumes "bv_ok (Bitvec sz ns dv (AHash a))"
  shows "bits (Bitvec sz ns dv (AHash a)) = {i. i + 1 \<in> set a}"
  using assms by (auto simp: bits_def)

lemma or_bit:
  assumes "i < BITVEC_SZELEM * length bm"
  shows "bit (bm[i div BITVEC_SZELEM := bm ! (i div BITVEC_SZELEM) OR push_bit (i mod BITVEC_SZELEM) (1 :: u8)]
      ! (j div BITVEC_SZELEM)) (j mod BITVEC_SZELEM)
    \<longleftrightarrow> j = i \<or> bit (bm ! (j div BITVEC_SZELEM)) (j mod BITVEC_SZELEM)"
proof (cases "j div BITVEC_SZELEM = i div BITVEC_SZELEM")
  case True
  then have "j = i \<longleftrightarrow> j mod BITVEC_SZELEM = i mod BITVEC_SZELEM" by (metis same_bin)
  moreover have "i div BITVEC_SZELEM < length bm" using assms by simp
  ultimately show ?thesis using True by (auto simp: bit_simps)
qed auto

lemma bitvec_set_bitmap:
  assumes "bv_ok (Bitvec sz ns dv (ABitmap bm))" "i < sz"
  shows "\<exists>r. bitvec_set (Suc n) al (Bitvec sz ns dv (ABitmap bm)) i = Some r \<and>
    set_post (Bitvec sz ns dv (ABitmap bm)) {i} r"
proof -
  have "i < BITVEC_SZELEM * length bm" using assms by simp
  from or_bit [OF this] assms show ?thesis
    by (auto simp: set_post_def bits_def)
qed

lemma reach_hash_probe:
  assumes ok: "hash_ok a" and p: "probe BITVEC_NINT a h v = Some s" and h: "h < BITVEC_NINT"
  shows "reach a h s" "s < BITVEC_NINT" "a ! s = 0 \<or> a ! s = v"
proof -
  obtain s1 t where 1: "probe BITVEC_NINT a h v = Some s1"
    and t: "s1 < BITVEC_NINT" "t < BITVEC_NINT" "s1 = (h + t) mod BITVEC_NINT" "a ! s1 = 0 \<or> a ! s1 = v"
    "\<forall>u<t. a ! ((h + u) mod BITVEC_NINT) \<noteq> 0 \<and> a ! ((h + u) mod BITVEC_NINT) \<noteq> v"
    by (rule hash_probe [OF ok h])
  with p have "s1 = s" by simp
  with t show "reach a h s" "s < BITVEC_NINT" "a ! s = 0 \<or> a ! s = v"
    by (auto simp: reach_def)
qed

lemma bitvec_set_hash:
  assumes n: "set_ok n" and ok: "bv_ok (Bitvec sz ns dv (AHash a))" and i: "i < sz"
    and fuel: "fuel_ok (Suc n) k (Bitvec sz ns dv (AHash a))"
  shows "\<exists>r. bitvec_set (Suc n) al (Bitvec sz ns dv (AHash a)) i = Some r \<and>
    set_post (Bitvec sz ns dv (AHash a)) {i} r"
proof -
  let ?p = "Bitvec sz ns dv (AHash a)"
  have h: "hash_ok a" "ns = card (used a)" "BITVEC_NBIT < sz" "dv = 0" and le: "\<forall>v\<in>set a. v \<le> sz"
    using ok by auto
  obtain s t where s: "probe BITVEC_NINT a (BITVEC_HASH i) (i + 1) = Some s"
    by (rule hash_probe [OF h(1) BITVEC_HASH_less])
  note s' = reach_hash_probe [OF h(1) s BITVEC_HASH_less]
  have new: "a ! s = i + 1 \<longleftrightarrow> i + 1 \<in> set a"
    using hash_lookup [OF h(1), of "i + 1" s] s s'(3) by auto
  consider (found) "a ! s = i + 1" | (insert) "a ! s \<noteq> i + 1" "ns + 1 < BITVEC_NINT"
      "(s = BITVEC_HASH i \<and> ns < BITVEC_NINT - 1) \<or> ns < BITVEC_MXHASH"
    | (rehash) "a ! s \<noteq> i + 1" "\<not> ((s = BITVEC_HASH i \<and> ns < BITVEC_NINT - 1) \<or> ns < BITVEC_MXHASH)"
    by fastforce
  then show ?thesis
  proof cases
    case found
    then have "i \<in> bits ?p" using new by (simp add: bits_AHash [OF ok])
    then show ?thesis using s found ok by (auto simp: set_post_def)
  next
    case insert
    let ?p' = "Bitvec sz (ns + 1) dv (AHash (a[s := i + 1]))"
    have a: "a ! s = 0" "i + 1 \<notin> set a" using insert new s'(3) by auto
    note ins = hash_insert [OF h(1) s'(2) a(1) _ _ a(2)]
    have ok': "bv_ok ?p'"
      using ins s'(1) h insert i le set_update_subset_insert [of a s "i + 1"] by auto
    have "set (a[s := i + 1]) - {0} = Set.insert (i + 1) (set a - {0})"
      using ins(3) s'(1) insert h by simp
    then have "bits ?p' = bits ?p \<union> {i}"
      unfolding bits_AHash [OF ok'] bits_AHash [OF ok] by auto
    with ok' show ?thesis using s insert by (simp add: set_post_def del: bv_ok.simps)
  next
    case rehash
    show ?thesis
    proof (cases "next_alloc al")
      case (Pair b al')
      show ?thesis
      proof (cases b)
        case False
        with Pair show ?thesis using rehash s set_post_refl [OF ok] by auto
      next
        case True
        let ?q = "Bitvec sz ns (divisor sz) (ApSub (replicate BITVEC_NPTR None))"
        have q: "bv_ok ?q" using h by (simp add: list_all_length)
        have empty: "bits ?q = {}"
          by (auto simp: bits_ApSub [OF q] sub_at_def split: if_splits)
        have fq: "fuel_ok n k ?q" using fuel by (auto simp: fuel_ok_def)
        obtain rc al2 q2 where 1: "bitvec_set n al' ?q i = Some (rc, al2, q2)"
          and post: "set_post ?q {i} (rc, al2, q2)"
          using n q fq i unfolding set_ok_def by (metis prod_cases3 bitvec.sel(1))
        obtain r where 2: "bitvec_set_values n al2 q2 rc a = Some r"
          and r: "set_post ?q ({i} \<union> {i. i + 1 \<in> set a}) r"
          using bitvec_set_values_post [OF n post _ fq, of a] le by auto
        have "set_post ?p {i} r"
          using r unfolding set_post_def empty bits_AHash [OF ok] by (auto split: prod.splits)
        moreover have "bitvec_set (Suc n) al ?p i = Some r"
          using 1 2 Pair True rehash s by (auto simp: divisor_def Let_def)
        ultimately show ?thesis by blast
      qed
    qed
  qed
qed

lemma set_ok_all: "set_ok n"
proof (induction n)
  case 0
  show ?case
    unfolding set_ok_def
  proof (intro allI impI)
    fix al p i k assume "bv_ok p" "i < iSize p" "fuel_ok 0 k p"
    then show "\<exists>r. bitvec_set 0 al p i = Some r \<and> set_post p {i} r"
      by (cases p rule: is_ApSub.cases) (auto simp: fuel_ok_def)
  qed
next
  case (Suc n)
  show ?case
    unfolding set_ok_def
  proof (intro allI impI)
    fix al p i k assume "bv_ok p" "i < iSize p" "fuel_ok (Suc n) k p"
    then show "\<exists>r. bitvec_set (Suc n) al p i = Some r \<and> set_post p {i} r"
      using bitvec_set_sub [OF Suc] bitvec_set_bitmap bitvec_set_hash [OF Suc]
      by (cases p rule: is_ApSub.cases) (simp_all del: bv_ok.simps bitvec_set.simps)
  qed
qed

lemma bitvec_set_total:
  assumes "bv_ok p" "i < iSize p" "iSize p < 2 ^ 32"
  shows "\<exists>r. bitvec_set 9 al p i = Some r \<and> set_post p {i} r"
proof -
  have "fuel_ok 9 4 p" using assms(3) by (simp add: fuel_ok_def)
  with set_ok_all [of 9] assms show ?thesis unfolding set_ok_def by blast
qed


lemma hash_values:
  assumes "hash_ok a"
  shows "distinct (filter (\<lambda>v. v \<noteq> 0) a)" "length (filter (\<lambda>v. v \<noteq> 0) a) = card (used a)"
proof -
  have len: "length a = BITVEC_NINT" using assms by (simp add: hash_ok_def)
  show l: "length (filter (\<lambda>v. v \<noteq> 0) a) = card (used a)"
    using len by (simp add: length_filter_conv_card used_def)
  have "set (filter (\<lambda>v. v \<noteq> 0) a) = (!) a ` used a"
    using len by (auto simp: used_def in_set_conv_nth)
  moreover have "inj_on ((!) a) (used a)"
    using assms by (auto simp: inj_on_def used_def hash_ok_def)
  ultimately show "distinct (filter (\<lambda>v. v \<noteq> 0) a)"
    using l by (intro card_distinct) (simp add: card_image)
qed

lemma clear_rehash_correct:
  assumes "hash_ok a" "ns = card (used a)" "distinct (filter (\<lambda>v. v \<noteq> 0) vs)"
    "set a \<inter> set (filter (\<lambda>v. v \<noteq> 0) vs) = {}" "ns + length (filter (\<lambda>v. v \<noteq> 0) vs) < BITVEC_NINT"
  shows "\<exists>ns' a'. clear_rehash vs i ns a = Some (ns', a') \<and> hash_ok a' \<and> ns' = card (used a') \<and>
    set a' - {0} = (set a \<union> (set vs - {i + 1})) - {0}"
  using assms
proof (induction vs arbitrary: ns a)
  case (Cons v vs)
  show ?case
  proof (cases "v \<noteq> 0 \<and> v \<noteq> i + 1")
    case True
    let ?h = "BITVEC_HASH (v - 1)"
    obtain s t where s: "probe BITVEC_NINT a ?h 0 = Some s"
      by (rule hash_probe [OF Cons.prems(1) BITVEC_HASH_less])
    note s' = reach_hash_probe [OF Cons.prems(1) s BITVEC_HASH_less]
    have a: "a ! s = 0" "v \<notin> set a" "0 < v" "card (used a) + 1 < BITVEC_NINT"
      using s'(3) Cons.prems True by auto
    note ins = hash_insert [OF Cons.prems(1) s'(2) a(1) s'(1) a(3,2,4)]
    have "set (a[s := v]) \<inter> set (filter (\<lambda>v. v \<noteq> 0) vs) = {}"
    proof -
      have "set (a[s := v]) \<inter> set (filter (\<lambda>v. v \<noteq> 0) vs) =
          (set (a[s := v]) - {0}) \<inter> set (filter (\<lambda>v. v \<noteq> 0) vs)" by auto
      then show ?thesis using Cons.prems(3,4) True unfolding ins(3) by auto
    qed
    then obtain ns' a' where r: "clear_rehash vs i (ns + 1) (a[s := v]) = Some (ns', a')" "hash_ok a'"
      "ns' = card (used a')" "set a' - {0} = (set (a[s := v]) \<union> (set vs - {i + 1})) - {0}"
      using Cons.IH [OF ins(1)] ins(2) Cons.prems True by fastforce
    have "set a' - {0} = (set (a[s := v]) - {0}) \<union> (set vs - {i + 1, 0})" using r(4) by auto
    also have "\<dots> = (set a \<union> (set (v # vs) - {i + 1})) - {0}" using ins(3) True by auto
    finally show ?thesis using r s True by simp
  next
    case False
    have "\<exists>ns' a'. clear_rehash vs i ns a = Some (ns', a') \<and> hash_ok a' \<and> ns' = card (used a') \<and>
        set a' - {0} = (set a \<union> (set vs - {i + 1})) - {0}"
      using Cons.prems by (intro Cons.IH) (auto split: if_splits)
    moreover have "(set a \<union> (set vs - {i + 1})) - {0} = (set a \<union> (set (v # vs) - {i + 1})) - {0}"
      using False by auto
    ultimately show ?thesis using False by auto
  qed
qed simp

lemma clear_bit:
  assumes "i < BITVEC_SZELEM * length bm"
  shows "bit (bm[i div BITVEC_SZELEM := bm ! (i div BITVEC_SZELEM) AND NOT (push_bit (i mod BITVEC_SZELEM) (1 :: u8))]
      ! (j div BITVEC_SZELEM)) (j mod BITVEC_SZELEM)
    \<longleftrightarrow> j \<noteq> i \<and> bit (bm ! (j div BITVEC_SZELEM)) (j mod BITVEC_SZELEM)"
proof (cases "j div BITVEC_SZELEM = i div BITVEC_SZELEM")
  case True
  then have "j = i \<longleftrightarrow> j mod BITVEC_SZELEM = i mod BITVEC_SZELEM" by (metis same_bin)
  moreover have "i div BITVEC_SZELEM < length bm" using assms by simp
  ultimately show ?thesis using True by (auto simp: bit_simps)
qed auto

lemma bitvec_clear_correct:
  assumes "bv_ok p" "i < iSize p"
  shows "\<exists>p'. bitvec_clear p i = Some p' \<and> bv_ok p' \<and> iSize p' = iSize p \<and> bits p' = bits p - {i}"
  using assms
proof (induction p i rule: bitvec_clear.induct)
  case (1 sz ns dv subs i)
  note ok = "1.prems"(1)
  have i: "i < sz" using "1.prems"(2) by simp
  let ?p = "Bitvec sz ns dv (ApSub subs)"
  show ?case
  proof (cases "sub_at subs (i div dv)")
    case None
    then have "i \<notin> bits ?p" by (simp add: bits_ApSub [OF ok])
    with None ok show ?thesis by auto
  next
    case (Some q)
    note q = sub_at_ok [OF ok Some] and r = bin_in_range [OF ok i]
    obtain q' where q': "bitvec_clear q (i mod dv) = Some q'" "bv_ok q'" "iSize q' = dv"
      "bits q' = bits q - {i mod dv}"
      using "1.IH" [OF Some] q r by auto
    let ?p' = "Bitvec sz ns dv (ApSub (subs[i div dv := Some q']))"
    have ok': "bv_ok ?p'"
      using ok q' r by (auto simp: list_all_length nth_list_update split: option.splits)
    have at: "sub_at (subs[i div dv := Some q']) b = (if b = i div dv then Some q' else sub_at subs b)" for b
      using r by (auto simp: sub_at_def)
    have "j \<in> bits ?p' \<longleftrightarrow> j \<in> bits ?p - {i}" for j
      using same_bin [of j dv i] q'(4) Some
      by (cases "j div dv = i div dv") (auto simp: bits_ApSub [OF ok'] bits_ApSub [OF ok] at)
    then have "bits ?p' = bits ?p - {i}" by blast
    with ok' q' Some show ?thesis by (simp del: bv_ok.simps)
  qed
next
  case (2 sz ns dv bm i)
  then have "i < BITVEC_SZELEM * length bm" by simp
  from clear_bit [OF this] 2 show ?case by (auto simp: bits_def)
next
  case (3 sz ns dv a i)
  note ok = "3.prems"(1)
  have h: "hash_ok a" using ok by simp
  have c: "card (used a) < BITVEC_NINT" using h by (simp add: hash_ok_def)
  obtain ns' a' where r: "clear_rehash a i 0 (replicate BITVEC_NINT 0) = Some (ns', a')" "hash_ok a'"
    "ns' = card (used a')" "set a' - {0} = (set (replicate BITVEC_NINT 0) \<union> (set a - {i + 1})) - {0}"
    using clear_rehash_correct [OF hash_ok_empty, of 0 a i] hash_values [OF h] c by auto
  have s: "set a' - {0} = set a - {i + 1, 0}" unfolding r(4) by auto
  let ?p' = "Bitvec sz ns' dv (AHash a')"
  have "v \<le> sz" if "v \<in> set a'" for v
    using that s ok by (cases "v = 0") auto
  with ok r have ok': "bv_ok ?p'" by auto
  have "j + 1 \<in> set a' \<longleftrightarrow> j + 1 \<in> set a' - {0}" for j by simp
  then have "bits ?p' = bits (Bitvec sz ns dv (AHash a)) - {i}"
    unfolding bits_AHash [OF ok'] bits_AHash [OF ok] s by auto
  with ok' r show ?case by (simp del: bv_ok.simps)
qed


section \<open>The interface: a set of page numbers\<close>

datatype page_op = SetPage u32 | ClearPage u32

text \<open>The calls a client may make: page numbers from 1 to the size of the bitmap.\<close>

fun op_ok :: "nat \<Rightarrow> page_op \<Rightarrow> bool" where
  "op_ok sz (SetPage i) = (0 < i \<and> unat i \<le> sz)"
| "op_ok sz (ClearPage i) = (0 < i \<and> unat i \<le> sz)"

fun apply_op :: "page_op \<Rightarrow> pgno set \<Rightarrow> pgno set" where
  "apply_op (SetPage i) S = insert (unat i) S"
| "apply_op (ClearPage i) S = S - {unat i}"

text \<open>
  What a client relies on: \<open>pages p\<close> is the set of recorded pages, \<open>test\<close> decides membership, a
  successful \<open>set\<close> adds one page, a failed one adds nothing else, \<open>clear\<close> removes one page and never
  fails, and all of them return.
\<close>

locale page_set =
  fixes ok :: "'p \<Rightarrow> bool" and size_of :: "'p \<Rightarrow> nat" and pages :: "'p \<Rightarrow> pgno set"
    and test :: "'p \<Rightarrow> u32 \<Rightarrow> bool option"
    and set_page :: "heap_answers \<Rightarrow> 'p \<Rightarrow> u32 \<Rightarrow> (rc \<times> heap_answers \<times> 'p) option"
    and clear_page :: "'p \<Rightarrow> u32 \<Rightarrow> 'p option"
  assumes test_law: "ok p \<Longrightarrow> 0 < i \<Longrightarrow> test p i = Some (unat i \<in> pages p)"
    and set_law: "ok p \<Longrightarrow> 0 < i \<Longrightarrow> unat i \<le> size_of p \<Longrightarrow>
      \<exists>rc al' p'. set_page al p i = Some (rc, al', p') \<and> ok p' \<and> size_of p' = size_of p \<and>
        (rc = SQLITE_OK \<and> pages p' = insert (unat i) (pages p) \<or>
         rc = SQLITE_NOMEM \<and> pages p' \<subseteq> insert (unat i) (pages p))"
    and clear_law: "ok p \<Longrightarrow> 0 < i \<Longrightarrow> unat i \<le> size_of p \<Longrightarrow>
      \<exists>p'. clear_page p i = Some p' \<and> ok p' \<and> size_of p' = size_of p \<and> pages p' = pages p - {unat i}"
begin

fun run :: "heap_answers \<Rightarrow> 'p \<Rightarrow> page_op list \<Rightarrow> (rc \<times> 'p) option" where
  "run al p [] = Some (SQLITE_OK, p)"
| "run al p (SetPage i # ops) =
     (case set_page al p i of None \<Rightarrow> None
      | Some (rc, al, p) \<Rightarrow> if rc = SQLITE_OK then run al p ops else Some (rc, p))"
| "run al p (ClearPage i # ops) =
     (case clear_page p i of None \<Rightarrow> None | Some p \<Rightarrow> run al p ops)"

text \<open>A sequence of calls that succeeds leaves the pages the abstract operations leave.\<close>

lemma run_refines:
  assumes "ok p" "list_all (op_ok (size_of p)) ops"
  shows "\<exists>rc p'. run al p ops = Some (rc, p') \<and> ok p' \<and> size_of p' = size_of p \<and>
    (rc = SQLITE_OK \<longrightarrow> pages p' = fold apply_op ops (pages p)) \<and> (rc = SQLITE_OK \<or> rc = SQLITE_NOMEM)"
  using assms
proof (induction ops arbitrary: al p)
  case (Cons op ops)
  show ?case
  proof (cases op)
    case (SetPage i)
    from Cons.prems SetPage obtain rc al' p' where
      s: "set_page al p i = Some (rc, al', p')" "ok p'" "size_of p' = size_of p"
        "rc = SQLITE_OK \<and> pages p' = insert (unat i) (pages p) \<or> rc = SQLITE_NOMEM"
      using set_law [of p i al] by fastforce
    with Cons.IH [of p' al'] Cons.prems SetPage show ?thesis by auto
  next
    case (ClearPage i)
    from Cons.prems ClearPage obtain p' where
      "clear_page p i = Some p'" "ok p'" "size_of p' = size_of p" "pages p' = pages p - {unat i}"
      using clear_law [of p i] by auto
    with Cons.IH [of p' al] Cons.prems ClearPage show ?thesis by auto
  qed
qed simp

end

section \<open>The bitmap provides the interface\<close>

definition bitvec_wf :: "bitvec \<Rightarrow> bool" where
  "bitvec_wf p \<longleftrightarrow> bv_ok p \<and> iSize p < 2 ^ 32"

definition bitvec_pages :: "bitvec \<Rightarrow> pgno set" where
  "bitvec_pages p = Suc ` bits p"

definition bitvec_set_page :: "heap_answers \<Rightarrow> bitvec \<Rightarrow> u32 \<Rightarrow> (rc \<times> heap_answers \<times> bitvec) option" where
  "bitvec_set_page al p i =
     (case sqlite3BitvecSet al (Some p) i of Some (rc, al, Some p) \<Rightarrow> Some (rc, al, p) | _ \<Rightarrow> None)"

definition bitvec_clear_page :: "bitvec \<Rightarrow> u32 \<Rightarrow> bitvec option" where
  "bitvec_clear_page p i = (case sqlite3BitvecClear (Some p) i of Some (Some p) \<Rightarrow> Some p | _ \<Rightarrow> None)"

lemma unat_pred: "0 < i \<Longrightarrow> unat (i - 1 :: u32) = unat i - 1"
  by (rule unat_minus_one) auto

lemma unat_pos: "0 < i \<Longrightarrow> 0 < unat (i :: u32)"
  by (simp add: word_less_nat_alt)

lemma Suc_image_pages:
  assumes "0 < (i :: u32)"
  shows "unat i \<in> Suc ` S \<longleftrightarrow> unat i - 1 \<in> S" "Suc ` (S - {unat i - 1}) = Suc ` S - {unat i}"
proof -
  obtain m where m: "unat i = Suc m" using unat_pos [OF assms] by (auto simp: gr0_conv_Suc)
  show "unat i \<in> Suc ` S \<longleftrightarrow> unat i - 1 \<in> S" "Suc ` (S - {unat i - 1}) = Suc ` S - {unat i}"
    unfolding m by auto
qed

interpretation bv: page_set bitvec_wf iSize bitvec_pages
  "\<lambda>p i. sqlite3BitvecTest (Some p) i" bitvec_set_page bitvec_clear_page
proof
  fix p i assume p: "bitvec_wf p" and i: "0 < (i :: u32)"
  show "sqlite3BitvecTest (Some p) i = Some (unat i \<in> bitvec_pages p)"
    using p bitvec_test_correct [of p "unat i - 1"]
    by (auto simp: sqlite3BitvecTest_def sqlite3BitvecTestNotNull_def Let_def unat_pred [OF i]
        bitvec_pages_def Suc_image_pages [OF i] bitvec_wf_def bits_def)
next
  fix p i al assume p: "bitvec_wf p" and i: "0 < (i :: u32)" "unat i \<le> iSize p"
  have "unat i - 1 < iSize p" using i unat_pos by fastforce
  then obtain rc al' p' where r: "bitvec_set 9 al p (unat i - 1) = Some (rc, al', p')"
    "set_post p {unat i - 1} (rc, al', p')"
    using bitvec_set_total p unfolding bitvec_wf_def by (metis prod_cases3)
  have img: "Suc ` (S \<union> {unat i - 1}) = insert (unat i) (Suc ` S)" for S
    using unat_pos [OF i(1)] by auto
  have "bits p' \<subseteq> bits p \<union> {unat i - 1} \<Longrightarrow> Suc ` bits p' \<subseteq> insert (unat i) (Suc ` bits p)"
    unfolding img [symmetric] by (rule image_mono)
  with r p show "\<exists>rc al' p'. bitvec_set_page al p i = Some (rc, al', p') \<and> bitvec_wf p' \<and> iSize p' = iSize p \<and>
        (rc = SQLITE_OK \<and> bitvec_pages p' = insert (unat i) (bitvec_pages p) \<or>
         rc = SQLITE_NOMEM \<and> bitvec_pages p' \<subseteq> insert (unat i) (bitvec_pages p))"
    by (auto simp: bitvec_set_page_def sqlite3BitvecSet_def unat_pred [OF i(1)] bitvec_wf_def
        bitvec_pages_def set_post_def img [symmetric] simp del: image_Un image_insert)
next
  fix p i assume p: "bitvec_wf p" and i: "0 < (i :: u32)" "unat i \<le> iSize p"
  have "unat i - 1 < iSize p" using i unat_pos by fastforce
  then obtain p' where r: "bitvec_clear p (unat i - 1) = Some p'" "bv_ok p'" "iSize p' = iSize p"
    "bits p' = bits p - {unat i - 1}"
    using bitvec_clear_correct p unfolding bitvec_wf_def by blast
  then show "\<exists>p'. bitvec_clear_page p i = Some p' \<and> bitvec_wf p' \<and> iSize p' = iSize p \<and>
      bitvec_pages p' = bitvec_pages p - {unat i}"
    using p by (simp add: bitvec_clear_page_def sqlite3BitvecClear_def unat_pred [OF i(1)]
        bitvec_wf_def bitvec_pages_def Suc_image_pages(2) [OF i(1), simplified])
qed

lemma new_bitvec_wf [simp]: "n < 2 ^ 32 \<Longrightarrow> bitvec_wf (new_bitvec n)"
  by (simp add: bitvec_wf_def)

lemma new_bitvec_pages [simp]: "bitvec_pages (new_bitvec n) = {}"
  by (simp add: bitvec_pages_def)

section \<open>Failures\<close>

text \<open>A failure is due to an allocation that failed or to the exhausted heap.\<close>

definition heap_use :: "heap_answers \<Rightarrow> rc \<Rightarrow> heap_answers \<Rightarrow> bool" where
  "heap_use al rc al' \<longleftrightarrow> set al' \<subseteq> set al \<and> (al = [] \<longrightarrow> al' = []) \<and>
     (rc \<noteq> SQLITE_OK \<longrightarrow> False \<in> set al \<or> al' = [])"

lemma heap_use_refl [simp]: "heap_use al SQLITE_OK al"
  by (simp add: heap_use_def)

lemma heap_use_trans:
  "heap_use a rc b \<Longrightarrow> heap_use b rc' c \<Longrightarrow> heap_use a (if rc = SQLITE_OK then rc' else rc) c"
  "heap_use a SQLITE_OK b \<Longrightarrow> heap_use b rc' c \<Longrightarrow> heap_use a rc' c"
  by (auto simp: heap_use_def)

lemma next_alloc_heap:
  "next_alloc al = (b, al') \<Longrightarrow> heap_use al SQLITE_OK al'"
  "next_alloc al = (False, al') \<Longrightarrow> heap_use al rc al'"
  by (cases al; auto simp: heap_use_def)+

lemma BitvecCreate_heap:
  "sqlite3BitvecCreate al n = (p, al') \<Longrightarrow> heap_use al SQLITE_OK al'"
  "sqlite3BitvecCreate al n = (None, al') \<Longrightarrow> heap_use al rc al'"
  using next_alloc_heap [of al]
  by (auto simp: sqlite3BitvecCreate_def split: prod.splits if_splits)

definition set_heap_ok :: "nat \<Rightarrow> bool" where
  "set_heap_ok n \<longleftrightarrow> (\<forall>al p i rc al' p'. bitvec_set n al p i = Some (rc, al', p') \<longrightarrow> heap_use al rc al')"

lemma bitvec_set_values_heap:
  assumes "set_heap_ok n"
  shows "bitvec_set_values n al p rc0 vs = Some (rc, al', p') \<Longrightarrow>
    heap_use al0 rc0 al \<Longrightarrow> heap_use al0 rc al'"
proof (induction vs arbitrary: al p rc0)
  case (Cons v vs)
  show ?case
  proof (cases "v = 0")
    case False
    then obtain rc1 al1 p1 where 1: "bitvec_set n al p (v - 1) = Some (rc1, al1, p1)"
      "bitvec_set_values n al1 p1 (if rc0 = SQLITE_OK then rc1 else rc0) vs = Some (rc, al', p')"
      using Cons.prems(1) by (auto split: option.splits)
    from 1(1) assms have "heap_use al rc1 al1" unfolding set_heap_ok_def by blast
    from Cons.IH [OF 1(2)] heap_use_trans(1) [OF Cons.prems(2) this] show ?thesis by simp
  qed (use Cons in simp)
qed simp

lemma bitvec_cases:
  obtains (sub) sz ns dv subs where "p = Bitvec sz ns dv (ApSub subs)"
  | (bitmap) sz ns dv bm where "p = Bitvec sz ns dv (ABitmap bm)"
  | (hash) sz ns dv a where "p = Bitvec sz ns dv (AHash a)"
  by (cases p rule: is_ApSub.cases)

lemma bitvec_set_rehash:
  assumes r: "bitvec_set (Suc n) al (Bitvec sz ns dv (AHash a)) i = Some (rc, al', p')"
    and no: "\<not> (rc = SQLITE_OK \<and> al' = al)"
  obtains (fail) "next_alloc al = (False, al')"
  | (ok) al1 rc1 al2 q p1 where "next_alloc al = (True, al1)" "bitvec_set n al1 q i = Some (rc1, al2, p1)"
      "bitvec_set_values n al2 p1 rc1 a = Some (rc, al', p')"
  using assms by (auto simp: Let_def split: option.splits if_splits prod.splits bool.splits)

lemma set_heap_ok_all: "set_heap_ok n"
proof (induction n)
  case (Suc n)
  show ?case
    unfolding set_heap_ok_def
  proof (intro allI impI)
    fix al p i rc al' p'
    assume r: "bitvec_set (Suc n) al p i = Some (rc, al', p')"
    show "heap_use al rc al'"
    proof (cases p rule: bitvec_cases)
      case (sub sz ns dv subs)
      show ?thesis
      proof (cases "sub_at subs (i div dv)")
        case None
        obtain q al1 where c: "sqlite3BitvecCreate al dv = (q, al1)" by fastforce
        show ?thesis
        proof (cases q)
          case (Some q')
          then obtain q2 where "bitvec_set n al1 q' (i mod dv) = Some (rc, al', q2)"
            using None r sub c by (auto split: option.splits)
          then have "heap_use al1 rc al'" using Suc unfolding set_heap_ok_def by blast
          with BitvecCreate_heap(1) [OF c] show ?thesis by (rule heap_use_trans(2))
        qed (use None r sub c BitvecCreate_heap(2) in auto)
      next
        case (Some q)
        then obtain q2 where "bitvec_set n al q (i mod dv) = Some (rc, al', q2)"
          using r sub by (auto split: option.splits)
        then show ?thesis using Suc unfolding set_heap_ok_def by blast
      qed
    next
      case (bitmap sz ns dv bm)
      with r show ?thesis by simp
    next
      case (hash sz ns dv a)
      show ?thesis
      proof (cases "rc = SQLITE_OK \<and> al' = al")
        case False
        from r [unfolded hash] False show ?thesis
        proof (cases rule: bitvec_set_rehash)
          case fail
          then show ?thesis by (rule next_alloc_heap(2))
        next
          case (ok al1 rc1 al2 q p1)
          then have "heap_use al1 rc1 al2" using Suc unfolding set_heap_ok_def by blast
          with bitvec_set_values_heap [OF Suc ok(3)] have "heap_use al1 rc al'" by blast
          with next_alloc_heap(1) [OF ok(1)] show ?thesis by (rule heap_use_trans(2))
        qed
      qed simp
    qed
  qed
qed (simp add: set_heap_ok_def)

text \<open>
  A sequence of set and clear calls on a bitmap: the calls are those of the source, and the first one
  that fails ends the sequence.
\<close>

fun run_ops :: "heap_answers \<Rightarrow> bitvec \<Rightarrow> page_op list \<Rightarrow> (rc \<times> bitvec) option" where
  "run_ops al p [] = Some (SQLITE_OK, p)"
| "run_ops al p (SetPage i # ops) =
     (case bitvec_set_page al p i of None \<Rightarrow> None
      | Some (rc, al, p) \<Rightarrow> if rc = SQLITE_OK then run_ops al p ops else Some (rc, p))"
| "run_ops al p (ClearPage i # ops) =
     (case bitvec_clear_page p i of None \<Rightarrow> None | Some p \<Rightarrow> run_ops al p ops)"

lemma run_ops_run: "run_ops al p ops = bv.run al p ops"
  by (induction al p ops rule: run_ops.induct) (auto split: option.splits)

section \<open>Properties\<close>

text \<open>
  C11: for a sequence of \<open>sqlite3BitvecSet\<close> and \<open>sqlite3BitvecClear\<close> calls on a new bitmap, with page
  numbers in its range, every call returns, and unless one of them reported \<open>SQLITE_NOMEM\<close>,
  \<open>sqlite3BitvecTest\<close> afterwards answers membership in the set of pages that the same sequence of
  insertions and removals builds, in whatever representations the bitmap went through.
\<close>

theorem bitvec_refines_set:
  assumes "n < 2 ^ 32" "list_all (op_ok n) ops"
  shows "\<exists>rc p. run_ops al (new_bitvec n) ops = Some (rc, p) \<and> (rc = SQLITE_OK \<or> rc = SQLITE_NOMEM) \<and>
    (rc = SQLITE_OK \<longrightarrow> (\<forall>i>0. sqlite3BitvecTest (Some p) i = Some (unat i \<in> fold apply_op ops {})))"
proof -
  have "bitvec_wf (new_bitvec n)" "list_all (op_ok (iSize (new_bitvec n))) ops"
    using assms by simp_all
  from bv.run_refines [OF this, of al] obtain rc p where
    "bv.run al (new_bitvec n) ops = Some (rc, p)" "bitvec_wf p" "rc = SQLITE_OK \<or> rc = SQLITE_NOMEM"
    "rc = SQLITE_OK \<longrightarrow> bitvec_pages p = fold apply_op ops {}"
    by auto
  then show ?thesis
    using bv.test_law [of p] by (auto simp: run_ops_run)
qed

theorem bitvec_refines_set_witness:
  "\<exists>rc p. run_ops [] (new_bitvec 5000) [SetPage 7, SetPage 4999, ClearPage 7] = Some (rc, p) \<and>
    (rc = SQLITE_OK \<or> rc = SQLITE_NOMEM) \<and> (rc = SQLITE_OK \<longrightarrow>
      (\<forall>i>0. sqlite3BitvecTest (Some p) i = Some (unat i \<in> {4999})))"
proof -
  have "fold apply_op [SetPage 7, SetPage 4999, ClearPage 7] {} = {4999}" by auto
  then show ?thesis
    using bitvec_refines_set [of 5000 "[SetPage 7, SetPage 4999, ClearPage 7]" "[]"] by simp
qed

text \<open>
  C15: \<open>sqlite3BitvecSet\<close> on a well-formed bitmap always returns.  It reports \<open>SQLITE_OK\<close> and has set
  the bit, or it reports \<open>SQLITE_NOMEM\<close>, then an allocation was refused, the bitmap is still
  well formed and no other bit has appeared.
\<close>

theorem bitvec_set_failure:
  assumes "bitvec_wf p" "0 < i" "unat i \<le> iSize p"
  shows "\<exists>rc al' p'. sqlite3BitvecSet al (Some p) i = Some (rc, al', Some p') \<and> bitvec_wf p' \<and>
    (rc = SQLITE_OK \<and> bitvec_pages p' = insert (unat i) (bitvec_pages p) \<or>
     rc = SQLITE_NOMEM \<and> bitvec_pages p' \<subseteq> insert (unat i) (bitvec_pages p) \<and>
       (False \<in> set al \<or> al' = []))"
proof -
  obtain rc al' p' where r: "bitvec_set_page al p i = Some (rc, al', p')" "bitvec_wf p'"
    "rc = SQLITE_OK \<and> bitvec_pages p' = insert (unat i) (bitvec_pages p) \<or>
     rc = SQLITE_NOMEM \<and> bitvec_pages p' \<subseteq> insert (unat i) (bitvec_pages p)"
    using bv.set_law [OF assms, of al] by blast
  then have s: "bitvec_set 9 al p (unat (i - 1)) = Some (rc, al', p')"
    by (auto simp: bitvec_set_page_def sqlite3BitvecSet_def split: option.splits)
  have "heap_use al rc al'" using set_heap_ok_all s unfolding set_heap_ok_def by blast
  with r(2,3) s show ?thesis by (auto simp: sqlite3BitvecSet_def heap_use_def)
qed

theorem bitvec_set_failure_witness:
  "\<exists>rc al' p'. sqlite3BitvecSet [True] (Some (new_bitvec 100000)) 77 = Some (rc, al', Some p') \<and>
    bitvec_wf p' \<and> (rc = SQLITE_OK \<and> bitvec_pages p' = {77} \<or>
      rc = SQLITE_NOMEM \<and> bitvec_pages p' \<subseteq> {77} \<and> (False \<in> set [True] \<or> al' = []))"
  using bitvec_set_failure [of "new_bitvec 100000" 77 "[True]"] by simp

end
