(* ===== verification/Page.thy ===== *)
theory Page
  imports Cell
begin

text \<open>
  Space management inside one b-tree page (\<open>src/src/btree.c\<close>): initialising a page, computing its
  free space, allocating and freeing a cell's bytes, defragmenting, inserting and dropping cells.

  A page image is the buffer \<open>aData\<close>; a routine that changes it returns the new buffer together with
  the result code, on error paths too, since the source has then changed the buffer as well.
  Freeblocks form a chain: two bytes with the offset of the next freeblock, two bytes with the size.

  The asserted preconditions (\<open>nByte < usableSize-8\<close>, \<open>iSize >= 4\<close>, offsets inside the page) allow
  offsets and sizes to be natural numbers.
\<close>

section \<open>Accessors\<close>

definition g2 :: "bytes \<Rightarrow> nat \<Rightarrow> nat" where
  "g2 d i = get2byte (drop i d)"

definition p2 :: "bytes \<Rightarrow> nat \<Rightarrow> nat \<Rightarrow> bytes" where
  "p2 d i v = blit d i (put2byte v)"

definition g1 :: "bytes \<Rightarrow> nat \<Rightarrow> nat" where
  "g1 d i = unat (byte_at d i)"

definition p1 :: "bytes \<Rightarrow> nat \<Rightarrow> nat \<Rightarrow> bytes" where
  "p1 d i v = d[i := word_of_nat v]"

text \<open>\<open>memmove(&d[dst], &d[src], n)\<close> and \<open>memset(&d[i], 0, n)\<close>.\<close>

definition memmove :: "bytes \<Rightarrow> nat \<Rightarrow> nat \<Rightarrow> nat \<Rightarrow> bytes" where
  "memmove d dst src n = blit d dst (subbytes d src n)"

definition memzero :: "bytes \<Rightarrow> nat \<Rightarrow> nat \<Rightarrow> bytes" where
  "memzero d i n = blit d i (replicate n 0)"

section \<open>Defragmentation\<close>

text \<open>The fast path adds an offset to every cell pointer below one of the two freeblocks.\<close>

fun shift_ptrs :: "nat \<Rightarrow> nat \<Rightarrow> nat \<Rightarrow> nat \<Rightarrow> nat \<Rightarrow> nat list \<Rightarrow> bytes \<Rightarrow> bytes" where
  "shift_ptrs cellOfs iFree iFree2 sz sz2 [] d = d"
| "shift_ptrs cellOfs iFree iFree2 sz sz2 (i # is) d =
     (let pAddr = cellOfs + 2 * i; pc = g2 d pAddr;
          d = (if pc < iFree then p2 d pAddr (pc + sz)
               else if pc < iFree2 then p2 d pAddr (pc + sz2) else d)
      in shift_ptrs cellOfs iFree iFree2 sz sz2 is d)"

text \<open>
  The fast path of \<open>defragmentPage\<close> (at most two freeblocks): \<open>None\<close> when it does not apply,
  otherwise the result code, the buffer and the new start \<open>cbrk\<close> of the cell content.
\<close>

definition defragment_fast :: "bt_shared \<Rightarrow> mempage \<Rightarrow> int \<Rightarrow> (rc \<times> bytes \<times> nat) option" where
  "defragment_fast pBt pPage nMaxFrag =
     (let data = aData pPage; hdr = hdrOffset pPage; usable = usableSize pBt;
          iFree = g2 data (hdr + 1); iFree2 = g2 data iFree
      in if \<not> int (g1 data (hdr + 7)) \<le> nMaxFrag then None
         else if iFree + 4 > usable then Some (SQLITE_CORRUPT, data, 0)
         else if iFree = 0 then None
         else if iFree2 + 4 > usable then Some (SQLITE_CORRUPT, data, 0)
         else if \<not> (iFree2 = 0 \<or> g1 data iFree2 = 0 \<and> g1 data (iFree2 + 1) = 0) then None
         else
           let sz = g2 data (iFree + 2); ctop = g2 data (hdr + 5) in
           if ctop \<ge> iFree then Some (SQLITE_CORRUPT, data, 0)
           else if iFree2 \<noteq> 0 \<and> iFree + sz > iFree2 then Some (SQLITE_CORRUPT, data, 0)
           else
             let sz2 = (if iFree2 \<noteq> 0 then g2 data (iFree2 + 2) else 0) in
             if iFree2 \<noteq> 0 \<and> iFree2 + sz2 > usable then Some (SQLITE_CORRUPT, data, 0)
             else if iFree2 = 0 \<and> iFree + sz > usable then Some (SQLITE_CORRUPT, data, 0)
             else
               let data = (if iFree2 \<noteq> 0
                     then memmove data (iFree + sz + sz2) (iFree + sz) (iFree2 - (iFree + sz)) else data);
                   sz = sz + sz2;
                   cbrk = ctop + sz;
                   data = memmove data cbrk ctop (iFree - ctop);
                   data = shift_ptrs (cellOffset pPage) iFree iFree2 sz sz2 [0..<nCell pPage] data
               in Some (SQLITE_OK, data, cbrk))"

text \<open>The general loop copies the cells, one after the other, from the saved image \<open>src\<close>.\<close>

fun defragment_loop ::
    "bt_shared \<Rightarrow> mempage \<Rightarrow> bytes \<Rightarrow> nat \<Rightarrow> nat list \<Rightarrow> nat \<Rightarrow> bytes \<Rightarrow> rc \<times> bytes \<times> nat" where
  "defragment_loop pBt pPage src iCellStart [] cbrk data = (SQLITE_OK, data, cbrk)"
| "defragment_loop pBt pPage src iCellStart (i # is) cbrk data =
     (let pAddr = cellOffset pPage + 2 * i; pc = g2 data pAddr
      in if pc + 4 > usableSize pBt then (SQLITE_CORRUPT, data, cbrk)
         else
           let size = xCellSize pBt pPage (drop pc src) in
           if cbrk < iCellStart + size \<or> pc + size > usableSize pBt then (SQLITE_CORRUPT, data, cbrk)
           else
             let cbrk = cbrk - size;
                 data = p2 data pAddr cbrk;
                 data = blit data cbrk (subbytes src pc size)
             in defragment_loop pBt pPage src iCellStart is cbrk data)"

definition defragment_slow :: "bt_shared \<Rightarrow> mempage \<Rightarrow> rc \<times> bytes \<times> nat" where
  "defragment_slow pBt pPage =
     (let data = aData pPage; hdr = hdrOffset pPage
      in case defragment_loop pBt pPage data (g2 data (hdr + 5)) [0..<nCell pPage] (usableSize pBt) data of
           (rc, data, cbrk) \<Rightarrow> (rc, if rc = SQLITE_OK then p1 data (hdr + 7) 0 else data, cbrk))"

text \<open>The code after the label \<open>defragment_out\<close>.\<close>

definition defragment_out :: "mempage \<Rightarrow> bytes \<Rightarrow> nat \<Rightarrow> rc \<times> bytes" where
  "defragment_out pPage data cbrk =
     (let hdr = hdrOffset pPage; iCellFirst = cellOffset pPage + 2 * nCell pPage
      in if int (g1 data (hdr + 7)) + int cbrk - int iCellFirst \<noteq> nFree pPage then (SQLITE_CORRUPT, data)
         else
           let data = p2 data (hdr + 5) cbrk;
               data = p1 data (hdr + 1) 0;
               data = p1 data (hdr + 2) 0;
               data = memzero data iCellFirst (cbrk - iCellFirst)
           in (SQLITE_OK, data))"

definition defragmentPage :: "bt_shared \<Rightarrow> mempage \<Rightarrow> int \<Rightarrow> rc \<times> bytes" where
  "defragmentPage pBt pPage nMaxFrag =
     (let (rc, data, cbrk) =
        (case defragment_fast pBt pPage nMaxFrag of Some r \<Rightarrow> r | None \<Rightarrow> defragment_slow pBt pPage)
      in if rc \<noteq> SQLITE_OK then (rc, data) else defragment_out pPage data cbrk)"

section \<open>Allocating space\<close>

text \<open>
  The loop of \<open>pageFindSlot\<close>: \<open>pc\<close> is the freeblock under inspection, \<open>iAddr\<close> the address of the
  pointer to it.  The loop ends since the chain must ascend.
\<close>

function pageFindSlot_loop ::
    "nat \<Rightarrow> nat \<Rightarrow> nat \<Rightarrow> bytes \<Rightarrow> nat \<Rightarrow> nat \<Rightarrow> rc \<times> nat option \<times> bytes" where
  "pageFindSlot_loop hdr nByte maxPC d iAddr pc =
     (if pc \<le> maxPC then
        let size = g2 d (pc + 2) in
        if size \<ge> nByte then
          let x = size - nByte in
          if x < 4 then
            if g1 d (hdr + 7) > 57 then (SQLITE_OK, None, d)
            else
              let d = memmove d iAddr pc 2;
                  d = p1 d (hdr + 7) (g1 d (hdr + 7) + x)
              in (SQLITE_OK, Some pc, d)
          else if x + pc > maxPC then (SQLITE_CORRUPT, None, d)
          else (SQLITE_OK, Some (pc + x), p2 d (pc + 2) x)
        else
          let pc' = g2 d pc in
          if pc' \<le> pc then (if pc' \<noteq> 0 then SQLITE_CORRUPT else SQLITE_OK, None, d)
          else pageFindSlot_loop hdr nByte maxPC d pc pc'
      else (if pc + 4 > maxPC + nByte then SQLITE_CORRUPT else SQLITE_OK, None, d))"
  by pat_completeness auto
termination
  by (relation "measure (\<lambda>(hdr, nByte, maxPC, d, iAddr, pc). maxPC + 1 - pc)") auto

declare pageFindSlot_loop.simps [simp del]

definition pageFindSlot :: "bt_shared \<Rightarrow> mempage \<Rightarrow> nat \<Rightarrow> rc \<times> nat option \<times> bytes" where
  "pageFindSlot pBt pPg nByte =
     (let hdr = hdrOffset pPg; d = aData pPg
      in pageFindSlot_loop hdr nByte (usableSize pBt - nByte) d (hdr + 1) (g2 d (hdr + 1)))"

text \<open>The part of \<open>allocateSpace\<close> after the search of the freelist.\<close>

definition allocate_gap :: "bt_shared \<Rightarrow> mempage \<Rightarrow> nat \<Rightarrow> nat \<Rightarrow> nat \<Rightarrow> rc \<times> nat \<times> mempage" where
  "allocate_gap pBt pPage nByte gap ctop =
     (let hdr = hdrOffset pPage;
          (rc, pPage, ctop) =
            (if gap + 2 + nByte > ctop then
               case defragmentPage pBt pPage (min 4 (nFree pPage - (2 + int nByte))) of
                 (rc, data) \<Rightarrow> (rc, pPage\<lparr>aData := data\<rparr>, get2byteNotZero (drop (hdr + 5) data))
             else (SQLITE_OK, pPage, ctop))
      in if rc \<noteq> SQLITE_OK then (rc, 0, pPage)
         else
           let ctop = ctop - nByte
           in (SQLITE_OK, ctop, pPage\<lparr>aData := p2 (aData pPage) (hdr + 5) ctop\<rparr>))"

definition allocateSpace :: "bt_shared \<Rightarrow> mempage \<Rightarrow> nat \<Rightarrow> rc \<times> nat \<times> mempage" where
  "allocateSpace pBt pPage nByte =
     (let hdr = hdrOffset pPage; data = aData pPage;
          gap = cellOffset pPage + 2 * nCell pPage;
          ctop = g2 data (hdr + 5);
          top65536 = (gap > ctop \<and> ctop = 0 \<and> usableSize pBt = 65536)
      in if gap > ctop \<and> \<not> top65536 then (SQLITE_CORRUPT, 0, pPage)
         else if \<not> gap > ctop \<and> ctop > usableSize pBt then (SQLITE_CORRUPT, 0, pPage)
         else
           let ctop = (if top65536 then 65536 else ctop) in
           if (g1 data (hdr + 2) \<noteq> 0 \<or> g1 data (hdr + 1) \<noteq> 0) \<and> gap + 2 \<le> ctop then
             case pageFindSlot pBt pPage nByte of
               (rc, Some g, data) \<Rightarrow>
                 (if g \<le> gap then SQLITE_CORRUPT else SQLITE_OK, g, pPage\<lparr>aData := data\<rparr>)
             | (rc, None, data) \<Rightarrow>
                 if rc \<noteq> SQLITE_OK then (rc, 0, pPage\<lparr>aData := data\<rparr>)
                 else allocate_gap pBt (pPage\<lparr>aData := data\<rparr>) nByte gap ctop
           else allocate_gap pBt pPage nByte gap ctop)"

section \<open>Freeing space\<close>

text \<open>
  The search for the position of \<open>iStart\<close> in the chain: the address of the pointer and the first
  freeblock at or after \<open>iStart\<close> (0 when there is none), \<open>None\<close> when the chain does not ascend.
\<close>

function freeSpace_find :: "nat \<Rightarrow> bytes \<Rightarrow> nat \<Rightarrow> (nat \<times> nat) option" where
  "freeSpace_find iStart d iPtr =
     (let iFreeBlk = g2 d iPtr in
      if iFreeBlk < iStart then
        if iFreeBlk \<le> iPtr then (if iFreeBlk = 0 then Some (iPtr, 0) else None)
        else freeSpace_find iStart d iFreeBlk
      else Some (iPtr, iFreeBlk))"
  by pat_completeness auto
termination
  by (relation "measure (\<lambda>(iStart, d, iPtr). iStart - iPtr)") auto

declare freeSpace_find.simps [simp del]

text \<open>
  Coalescing with the next and the previous freeblock:
  \<open>(iStart, iSize, iEnd, iFreeBlk, nFrag)\<close>, or \<open>None\<close> for a corrupt page.
\<close>

definition coalesce_next ::
    "nat \<Rightarrow> bytes \<Rightarrow> nat \<Rightarrow> nat \<Rightarrow> nat \<Rightarrow> nat \<Rightarrow> (nat \<times> nat \<times> nat \<times> nat) option" where
  "coalesce_next usable d iStart iSize iEnd iFreeBlk =
     (if iFreeBlk \<noteq> 0 \<and> iEnd + 3 \<ge> iFreeBlk then
        if iEnd > iFreeBlk then None
        else
          let iEnd' = iFreeBlk + g2 d (iFreeBlk + 2) in
          if iEnd' > usable then None
          else Some (iEnd' - iStart, iEnd', g2 d iFreeBlk, iFreeBlk - iEnd)
      else Some (iSize, iEnd, iFreeBlk, 0))"

definition coalesce_prev ::
    "nat \<Rightarrow> bytes \<Rightarrow> nat \<Rightarrow> nat \<Rightarrow> nat \<Rightarrow> nat \<Rightarrow> nat \<Rightarrow> (nat \<times> nat \<times> nat) option" where
  "coalesce_prev hdr d iPtr iStart iSize iEnd nFrag =
     (if iPtr > hdr + 1 then
        let iPtrEnd = iPtr + g2 d (iPtr + 2) in
        if iPtrEnd + 3 \<ge> iStart then
          if iPtrEnd > iStart then None
          else Some (iPtr, iEnd - iPtr, nFrag + (iStart - iPtrEnd))
        else Some (iStart, iSize, nFrag)
      else Some (iStart, iSize, nFrag))"

text \<open>The writes at the end of \<open>freeSpace\<close>.\<close>

definition freeSpace_write ::
    "bt_shared \<Rightarrow> nat \<Rightarrow> bytes \<Rightarrow> nat \<Rightarrow> nat \<Rightarrow> nat \<Rightarrow> nat \<Rightarrow> nat \<Rightarrow> rc \<times> bytes" where
  "freeSpace_write pBt hdr data iPtr iStart iSize iEnd iFreeBlk =
     (let x = g2 data (hdr + 5);
          data = (if fastSecure pBt then memzero data iStart iSize else data)
      in if iStart \<le> x then
           if iStart < x then (SQLITE_CORRUPT, data)
           else if iPtr \<noteq> hdr + 1 then (SQLITE_CORRUPT, data)
           else (SQLITE_OK, p2 (p2 data (hdr + 1) iFreeBlk) (hdr + 5) iEnd)
         else (SQLITE_OK, p2 (p2 (p2 data iPtr iStart) iStart iFreeBlk) (iStart + 2) iSize))"

definition freeSpace :: "bt_shared \<Rightarrow> mempage \<Rightarrow> nat \<Rightarrow> nat \<Rightarrow> rc \<times> mempage" where
  "freeSpace pBt pPage iStart iSize =
     (let data = aData pPage; hdr = hdrOffset pPage; iEnd = iStart + iSize;
          finish = (\<lambda>(rc, data).
            (rc, if rc = SQLITE_OK then pPage\<lparr>aData := data, nFree := nFree pPage + int iSize\<rparr>
                 else pPage\<lparr>aData := data\<rparr>))
      in if g1 data (hdr + 2) = 0 \<and> g1 data (hdr + 1) = 0
         then finish (freeSpace_write pBt hdr data (hdr + 1) iStart iSize iEnd 0)
         else
           case freeSpace_find iStart data (hdr + 1) of
             None \<Rightarrow> (SQLITE_CORRUPT, pPage)
           | Some (iPtr, iFreeBlk) \<Rightarrow>
               if iFreeBlk + 4 > usableSize pBt then (SQLITE_CORRUPT, pPage)
               else
                 case coalesce_next (usableSize pBt) data iStart iSize iEnd iFreeBlk of
                   None \<Rightarrow> (SQLITE_CORRUPT, pPage)
                 | Some (iSize, iEnd, iFreeBlk, nFrag) \<Rightarrow>
                     (case coalesce_prev hdr data iPtr iStart iSize iEnd nFrag of
                        None \<Rightarrow> (SQLITE_CORRUPT, pPage)
                      | Some (iStart, iSize, nFrag) \<Rightarrow>
                          if nFrag > g1 data (hdr + 7) then (SQLITE_CORRUPT, pPage)
                          else
                            let data = p1 data (hdr + 7) (g1 data (hdr + 7) - nFrag)
                            in finish (freeSpace_write pBt hdr data iPtr iStart iSize iEnd iFreeBlk)))"

section \<open>Free space and initialisation\<close>

text \<open>
  The freeblock loop of \<open>btreeComputeFreeSpace\<close>: the last freeblock, its \<open>next\<close> and \<open>size\<close> and the
  sum, \<open>None\<close> for a corrupt page.
\<close>

function freeblock_loop ::
    "nat \<Rightarrow> bytes \<Rightarrow> nat \<Rightarrow> nat \<Rightarrow> (nat \<times> nat \<times> nat \<times> nat) option" where
  "freeblock_loop usable d pc nf =
     (if pc + 4 > usable then None
      else
        let next = g2 d pc; size = g2 d (pc + 2) in
        if size < 4 then None
        else
          let nf = nf + size in
          if next < pc + size + 4 then Some (pc, next, size, nf)
          else freeblock_loop usable d next nf)"
  by pat_completeness auto
termination
  by (relation "measure (\<lambda>(usable, d, pc, nf). usable - pc)") auto

declare freeblock_loop.simps [simp del]

definition btreeComputeFreeSpace :: "bt_shared \<Rightarrow> mempage \<Rightarrow> rc \<times> mempage" where
  "btreeComputeFreeSpace pBt pPage =
     (let usable = usableSize pBt; hdr = hdrOffset pPage; data = aData pPage;
          ctop = get2byteNotZero (drop (hdr + 5) data);
          iCellFirst = hdr + 8 + childPtrSize pPage + 2 * nCell pPage;
          pc = g2 data (hdr + 1);
          nf = g1 data (hdr + 7) + ctop;
          sum = (if pc > 0 then
                   if pc < ctop then None
                   else case freeblock_loop usable data pc nf of
                     None \<Rightarrow> None
                   | Some (pc, next, sz, nf) \<Rightarrow>
                       if next > 0 then None else if pc + sz > usable then None else Some nf
                 else Some nf)
      in case sum of
           None \<Rightarrow> (SQLITE_CORRUPT, pPage)
         | Some nf \<Rightarrow>
             if nf > usable \<or> nf < iCellFirst then (SQLITE_CORRUPT, pPage)
             else (SQLITE_OK, pPage\<lparr>nFree := int ((nf - iCellFirst) mod 65536)\<rparr>))"

fun cellsize_loop :: "bt_shared \<Rightarrow> mempage \<Rightarrow> nat \<Rightarrow> nat \<Rightarrow> nat list \<Rightarrow> rc" where
  "cellsize_loop pBt pPage iCellFirst iCellLast [] = SQLITE_OK"
| "cellsize_loop pBt pPage iCellFirst iCellLast (i # is) =
     (let pc = g2 (aData pPage) (cellOffset pPage + 2 * i)
      in if pc < iCellFirst \<or> pc > iCellLast then SQLITE_CORRUPT
         else if pc + xCellSize pBt pPage (drop pc (aData pPage)) > usableSize pBt then SQLITE_CORRUPT
         else cellsize_loop pBt pPage iCellFirst iCellLast is)"

definition btreeCellSizeCheck :: "bt_shared \<Rightarrow> mempage \<Rightarrow> rc" where
  "btreeCellSizeCheck pBt pPage =
     (let iCellFirst = cellOffset pPage + 2 * nCell pPage;
          iCellLast = usableSize pBt - 4;
          iCellLast = (if \<not> leaf pPage then iCellLast - 1 else iCellLast)
      in cellsize_loop pBt pPage iCellFirst iCellLast [0..<nCell pPage])"

definition MX_CELL :: "bt_shared \<Rightarrow> nat" where
  "MX_CELL pBt = (pageSize pBt - 8) div 6"

definition btreeInitPage :: "bt_shared \<Rightarrow> mempage \<Rightarrow> rc \<times> mempage" where
  "btreeInitPage pBt pPage =
     (let data = drop (hdrOffset pPage) (aData pPage);
          (rc, pPage) = decodeFlags pBt pPage (byte_at data 0)
      in if rc \<noteq> SQLITE_OK then (SQLITE_CORRUPT, pPage)
         else
           let pPage = pPage\<lparr>maskPage := (pageSize pBt - 1) mod 65536, nOverflow := 0, aiOvfl := [], apOvfl := [],
                 cellOffset := (hdrOffset pPage + 8 + childPtrSize pPage) mod 65536,
                 nCell := get2byte (drop 3 data)\<rparr>
           in if nCell pPage > MX_CELL pBt then (SQLITE_CORRUPT, pPage)
              else
                let pPage = pPage\<lparr>nFree := -1, isInit := True\<rparr>
                in (if cellSizeCk pBt then btreeCellSizeCheck pBt pPage else SQLITE_OK, pPage))"

definition zeroPage :: "bt_shared \<Rightarrow> mempage \<Rightarrow> u8 \<Rightarrow> mempage" where
  "zeroPage pBt pPage flags =
     (let data = aData pPage; hdr = hdrOffset pPage;
          data = (if fastSecure pBt then memzero data hdr (usableSize pBt - hdr) else data);
          data = data[hdr := flags];
          first = hdr + (if flags AND PTF_LEAF = 0 then 12 else 8);
          data = memzero data (hdr + 1) 4;
          data = p1 data (hdr + 7) 0;
          data = p2 data (hdr + 5) (usableSize pBt);
          pPage = pPage\<lparr>aData := data, nFree := int ((usableSize pBt - first) mod 65536)\<rparr>;
          (rc, pPage) = decodeFlags pBt pPage flags
      in pPage\<lparr>cellOffset := first mod 65536, nOverflow := 0, aiOvfl := [], apOvfl := [],
           maskPage := (pageSize pBt - 1) mod 65536, nCell := 0, isInit := True\<rparr>)"

section \<open>Dropping and inserting cells\<close>

definition dropCell :: "bt_shared \<Rightarrow> mempage \<Rightarrow> nat \<Rightarrow> nat \<Rightarrow> rc \<Rightarrow> rc \<times> mempage" where
  "dropCell pBt pPage idx sz pRC =
     (if pRC \<noteq> SQLITE_OK then (pRC, pPage)
      else
        let ptr = cellOffset pPage + 2 * idx; hdr = hdrOffset pPage; pc = g2 (aData pPage) ptr
        in if pc + sz > usableSize pBt then (SQLITE_CORRUPT, pPage)
           else case freeSpace pBt pPage pc sz of (rc, pPage) \<Rightarrow>
             if rc \<noteq> SQLITE_OK then (rc, pPage)
             else
               let pPage = pPage\<lparr>nCell := nCell pPage - 1\<rparr>; data = aData pPage
               in if nCell pPage = 0 then
                    let data = memzero data (hdr + 1) 4;
                        data = p1 data (hdr + 7) 0;
                        data = p2 data (hdr + 5) (usableSize pBt)
                    in (SQLITE_OK, pPage\<lparr>aData := data,
                          nFree := int (usableSize pBt) - int hdr - int (childPtrSize pPage) - 8\<rparr>)
                  else
                    let data = memmove data ptr (ptr + 2) (2 * (nCell pPage - idx));
                        data = p2 data (hdr + 3) (nCell pPage)
                    in (SQLITE_OK, pPage\<lparr>aData := data, nFree := nFree pPage + 2\<rparr>))"

text \<open>
  The cell pointer array gets a new entry at index \<open>i\<close> and the cell count is incremented in the
  header: the tail that \<open>insertCell\<close> and \<open>insertCellFast\<close> share.
\<close>

definition insert_ptr :: "mempage \<Rightarrow> nat \<Rightarrow> nat \<Rightarrow> mempage" where
  "insert_ptr pPage i idx =
     (let data = aData pPage; hdr = hdrOffset pPage;
          pIns = cellOffset pPage + 2 * i;
          data = memmove data (pIns + 2) pIns (2 * (nCell pPage - i));
          data = p2 data pIns idx;
          data = p1 data (hdr + 4) (g1 data (hdr + 4) + 1);
          data = (if g1 data (hdr + 4) = 0 then p1 data (hdr + 3) (g1 data (hdr + 3) + 1) else data)
      in pPage\<lparr>aData := data, nCell := nCell pPage + 1\<rparr>)"

text \<open>
  \<open>rcWrite\<close> is the result of \<open>sqlite3PagerWrite\<close> for the page.  A cell that does not fit is kept
  in the overflow array of the page, to be placed by \<open>balance()\<close>.
\<close>

definition insertCell :: "bt_shared \<Rightarrow> rc \<Rightarrow> mempage \<Rightarrow> nat \<Rightarrow> bytes \<Rightarrow> nat \<Rightarrow> u32 \<Rightarrow> rc \<times> mempage" where
  "insertCell pBt rcWrite pPage i pCell sz iChild =
     (if nOverflow pPage \<noteq> 0 \<or> int sz + 2 > nFree pPage then
        (SQLITE_OK, pPage\<lparr>nOverflow := nOverflow pPage + 1,
           apOvfl := apOvfl pPage @ [blit pCell 0 (sqlite3Put4byte iChild)],
           aiOvfl := aiOvfl pPage @ [i mod 65536]\<rparr>)
      else if rcWrite \<noteq> SQLITE_OK then (rcWrite, pPage)
      else case allocateSpace pBt pPage sz of (rc, idx, pPage) \<Rightarrow>
        if rc \<noteq> SQLITE_OK then (rc, pPage)
        else
          let data = aData pPage;
              data = blit data (idx + 4) (subbytes pCell 4 (sz - 4));
              data = blit data idx (sqlite3Put4byte iChild)
          in (SQLITE_OK, insert_ptr (pPage\<lparr>aData := data, nFree := nFree pPage - int ((2 + sz) mod 65536)\<rparr>) i idx))"

definition insertCellFast :: "bt_shared \<Rightarrow> rc \<Rightarrow> mempage \<Rightarrow> nat \<Rightarrow> bytes \<Rightarrow> nat \<Rightarrow> rc \<times> mempage" where
  "insertCellFast pBt rcWrite pPage i pCell sz =
     (if int sz + 2 > nFree pPage then
        (SQLITE_OK, pPage\<lparr>nOverflow := nOverflow pPage + 1, apOvfl := apOvfl pPage @ [pCell],
           aiOvfl := aiOvfl pPage @ [i mod 65536]\<rparr>)
      else if rcWrite \<noteq> SQLITE_OK then (rcWrite, pPage)
      else case allocateSpace pBt pPage sz of (rc, idx, pPage) \<Rightarrow>
        if rc \<noteq> SQLITE_OK then (rc, pPage)
        else
          let data = blit (aData pPage) idx (subbytes pCell 0 sz)
          in (SQLITE_OK, insert_ptr (pPage\<lparr>aData := data, nFree := nFree pPage - int ((2 + sz) mod 65536)\<rparr>) i idx))"

end
