(* ===== verification/PageSpace.thy ===== *)
theory PageSpace
  imports Page
begin

text \<open>
  Space accounting inside a page: reads after writes, the freeblock chain, and the invariant
  \<open>space_ok\<close> that relates the chain, the content offset and the fragment count of the header to the
  set of bytes the cells occupy.  \<open>freeSpace_space\<close> and \<open>allocateSpace_space\<close> show that freeing and
  allocating keep it and leave every other byte alone.
\<close>

section \<open>Reading after writing\<close>

lemma length_p2 [simp]: "length (p2 d i v) = length d"
  by (simp add: p2_def)

lemma length_p1 [simp]: "length (p1 d i v) = length d"
  by (simp add: p1_def)

lemma length_memzero [simp]: "length (memzero d i n) = length d"
  by (simp add: memzero_def)

lemma length_memmove [simp]: "length (memmove d i j n) = length d"
  by (simp add: memmove_def)

text \<open>Two buffers hold the same bytes at the offsets of a set.\<close>

definition same_on :: "nat set \<Rightarrow> bytes \<Rightarrow> bytes \<Rightarrow> bool" where
  "same_on S d d' \<longleftrightarrow> (\<forall>k\<in>S. byte_at d k = byte_at d' k)"

lemma same_on_refl [simp]: "same_on S d d"
  by (simp add: same_on_def)

lemma same_on_mono: "same_on S d d' \<Longrightarrow> T \<subseteq> S \<Longrightarrow> same_on T d d'"
  by (auto simp: same_on_def)

lemma same_on_trans: "same_on S d d' \<Longrightarrow> same_on S d' d'' \<Longrightarrow> same_on S d d''"
  by (auto simp: same_on_def)

lemma same_on_blit: "S \<inter> {i..<i + length ys} = {} \<Longrightarrow> same_on S d (blit d i ys)"
  by (auto simp: same_on_def byte_at_blit)

lemma same_on_p2: "i \<notin> S \<Longrightarrow> Suc i \<notin> S \<Longrightarrow> same_on S d (p2 d i v)"
  unfolding p2_def by (rule same_on_blit) (auto simp: put2byte_def le_less_Suc_eq less_Suc_eq)

lemma same_on_p1: "i \<notin> S \<Longrightarrow> same_on S d (p1 d i v)"
  unfolding same_on_def p1_def byte_at_def by (metis length_list_update nth_list_update_neq)

lemma same_on_memzero: "S \<inter> {i..<i + n} = {} \<Longrightarrow> same_on S d (memzero d i n)"
  unfolding memzero_def by (rule same_on_blit) simp

lemma g2_byte_at: "g2 d i = unat (byte_at d i) * 256 + unat (byte_at d (Suc i))"
  by (simp add: g2_def get2byte_def byte_at_drop)

lemma g2_same_on: "same_on S d d' \<Longrightarrow> i \<in> S \<Longrightarrow> Suc i \<in> S \<Longrightarrow> g2 d' i = g2 d i"
  by (simp add: same_on_def g2_byte_at)

lemma g1_same_on: "same_on S d d' \<Longrightarrow> i \<in> S \<Longrightarrow> g1 d' i = g1 d i"
  by (simp add: same_on_def g1_def)

lemma subbytes_byte_at:
  "i + n \<le> length d \<Longrightarrow> subbytes d i n = map (byte_at d) [i..<i + n]"
  by (auto simp: list_eq_iff_nth_eq subbytes_def byte_at_def)

lemma subbytes_same_on:
  assumes "same_on S d d'" "length d' = length d" "{i..<i + n} \<subseteq> S" "i + n \<le> length d"
  shows "subbytes d' i n = subbytes d i n"
  using assms by (auto simp: subbytes_byte_at same_on_def)

lemma g2_less: "g2 d i < 65536"
  using get2byte_less by (simp add: g2_def)

lemma g1_less: "g1 d i < 256"
  by (simp add: g1_def)

lemma g2_p2:
  assumes "Suc i < length d"
  shows "g2 (p2 d i v) i = v mod 65536"
proof -
  have "byte_at (p2 d i v) i = word_of_nat (v div 256)" "byte_at (p2 d i v) (Suc i) = word_of_nat v"
    using assms by (auto simp: p2_def put2byte_def byte_at_blit)
  then have "g2 (p2 d i v) i = (v div 256) mod 256 * 256 + v mod 256"
    by (simp add: g2_byte_at unsigned_of_nat take_bit_eq_mod)
  also have "\<dots> = v mod 65536"
    using mod_mult2_eq [of v 256 256] by simp
  finally show ?thesis .
qed

lemma g2_p2_other: "j \<noteq> i \<Longrightarrow> Suc j \<noteq> i \<Longrightarrow> j \<noteq> Suc i \<Longrightarrow> g2 (p2 d i v) j = g2 d j"
  by (rule g2_same_on [where S = "{j, Suc j}"]) (auto intro: same_on_p2)

lemma g2_p1_other: "j \<noteq> i \<Longrightarrow> Suc j \<noteq> i \<Longrightarrow> g2 (p1 d i v) j = g2 d j"
  by (rule g2_same_on [where S = "{j, Suc j}"]) (auto intro: same_on_p1)

lemma g1_p1: "i < length d \<Longrightarrow> g1 (p1 d i v) i = v mod 256"
  by (simp add: g1_def p1_def byte_at_def unsigned_of_nat take_bit_eq_mod)

lemma g1_p1_other: "j \<noteq> i \<Longrightarrow> g1 (p1 d i v) j = g1 d j"
  by (rule g1_same_on [where S = "{j}"]) (auto intro: same_on_p1)

lemma g1_p2_other: "j \<noteq> i \<Longrightarrow> j \<noteq> Suc i \<Longrightarrow> g1 (p2 d i v) j = g1 d j"
  by (rule g1_same_on [where S = "{j}"]) (auto intro: same_on_p2)

lemma g2_zero_iff: "g1 d (Suc i) = 0 \<and> g1 d i = 0 \<longleftrightarrow> g2 d i = 0"
  by (auto simp: g2_byte_at g1_def)

lemmas rw_simps = g2_p2 g2_p2_other g2_p1_other g1_p1 g1_p1_other g1_p2_other

section \<open>The freeblock chain\<close>

text \<open>The address of the last pointer of a chain that starts at the pointer \<open>a\<close>.\<close>

fun endp :: "nat \<Rightarrow> (nat \<times> nat) list \<Rightarrow> nat" where
  "endp a [] = a"
| "endp a ((pc, sz) # bs) = endp pc bs"

fun seg :: "bytes \<Rightarrow> nat \<Rightarrow> (nat \<times> nat) list \<Rightarrow> bool" where
  "seg d a [] = True"
| "seg d a ((pc, sz) # bs) = (g2 d a = pc \<and> pc \<noteq> 0 \<and> g2 d (pc + 2) = sz \<and> seg d pc bs)"

definition chain :: "bytes \<Rightarrow> nat \<Rightarrow> (nat \<times> nat) list \<Rightarrow> bool" where
  "chain d a bs \<longleftrightarrow> seg d a bs \<and> g2 d (endp a bs) = 0"

text \<open>
  Freeblocks are at least four bytes long, inside the page, in ascending order, and two of them are
  at least four bytes apart.
\<close>

fun blocks_ok :: "nat \<Rightarrow> nat \<Rightarrow> (nat \<times> nat) list \<Rightarrow> bool" where
  "blocks_ok usable lo [] = True"
| "blocks_ok usable lo ((pc, sz) # bs) =
     (lo \<le> pc \<and> 4 \<le> sz \<and> pc + sz \<le> usable \<and> blocks_ok usable (pc + sz + 4) bs)"

definition region :: "nat \<times> nat \<Rightarrow> nat set" where
  "region b = {fst b..<fst b + snd b}"

definition regions :: "(nat \<times> nat) list \<Rightarrow> nat set" where
  "regions bs = \<Union> (region ` set bs)"

lemma regions_simps [simp]:
  "regions [] = {}" "regions (b # bs) = region b \<union> regions bs" "regions (xs @ ys) = regions xs \<union> regions ys"
  by (auto simp: regions_def)

lemma region_pair [simp]: "region (pc, sz) = {pc..<pc + sz}"
  by (simp add: region_def)

lemma endp_append [simp]: "endp a (xs @ ys) = endp (endp a xs) ys"
  by (induction a xs rule: endp.induct) auto

lemma seg_append [simp]: "seg d a (xs @ ys) \<longleftrightarrow> seg d a xs \<and> seg d (endp a xs) ys"
  by (induction d a xs rule: seg.induct) auto

lemma blocks_ok_mono: "blocks_ok u lo bs \<Longrightarrow> lo' \<le> lo \<Longrightarrow> blocks_ok u lo' bs"
  by (cases bs) auto

lemma blocks_ok_regions: "blocks_ok u lo bs \<Longrightarrow> regions bs \<subseteq> {lo..<u}"
proof (induction u lo bs rule: blocks_ok.induct)
  case (2 u lo pc sz bs)
  then have "regions bs \<subseteq> {pc + sz + 4..<u}" by simp
  with 2 show ?case by (auto dest: subsetD)
qed simp

definition sizes :: "(nat \<times> nat) list \<Rightarrow> nat" where
  "sizes bs = sum_list (map snd bs)"

lemma sizes_simps [simp]:
  "sizes [] = 0" "sizes ((pc, sz) # bs) = sz + sizes bs" "sizes (xs @ ys) = sizes xs + sizes ys"
  by (auto simp: sizes_def)

lemma finite_regions [simp]: "finite (regions bs)"
  by (auto simp: regions_def region_def)

lemma card_regions: "blocks_ok u lo bs \<Longrightarrow> card (regions bs) = sizes bs"
proof (induction u lo bs rule: blocks_ok.induct)
  case (2 u lo pc sz bs)
  then have "regions bs \<subseteq> {pc + sz + 4..<u}" using blocks_ok_regions by simp
  then have "{pc..<pc + sz} \<inter> regions bs = {}" by (auto dest: subsetD)
  with 2 show ?case by (simp add: card_Un_disjoint)
qed simp

lemma blocks_ok_append:
  "blocks_ok u lo (xs @ (pc, sz) # ys) \<longleftrightarrow>
     blocks_ok u lo xs \<and> lo \<le> pc \<and> (\<forall>b\<in>set xs. fst b + snd b + 4 \<le> pc) \<and>
     4 \<le> sz \<and> pc + sz \<le> u \<and> blocks_ok u (pc + sz + 4) ys"
proof (induction u lo xs rule: blocks_ok.induct)
  case (2 u lo p s bs)
  then show ?case by auto
qed simp

fun seg_foot :: "nat \<Rightarrow> (nat \<times> nat) list \<Rightarrow> nat set" where
  "seg_foot a [] = {}"
| "seg_foot a ((pc, sz) # bs) = {a, Suc a, pc + 2, Suc (pc + 2)} \<union> seg_foot pc bs"

lemma seg_same_on: "same_on S d d' \<Longrightarrow> seg_foot a bs \<subseteq> S \<Longrightarrow> seg d' a bs = seg d a bs"
proof (induction a bs rule: seg_foot.induct)
  case (2 a pc sz bs)
  then have "g2 d' a = g2 d a" "g2 d' (pc + 2) = g2 d (pc + 2)"
    by (auto intro!: g2_same_on [where S = S])
  with 2 show ?case by auto
qed simp

lemma seg_foot_subset:
  "blocks_ok u lo bs \<Longrightarrow> seg_foot a bs \<subseteq> {a, Suc a} \<union> regions bs"
proof (induction bs arbitrary: a lo)
  case (Cons b bs)
  obtain pc sz where b: "b = (pc, sz)" by fastforce
  have "seg_foot pc bs \<subseteq> {pc, Suc pc} \<union> regions bs"
    using Cons b by auto
  with Cons.prems b show ?case by auto
qed simp

lemma endp_bounds:
  "blocks_ok u lo bs \<Longrightarrow> endp a bs = a \<and> bs = [] \<or> {endp a bs, Suc (endp a bs)} \<subseteq> regions bs"
proof (induction bs arbitrary: a lo)
  case (Cons b bs)
  obtain pc sz where b: "b = (pc, sz)" by fastforce
  with Cons.IH [of "pc + sz + 4" pc] Cons.prems show ?case by auto
qed simp

lemma endp_not_foot:
  "blocks_ok u lo bs \<Longrightarrow> a + 2 \<le> lo \<Longrightarrow> {endp a bs, Suc (endp a bs)} \<inter> seg_foot a bs = {}"
proof (induction bs arbitrary: a lo)
  case (Cons b bs)
  obtain pc sz where b: "b = (pc, sz)" by fastforce
  have ok: "blocks_ok u (pc + sz + 4) bs" "4 \<le> sz" "lo \<le> pc"
    using Cons.prems b by auto
  have "{endp pc bs, Suc (endp pc bs)} \<inter> seg_foot pc bs = {}"
    using ok by (intro Cons.IH) auto
  moreover have "endp pc bs = pc \<or> pc + sz + 4 \<le> endp pc bs"
    using endp_bounds [OF ok(1), of pc] blocks_ok_regions [OF ok(1)] by auto
  ultimately show ?case
    using ok Cons.prems(2) b by auto
qed simp

fun first_pc :: "(nat \<times> nat) list \<Rightarrow> nat" where
  "first_pc [] = 0"
| "first_pc ((pc, sz) # bs) = pc"

text \<open>A chain without the pointer to its first block.\<close>

fun tail_ok :: "bytes \<Rightarrow> (nat \<times> nat) list \<Rightarrow> bool" where
  "tail_ok d [] = True"
| "tail_ok d ((pc, sz) # bs) = (pc \<noteq> 0 \<and> g2 d (pc + 2) = sz \<and> chain d pc bs)"

lemma chain_tail: "chain d a ys \<longleftrightarrow> g2 d a = first_pc ys \<and> tail_ok d ys"
  by (cases ys) (auto simp: chain_def)

lemma chain_append:
  "chain d a (xs @ ys) \<longleftrightarrow> seg d a xs \<and> g2 d (endp a xs) = first_pc ys \<and> tail_ok d ys"
proof -
  have "chain d a (xs @ ys) \<longleftrightarrow> seg d a xs \<and> chain d (endp a xs) ys"
    by (auto simp: chain_def)
  then show ?thesis by (simp add: chain_tail)
qed

lemma tail_ok_same_on:
  assumes "blocks_ok u lo ys" "same_on S d d'" "regions ys \<subseteq> S" "tail_ok d ys"
  shows "tail_ok d' ys"
proof (cases ys)
  case (Cons b bs)
  obtain pc sz where b: "b = (pc, sz)" by fastforce
  have ok: "blocks_ok u (pc + sz + 4) bs" "4 \<le> sz" using assms(1) Cons b by auto
  have r: "{pc..<pc + sz} \<subseteq> S" "regions bs \<subseteq> S" using assms(3) Cons b by auto
  have p: "pc \<in> S" "Suc pc \<in> S" "pc + 2 \<in> S" "Suc (pc + 2) \<in> S" using ok(2) r(1) by auto
  have foot: "seg_foot pc bs \<subseteq> S" using seg_foot_subset [OF ok(1), of pc] p r(2) by auto
  have "endp pc bs \<in> S \<and> Suc (endp pc bs) \<in> S"
    using endp_bounds [OF ok(1), of pc] p r(2) by auto
  then have "g2 d' (endp pc bs) = g2 d (endp pc bs)" "g2 d' (pc + 2) = g2 d (pc + 2)"
    using assms(2) p by (auto intro!: g2_same_on [where S = S])
  with seg_same_on [OF assms(2) foot] assms(4) Cons b show ?thesis
    by (simp add: chain_def)
qed simp

lemma first_pc_less: "blocks_ok u lo ys \<Longrightarrow> u \<le> 65536 \<Longrightarrow> first_pc ys < 65536"
  by (cases ys rule: first_pc.cases) auto

text \<open>Linking a new block between two parts of a chain.\<close>

lemma chain_link:
  assumes seg: "seg d a xs" and tl: "tail_ok d ys"
    and ok: "blocks_ok u lo (xs @ (s, z) # ys)" and a: "a + 2 \<le> lo" and u: "u \<le> length d" "u \<le> 65536"
    and lo: "0 < lo"
  shows "chain (p2 (p2 (p2 d (endp a xs) s) s (first_pc ys)) (s + 2) z) a (xs @ (s, z) # ys)"
    (is "chain ?d _ _")
proof -
  have o: "blocks_ok u lo xs" "lo \<le> s" "\<forall>b\<in>set xs. fst b + snd b + 4 \<le> s" "4 \<le> z" "s + z \<le> u"
    "blocks_ok u (s + z + 4) ys"
    using ok by (auto simp: blocks_ok_append)
  have rx: "regions xs \<subseteq> {lo..<s}" using o(1,3) blocks_ok_regions [OF o(1)] by (fastforce simp: regions_def region_def)
  have ry: "regions ys \<subseteq> {s + z + 4..<u}" using blocks_ok_regions [OF o(6)] .
  have e: "endp a xs = a \<or> lo \<le> endp a xs \<and> Suc (endp a xs) < s"
    using endp_bounds [OF o(1), of a] rx by auto
  then have e': "Suc (endp a xs) < s" using a o(2) by auto
  have foot: "seg_foot a xs \<inter> {endp a xs, Suc (endp a xs)} = {}" "seg_foot a xs \<subseteq> {..<s}"
    using endp_not_foot [OF o(1) a] seg_foot_subset [OF o(1), of a] rx a o(2) by fastforce+
  have same: "same_on (- {endp a xs, Suc (endp a xs)} - {s..<s + 4}) d ?d"
    by (intro same_on_trans [OF same_on_trans [OF same_on_p2 same_on_p2] same_on_p2]) auto
  have 1: "seg ?d a xs"
    using seg by (subst seg_same_on [OF same]) (use foot in auto)
  have "regions ys \<subseteq> - {endp a xs, Suc (endp a xs)} - {s..<s + 4}"
    using ry e' o(5) by fastforce
  then have 2: "tail_ok ?d ys"
    using tail_ok_same_on [OF o(6) same] tl by blast
  have fp: "first_pc ys < 65536" "s < 65536" "z < 65536"
    using first_pc_less [OF o(6) u(2)] o(2,4,5) u lo by linarith+
  have "g2 ?d (endp a xs) = s" "g2 ?d s = first_pc ys" "g2 ?d (s + 2) = z"
    using e' o(2,4,5) u(1) fp by (simp_all add: rw_simps)
  with 1 2 o(2) lo show ?thesis
    unfolding chain_append by (simp add: chain_tail)
qed

text \<open>Growing a block of a chain and replacing what follows it.\<close>

lemma chain_grow:
  assumes seg: "seg d a xs" "g2 d (endp a xs) = s" and tl: "tail_ok d ys"
    and ok: "blocks_ok u lo (xs @ (s, z) # ys)" and a: "a + 2 \<le> lo" and u: "u \<le> length d" "u \<le> 65536"
    and lo: "0 < lo"
  shows "chain (p2 (p2 (p2 d s s) s (first_pc ys)) (s + 2) z) a (xs @ (s, z) # ys)"
    (is "chain ?d _ _")
proof -
  have o: "blocks_ok u lo xs" "lo \<le> s" "\<forall>b\<in>set xs. fst b + snd b + 4 \<le> s" "4 \<le> z" "s + z \<le> u"
    "blocks_ok u (s + z + 4) ys"
    using ok by (auto simp: blocks_ok_append)
  have rx: "regions xs \<subseteq> {lo..<s}" using o(1,3) blocks_ok_regions [OF o(1)] by (fastforce simp: regions_def region_def)
  have ry: "regions ys \<subseteq> {s + z + 4..<u}" using blocks_ok_regions [OF o(6)] .
  have e': "Suc (endp a xs) < s" using endp_bounds [OF o(1), of a] rx a o(2) by auto
  have foot: "seg_foot a xs \<subseteq> {..<s}"
    using seg_foot_subset [OF o(1), of a] rx a o(2) by fastforce
  have same: "same_on (- {s..<s + 4}) d ?d"
    by (intro same_on_trans [OF same_on_trans [OF same_on_p2 same_on_p2] same_on_p2]) auto
  have 1: "seg ?d a xs"
    using seg(1) by (subst seg_same_on [OF same]) (use foot in auto)
  have "regions ys \<subseteq> - {s..<s + 4}"
    using ry by fastforce
  then have 2: "tail_ok ?d ys"
    using tail_ok_same_on [OF o(6) same] tl by blast
  have fp: "first_pc ys < 65536" "s < 65536" "z < 65536"
    using first_pc_less [OF o(6) u(2)] o(2,4,5) u lo by linarith+
  have "g2 ?d s = first_pc ys" "g2 ?d (s + 2) = z"
    using o(2,4,5) u(1) fp by (simp_all add: rw_simps)
  moreover have "g2 ?d (endp a xs) = s"
    using seg(2) e' by (subst g2_same_on [OF same]) auto
  ultimately show ?thesis
    using 1 2 o(2) lo unfolding chain_append by (simp add: chain_tail)
qed

section \<open>Space accounting\<close>

text \<open>The start of the cell content area; a stored zero stands for 65536.\<close>

definition content_top :: "nat \<Rightarrow> bytes \<Rightarrow> nat" where
  "content_top hdr d = get2byteNotZero (drop (hdr + 5) d)"

lemma content_top_g2: "content_top hdr d = (if g2 d (hdr + 5) = 0 then 65536 else g2 d (hdr + 5))"
  by (simp add: content_top_def g2_def get2byteNotZero_eq)

text \<open>
  The space invariant of a page whose cells occupy the bytes \<open>U\<close>: the freeblock chain \<open>bs\<close> and the
  cells are disjoint parts of the content area, no freeblock starts the content area, and the
  fragment count in the header is the number of bytes in neither.
\<close>

definition space_ok :: "nat \<Rightarrow> nat \<Rightarrow> nat \<Rightarrow> bytes \<Rightarrow> (nat \<times> nat) list \<Rightarrow> nat set \<Rightarrow> bool" where
  "space_ok usable hdr gap d bs U \<longleftrightarrow>
     usable \<le> length d \<and> usable \<le> 65536 \<and> hdr + 8 \<le> gap \<and> gap \<le> content_top hdr d \<and>
     content_top hdr d \<le> usable \<and> chain d (hdr + 1) bs \<and> blocks_ok usable (content_top hdr d + 1) bs \<and>
     U \<subseteq> {content_top hdr d..<usable} \<and> U \<inter> regions bs = {} \<and>
     g1 d (hdr + 7) = card ({content_top hdr d..<usable} - U - regions bs)"

text \<open>All bytes of the content area are accounted for.\<close>

lemma space_total:
  assumes "space_ok usable hdr gap d bs U"
  shows "g1 d (hdr + 7) + content_top hdr d + sizes bs + card U = usable"
proof -
  let ?A = "{content_top hdr d..<usable}"
  have b: "blocks_ok usable (content_top hdr d + 1) bs" "U \<subseteq> ?A" "U \<inter> regions bs = {}"
    "content_top hdr d \<le> usable" "g1 d (hdr + 7) = card (?A - U - regions bs)"
    using assms by (auto simp: space_ok_def)
  have r: "regions bs \<subseteq> ?A" using blocks_ok_regions [OF b(1)] by auto
  have "?A - U - regions bs = ?A - (U \<union> regions bs)" by auto
  moreover have "card (?A - (U \<union> regions bs)) = card ?A - card (U \<union> regions bs)"
    using b r finite_subset [OF b(2)] by (intro card_Diff_subset) auto
  moreover have "card (U \<union> regions bs) = card U + sizes bs"
    using b finite_subset [OF b(2)] card_regions [OF b(1)] by (simp add: card_Un_disjoint)
  moreover have "card (U \<union> regions bs) \<le> card ?A"
    using b r by (intro card_mono) auto
  ultimately show ?thesis using b(4,5) by simp
qed

text \<open>Every byte of the set lies in a run of four of its bytes.\<close>

definition thick :: "nat set \<Rightarrow> bool" where
  "thick V \<longleftrightarrow> (\<forall>k\<in>V. \<exists>s. s \<le> k \<and> k < s + 4 \<and> {s..<s + 4} \<subseteq> V)"

lemma thick_gap:
  assumes "thick V" "{e - 4..<e} \<inter> V = {}" "{q..<q + 4} \<inter> V = {}" "q \<le> e + 3" "e \<le> q"
  shows "{e..<q} \<inter> V = {}"
proof (rule ccontr)
  assume "{e..<q} \<inter> V \<noteq> {}"
  then obtain k where k: "e \<le> k" "k < q" "k \<in> V" by auto
  then obtain s where s: "s \<le> k" "k < s + 4" "{s..<s + 4} \<subseteq> V"
    using assms(1) by (auto simp: thick_def)
  have "s + 3 \<in> V" "s \<in> V" using s(3) by auto
  moreover have "s < e \<or> q \<le> s + 3" using k s assms by linarith
  ultimately show False
    using assms(2-5) k s(1,2) by fastforce
qed

section \<open>Freeing space\<close>

lemma freeSpace_find_chain:
  assumes "chain d a bs" "blocks_ok u lo bs" "a < lo" "0 < iStart"
  shows "\<exists>xs ys. bs = xs @ ys \<and> (\<forall>b\<in>set xs. fst b < iStart) \<and> (ys = [] \<or> iStart \<le> first_pc ys) \<and>
    freeSpace_find iStart d a = Some (endp a xs, first_pc ys)"
  using assms
proof (induction bs arbitrary: a lo)
  case Nil
  then have "g2 d a = 0" by (simp add: chain_def)
  then have "freeSpace_find iStart d a = Some (a, 0)"
    using Nil by (simp add: freeSpace_find.simps [of iStart d a])
  then show ?case by auto
next
  case (Cons b bs)
  obtain pc sz where b: "b = (pc, sz)" by fastforce
  have pc: "g2 d a = pc" "chain d pc bs" "a < pc" "blocks_ok u (pc + sz + 4) bs" "0 < pc"
    using Cons.prems b by (auto simp: chain_def)
  show ?case
  proof (cases "pc < iStart")
    case True
    obtain xs ys where r: "bs = xs @ ys" "\<forall>b\<in>set xs. fst b < iStart" "ys = [] \<or> iStart \<le> first_pc ys"
      "freeSpace_find iStart d pc = Some (endp pc xs, first_pc ys)"
      using Cons.IH [OF pc(2,4)] Cons.prems(4) by auto
    have "freeSpace_find iStart d a = freeSpace_find iStart d pc"
      using True pc by (simp add: freeSpace_find.simps [of iStart d a])
    with r True b show ?thesis by (intro exI [of _ "b # xs"] exI [of _ ys]) auto
  next
    case False
    then have "freeSpace_find iStart d a = Some (a, pc)"
      using pc by (simp add: freeSpace_find.simps [of iStart d a])
    with False b show ?thesis by (intro exI [of _ "[]"] exI [of _ "b # bs"]) auto
  qed
qed

lemma coalesce_next_spec:
  assumes tl: "tail_ok d ys" and ok: "blocks_ok u lo ys" and first: "ys = [] \<or> iStart + sz \<le> first_pc ys"
    and V: "thick V" "V \<inter> regions ys = {}" "V \<inter> {iStart..<iStart + sz} = {}" and sz: "4 \<le> sz" "iStart + sz \<le> u"
  shows "\<exists>iEnd ys'. coalesce_next u d iStart sz (iStart + sz) (first_pc ys) =
      Some (iEnd - iStart, iEnd, first_pc ys', card ({iStart + sz..<iEnd} - regions ys)) \<and>
    iStart + sz \<le> iEnd \<and> iEnd \<le> u \<and> blocks_ok u (iEnd + 4) ys' \<and> tail_ok d ys' \<and>
    regions ys \<union> {iStart + sz..<iEnd} = regions ys' \<union> {iStart + sz..<iEnd} \<and>
    regions ys' \<inter> {iStart + sz..<iEnd} = {} \<and> V \<inter> {iStart + sz..<iEnd} = {} \<and> regions ys' \<subseteq> regions ys"
proof (cases "ys \<noteq> [] \<and> iStart + sz + 3 \<ge> first_pc ys")
  case True
  then obtain q t ys' where y: "ys = (q, t) # ys'" "q \<le> iStart + sz + 3" by (cases ys) auto
  have q: "iStart + sz \<le> q" "4 \<le> t" "q + t \<le> u" "blocks_ok u (q + t + 4) ys'" "g2 d (q + 2) = t"
    "chain d q ys'" "q \<noteq> 0"
    using y ok tl first by auto
  have r: "regions ys' \<subseteq> {q + t + 4..<u}" using blocks_ok_regions [OF q(4)] .
  have n: "g2 d q = first_pc ys'" "tail_ok d ys'" using q(6) by (simp_all add: chain_tail)
  have hole: "{iStart + sz..<q + t} - regions ys = {iStart + sz..<q}"
    using y q r by (auto dest: subsetD)
  have "{iStart + sz..<q} \<inter> V = {}"
  proof (rule thick_gap [OF V(1)])
    show "{iStart + sz - 4..<iStart + sz} \<inter> V = {}" using V(3) sz by fastforce
    show "{q..<q + 4} \<inter> V = {}" using V(2) y q by fastforce
  qed (use y q in auto)
  moreover have "V \<inter> {q..<q + t} = {}" using V(2) y by auto
  ultimately have "V \<inter> {iStart + sz..<q + t} = {}" using q by fastforce
  moreover have "coalesce_next u d iStart sz (iStart + sz) (first_pc ys) =
      Some (q + t - iStart, q + t, first_pc ys', card ({iStart + sz..<q + t} - regions ys))"
    unfolding hole using y q n by (simp add: coalesce_next_def Let_def)
  moreover have "regions ys' \<inter> {iStart + sz..<q + t} = {}"
    using r by (auto dest: subsetD)
  ultimately show ?thesis
    using q n y by (intro exI [of _ "q + t"] exI [of _ ys']) auto
next
  case False
  have "coalesce_next u d iStart sz (iStart + sz) (first_pc ys) =
      Some (sz, iStart + sz, first_pc ys, 0)"
    using False tl by (cases ys rule: first_pc.cases) (auto simp: coalesce_next_def)
  moreover have "blocks_ok u (iStart + sz + 4) ys"
    using False ok by (cases ys rule: first_pc.cases) auto
  ultimately show ?thesis using tl sz by (intro exI [of _ "iStart + sz"] exI [of _ ys]) auto
qed

lemma coalesce_prev_spec:
  assumes seg: "seg d (hdr + 1) xs" and ok: "blocks_ok u lo xs" and lo: "hdr + 1 < lo"
    and last: "\<forall>b\<in>set xs. fst b + snd b \<le> iStart"
    and V: "thick V" "V \<inter> regions xs = {}" "V \<inter> {iStart..<iEnd} = {}" and sz: "iStart + 4 \<le> iEnd"
  shows "\<exists>iStart' xs'. coalesce_prev hdr d (endp (hdr + 1) xs) iStart (iEnd - iStart) iEnd n =
      Some (iStart', iEnd - iStart', n + card ({iStart'..<iStart} - regions xs)) \<and>
    (xs' = xs \<and> iStart' = iStart \<and> (\<forall>b\<in>set xs. fst b + snd b + 4 \<le> iStart) \<or>
     (\<exists>s. xs = xs' @ [(iStart', s)])) \<and> iStart' \<le> iStart \<and>
    V \<inter> {iStart'..<iStart} = {} \<and> regions xs \<union> {iStart'..<iStart} = regions xs' \<union> {iStart'..<iStart} \<and>
    regions xs' \<inter> {iStart'..<iStart} = {}"
proof (cases xs rule: rev_cases)
  case Nil
  then show ?thesis
    by (intro exI [of _ iStart] exI [of _ xs]) (simp add: coalesce_prev_def)
next
  case (snoc xs' b)
  obtain p s where b: "b = (p, s)" by fastforce
  have x: "xs = xs' @ (p, s) # []" using snoc b by simp
  have o: "blocks_ok u lo xs'" "lo \<le> p" "\<forall>b\<in>set xs'. fst b + snd b + 4 \<le> p" "4 \<le> s"
    using ok unfolding x by (auto simp only: blocks_ok_append)
  have e: "endp (hdr + 1) xs = p" "g2 d (p + 2) = s" "p + s \<le> iStart" using seg last snoc b by auto
  show ?thesis
  proof (cases "p + s + 3 \<ge> iStart")
    case True
    have r: "regions xs' \<subseteq> {..<p}" using o(3) by (fastforce simp: regions_def region_def)
    have hole: "{p..<iStart} - regions xs = {p + s..<iStart}"
      using x r by fastforce
    have "{p + s..<iStart} \<inter> V = {}"
    proof (rule thick_gap [OF V(1)])
      show "{p + s - 4..<p + s} \<inter> V = {}" using V(2) x o(4) by fastforce
      show "{iStart..<iStart + 4} \<inter> V = {}" using V(3) sz by fastforce
    qed (use True e in auto)
    moreover have "V \<inter> {p..<p + s} = {}" using V(2) x by auto
    moreover have "{p..<iStart} = {p..<p + s} \<union> {p + s..<iStart}" using e(3) by auto
    ultimately have "V \<inter> {p..<iStart} = {}" by auto
    moreover have "coalesce_prev hdr d (endp (hdr + 1) xs) iStart (iEnd - iStart) iEnd n =
        Some (p, iEnd - p, n + card ({p..<iStart} - regions xs))"
      unfolding hole using True e o lo by (simp add: coalesce_prev_def)
    moreover have "regions xs' \<inter> {p..<iStart} = {}" using r by fastforce
    ultimately show ?thesis
      using x e by (intro exI [of _ p] exI [of _ xs']) auto
  next
    case False
    then have "coalesce_prev hdr d (endp (hdr + 1) xs) iStart (iEnd - iStart) iEnd n =
        Some (iStart, iEnd - iStart, n)"
      using e by (simp add: coalesce_prev_def)
    moreover have "\<forall>b\<in>set xs. fst b + snd b + 4 \<le> iStart"
      using x o e False by auto
    ultimately show ?thesis
      by (intro exI [of _ iStart] exI [of _ xs]) simp
  qed
qed

lemma content_top_same_on:
  "same_on S d d' \<Longrightarrow> {hdr + 5, hdr + 6} \<subseteq> S \<Longrightarrow> content_top hdr d' = content_top hdr d"
  using g2_same_on [of S d d' "hdr + 5"] by (simp add: content_top_g2 add.commute)

lemma content_top_p2:
  assumes "hdr + 6 < length d" "0 < v" "v \<le> 65536"
  shows "content_top hdr (p2 d (hdr + 5) v) = v"
  using assms by (cases "v = 65536") (auto simp: content_top_g2 g2_p2)

text \<open>
  The final writes, for a block \<open>{iStart..<iEnd}\<close> that comes between the parts \<open>xs\<close> and \<open>ys\<close> of the
  chain: either the content area shrinks, or the block is linked in.
\<close>

lemma freeSpace_write_top:
  assumes ok: "blocks_ok u (iEnd + 4) ys" "tail_ok d ys" "iEnd \<le> u" "u \<le> length d" "u \<le> 65536"
    and x: "content_top hdr d = iStart" "iStart < iEnd" "hdr + 8 \<le> iStart"
    and usz: "z = iEnd - iStart"
  obtains d' where "freeSpace_write pBt hdr d (hdr + 1) iStart z iEnd (first_pc ys) = (SQLITE_OK, d')"
    "chain d' (hdr + 1) ys" "content_top hdr d' = iEnd" "length d' = length d"
    "same_on (- {hdr + 1, hdr + 2, hdr + 5, hdr + 6} - {iStart..<iEnd}) d d'"
proof -
  let ?dz = "if fastSecure pBt then memzero d iStart z else d"
  let ?d' = "p2 (p2 ?dz (hdr + 1) (first_pc ys)) (hdr + 5) iEnd"
  have g: "g2 d (hdr + 5) = iStart" using x ok by (auto simp: content_top_g2 split: if_splits)
  have s0: "same_on (- {hdr + 1, hdr + 2, hdr + 5, hdr + 6} - {iStart..<iEnd}) d ?dz"
    by (auto intro!: same_on_memzero simp: usz)
  have s: "same_on (- {hdr + 1, hdr + 2, hdr + 5, hdr + 6} - {iStart..<iEnd}) d ?d'"
    by (rule same_on_trans [OF same_on_trans [OF s0 same_on_p2] same_on_p2]) auto
  have y: "regions ys \<subseteq> {iEnd + 4..<u}" using blocks_ok_regions [OF ok(1)] .
  have "tail_ok ?d' ys"
    by (rule tail_ok_same_on [OF ok(1) s _ ok(2)]) (use y x in fastforce)
  moreover have "g2 ?d' (hdr + 1) = first_pc ys"
    using first_pc_less [OF ok(1,5)] x ok by (simp add: rw_simps)
  ultimately have "chain ?d' (hdr + 1) ys" by (simp add: chain_tail)
  moreover have "content_top hdr ?d' = iEnd"
    using x ok by (intro content_top_p2) auto
  moreover have "freeSpace_write pBt hdr d (hdr + 1) iStart z iEnd (first_pc ys) = (SQLITE_OK, ?d')"
    by (simp add: freeSpace_write_def g Let_def)
  ultimately show thesis using that s by simp
qed

lemma freeSpace_write_link:
  assumes ok: "blocks_ok u lo (xs' @ (iStart, iEnd - iStart) # ys)" "hdr + 8 < lo"
      "tail_ok d ys" "u \<le> length d" "u \<le> 65536"
    and xs: "seg d (hdr + 1) xs" "xs' = xs \<or> (\<exists>s. xs = xs' @ [(iStart, s)])"
    and x: "content_top hdr d < iStart" "hdr + 8 \<le> content_top hdr d" and usz: "z = iEnd - iStart"
  obtains d' where "freeSpace_write pBt hdr d (endp (hdr + 1) xs) iStart z iEnd (first_pc ys) = (SQLITE_OK, d')"
    "chain d' (hdr + 1) (xs' @ (iStart, iEnd - iStart) # ys)" "length d' = length d"
    "same_on (- {hdr + 1, hdr + 2} - regions xs - {iStart..<iEnd}) d d'"
proof -
  let ?dz = "if fastSecure pBt then memzero d iStart z else d"
  let ?d' = "p2 (p2 (p2 ?dz (endp (hdr + 1) xs) iStart) iStart (first_pc ys)) (iStart + 2) z"
  have g: "g2 d (hdr + 5) < iStart" using x by (auto simp: content_top_g2 split: if_splits)
  have o: "blocks_ok u lo xs'" "lo \<le> iStart" "4 \<le> iEnd - iStart" "\<forall>b\<in>set xs'. fst b + snd b + 4 \<le> iStart"
    "blocks_ok u (iEnd + 4) ys" "iEnd \<le> u"
    using ok(1) by (auto simp: blocks_ok_append)
  have s0: "same_on (- {iStart..<iEnd}) d ?dz"
    by (auto intro!: same_on_memzero simp: usz)
  have ry: "regions ys \<subseteq> {iEnd + 4..<u}" using blocks_ok_regions [OF o(5)] .
  have tl: "tail_ok ?dz ys"
    by (rule tail_ok_same_on [OF o(5) s0 _ ok(3)]) (use ry in fastforce)
  have rx: "regions xs' \<subseteq> {lo..<iStart}"
    using o(4) blocks_ok_regions [OF o(1)] by (fastforce simp: regions_def region_def)
  have foot: "seg_foot (hdr + 1) xs' \<subseteq> - {iStart..<iEnd}"
    using seg_foot_subset [OF o(1), of "hdr + 1"] rx ok(2) o(2) by fastforce
  have end': "{endp (hdr + 1) xs', Suc (endp (hdr + 1) xs')} \<subseteq> - {iStart..<iEnd}"
    using endp_bounds [OF o(1), of "hdr + 1"] rx ok(2) o(2) by fastforce
  have sg: "seg ?dz (hdr + 1) xs'"
    using xs by (subst seg_same_on [OF s0 foot]) auto
  have len: "u \<le> length ?dz" using ok(4) by simp
  have ch: "chain ?d' (hdr + 1) (xs' @ (iStart, iEnd - iStart) # ys)"
  proof (cases "xs' = xs")
    case True
    show ?thesis
      using chain_link [OF sg tl ok(1) _ len ok(5)] ok(2) True usz by simp
  next
    case False
    then obtain s where xs2: "xs = xs' @ [(iStart, s)]" using xs(2) by auto
    have "g2 ?dz (endp (hdr + 1) xs') = g2 d (endp (hdr + 1) xs')"
      using end' by (intro g2_same_on [OF s0]) auto
    with xs(1) xs2 have "g2 ?dz (endp (hdr + 1) xs') = iStart" by simp
    from chain_grow [OF sg this tl ok(1) _ len ok(5)] ok(2) xs2 usz show ?thesis by simp
  qed
  have endx: "{endp (hdr + 1) xs, Suc (endp (hdr + 1) xs)} \<subseteq> {hdr + 1, hdr + 2} \<union> regions xs \<union> {iStart..<iEnd}"
  proof (cases "xs' = xs")
    case True
    then show ?thesis using endp_bounds [OF o(1), of "hdr + 1"] by auto
  next
    case False
    then show ?thesis using xs(2) o(3) by auto
  qed
  have "same_on (- {hdr + 1, hdr + 2} - regions xs - {iStart..<iEnd}) d ?d'"
    using endx o(3)
    by (intro same_on_trans [OF same_on_trans [OF same_on_trans [OF same_on_mono [OF s0] same_on_p2] same_on_p2] same_on_p2])
      auto
  moreover have "freeSpace_write pBt hdr d (endp (hdr + 1) xs) iStart z iEnd (first_pc ys) = (SQLITE_OK, ?d')"
    using g by (simp add: freeSpace_write_def Let_def)
  ultimately show thesis using that ch by simp
qed

lemma blocks_ok_split:
  "blocks_ok u lo (xs @ ys) \<Longrightarrow> blocks_ok u lo xs \<and> (\<exists>lo'\<ge>lo. blocks_ok u lo' ys)"
proof (induction u lo xs rule: blocks_ok.induct)
  case (2 u lo pc sz bs)
  then obtain lo' where "blocks_ok u (pc + sz + 4) bs" "pc + sz + 4 \<le> lo'" "blocks_ok u lo' ys" by auto
  with 2 show ?case by (auto intro!: exI [of _ lo'])
qed auto

lemma blocks_ok_size: "blocks_ok u lo bs \<Longrightarrow> b \<in> set bs \<Longrightarrow> 4 \<le> snd b \<and> lo \<le> fst b \<and> fst b + snd b \<le> u"
  by (induction u lo bs rule: blocks_ok.induct) auto

lemma disjoint_ivl_iff: "{a..<b} \<inter> {c..<d :: nat} = {} \<longleftrightarrow> b \<le> a \<or> d \<le> c \<or> b \<le> c \<or> d \<le> a"
  by auto

text \<open>The bytes that freeing or allocating space may change: free space and five header bytes.\<close>

abbreviation hdr_vars :: "nat \<Rightarrow> nat set" where
  "hdr_vars hdr \<equiv> {hdr + 1, hdr + 2, hdr + 5, hdr + 6, hdr + 7}"

definition kept :: "nat \<Rightarrow> nat \<Rightarrow> nat \<Rightarrow> bytes \<Rightarrow> nat set \<Rightarrow> nat set" where
  "kept usable hdr gap d V = V \<union> ({..<gap} - hdr_vars hdr) \<union> {usable..}"

lemma seg_p1:
  assumes "blocks_ok u lo xs" "seg d a xs" "i < a \<or> Suc a < i" "i < lo"
  shows "seg (p1 d i v) a xs"
proof -
  have "seg_foot a xs \<subseteq> - {i}"
    using seg_foot_subset [OF assms(1), of a] blocks_ok_regions [OF assms(1)] assms(3,4) by fastforce
  then show ?thesis
    using assms(2) seg_same_on [OF same_on_p1, of i "- {i}" a xs d v] by simp
qed

lemma tail_p1:
  assumes "blocks_ok u lo ys" "tail_ok d ys" "i < lo"
  shows "tail_ok (p1 d i v) ys"
proof (rule tail_ok_same_on [OF assms(1)])
  show "same_on (- {i}) d (p1 d i v)" by (rule same_on_p1) simp
  show "regions ys \<subseteq> - {i}" using blocks_ok_regions [OF assms(1)] assms(3) by fastforce
qed (rule assms(2))

lemma p1_g1 [simp]: "p1 d i (g1 d i) = d"
  by (simp add: p1_def g1_def byte_at_def list_update_beyond)

text \<open>What the search and the two coalescing steps of \<open>freeSpace\<close> find.\<close>

lemma freeSpace_plan:
  assumes ok: "space_ok usable hdr gap d bs U" and N: "{iStart..<iStart + iSize} \<subseteq> U" "4 \<le> iSize"
    and V: "V = U - {iStart..<iStart + iSize}" "thick V" and ct: "ct = content_top hdr d"
  obtains xs ys xs' ys' iStart' iEnd n2 G where
    "bs = xs @ ys" "freeSpace_find iStart d (hdr + 1) = Some (endp (hdr + 1) xs, first_pc ys)"
    "coalesce_next usable d iStart iSize (iStart + iSize) (first_pc ys) =
       Some (iEnd - iStart, iEnd, first_pc ys', n2)"
    "coalesce_prev hdr d (endp (hdr + 1) xs) iStart (iEnd - iStart) iEnd n2 =
       Some (iStart', iEnd - iStart', card G)"
    "seg d (hdr + 1) xs" "tail_ok d ys'" "G \<subseteq> {ct..<usable} - U - regions bs"
    "xs' = xs \<and> iStart' = iStart \<or> (\<exists>s. xs = xs' @ [(iStart', s)])"
    "blocks_ok usable (ct + 1) xs'" "\<forall>b\<in>set xs'. fst b + snd b + 4 \<le> iStart'"
    "blocks_ok usable (iEnd + 4) ys'" "ct \<le> iStart'" "iStart' \<le> iStart" "iStart + iSize \<le> iEnd" "iEnd \<le> usable"
    "regions xs' \<union> {iStart'..<iEnd} \<union> regions ys' = regions bs \<union> {iStart..<iStart + iSize} \<union> G"
    "V \<inter> {iStart'..<iEnd} = {}" "V \<inter> (regions xs' \<union> regions ys') = {}" "iStart' = ct \<longrightarrow> xs = [] \<and> iStart' = iStart"
proof -
  let ?A = "{ct..<usable}"
  let ?N = "{iStart..<iStart + iSize}"
  have u: "usable \<le> length d" "usable \<le> 65536" "hdr + 8 \<le> gap" "gap \<le> ct" "ct \<le> usable"
    and ch: "chain d (hdr + 1) bs" and bo: "blocks_ok usable (ct + 1) bs"
    and U: "U \<subseteq> ?A" "U \<inter> regions bs = {}" and fr: "g1 d (hdr + 7) = card (?A - U - regions bs)"
    using ok [unfolded space_ok_def] ct by auto
  have "iStart \<in> ?N" "iStart + iSize - 1 \<in> ?N" using N(2) by auto
  then have "iStart \<in> ?A" "iStart + iSize - 1 \<in> ?A" using N(1) U(1) by blast+
  then have st: "ct \<le> iStart" "iStart + iSize \<le> usable" using N(2) by auto
  obtain xs ys where xy: "bs = xs @ ys" "\<forall>b\<in>set xs. fst b < iStart" "ys = [] \<or> iStart \<le> first_pc ys"
    and find: "freeSpace_find iStart d (hdr + 1) = Some (endp (hdr + 1) xs, first_pc ys)"
    using freeSpace_find_chain [OF ch bo, of iStart] u st by auto
  have parts: "seg d (hdr + 1) xs" "tail_ok d ys"
    using ch unfolding xy(1) chain_append by auto
  have Vd: "V \<inter> regions xs = {}" "V \<inter> regions ys = {}" "V \<inter> ?N = {}" "?N \<inter> regions bs = {}"
    using V(1) U(2) N(1) xy(1) by auto
  have box: "blocks_ok usable (ct + 1) xs" "\<exists>lo. blocks_ok usable lo ys"
    using blocks_ok_split [of usable "ct + 1" xs ys] bo xy(1) by auto
  obtain lo where boy: "blocks_ok usable lo ys" using box(2) ..
  have disj: "fst b + snd b \<le> iStart \<or> iStart + iSize \<le> fst b" if "b \<in> set bs" for b
  proof -
    have "?N \<inter> region b = {}" using Vd(4) that by (auto simp: regions_def)
    moreover have "0 < snd b" using blocks_ok_size [OF bo that] by simp
    ultimately show ?thesis using N(2) by (auto simp: region_def disjoint_ivl_iff)
  qed
  have first: "ys = [] \<or> iStart + iSize \<le> first_pc ys"
  proof (cases ys)
    case (Cons b ys')
    moreover from Cons xy(1) have "b \<in> set bs" by simp
    ultimately show ?thesis using disj [of b] xy(3) N(2) blocks_ok_size [OF bo] by (cases b) fastforce
  qed simp
  obtain iEnd ys' where nx: "coalesce_next usable d iStart iSize (iStart + iSize) (first_pc ys) =
      Some (iEnd - iStart, iEnd, first_pc ys', card ({iStart + iSize..<iEnd} - regions ys))"
    "iStart + iSize \<le> iEnd" "iEnd \<le> usable" "blocks_ok usable (iEnd + 4) ys'" "tail_ok d ys'"
    "regions ys \<union> {iStart + iSize..<iEnd} = regions ys' \<union> {iStart + iSize..<iEnd}"
    "V \<inter> {iStart + iSize..<iEnd} = {}" "regions ys' \<subseteq> regions ys"
    using coalesce_next_spec [OF parts(2) boy first V(2) Vd(2,3) N(2) st(2)] by blast
  have last: "\<forall>b\<in>set xs. fst b + snd b \<le> iStart"
    using disj xy(1,2) by fastforce
  have VM: "V \<inter> {iStart..<iEnd} = {}"
  proof -
    have "{iStart..<iEnd} = ?N \<union> {iStart + iSize..<iEnd}" using nx(2) by auto
    then show ?thesis using Vd(3) nx(7) by auto
  qed
  let ?n2 = "card ({iStart + iSize..<iEnd} - regions ys)"
  obtain iStart' xs' where pv: "coalesce_prev hdr d (endp (hdr + 1) xs) iStart (iEnd - iStart) iEnd ?n2 =
      Some (iStart', iEnd - iStart', ?n2 + card ({iStart'..<iStart} - regions xs))"
    "xs' = xs \<and> iStart' = iStart \<and> (\<forall>b\<in>set xs. fst b + snd b + 4 \<le> iStart) \<or> (\<exists>s. xs = xs' @ [(iStart', s)])"
    "iStart' \<le> iStart" "V \<inter> {iStart'..<iStart} = {}"
    "regions xs \<union> {iStart'..<iStart} = regions xs' \<union> {iStart'..<iStart}"
    using coalesce_prev_spec [OF parts(1) box(1) _ last V(2) Vd(1) VM, of ?n2] u nx(2) N(2) by auto
  let ?G = "({iStart + iSize..<iEnd} - regions ys) \<union> ({iStart'..<iStart} - regions xs)"
  have cardG: "?n2 + card ({iStart'..<iStart} - regions xs) = card ?G"
    by (subst card_Un_disjoint) auto
  have rx: "regions xs \<subseteq> {ct + 1..<iStart}"
    using last blocks_ok_regions [OF box(1)] by (fastforce simp: regions_def region_def)
  have ry: "regions ys \<subseteq> {iStart + iSize..<usable}"
  proof (cases ys)
    case (Cons b ys'')
    then have "blocks_ok usable (iStart + iSize) ys" using first boy by (cases b) auto
    then show ?thesis by (rule blocks_ok_regions)
  qed simp
  have above: "\<forall>b\<in>set xs. ct < fst b \<and> fst b < iStart"
    using blocks_ok_size [OF box(1)] xy(2) by fastforce
  then have ct': "ct \<le> iStart'" "iStart' = ct \<longrightarrow> xs = [] \<and> iStart' = iStart"
    using pv(2) st(1) by (cases xs; fastforce)+
  have X: "regions xs' \<union> {iStart'..<iEnd} \<union> regions ys' = regions bs \<union> ?N \<union> ?G"
  proof -
    have "{iStart'..<iEnd} = {iStart'..<iStart} \<union> ?N \<union> {iStart + iSize..<iEnd}"
      using pv(3) nx(2) by auto
    then show ?thesis using pv(5) nx(6) xy(1) by auto
  qed
  have G: "?G \<subseteq> ?A - U - regions bs"
  proof
    fix k assume k: "k \<in> ?G"
    have "k \<in> ?A" using k st ct' pv(3) nx(2,3) by auto
    moreover have "k \<notin> V" using k nx(7) pv(4) by blast
    moreover have "k \<notin> ?N" using k by auto
    moreover have "k \<notin> regions bs" using k rx ry nx(2) pv(3) unfolding xy(1) by fastforce
    ultimately show "k \<in> ?A - U - regions bs" using V(1) by auto
  qed
  have xs': "blocks_ok usable (ct + 1) xs'" "\<forall>b\<in>set xs'. fst b + snd b + 4 \<le> iStart'"
    using pv(2) box(1) by (fastforce simp: blocks_ok_append)+
  have xs'_sub: "regions xs' \<subseteq> regions xs" using pv(2) by auto
  show thesis
  proof (rule that [OF xy(1) find nx(1) pv(1) [unfolded cardG] parts(1) nx(5) G _ xs' nx(4) ct'(1) pv(3) nx(2,3) X _ _ ct'(2)])
    show "xs' = xs \<and> iStart' = iStart \<or> (\<exists>s. xs = xs' @ [(iStart', s)])" using pv(2) by blast
    have "{iStart'..<iEnd} = {iStart'..<iStart} \<union> {iStart..<iEnd}" using pv(3) nx(2) by auto
    then show "V \<inter> {iStart'..<iEnd} = {}" using pv(4) VM by auto
    show "V \<inter> (regions xs' \<union> regions ys') = {}" using xs'_sub nx(8) Vd(1,2) by auto
  qed
qed

lemma freeSpace_eq:
  assumes find: "freeSpace_find iStart d (hdr + 1) = Some (iPtr, fb)" "fb + 4 \<le> usable"
    and nx: "coalesce_next usable d iStart iSize (iStart + iSize) fb = Some (z, iEnd, fb', n2)"
    and pv: "coalesce_prev hdr d iPtr iStart z iEnd n2 = Some (iStart', z', n)" "n \<le> g1 d (hdr + 7)"
    and pg: "aData pPage = d" "hdrOffset pPage = hdr" "usableSize pBt = usable" and pos: "0 < iStart"
    and wr: "freeSpace_write pBt hdr (p1 d (hdr + 7) (g1 d (hdr + 7) - n)) iPtr iStart' z' iEnd fb' = (SQLITE_OK, d')"
  shows "freeSpace pBt pPage iStart iSize =
    (SQLITE_OK, pPage\<lparr>aData := d', nFree := nFree pPage + int iSize\<rparr>)"
proof (cases "g2 d (hdr + 1) = 0")
  case True
  have f: "iPtr = hdr + 1" "fb = 0"
    using find(1) True pos unfolding freeSpace_find.simps [of iStart d "hdr + 1"] by auto
  have z: "z = iSize" "iEnd = iStart + iSize" "fb' = 0" "n2 = 0" using nx f by (auto simp: coalesce_next_def)
  have "iStart' = iStart" "z' = iSize" "n = 0" using pv f z by (auto simp: coalesce_prev_def)
  with True wr f z show ?thesis
    using g2_zero_iff [of d "hdr + 1"] by (simp add: freeSpace_def pg)
next
  case False
  then show ?thesis
    using assms g2_zero_iff [of d "hdr + 1"] by (auto simp: freeSpace_def Let_def pg)
qed

lemma freeSpace_space:
  assumes ok: "space_ok usable hdr gap d bs U" and N: "{iStart..<iStart + iSize} \<subseteq> U" "4 \<le> iSize"
    and V: "V = U - {iStart..<iStart + iSize}" "thick V"
    and pg: "aData pPage = d" "hdrOffset pPage = hdr" "usableSize pBt = usable"
  obtains d' bs' where
    "freeSpace pBt pPage iStart iSize = (SQLITE_OK, pPage\<lparr>aData := d', nFree := nFree pPage + int iSize\<rparr>)"
    "space_ok usable hdr gap d' bs' V" "length d' = length d" "same_on (kept usable hdr gap d V) d d'"
proof -
  define ct where "ct = content_top hdr d"
  let ?A = "{ct..<usable}"
  have u: "usable \<le> length d" "usable \<le> 65536" "hdr + 8 \<le> gap" "gap \<le> ct" "ct \<le> usable"
    and bo: "blocks_ok usable (ct + 1) bs"
    and U: "U \<subseteq> ?A" "U \<inter> regions bs = {}" and fr: "g1 d (hdr + 7) = card (?A - U - regions bs)"
    using ok [unfolded space_ok_def] ct_def by auto
  obtain xs ys xs' ys' iStart' iEnd n2 G where plan:
    "bs = xs @ ys" "freeSpace_find iStart d (hdr + 1) = Some (endp (hdr + 1) xs, first_pc ys)"
    "coalesce_next usable d iStart iSize (iStart + iSize) (first_pc ys) =
       Some (iEnd - iStart, iEnd, first_pc ys', n2)"
    "coalesce_prev hdr d (endp (hdr + 1) xs) iStart (iEnd - iStart) iEnd n2 =
       Some (iStart', iEnd - iStart', card G)"
    "seg d (hdr + 1) xs" "tail_ok d ys'" "G \<subseteq> {ct..<usable} - U - regions bs"
    "xs' = xs \<and> iStart' = iStart \<or> (\<exists>s. xs = xs' @ [(iStart', s)])"
    "blocks_ok usable (ct + 1) xs'" "\<forall>b\<in>set xs'. fst b + snd b + 4 \<le> iStart'"
    "blocks_ok usable (iEnd + 4) ys'" "ct \<le> iStart'" "iStart' \<le> iStart" "iStart + iSize \<le> iEnd" "iEnd \<le> usable"
    "regions xs' \<union> {iStart'..<iEnd} \<union> regions ys' = regions bs \<union> {iStart..<iStart + iSize} \<union> G"
    "V \<inter> {iStart'..<iEnd} = {}" "V \<inter> (regions xs' \<union> regions ys') = {}" "iStart' = ct \<longrightarrow> xs = [] \<and> iStart' = iStart"
    by (rule freeSpace_plan [OF ok N V ct_def])
  let ?X = "regions xs' \<union> {iStart'..<iEnd} \<union> regions ys'"
  let ?n = "g1 d (hdr + 7) - card G"
  let ?d1 = "p1 d (hdr + 7) ?n"
  have bx: "blocks_ok usable (ct + 1) xs" using blocks_ok_split bo plan(1) by auto
  have cardG: "card G \<le> g1 d (hdr + 7)" "card (?A - V - ?X) = ?n"
  proof -
    have fin: "finite (?A - U - regions bs)" by simp
    show "card G \<le> g1 d (hdr + 7)" using fr plan(7) fin by (simp add: card_mono)
    have "?A - V - ?X = (?A - U - regions bs) - G"
      unfolding plan(16) using V(1) N(1) by auto
    then show "card (?A - V - ?X) = ?n"
      using fr plan(7) fin finite_subset [OF plan(7) fin] by (simp add: card_Diff_subset)
  qed
  have d1: "length ?d1 = length d" "content_top hdr ?d1 = ct" "seg ?d1 (hdr + 1) xs" "tail_ok ?d1 ys'"
    "g1 ?d1 (hdr + 7) = ?n"
  proof -
    show "content_top hdr ?d1 = ct" by (simp add: content_top_g2 rw_simps ct_def)
    show "seg ?d1 (hdr + 1) xs" by (rule seg_p1 [OF bx plan(5)]) (use u in auto)
    show "tail_ok ?d1 ys'" by (rule tail_p1 [OF plan(11,6)]) (use u plan(12-15) in auto)
    show "g1 ?d1 (hdr + 7) = ?n"
      using u g1_less [of d "hdr + 7"] by (subst g1_p1) auto
  qed simp
  have s1: "same_on (- {hdr + 7}) d ?d1" by (rule same_on_p1) simp
  have fb: "first_pc ys + 4 \<le> usable"
    using blocks_ok_split [of usable "ct + 1" xs ys] bo plan(1) u by (cases ys rule: first_pc.cases) auto
  have VA: "V \<subseteq> ?A" using V(1) U(1) by auto
  note eq = freeSpace_eq [OF plan(2) fb plan(3,4) cardG(1) pg]
  have pos: "0 < iStart" using u plan(12,13) by simp
  show thesis
  proof (cases "iStart' = ct")
    case True
    then have x: "xs = []" "iStart = ct" using plan(19) by auto
    have xs'': "xs' = []" "iStart' = iStart" using plan(8) x True by auto
    obtain d' where w: "freeSpace_write pBt hdr ?d1 (hdr + 1) iStart (iEnd - iStart) iEnd (first_pc ys') = (SQLITE_OK, d')"
      "chain d' (hdr + 1) ys'" "content_top hdr d' = iEnd" "length d' = length d"
      "same_on (- {hdr + 1, hdr + 2, hdr + 5, hdr + 6} - {iStart..<iEnd}) ?d1 d'"
      using freeSpace_write_top [OF plan(11) d1(4) plan(15), of hdr iStart "iEnd - iStart" pBt]
        d1 u x N(2) plan(14) by auto
    have s2: "same_on (- hdr_vars hdr - {iStart..<iEnd}) d d'"
      by (rule same_on_trans [OF same_on_mono [OF s1] same_on_mono [OF w(5)]]) auto
    have "{iEnd..<usable} - V - regions ys' = ?A - V - ?X"
      using xs'' x plan(14) by auto
    moreover have "g1 d' (hdr + 7) = ?n"
      using g1_same_on [OF w(5), of "hdr + 7"] d1(5) x u by auto
    ultimately have frag: "g1 d' (hdr + 7) = card ({iEnd..<usable} - V - regions ys')" using cardG(2) by simp
    have "V \<subseteq> {iEnd..<usable}"
      using VA plan(17) unfolding xs''(2) x(2) by fastforce
    then have "space_ok usable hdr gap d' ys' V"
      using u w frag plan(11,14,15,18) x blocks_ok_mono [OF plan(11), of "iEnd + 1"]
      by (auto simp: space_ok_def)
    moreover have "kept usable hdr gap d V \<subseteq> - hdr_vars hdr - {iStart..<iEnd}"
      using plan(15,17) VA u x xs'' unfolding kept_def by fastforce
    moreover have "freeSpace pBt pPage iStart iSize =
        (SQLITE_OK, pPage\<lparr>aData := d', nFree := nFree pPage + int iSize\<rparr>)"
      using eq pos w(1) x xs'' by simp
    ultimately show thesis using that s2 w(4) same_on_mono by blast
  next
    case False
    let ?bs = "xs' @ (iStart', iEnd - iStart') # ys'"
    have blk: "blocks_ok usable (ct + 1) ?bs"
      using plan(9-15) False N(2) by (auto simp: blocks_ok_append)
    obtain d' where w: "freeSpace_write pBt hdr ?d1 (endp (hdr + 1) xs) iStart' (iEnd - iStart') iEnd (first_pc ys') = (SQLITE_OK, d')"
      "chain d' (hdr + 1) ?bs" "length d' = length d"
      "same_on (- {hdr + 1, hdr + 2} - regions xs - {iStart'..<iEnd}) ?d1 d'"
      by (rule freeSpace_write_link [OF blk _ d1(4) _ u(2) d1(3), where z = "iEnd - iStart'" and pBt = pBt])
        (use plan(8,12) False d1 u in auto)
    have rx: "regions xs \<subseteq> {ct + 1..<usable}" using blocks_ok_regions [OF bx] .
    have s2: "same_on (- {hdr + 1, hdr + 2, hdr + 7} - regions xs - {iStart'..<iEnd}) d d'"
      by (rule same_on_trans [OF same_on_mono [OF s1] same_on_mono [OF w(4)]]) auto
    have above: "k \<notin> regions xs \<union> {iStart'..<iEnd}" if "k < ct" for k
      using that rx plan(12) by auto
    have "content_top hdr d' = ct"
      using content_top_same_on [OF w(4), of hdr] d1(2) above u by simp
    moreover have "g1 d' (hdr + 7) = ?n"
      using g1_same_on [OF w(4), of "hdr + 7"] d1(5) above u by simp
    moreover have "?A - V - regions ?bs = ?A - V - ?X" using plan(13-15) by auto
    moreover have "V \<inter> regions ?bs = {}"
      using plan(13-15,17,18) by auto
    ultimately have "space_ok usable hdr gap d' ?bs V"
      using u w(2,3) blk VA cardG(2) by (simp add: space_ok_def)
    moreover have "kept usable hdr gap d V \<subseteq> - {hdr + 1, hdr + 2, hdr + 7} - regions xs - {iStart'..<iEnd}"
    proof -
      have "V \<inter> regions xs = {}" using V(1) U(2) plan(1) by auto
      then show ?thesis using plan(12-15,17) VA u rx unfolding kept_def by fastforce
    qed
    moreover have "freeSpace pBt pPage iStart iSize =
        (SQLITE_OK, pPage\<lparr>aData := d', nFree := nFree pPage + int iSize\<rparr>)"
      using eq pos w(1) by simp
    ultimately show thesis using that s2 w(3) same_on_mono by blast
  qed
qed

section \<open>Allocating space\<close>

lemma memmove_2: "pc + 2 \<le> length d \<Longrightarrow> memmove d i pc 2 = p2 d i (g2 d pc)"
proof -
  assume l: "pc + 2 \<le> length d"
  have "subbytes d pc 2 = [byte_at d pc, byte_at d (Suc pc)]"
    using l by (simp add: subbytes_byte_at upt_rec)
  moreover have "put2byte (g2 d pc) = [byte_at d pc, byte_at d (Suc pc)]"
  proof -
    have "(g2 d pc) div 256 = unat (byte_at d pc)"
      by (simp add: g2_byte_at)
    moreover have "(word_of_nat (g2 d pc) :: u8) = word_of_nat (unat (byte_at d (Suc pc)))"
      by (rule word_of_nat_eq_iff [THEN iffD2]) (simp add: take_bit_eq_mod g2_byte_at)
    ultimately show ?thesis by (simp add: put2byte_def)
  qed
  ultimately show ?thesis by (simp add: memmove_def p2_def)
qed

text \<open>What the search of the freelist finds: nothing, an exact fit to unlink, or a block to shrink.\<close>

lemma pageFindSlot_loop_cases:
  assumes "chain d a (xs @ ys)" "blocks_ok usable lo (xs @ ys)" "ys \<noteq> []" "nByte \<le> usable"
  shows "pageFindSlot_loop hdr nByte (usable - nByte) d (endp a xs) (first_pc ys) = (SQLITE_OK, None, d) \<or>
    (\<exists>xs' pc sz ys'. xs @ ys = xs' @ (pc, sz) # ys' \<and> nByte \<le> sz \<and>
      (sz < nByte + 4 \<and> g1 d (hdr + 7) \<le> 57 \<and>
       pageFindSlot_loop hdr nByte (usable - nByte) d (endp a xs) (first_pc ys) =
         (let d = memmove d (endp a xs') pc 2
          in (SQLITE_OK, Some pc, p1 d (hdr + 7) (g1 d (hdr + 7) + (sz - nByte)))) \<or>
       nByte + 4 \<le> sz \<and>
       pageFindSlot_loop hdr nByte (usable - nByte) d (endp a xs) (first_pc ys) =
         (SQLITE_OK, Some (pc + (sz - nByte)), p2 d (pc + 2) (sz - nByte))))"
  using assms
proof (induction ys arbitrary: xs)
  case (Cons b ys)
  obtain pc sz where b: "b = (pc, sz)" by fastforce
  have c: "g2 d (pc + 2) = sz" "g2 d pc = first_pc ys" "pc \<noteq> 0"
    using Cons.prems(1) unfolding b chain_append by (auto simp: chain_tail)
  have o: "4 \<le> sz" "pc + sz \<le> usable" "blocks_ok usable (pc + sz + 4) ys"
    using Cons.prems(2) b by (auto simp: blocks_ok_append)
  note unf = pageFindSlot_loop.simps [of hdr nByte "usable - nByte" d "endp a xs" pc]
  consider (off) "usable - nByte < pc" | (small) "pc \<le> usable - nByte" "sz < nByte"
    | (fit) "pc \<le> usable - nByte" "nByte \<le> sz" by linarith
  then show ?case
  proof cases
    case off
    then show ?thesis using o Cons.prems(4) b unfolding first_pc.simps b unf by auto
  next
    case small
    show ?thesis
    proof (cases ys)
      case Nil
      then show ?thesis using small c b unfolding b first_pc.simps unf by simp
    next
      case (Cons b' ys')
      have gt: "pc < first_pc ys" using o(3) Cons by (cases b') auto
      have step: "pageFindSlot_loop hdr nByte (usable - nByte) d (endp a xs) pc =
          pageFindSlot_loop hdr nByte (usable - nByte) d (endp a (xs @ [b])) (first_pc ys)"
        unfolding unf using small c gt b by simp
      have bb: "xs @ b # ys = (xs @ [b]) @ ys" by simp
      show ?thesis
        unfolding b first_pc.simps step [unfolded b]
        using Cons.IH [of "xs @ [b]"] Cons.prems Cons b by simp
    qed
  next
    case fit
    show ?thesis
    proof (cases "sz < nByte + 4")
      case True
      show ?thesis
      proof (cases "g1 d (hdr + 7) > 57")
        case True
        then show ?thesis using fit \<open>sz < nByte + 4\<close> c b unfolding b first_pc.simps unf
          by (intro disjI1) (simp add: Let_def)
      next
        case False
        then show ?thesis using fit True c b unfolding b first_pc.simps unf
          by (intro disjI2 exI [of _ xs] exI [of _ pc] exI [of _ sz] exI [of _ ys]) (auto simp: Let_def)
      qed
    next
      case False
      then show ?thesis using fit c b o unfolding b first_pc.simps unf
        by (intro disjI2 exI [of _ xs] exI [of _ pc] exI [of _ sz] exI [of _ ys]) (auto simp: Let_def)
    qed
  qed
qed simp

lemma blocks_ok_drop:
  assumes "blocks_ok u lo (xs @ b # ys)"
  shows "blocks_ok u lo (xs @ ys)"
  using assms
proof (induction u lo xs rule: blocks_ok.induct)
  case (1 u lo)
  then show ?case by (cases b) (auto intro: blocks_ok_mono)
qed auto

text \<open>Unlinking a block: its first \<open>nByte\<close> bytes are allocated, the rest becomes fragments.\<close>

lemma unlink_space:
  assumes ok: "space_ok usable hdr gap d (xs @ (pc, sz) # ys) U" and n: "nByte \<le> sz" "sz < nByte + 4"
    and fr: "g1 d (hdr + 7) \<le> 57"
    and d': "d' = p1 (p2 d (endp (hdr + 1) xs) (first_pc ys)) (hdr + 7) (g1 d (hdr + 7) + (sz - nByte))"
  shows "space_ok usable hdr gap d' (xs @ ys) (U \<union> {pc..<pc + nByte})"
    "same_on (kept usable hdr gap d U) d d'" "length d' = length d"
proof -
  define ct where "ct = content_top hdr d"
  let ?A = "{ct..<usable}" and ?a = "hdr + 1"
  have u: "usable \<le> length d" "usable \<le> 65536" "hdr + 8 \<le> gap" "gap \<le> ct" "ct \<le> usable"
    and ch: "chain d ?a (xs @ (pc, sz) # ys)" and bo: "blocks_ok usable (ct + 1) (xs @ (pc, sz) # ys)"
    and U: "U \<subseteq> ?A" "U \<inter> regions (xs @ (pc, sz) # ys) = {}"
    and fr': "g1 d (hdr + 7) = card (?A - U - regions (xs @ (pc, sz) # ys))"
    using ok [unfolded space_ok_def] ct_def by auto
  have o: "blocks_ok usable (ct + 1) xs" "ct + 1 \<le> pc" "\<forall>b\<in>set xs. fst b + snd b + 4 \<le> pc" "pc + sz \<le> usable"
    "blocks_ok usable (pc + sz + 4) ys" "4 \<le> sz"
    using bo by (auto simp: blocks_ok_append)
  have parts: "seg d ?a xs" "tail_ok d ys" using ch unfolding chain_append by (auto simp: chain_tail)
  have rx: "regions xs \<subseteq> {ct + 1..<pc}"
    using o(3) blocks_ok_regions [OF o(1)] by (fastforce simp: regions_def region_def)
  have ry: "regions ys \<subseteq> {pc + sz + 4..<usable}" using blocks_ok_regions [OF o(5)] .
  have e: "endp ?a xs = ?a \<and> xs = [] \<or> {endp ?a xs, Suc (endp ?a xs)} \<subseteq> regions xs" by (rule endp_bounds [OF o(1)])
  let ?S = "- {endp ?a xs, Suc (endp ?a xs), hdr + 7}"
  have same: "same_on ?S d d'"
    unfolding d' by (rule same_on_trans [OF same_on_p2 same_on_p1]) auto
  have foot: "seg_foot ?a xs \<subseteq> ?S"
  proof -
    have "seg_foot ?a xs \<subseteq> {?a, Suc ?a} \<union> regions xs" by (rule seg_foot_subset [OF o(1)])
    moreover have "{endp ?a xs, Suc (endp ?a xs)} \<inter> seg_foot ?a xs = {}"
      by (rule endp_not_foot [OF o(1)]) (use u in auto)
    moreover have "hdr + 7 \<notin> {?a, Suc ?a} \<union> regions xs" using rx u by auto
    ultimately show ?thesis by auto
  qed
  have s: "seg d' ?a xs" using parts(1) seg_same_on [OF same foot] by simp
  have t: "tail_ok d' ys"
    by (rule tail_ok_same_on [OF o(5) same _ parts(2)]) (use ry e rx u o in fastforce)
  have ne: "hdr + 7 \<noteq> endp ?a xs" "hdr + 7 \<noteq> Suc (endp ?a xs)" "Suc (endp ?a xs) < length d"
    "hdr + 5 \<noteq> endp ?a xs" "hdr + 5 \<noteq> Suc (endp ?a xs)" "hdr + 6 \<noteq> endp ?a xs"
    using e rx u o by auto
  have "g2 d' (endp ?a xs) = first_pc ys"
    using ne first_pc_less [OF o(5) u(2)] unfolding d' by (simp add: rw_simps)
  with s t have chain: "chain d' ?a (xs @ ys)" by (simp add: chain_append)
  have ct': "content_top hdr d' = ct"
    using ne unfolding d' ct_def by (simp add: content_top_g2 rw_simps)
  have bo': "blocks_ok usable (ct + 1) (xs @ ys)"
    by (rule blocks_ok_drop [OF bo])
  let ?R = "{pc..<pc + sz}"
  have "?A - (U \<union> {pc..<pc + nByte}) - regions (xs @ ys) =
      (?A - U - regions (xs @ (pc, sz) # ys)) \<union> {pc + nByte..<pc + sz}"
    using U(2) rx ry o n by (fastforce simp: disjoint_iff)
  moreover have "card ((?A - U - regions (xs @ (pc, sz) # ys)) \<union> {pc + nByte..<pc + sz}) =
      g1 d (hdr + 7) + (sz - nByte)"
    using fr' by (subst card_Un_disjoint) auto
  moreover have "g1 d' (hdr + 7) = g1 d (hdr + 7) + (sz - nByte)"
    using n fr u ne unfolding d' by (simp add: g1_p1)
  ultimately have frag: "g1 d' (hdr + 7) = card (?A - (U \<union> {pc..<pc + nByte}) - regions (xs @ ys))" by simp
  have disj: "(U \<union> {pc..<pc + nByte}) \<inter> regions (xs @ ys) = {}"
    using U(2) rx ry n by fastforce
  show len: "length d' = length d" by (simp add: d')
  show "space_ok usable hdr gap d' (xs @ ys) (U \<union> {pc..<pc + nByte})"
    unfolding space_ok_def ct' using u len chain bo' U(1) disj frag o n by auto
  show "same_on (kept usable hdr gap d U) d d'"
    by (rule same_on_mono [OF same]) (use U u e rx o in \<open>auto simp: kept_def\<close>)
qed

text \<open>Shrinking a block: its last \<open>nByte\<close> bytes are allocated.\<close>

lemma shrink_space:
  assumes ok: "space_ok usable hdr gap d (xs @ (pc, sz) # ys) U" and n: "nByte + 4 \<le> sz"
    and d': "d' = p2 d (pc + 2) (sz - nByte)"
  shows "space_ok usable hdr gap d' (xs @ (pc, sz - nByte) # ys) (U \<union> {pc + (sz - nByte)..<pc + sz})"
    "same_on (kept usable hdr gap d U) d d'" "length d' = length d"
proof -
  define ct where "ct = content_top hdr d"
  let ?A = "{ct..<usable}" and ?a = "hdr + 1"
  have u: "usable \<le> length d" "usable \<le> 65536" "hdr + 8 \<le> gap" "gap \<le> ct" "ct \<le> usable"
    and ch: "chain d ?a (xs @ (pc, sz) # ys)" and bo: "blocks_ok usable (ct + 1) (xs @ (pc, sz) # ys)"
    and U: "U \<subseteq> ?A" "U \<inter> regions (xs @ (pc, sz) # ys) = {}"
    and fr': "g1 d (hdr + 7) = card (?A - U - regions (xs @ (pc, sz) # ys))"
    using ok [unfolded space_ok_def] ct_def by auto
  have o: "blocks_ok usable (ct + 1) xs" "ct + 1 \<le> pc" "\<forall>b\<in>set xs. fst b + snd b + 4 \<le> pc" "pc + sz \<le> usable"
    "blocks_ok usable (pc + sz + 4) ys" "4 \<le> sz"
    using bo by (auto simp: blocks_ok_append)
  have parts: "seg d ?a xs" "g2 d (endp ?a xs) = pc" "g2 d pc = first_pc ys" "tail_ok d ys" "pc \<noteq> 0"
    using ch unfolding chain_append by (auto simp: chain_tail)
  have rx: "regions xs \<subseteq> {ct + 1..<pc}"
    using o(3) blocks_ok_regions [OF o(1)] by (fastforce simp: regions_def region_def)
  have ry: "regions ys \<subseteq> {pc + sz + 4..<usable}" using blocks_ok_regions [OF o(5)] .
  have e: "endp ?a xs = ?a \<and> xs = [] \<or> {endp ?a xs, Suc (endp ?a xs)} \<subseteq> regions xs" by (rule endp_bounds [OF o(1)])
  have same: "same_on (- {pc + 2, pc + 3}) d d'"
    unfolding d' by (rule same_on_p2) auto
  have foot: "seg_foot ?a xs \<subseteq> - {pc + 2, pc + 3}"
    using seg_foot_subset [OF o(1), of ?a] rx u o(2) by fastforce
  have "seg d' ?a xs" using parts(1) seg_same_on [OF same foot] by simp
  moreover have "tail_ok d' ys"
    by (rule tail_ok_same_on [OF o(5) same _ parts(4)]) (use ry o in fastforce)
  moreover have "g2 d' (endp ?a xs) = pc" "g2 d' pc = first_pc ys"
    using parts e rx u o by (auto intro!: trans [OF g2_same_on [OF same]])
  moreover have "g2 d' (pc + 2) = sz - nByte"
    using u o unfolding d' by (subst g2_p2) auto
  ultimately have chain: "chain d' ?a (xs @ (pc, sz - nByte) # ys)"
    using parts(5) unfolding chain_append by (simp add: chain_tail)
  have ct': "content_top hdr d' = ct"
    unfolding ct_def by (rule content_top_same_on [OF same]) (use u o in auto)
  have bo': "blocks_ok usable (ct + 1) (xs @ (pc, sz - nByte) # ys)"
    using o n blocks_ok_mono [OF o(5)] by (auto simp: blocks_ok_append)
  let ?N = "{pc + (sz - nByte)..<pc + sz}"
  have split: "{pc..<pc + sz} = {pc..<pc + (sz - nByte)} \<union> ?N" by auto
  have "?A - (U \<union> ?N) - regions (xs @ (pc, sz - nByte) # ys) = ?A - U - regions (xs @ (pc, sz) # ys)"
    using split by auto
  moreover have "g1 d' (hdr + 7) = g1 d (hdr + 7)"
    by (rule g1_same_on [OF same]) (use u o in auto)
  ultimately have frag: "g1 d' (hdr + 7) = card (?A - (U \<union> ?N) - regions (xs @ (pc, sz - nByte) # ys))"
    using fr' by simp
  have disj: "(U \<union> ?N) \<inter> regions (xs @ (pc, sz - nByte) # ys) = {}"
  proof -
    have "?N \<inter> regions xs = {}" "?N \<inter> regions ys = {}" using rx ry n by fastforce+
    then show ?thesis using U(2) split by auto
  qed
  show len: "length d' = length d" by (simp add: d')
  show "space_ok usable hdr gap d' (xs @ (pc, sz - nByte) # ys) (U \<union> ?N)"
    unfolding space_ok_def ct' using u len chain bo' U(1) disj frag o n by auto
  have "U \<inter> {pc..<pc + sz} = {}" using U(2) by auto
  then have "pc + 2 \<notin> U" "pc + 3 \<notin> U" using o(6) by auto
  then show "same_on (kept usable hdr gap d U) d d'"
    by (intro same_on_mono [OF same]) (use u o in \<open>auto simp: kept_def\<close>)
qed

text \<open>Taking the bytes from the gap between the cell pointers and the cell content.\<close>

lemma gap_space:
  assumes ok: "space_ok usable hdr gap d bs U" and n: "gap' + nByte \<le> content_top hdr d" "gap \<le> gap'"
    and d': "d' = p2 d (hdr + 5) (content_top hdr d - nByte)"
  shows "space_ok usable hdr gap' d' bs (U \<union> {content_top hdr d - nByte..<content_top hdr d})"
    "same_on (kept usable hdr gap d U) d d'" "length d' = length d"
proof -
  define ct where "ct = content_top hdr d"
  let ?A = "{ct..<usable}" and ?a = "hdr + 1"
  have u: "usable \<le> length d" "usable \<le> 65536" "hdr + 8 \<le> gap" "gap \<le> ct" "ct \<le> usable"
    and ch: "chain d ?a bs" and bo: "blocks_ok usable (ct + 1) bs"
    and U: "U \<subseteq> ?A" "U \<inter> regions bs = {}" and fr': "g1 d (hdr + 7) = card (?A - U - regions bs)"
    using ok [unfolded space_ok_def] ct_def by auto
  have same: "same_on (- {hdr + 5, hdr + 6}) d d'" unfolding d' by (rule same_on_p2) auto
  have r: "regions bs \<subseteq> {ct + 1..<usable}" using blocks_ok_regions [OF bo] .
  have "tail_ok d' bs"
    by (rule tail_ok_same_on [OF bo same]) (use r u ch in \<open>auto simp: chain_tail\<close>)
  moreover have "g2 d' ?a = g2 d ?a" by (rule g2_same_on [OF same]) auto
  ultimately have chain: "chain d' ?a bs" using ch by (simp add: chain_tail)
  have ct': "content_top hdr d' = ct - nByte"
    unfolding d' ct_def [symmetric] by (rule content_top_p2) (use u n in \<open>auto simp: ct_def\<close>)
  let ?N = "{ct - nByte..<ct}"
  have "{ct - nByte..<usable} - (U \<union> ?N) - regions bs = ?A - U - regions bs"
    using u by auto
  moreover have "g1 d' (hdr + 7) = g1 d (hdr + 7)" by (rule g1_same_on [OF same]) auto
  ultimately have frag: "g1 d' (hdr + 7) = card ({ct - nByte..<usable} - (U \<union> ?N) - regions bs)"
    using fr' by simp
  have bo': "blocks_ok usable (ct - nByte + 1) bs" by (rule blocks_ok_mono [OF bo]) simp
  have disj: "(U \<union> ?N) \<inter> regions bs = {}" using U(2) r by fastforce
  have bnd: "gap' \<le> ct - nByte" "ct - nByte \<le> usable" using n u by (auto simp: ct_def)
  have sub: "U \<union> ?N \<subseteq> {ct - nByte..<usable}" using U(1) u by fastforce
  show len: "length d' = length d" by (simp add: d')
  show "space_ok usable hdr gap' d' bs (U \<union> {content_top hdr d - nByte..<content_top hdr d})"
    unfolding space_ok_def ct' ct_def [symmetric]
    using u len chain bo' sub disj frag bnd n(2) by simp
  show "same_on (kept usable hdr gap d U) d d'"
    by (rule same_on_mono [OF same]) (use u U in \<open>auto simp: kept_def\<close>)
qed

lemma space_ok_gap: "space_ok usable hdr gap d bs U \<Longrightarrow> gap \<le> gap' \<Longrightarrow> gap' \<le> content_top hdr d \<Longrightarrow>
    space_ok usable hdr gap' d bs U"
  by (auto simp: space_ok_def)

text \<open>
  What \<open>allocateSpace\<close> guarantees: \<open>nByte\<close> bytes that belonged to no cell, past the room for one more
  cell pointer, with the invariant kept and all cells untouched.
\<close>

definition alloc_post ::
    "nat \<Rightarrow> nat \<Rightarrow> nat \<Rightarrow> nat \<Rightarrow> mempage \<Rightarrow> nat set \<Rightarrow> rc \<times> nat \<times> mempage \<Rightarrow> bool" where
  "alloc_post usable hdr gap nByte pPage U r \<longleftrightarrow> (\<exists>idx d' bs'.
     r = (SQLITE_OK, idx, pPage\<lparr>aData := d'\<rparr>) \<and> gap + 2 \<le> idx \<and> idx + nByte \<le> usable \<and>
     {idx..<idx + nByte} \<inter> U = {} \<and> space_ok usable hdr (gap + 2) d' bs' (U \<union> {idx..<idx + nByte}) \<and>
     length d' = length (aData pPage) \<and> same_on (kept usable hdr gap (aData pPage) U) (aData pPage) d')"

lemma alloc_postI:
  assumes "space_ok usable hdr (gap + 2) d' bs' (U \<union> {idx..<idx + nByte})" "{idx..<idx + nByte} \<inter> U = {}"
    "gap + 2 \<le> idx" "0 < nByte" "length d' = length (aData pPage)"
    "same_on (kept usable hdr gap (aData pPage) U) (aData pPage) d'"
  shows "alloc_post usable hdr gap nByte pPage U (SQLITE_OK, idx, pPage\<lparr>aData := d'\<rparr>)"
proof -
  have "idx + nByte - 1 \<in> {content_top hdr d'..<usable}"
    using assms(1,4) by (auto simp: space_ok_def)
  then show ?thesis using assms unfolding alloc_post_def by fastforce
qed

lemma allocate_gap_space:
  assumes ok: "space_ok usable hdr gap (aData pPage) bs U" and n: "gap + 2 + nByte \<le> content_top hdr (aData pPage)" "0 < nByte"
    and pg: "hdrOffset pPage = hdr"
  shows "alloc_post usable hdr gap nByte pPage U
    (allocate_gap pBt pPage nByte gap (content_top hdr (aData pPage)))"
proof -
  let ?ct = "content_top hdr (aData pPage)"
  let ?d' = "p2 (aData pPage) (hdr + 5) (?ct - nByte)"
  have n1: "gap + 2 + nByte \<le> ?ct" "gap \<le> gap + 2" using n by auto
  note sp = gap_space [OF ok n1 refl]
  have e: "?ct - nByte + nByte = ?ct" using n by simp
  have U: "U \<subseteq> {?ct..<usable}" using ok by (simp add: space_ok_def)
  have "alloc_post usable hdr gap nByte pPage U (SQLITE_OK, ?ct - nByte, pPage\<lparr>aData := ?d'\<rparr>)"
    by (rule alloc_postI) (use sp n U in \<open>auto simp: e\<close>)
  moreover have "allocate_gap pBt pPage nByte gap ?ct = (SQLITE_OK, ?ct - nByte, pPage\<lparr>aData := ?d'\<rparr>)"
    using n pg by (simp add: allocate_gap_def Let_def)
  ultimately show ?thesis by simp
qed

lemma pageFindSlot_space:
  assumes ok: "space_ok usable hdr gap (aData pPage) bs U" and n: "0 < nByte" "nByte \<le> usable"
    and pg: "hdrOffset pPage = hdr" "usableSize pBt = usable" and room: "gap + 2 \<le> content_top hdr (aData pPage)"
    and ne: "bs \<noteq> []" and r: "pageFindSlot pBt pPage nByte = (rc, res, d')"
  shows "rc = SQLITE_OK \<and> (case res of None \<Rightarrow> d' = aData pPage
    | Some g \<Rightarrow> gap < g \<and> alloc_post usable hdr gap nByte pPage U (SQLITE_OK, g, pPage\<lparr>aData := d'\<rparr>))"
proof -
  let ?d = "aData pPage"
  have ch: "chain ?d (hdr + 1) ([] @ bs)" and bo: "blocks_ok usable (content_top hdr ?d + 1) ([] @ bs)"
    and U: "U \<inter> regions bs = {}" "usable \<le> length ?d"
    using ok by (auto simp: space_ok_def)
  have first: "g2 ?d (hdr + 1) = first_pc bs" using ch by (simp add: chain_tail)
  have r': "pageFindSlot_loop hdr nByte (usable - nByte) ?d (endp (hdr + 1) []) (first_pc bs) = (rc, res, d')"
    using r pg first by (simp add: pageFindSlot_def)
  note ok2 = space_ok_gap [OF ok _ room]
  consider (none) "rc = SQLITE_OK" "res = None" "d' = ?d"
    | (unlink) xs' pc sz ys' where "bs = xs' @ (pc, sz) # ys'" "nByte \<le> sz" "sz < nByte + 4" "g1 ?d (hdr + 7) \<le> 57"
        "rc = SQLITE_OK" "res = Some pc"
        "d' = p1 (memmove ?d (endp (hdr + 1) xs') pc 2) (hdr + 7)
           (g1 (memmove ?d (endp (hdr + 1) xs') pc 2) (hdr + 7) + (sz - nByte))"
    | (shrink) xs' pc sz ys' where "bs = xs' @ (pc, sz) # ys'" "nByte + 4 \<le> sz"
        "rc = SQLITE_OK" "res = Some (pc + (sz - nByte))" "d' = p2 ?d (pc + 2) (sz - nByte)"
    using pageFindSlot_loop_cases [OF ch bo ne n(2), of hdr] r' by (auto simp: Let_def)
  then show ?thesis
  proof cases
    case none
    then show ?thesis by simp
  next
    case unlink
    have o: "content_top hdr ?d + 1 \<le> pc" "pc + sz \<le> usable" "g2 ?d pc = first_pc ys'"
      "blocks_ok usable (content_top hdr ?d + 1) xs'" "4 \<le> sz"
      using bo ch unfolding append_Nil unlink(1) chain_append by (auto simp: blocks_ok_append chain_tail)
    have "hdr + 7 \<noteq> endp (hdr + 1) xs' \<and> hdr + 7 \<noteq> Suc (endp (hdr + 1) xs')"
      using endp_bounds [OF o(4), of "hdr + 1"] blocks_ok_regions [OF o(4)] ok by (auto simp: space_ok_def)
    then have d': "d' = p1 (p2 ?d (endp (hdr + 1) xs') (first_pc ys')) (hdr + 7) (g1 ?d (hdr + 7) + (sz - nByte))"
      using unlink(7) o U(2) unlink(2) n by (simp add: memmove_2 g1_p2_other)
    note sp = unlink_space [OF ok2 [unfolded unlink(1)] unlink(2-4) d'] unlink_space [OF ok [unfolded unlink(1)] unlink(2-4) d']
    have "{pc..<pc + nByte} \<inter> U = {}" using U(1) unlink(1,2) by fastforce
    then have "alloc_post usable hdr gap nByte pPage U (SQLITE_OK, pc, pPage\<lparr>aData := d'\<rparr>)"
      using sp o(1) room n by (intro alloc_postI) auto
    then show ?thesis using unlink o(1) room by simp
  next
    case shrink
    have o: "content_top hdr ?d + 1 \<le> pc" "pc + sz \<le> usable"
      using bo unfolding append_Nil shrink(1) by (auto simp: blocks_ok_append)
    note sp = shrink_space [OF ok2 [unfolded shrink(1)] shrink(2,5)] shrink_space [OF ok [unfolded shrink(1)] shrink(2,5)]
    have e: "pc + (sz - nByte) + nByte = pc + sz" using shrink(2) by simp
    have "{pc + (sz - nByte)..<pc + sz} \<inter> U = {}" using U(1) shrink(1) by fastforce
    then have "alloc_post usable hdr gap nByte pPage U (SQLITE_OK, pc + (sz - nByte), pPage\<lparr>aData := d'\<rparr>)"
      using sp o(1) room n e by (intro alloc_postI) auto
    then show ?thesis using shrink o(1) room by simp
  qed
qed

text \<open>Either the allocation succeeds in place or the page has to be defragmented.\<close>

lemma allocateSpace_space:
  assumes ok: "space_ok usable hdr gap (aData pPage) bs U" and n: "0 < nByte" "nByte \<le> usable"
    and pg: "hdrOffset pPage = hdr" "usableSize pBt = usable" "cellOffset pPage + 2 * nCell pPage = gap"
  shows "alloc_post usable hdr gap nByte pPage U (allocateSpace pBt pPage nByte) \<or>
    content_top hdr (aData pPage) < gap + 2 + nByte \<and>
    allocateSpace pBt pPage nByte = allocate_gap pBt pPage nByte gap (content_top hdr (aData pPage))"
proof -
  let ?d = "aData pPage" and ?ct = "content_top hdr (aData pPage)"
  have c: "gap \<le> ?ct" "?ct \<le> usable" "usable \<le> 65536" "chain ?d (hdr + 1) bs" "0 < gap"
    "blocks_ok usable (?ct + 1) bs" using ok by (auto simp: space_ok_def)
  have first: "g2 ?d (hdr + 1) = 0 \<longleftrightarrow> bs = []"
    using c(4,6) by (cases bs rule: first_pc.cases) (auto simp: chain_tail)
  have rest: "alloc_post usable hdr gap nByte pPage U (allocate_gap pBt pPage nByte gap ?ct) \<or> ?ct < gap + 2 + nByte"
    using allocate_gap_space [OF ok _ n(1) pg(1), of pBt] by fastforce
  have ct: "(if gap > g2 ?d (hdr + 5) \<and> g2 ?d (hdr + 5) = 0 \<and> usable = 65536 then 65536 else g2 ?d (hdr + 5)) = ?ct"
    "\<not> (gap > g2 ?d (hdr + 5) \<and> \<not> (g2 ?d (hdr + 5) = 0 \<and> usable = 65536))"
    "\<not> (\<not> gap > g2 ?d (hdr + 5) \<and> usable < g2 ?d (hdr + 5))"
    using c by (auto simp: content_top_g2 split: if_splits)
  show ?thesis
  proof (cases "bs \<noteq> [] \<and> gap + 2 \<le> ?ct")
    case True
    obtain rc res d' where r: "pageFindSlot pBt pPage nByte = (rc, res, d')" by (cases "pageFindSlot pBt pPage nByte")
    note f = pageFindSlot_space [OF ok n pg(1,2) _ _ r]
    show ?thesis
    proof (cases res)
      case None
      then have "allocateSpace pBt pPage nByte = allocate_gap pBt pPage nByte gap ?ct"
        using f True r first ct g2_zero_iff [of ?d "hdr + 1"] by (auto simp: allocateSpace_def pg Let_def)
      with rest show ?thesis by auto
    next
      case (Some g)
      then have "allocateSpace pBt pPage nByte = (SQLITE_OK, g, pPage\<lparr>aData := d'\<rparr>)"
        using f True r first ct g2_zero_iff [of ?d "hdr + 1"] by (auto simp: allocateSpace_def pg Let_def)
      with f True Some show ?thesis by auto
    qed
  next
    case False
    then have "allocateSpace pBt pPage nByte = allocate_gap pBt pPage nByte gap ?ct"
      using first ct g2_zero_iff [of ?d "hdr + 1"] unfolding allocateSpace_def pg Let_def by auto
    with rest show ?thesis by auto
  qed
qed

end
