(* ===== verification/PageCells.thy ===== *)
theory PageCells
  imports PageSpace
begin

text \<open>
  The cells of a page.  \<open>page_repr pBt pPage cs bs\<close> says that a page stores the cells \<open>cs\<close> in this
  order, reached through its cell pointer array, and has the freeblocks \<open>bs\<close>; all bytes of the cell
  content area are cells, freeblocks or counted fragments.  The lemmas show that dropping a cell,
  both defragmentation algorithms and the allocator keep this representation.
\<close>

section \<open>The cells of a page\<close>

text \<open>The cell pointer array, the region of every cell, and the content a pointer leads to.\<close>

definition ptrs :: "bytes \<Rightarrow> nat \<Rightarrow> nat \<Rightarrow> nat list" where
  "ptrs d co n = map (\<lambda>i. g2 d (co + 2 * i)) [0..<n]"

definition cell_regions :: "nat list \<Rightarrow> bytes list \<Rightarrow> (nat \<times> nat) list" where
  "cell_regions ps cs = zip ps (map length cs)"

definition holds :: "bytes \<Rightarrow> nat \<Rightarrow> bytes \<Rightarrow> bool" where
  "holds d pc c \<longleftrightarrow> pc + length c \<le> length d \<and> subbytes d pc (length c) = c"

text \<open>
  A cell of a page: at least four bytes, and \<open>xCellSize\<close> finds its end without looking past it.
\<close>

definition cell_ok :: "bt_shared \<Rightarrow> mempage \<Rightarrow> bytes \<Rightarrow> bool" where
  "cell_ok pBt pPage c \<longleftrightarrow> 4 \<le> length c \<and> (\<forall>rest. xCellSize pBt pPage (c @ rest) = length c)"

definition disjoint_list :: "(nat \<times> nat) list \<Rightarrow> bool" where
  "disjoint_list rs = sorted_wrt (\<lambda>a b. region a \<inter> region b = {}) rs"

text \<open>The page holds the cells \<open>cs\<close>, in this order, and the freeblocks \<open>bs\<close>.\<close>

definition page_repr :: "bt_shared \<Rightarrow> mempage \<Rightarrow> bytes list \<Rightarrow> (nat \<times> nat) list \<Rightarrow> bool" where
  "page_repr pBt pPage cs bs \<longleftrightarrow>
     (let d = aData pPage; hdr = hdrOffset pPage; co = cellOffset pPage; n = length cs;
          ps = ptrs d co n; rs = cell_regions ps cs
      in length d = pageSize pBt \<and> co = hdr + 8 + childPtrSize pPage \<and> nCell pPage = n \<and> g2 d (hdr + 3) = n \<and>
         nOverflow pPage = 0 \<and> (\<forall>c\<in>set cs. cell_ok pBt pPage c) \<and> list_all2 (holds d) ps cs \<and>
         disjoint_list rs \<and> space_ok (usableSize pBt) hdr (co + 2 * n) d bs (regions rs) \<and>
         nFree pPage = int (usableSize pBt) - int (sum_list (map length cs)) - int (co + 2 * n))"

text \<open>The fields of a page that storing and removing cells never changes.\<close>

definition page_shape :: "mempage \<Rightarrow> mempage" where
  "page_shape p = p\<lparr>aData := [], nFree := 0, nCell := 0\<rparr>"

definition same_shape :: "mempage \<Rightarrow> mempage \<Rightarrow> bool" where
  "same_shape p q \<longleftrightarrow> page_shape q = page_shape p"

lemma page_shape_upd [simp]:
  "page_shape (p\<lparr>aData := d\<rparr>) = page_shape p" "page_shape (p\<lparr>nFree := f\<rparr>) = page_shape p"
  "page_shape (p\<lparr>nCell := n\<rparr>) = page_shape p"
  by (simp_all add: page_shape_def)

lemma length_ptrs [simp]: "length (ptrs d co n) = n"
  by (simp add: ptrs_def)

lemma nth_ptrs: "i < n \<Longrightarrow> ptrs d co n ! i = g2 d (co + 2 * i)"
  by (simp add: ptrs_def)

lemma ptrs_same_on:
  "same_on S d d' \<Longrightarrow> {co..<co + 2 * n} \<subseteq> S \<Longrightarrow> ptrs d' co n = ptrs d co n"
  unfolding ptrs_def by (intro map_cong refl g2_same_on [where S = S]) auto

lemma holds_same_on:
  "same_on S d d' \<Longrightarrow> length d' = length d \<Longrightarrow> {pc..<pc + length c} \<subseteq> S \<Longrightarrow> holds d pc c \<Longrightarrow> holds d' pc c"
  unfolding holds_def using subbytes_same_on [of S d d' pc "length c"] by auto

lemma regions_cell_regions:
  "length ps = length cs \<Longrightarrow> regions (cell_regions ps cs) = (\<Union>i<length cs. {ps ! i..<ps ! i + length (cs ! i)})"
  by (auto simp: regions_def cell_regions_def set_zip region_def) 

lemma cell_regions_nth_sub:
  assumes "length ps = length cs" "i < length cs"
  shows "{ps ! i..<ps ! i + length (cs ! i)} \<subseteq> regions (cell_regions ps cs)"
  using assms by (auto simp: regions_cell_regions)

lemma list_all2_holds_same_on:
  assumes "list_all2 (holds d) ps cs" "same_on S d d'" "length d' = length d" "regions (cell_regions ps cs) \<subseteq> S"
  shows "list_all2 (holds d') ps cs"
proof (rule list_all2_all_nthI)
  show len: "length ps = length cs" using assms(1) by (rule list_all2_lengthD)
  fix i assume "i < length ps"
  then show "holds d' (ps ! i) (cs ! i)"
    using assms len cell_regions_nth_sub [OF len, of i] list_all2_nthD [OF assms(1), of i]
    by (intro holds_same_on [OF assms(2,3)]) auto
qed

lemma disjoint_list_simps [simp]:
  "disjoint_list []" "disjoint_list (a # rs) \<longleftrightarrow> region a \<inter> regions rs = {} \<and> disjoint_list rs"
  "disjoint_list (xs @ ys) \<longleftrightarrow> disjoint_list xs \<and> disjoint_list ys \<and> regions xs \<inter> regions ys = {}"
  by (auto simp: disjoint_list_def regions_def sorted_wrt_append)

lemma card_disjoint: "disjoint_list rs \<Longrightarrow> card (regions rs) = sizes rs"
proof (induction rs)
  case (Cons a rs)
  then show ?case by (cases a) (simp add: card_Un_disjoint)
qed simp

lemma sizes_cell_regions: "length ps = length cs \<Longrightarrow> sizes (cell_regions ps cs) = sum_list (map length cs)"
  by (simp add: sizes_def cell_regions_def)

lemma thick_regions: "\<forall>r\<in>set rs. 4 \<le> snd r \<Longrightarrow> thick (regions rs)"
  unfolding thick_def
proof
  fix k assume ge: "\<forall>r\<in>set rs. 4 \<le> snd r" and "k \<in> regions rs"
  then obtain a n where r: "(a, n) \<in> set rs" "a \<le> k" "k < a + n" "4 \<le> n"
    by (fastforce simp: regions_def region_def)
  then have sub: "{a..<a + n} \<subseteq> regions rs" unfolding regions_def by (metis UN_upper region_pair)
  show "\<exists>s\<le>k. k < s + 4 \<and> {s..<s + 4} \<subseteq> regions rs"
  proof (cases "k < a + n - 4")
    case True
    then have "{k..<k + 4} \<subseteq> {a..<a + n}" using r by auto
    then show ?thesis using sub by (intro exI [of _ k]) auto
  next
    case False
    have "{a + n - 4..<a + n - 4 + 4} \<subseteq> {a..<a + n}" using r by auto
    then show ?thesis using False r sub by (intro exI [of _ "a + n - 4"]) auto
  qed
qed

lemma thick_cell_regions:
  "\<forall>c\<in>set cs. cell_ok pBt pPage c \<Longrightarrow> thick (regions (cell_regions ps cs))"
  by (rule thick_regions) (fastforce simp: cell_regions_def cell_ok_def dest: set_zip_rightD)

text \<open>The invariant depends on five header bytes and the freeblocks only.\<close>

lemma space_ok_frame:
  assumes ok: "space_ok usable hdr gap d bs U" and len: "length d' = length d"
    and same: "same_on (hdr_vars hdr \<union> regions bs) d d'"
    and gap: "hdr + 8 \<le> gap'" "gap' \<le> content_top hdr d"
  shows "space_ok usable hdr gap' d' bs U"
proof -
  have ct: "content_top hdr d' = content_top hdr d"
    by (rule content_top_same_on [OF same]) auto
  have bo: "blocks_ok usable (content_top hdr d + 1) bs" and ch: "chain d (hdr + 1) bs"
    using ok by (auto simp: space_ok_def)
  have "tail_ok d' bs"
    by (rule tail_ok_same_on [OF bo same]) (use ch in \<open>auto simp: chain_tail\<close>)
  moreover have "g2 d' (hdr + 1) = g2 d (hdr + 1)"
    by (rule g2_same_on [OF same]) auto
  ultimately have "chain d' (hdr + 1) bs" using ch by (simp add: chain_tail)
  moreover have "g1 d' (hdr + 7) = g1 d (hdr + 7)" by (rule g1_same_on [OF same]) auto
  ultimately show ?thesis using ok len gap by (simp add: space_ok_def ct)
qed

lemma space_ok_regions: "space_ok usable hdr gap d bs U \<Longrightarrow> regions bs \<subseteq> {content_top hdr d + 1..<usable}"
  using blocks_ok_regions by (simp add: space_ok_def)

lemma byte_at_memmove:
  "src + n \<le> length d \<Longrightarrow> byte_at (memmove d dst src n) k =
     (if k < length d \<and> dst \<le> k \<and> k < dst + n then byte_at d (src + (k - dst)) else byte_at d k)"
  by (auto simp: memmove_def byte_at_blit) (auto simp: subbytes_def byte_at_def)

lemma g2_memmove:
  assumes "src + n \<le> length d" "dst + n \<le> length d"
  shows "dst \<le> k \<Longrightarrow> k + 2 \<le> dst + n \<Longrightarrow> g2 (memmove d dst src n) k = g2 d (src + (k - dst))"
    "k + 2 \<le> dst \<or> dst + n \<le> k \<Longrightarrow> g2 (memmove d dst src n) k = g2 d k"
  using assms by (auto simp: g2_byte_at byte_at_memmove Suc_diff_le)

lemma same_on_memmove: "S \<inter> {dst..<dst + n} = {} \<Longrightarrow> same_on S d (memmove d dst src n)"
  unfolding memmove_def by (rule same_on_blit) fastforce

lemma xCellSize_update [simp]:
  "xCellSize pBt (pPage\<lparr>aData := x1\<rparr>) c = xCellSize pBt pPage c"
  "xCellSize pBt (pPage\<lparr>nFree := x2\<rparr>) c = xCellSize pBt pPage c"
  "xCellSize pBt (pPage\<lparr>nCell := x3\<rparr>) c = xCellSize pBt pPage c"
  by (auto simp: xCellSize_def kvCellSizeLeaf_def kvCellSizeInterior_def Let_def split: prod.split)

lemma cell_ok_update [simp]:
  "cell_ok pBt (pPage\<lparr>aData := x1\<rparr>) c = cell_ok pBt pPage c"
  "cell_ok pBt (pPage\<lparr>nFree := x2\<rparr>) c = cell_ok pBt pPage c"
  "cell_ok pBt (pPage\<lparr>nCell := x3\<rparr>) c = cell_ok pBt pPage c"
  by (simp_all add: cell_ok_def)

section \<open>Dropping a cell\<close>

lemma page_reprD:
  assumes "page_repr pBt pPage cs bs"
  shows "length (aData pPage) = pageSize pBt" "hdrOffset pPage + 8 \<le> cellOffset pPage" "nCell pPage = length cs"
    "g2 (aData pPage) (hdrOffset pPage + 3) = length cs" "nOverflow pPage = 0" "\<forall>c\<in>set cs. cell_ok pBt pPage c"
    "list_all2 (holds (aData pPage)) (ptrs (aData pPage) (cellOffset pPage) (length cs)) cs"
    "disjoint_list (cell_regions (ptrs (aData pPage) (cellOffset pPage) (length cs)) cs)"
    "space_ok (usableSize pBt) (hdrOffset pPage) (cellOffset pPage + 2 * length cs) (aData pPage) bs
       (regions (cell_regions (ptrs (aData pPage) (cellOffset pPage) (length cs)) cs))"
    "nFree pPage = int (usableSize pBt) - int (sum_list (map length cs)) - int (cellOffset pPage + 2 * length cs)"
    "cellOffset pPage = hdrOffset pPage + 8 + childPtrSize pPage"
proof -
  note defs = assms [unfolded page_repr_def Let_def]
  show co: "cellOffset pPage = hdrOffset pPage + 8 + childPtrSize pPage" using defs by blast
  then show "hdrOffset pPage + 8 \<le> cellOffset pPage" by simp
qed (use assms [unfolded page_repr_def Let_def] in blast)+

lemma cell_regions_split:
  assumes "length ps = length cs" "i < length cs"
  shows "cell_regions ps cs = cell_regions (take i ps) (take i cs) @ (ps ! i, length (cs ! i)) #
    cell_regions (drop (Suc i) ps) (drop (Suc i) cs)"
proof -
  have "ps = take i ps @ ps ! i # drop (Suc i) ps" "cs = take i cs @ cs ! i # drop (Suc i) cs"
    using assms by (simp_all add: id_take_nth_drop)
  then have "cell_regions ps cs = cell_regions (take i ps @ ps ! i # drop (Suc i) ps) (take i cs @ cs ! i # drop (Suc i) cs)"
    by simp
  also have "\<dots> = cell_regions (take i ps) (take i cs) @ (ps ! i, length (cs ! i)) #
      cell_regions (drop (Suc i) ps) (drop (Suc i) cs)"
    using assms unfolding cell_regions_def by (simp add: zip_append1 del: append_take_drop_id)
  finally show ?thesis .
qed

lemma cell_regions_append:
  "length ps = length cs \<Longrightarrow> cell_regions (ps @ ps') (cs @ cs') = cell_regions ps cs @ cell_regions ps' cs'"
  by (simp add: cell_regions_def)

definition remove_nth :: "nat \<Rightarrow> 'a list \<Rightarrow> 'a list" where
  "remove_nth i xs = take i xs @ drop (Suc i) xs"

lemma length_remove_nth [simp]: "i < length xs \<Longrightarrow> length (remove_nth i xs) = length xs - 1"
  by (simp add: remove_nth_def)

lemma nth_remove_nth: "i < length xs \<Longrightarrow> k < length xs - 1 \<Longrightarrow> remove_nth i xs ! k = (if k < i then xs ! k else xs ! Suc k)"
  by (auto simp: remove_nth_def nth_append min_def)

lemma remove_nth_regions:
  assumes "length ps = length cs" "i < length cs" "disjoint_list (cell_regions ps cs)"
  shows "cell_regions (remove_nth i ps) (remove_nth i cs) =
      cell_regions (take i ps) (take i cs) @ cell_regions (drop (Suc i) ps) (drop (Suc i) cs)"
    "disjoint_list (cell_regions (remove_nth i ps) (remove_nth i cs))"
    "regions (cell_regions (remove_nth i ps) (remove_nth i cs)) =
       regions (cell_regions ps cs) - {ps ! i..<ps ! i + length (cs ! i)}"
proof -
  show eq: "cell_regions (remove_nth i ps) (remove_nth i cs) =
      cell_regions (take i ps) (take i cs) @ cell_regions (drop (Suc i) ps) (drop (Suc i) cs)"
    unfolding remove_nth_def using assms by (intro cell_regions_append) simp
  show "disjoint_list (cell_regions (remove_nth i ps) (remove_nth i cs))"
    using assms(3) unfolding eq cell_regions_split [OF assms(1,2)] by auto
  show "regions (cell_regions (remove_nth i ps) (remove_nth i cs)) =
       regions (cell_regions ps cs) - {ps ! i..<ps ! i + length (cs ! i)}"
    using assms(3) unfolding eq cell_regions_split [OF assms(1,2)] by auto
qed

lemma list_all2_remove_nth: "list_all2 P xs ys \<Longrightarrow> list_all2 P (remove_nth i xs) (remove_nth i ys)"
  unfolding remove_nth_def by (intro list_all2_appendI list_all2_takeI list_all2_dropI)

lemma sum_list_remove_nth:
  "i < length xs \<Longrightarrow> sum_list (map f xs) = f (xs ! i) + sum_list (map f (remove_nth i xs) :: nat list)"
  by (subst (1) id_take_nth_drop [of i xs]) (simp_all add: remove_nth_def)

text \<open>Closing the gap in the cell pointer array.\<close>

lemma ptrs_remove:
  assumes "i < n" "co + 2 * n \<le> length d"
  shows "ptrs (memmove d (co + 2 * i) (co + 2 * i + 2) (2 * (n - 1 - i))) co (n - 1) = remove_nth i (ptrs d co n)"
proof (rule nth_equalityI)
  fix k assume "k < length (ptrs (memmove d (co + 2 * i) (co + 2 * i + 2) (2 * (n - 1 - i))) co (n - 1))"
  then have k: "k < n - 1" by simp
  have b: "co + 2 * i + 2 + 2 * (n - 1 - i) \<le> length d" "co + 2 * i + 2 * (n - 1 - i) \<le> length d"
    using assms by auto
  show "ptrs (memmove d (co + 2 * i) (co + 2 * i + 2) (2 * (n - 1 - i))) co (n - 1) ! k = remove_nth i (ptrs d co n) ! k"
  proof (cases "k < i")
    case True
    then show ?thesis
      using k assms g2_memmove(2) [OF b, of "co + 2 * k"] by (simp add: nth_ptrs nth_remove_nth)
  next
    case False
    then have "co + 2 * i + 2 + (co + 2 * k - (co + 2 * i)) = co + 2 * Suc k" by simp
    with False show ?thesis
      using k assms g2_memmove(1) [OF b, of "co + 2 * k"] by (simp add: nth_ptrs nth_remove_nth)
  qed
qed (use assms in simp)

lemma page_ptr_bounds:
  assumes "page_repr pBt pPage cs bs" "i < length cs"
  shows "content_top (hdrOffset pPage) (aData pPage) \<le> g2 (aData pPage) (cellOffset pPage + 2 * i)"
    "g2 (aData pPage) (cellOffset pPage + 2 * i) + length (cs ! i) \<le> usableSize pBt" "4 \<le> length (cs ! i)"
proof -
  let ?ps = "ptrs (aData pPage) (cellOffset pPage) (length cs)" and ?pc = "g2 (aData pPage) (cellOffset pPage + 2 * i)"
  note r = page_reprD [OF assms(1)]
  have ps: "?ps ! i = ?pc" using assms(2) by (simp add: nth_ptrs)
  show ge: "4 \<le> length (cs ! i)" using r(6) assms(2) by (simp add: cell_ok_def)
  have "{?pc..<?pc + length (cs ! i)} \<subseteq> {content_top (hdrOffset pPage) (aData pPage)..<usableSize pBt}"
    using cell_regions_nth_sub [of ?ps cs i] r(9) assms(2) ps by (fastforce simp: space_ok_def)
  moreover have "?pc \<in> {?pc..<?pc + length (cs ! i)}" "?pc + length (cs ! i) - 1 \<in> {?pc..<?pc + length (cs ! i)}"
    using ge by auto
  ultimately have "?pc \<in> {content_top (hdrOffset pPage) (aData pPage)..<usableSize pBt}"
    "?pc + length (cs ! i) - 1 \<in> {content_top (hdrOffset pPage) (aData pPage)..<usableSize pBt}" by blast+
  then show "content_top (hdrOffset pPage) (aData pPage) \<le> ?pc" "?pc + length (cs ! i) \<le> usableSize pBt"
    using ge by auto
qed

text \<open>A page without cells: the freelist and the fragment count are reset.\<close>

lemma space_ok_empty:
  assumes "usable \<le> length d" "usable \<le> 65536" "hdr + 8 \<le> gap" "gap \<le> usable"
    "g2 d (hdr + 1) = 0" "g1 d (hdr + 7) = 0" "content_top hdr d = usable"
  shows "space_ok usable hdr gap d [] {}"
  using assms by (simp add: space_ok_def chain_def)

text \<open>Freeing the bytes of one cell of the page.\<close>

lemma free_cell:
  assumes repr: "page_repr pBt pPage cs bs" and idx: "idx < length cs"
    and V: "V = regions (cell_regions (remove_nth idx (ptrs (aData pPage) (cellOffset pPage) (length cs))) (remove_nth idx cs))"
  obtains d' bs' where
    "freeSpace pBt pPage (g2 (aData pPage) (cellOffset pPage + 2 * idx)) (length (cs ! idx)) =
       (SQLITE_OK, pPage\<lparr>aData := d', nFree := nFree pPage + int (length (cs ! idx))\<rparr>)"
    "space_ok (usableSize pBt) (hdrOffset pPage) (cellOffset pPage + 2 * length cs) d' bs' V"
    "length d' = length (aData pPage)"
    "same_on (kept (usableSize pBt) (hdrOffset pPage) (cellOffset pPage + 2 * length cs) (aData pPage) V) (aData pPage) d'"
proof -
  let ?ps = "ptrs (aData pPage) (cellOffset pPage) (length cs)"
  let ?pc = "g2 (aData pPage) (cellOffset pPage + 2 * idx)" and ?sz = "length (cs ! idx)"
  note r = page_reprD [OF repr] and b = page_ptr_bounds [OF repr idx]
  have ps: "?ps ! idx = ?pc" "length ?ps = length cs" using idx by (simp_all add: nth_ptrs)
  have N: "{?pc..<?pc + ?sz} \<subseteq> regions (cell_regions ?ps cs)"
    using cell_regions_nth_sub [OF ps(2) idx] ps(1) by simp
  have Veq: "V = regions (cell_regions ?ps cs) - {?pc..<?pc + ?sz}"
    using remove_nth_regions(3) [OF ps(2) idx r(8)] ps(1) V by simp
  have "\<forall>c\<in>set (remove_nth idx cs). cell_ok pBt pPage c"
    using r(6) by (auto simp: remove_nth_def dest: in_set_takeD in_set_dropD)
  then have "thick V" unfolding V by (rule thick_cell_regions)
  from freeSpace_space [OF r(9) N b(3) Veq this refl refl refl] that show thesis .
qed

lemma dropCell_more:
  assumes repr: "page_repr pBt pPage cs bs" and idx: "idx < length cs" "1 < length cs"
  shows "\<exists>pPage' bs'. dropCell pBt pPage idx (length (cs ! idx)) SQLITE_OK = (SQLITE_OK, pPage') \<and>
    page_repr pBt pPage' (remove_nth idx cs) bs'"
proof -
  let ?d = "aData pPage" and ?hdr = "hdrOffset pPage" and ?co = "cellOffset pPage" and ?n = "length cs"
  let ?ps = "ptrs ?d ?co ?n" and ?u = "usableSize pBt"
  let ?pc = "g2 ?d (?co + 2 * idx)" and ?sz = "length (cs ! idx)"
  let ?V = "regions (cell_regions (remove_nth idx ?ps) (remove_nth idx cs))"
  note r = page_reprD [OF repr] and b = page_ptr_bounds [OF repr idx(1)]
  have "length ?ps = ?n" by simp
  note rm = remove_nth_regions [OF this idx(1) r(8)]
  have cellsV: "\<forall>c\<in>set (remove_nth idx cs). cell_ok pBt pPage c"
    using r(6) by (auto simp: remove_nth_def dest: in_set_takeD in_set_dropD)
  obtain d' bs' where f: "freeSpace pBt pPage ?pc ?sz =
      (SQLITE_OK, pPage\<lparr>aData := d', nFree := nFree pPage + int ?sz\<rparr>)"
    and sp: "space_ok ?u ?hdr (?co + 2 * ?n) d' bs' ?V" and len: "length d' = length ?d"
    and same: "same_on (kept ?u ?hdr (?co + 2 * ?n) ?d ?V) ?d d'"
    by (rule free_cell [OF repr idx(1) refl])
  let ?d2 = "p2 (memmove d' (?co + 2 * idx) (?co + 2 * idx + 2) (2 * (?n - 1 - idx))) (?hdr + 3) (?n - 1)"
  let ?pg = "pPage\<lparr>aData := ?d2, nFree := nFree pPage + int ?sz + 2, nCell := ?n - 1\<rparr>"
  have geo: "?hdr + 8 \<le> ?co" "?co + 2 * ?n \<le> content_top ?hdr d'" "content_top ?hdr d' \<le> ?u" "?u \<le> length d'" "?n < 65536"
    using r(2,4) sp g2_less [of ?d "?hdr + 3"] by (auto simp: space_ok_def)
  have same2: "same_on (- {?hdr + 3, ?hdr + 4} - {?co..<?co + 2 * ?n}) d' ?d2"
    by (rule same_on_trans [OF same_on_memmove same_on_p2]) (use idx in auto)
  have "dropCell pBt pPage idx ?sz SQLITE_OK = (SQLITE_OK, ?pg)"
    using b(2) f idx r(3) by (simp add: dropCell_def Let_def)
  moreover have "page_repr pBt ?pg (remove_nth idx cs) bs'"
  proof -
    have k: "ptrs d' ?co ?n = ?ps"
      by (rule ptrs_same_on [OF same]) (use geo in \<open>auto simp: kept_def\<close>)
    have s3: "same_on {?co..} (memmove d' (?co + 2 * idx) (?co + 2 * idx + 2) (2 * (?n - 1 - idx))) ?d2"
      by (rule same_on_p2) (use geo in auto)
    have "ptrs ?d2 ?co (?n - 1) = ptrs (memmove d' (?co + 2 * idx) (?co + 2 * idx + 2) (2 * (?n - 1 - idx))) ?co (?n - 1)"
      by (rule ptrs_same_on [OF s3]) auto
    also have "\<dots> = remove_nth idx ?ps"
      using ptrs_remove [OF idx(1), of ?co d'] geo k by simp
    finally have p2: "ptrs ?d2 ?co (?n - 1) = remove_nth idx ?ps" .
    have Vsub: "?V \<subseteq> {content_top ?hdr d'..<?u}" using sp by (simp add: space_ok_def)
    have h1: "list_all2 (holds d') (remove_nth idx ?ps) (remove_nth idx cs)"
      by (rule list_all2_holds_same_on [OF list_all2_remove_nth [OF r(7)] same len])
        (auto simp: kept_def)
    have "list_all2 (holds ?d2) (remove_nth idx ?ps) (remove_nth idx cs)"
      by (rule list_all2_holds_same_on [OF h1 same2]) (use Vsub geo in auto)
    moreover have "space_ok ?u ?hdr (?co + 2 * (?n - 1)) ?d2 bs' ?V"
      by (rule space_ok_frame [OF sp _ same_on_mono [OF same2]])
        (use geo idx space_ok_regions [OF sp] in \<open>auto dest: subsetD\<close>)
    moreover have "g2 ?d2 (?hdr + 3) = ?n - 1"
      using geo idx by (subst g2_p2) auto
    moreover have "int (sum_list (map length cs)) = int ?sz + int (sum_list (map length (remove_nth idx cs)))"
      using sum_list_remove_nth [OF idx(1), of length] by simp
    ultimately show ?thesis
      using idx r(1,5,10,11) p2 cellsV rm(2) len by (simp add: page_repr_def Let_def)
  qed
  ultimately show ?thesis by blast
qed

text \<open>Dropping the only cell resets the page.\<close>

lemma dropCell_last:
  assumes repr: "page_repr pBt pPage [c] bs"
  shows "\<exists>pPage'. dropCell pBt pPage 0 (length c) SQLITE_OK = (SQLITE_OK, pPage') \<and> page_repr pBt pPage' [] []"
proof -
  let ?d = "aData pPage" and ?hdr = "hdrOffset pPage" and ?co = "cellOffset pPage"
  let ?u = "usableSize pBt"
  note r = page_reprD [OF repr]
  obtain d' bs' where f: "freeSpace pBt pPage (g2 ?d (?co + 2 * 0)) (length ([c] ! 0)) =
      (SQLITE_OK, pPage\<lparr>aData := d', nFree := nFree pPage + int (length ([c] ! 0))\<rparr>)"
    and sp: "space_ok ?u ?hdr (?co + 2 * length [c]) d' bs'
        (regions (cell_regions (remove_nth 0 (ptrs ?d ?co (length [c]))) (remove_nth 0 [c])))"
    and len: "length d' = length ?d"
    by (rule free_cell [OF repr _ refl, of 0]) auto
  let ?d2 = "p2 (p1 (memzero d' (?hdr + 1) 4) (?hdr + 7) 0) (?hdr + 5) ?u"
  let ?pg = "pPage\<lparr>aData := ?d2, nFree := int ?u - int ?hdr - int (childPtrSize pPage) - 8, nCell := 0\<rparr>"
  have geo: "?hdr + 8 \<le> ?co" "?co + 2 \<le> ?u" "?u \<le> length d'" "?u \<le> 65536"
    using r(2) sp by (auto simp: space_ok_def)
  have "dropCell pBt pPage 0 (length c) SQLITE_OK = (SQLITE_OK, ?pg)"
    using page_ptr_bounds(2) [OF repr, of 0] f r(3) by (simp add: dropCell_def Let_def)
  moreover have "page_repr pBt ?pg [] []"
  proof -
    have z: "byte_at (memzero d' (?hdr + 1) 4) k = 0" if "?hdr + 1 \<le> k" "k < ?hdr + 5" for k
      using that geo by (auto simp: memzero_def byte_at_blit)
    have zz: "g2 (memzero d' (?hdr + 1) 4) (?hdr + 1) = 0" "g2 (memzero d' (?hdr + 1) 4) (?hdr + 3) = 0"
      using z by (simp_all add: g2_byte_at)
    have g: "g2 ?d2 (?hdr + 1) = 0" "g2 ?d2 (?hdr + 3) = 0" "g1 ?d2 (?hdr + 7) = 0" "content_top ?hdr ?d2 = ?u"
      using geo zz by (simp_all add: rw_simps content_top_p2)
    then have "space_ok ?u ?hdr ?co ?d2 [] {}" using geo by (intro space_ok_empty) auto
    with g show ?thesis
      using r(1,5,11) len by (simp add: page_repr_def Let_def cell_regions_def ptrs_def)
  qed
  ultimately show ?thesis by blast
qed

section \<open>Inserting a cell\<close>

definition insert_nth :: "nat \<Rightarrow> 'a \<Rightarrow> 'a list \<Rightarrow> 'a list" where
  "insert_nth i x xs = take i xs @ x # drop i xs"

lemma length_insert_nth [simp]: "length (insert_nth i x xs) = Suc (length xs)"
  by (simp add: insert_nth_def)

lemma nth_insert_nth:
  "i \<le> length xs \<Longrightarrow> k \<le> length xs \<Longrightarrow>
     insert_nth i x xs ! k = (if k < i then xs ! k else if k = i then x else xs ! (k - 1))"
  by (auto simp: insert_nth_def nth_append nth_Cons' min_def)

lemma ptrs_insert:
  assumes "i \<le> n" "co + 2 * n + 2 \<le> length d" "idx < 65536"
  shows "ptrs (p2 (memmove d (co + 2 * i + 2) (co + 2 * i) (2 * (n - i))) (co + 2 * i) idx) co (Suc n) =
    insert_nth i idx (ptrs d co n)" (is "ptrs ?d' _ _ = _")
proof (rule nth_equalityI)
  fix k assume "k < length (ptrs ?d' co (Suc n))"
  then have k: "k \<le> n" by simp
  have b: "co + 2 * i + 2 * (n - i) \<le> length d" "co + 2 * i + 2 + 2 * (n - i) \<le> length d"
    using assms by auto
  consider "k < i" | "k = i" | "i < k" by linarith
  then show "ptrs ?d' co (Suc n) ! k = insert_nth i idx (ptrs d co n) ! k"
  proof cases
    case 1
    then show ?thesis
      using k assms g2_memmove(2) [OF b, of "co + 2 * k"]
      by (simp add: nth_ptrs nth_insert_nth g2_p2_other)
  next
    case 2
    then show ?thesis using k assms by (simp add: nth_ptrs nth_insert_nth g2_p2)
  next
    case 3
    have e: "co + 2 * i + (co + 2 * k - (co + 2 * i + 2)) = co + 2 * (k - 1)" using 3 by simp
    then show ?thesis
      using 3 k assms g2_memmove(1) [OF b, of "co + 2 * k"]
      by (simp add: nth_ptrs nth_insert_nth g2_p2_other)
  qed
qed simp

lemma insert_nth_regions:
  assumes "length ps = length cs" "i \<le> length cs" "disjoint_list (cell_regions ps cs)"
    "{idx..<idx + length c} \<inter> regions (cell_regions ps cs) = {}"
  shows "disjoint_list (cell_regions (insert_nth i idx ps) (insert_nth i c cs))"
    "regions (cell_regions (insert_nth i idx ps) (insert_nth i c cs)) =
       regions (cell_regions ps cs) \<union> {idx..<idx + length c}"
proof -
  have l: "length (take i ps) = length (take i cs)" "length (drop i ps) = length (drop i cs)"
    using assms by auto
  have eq: "cell_regions (insert_nth i idx ps) (insert_nth i c cs) =
      cell_regions (take i ps) (take i cs) @ (idx, length c) # cell_regions (drop i ps) (drop i cs)"
    using l unfolding insert_nth_def by (simp add: cell_regions_def)
  have split: "cell_regions ps cs = cell_regions (take i ps) (take i cs) @ cell_regions (drop i ps) (drop i cs)"
    using cell_regions_append [OF l(1), of "drop i ps" "drop i cs"] by simp
  show "disjoint_list (cell_regions (insert_nth i idx ps) (insert_nth i c cs))"
    "regions (cell_regions (insert_nth i idx ps) (insert_nth i c cs)) =
       regions (cell_regions ps cs) \<union> {idx..<idx + length c}"
    using assms(3,4) unfolding eq split by auto
qed

lemma list_all2_insert_nth:
  "list_all2 P xs ys \<Longrightarrow> P x y \<Longrightarrow> list_all2 P (insert_nth i x xs) (insert_nth i y ys)"
  unfolding insert_nth_def by (auto intro!: list_all2_appendI list_all2_takeI list_all2_dropI)

lemma sum_list_insert_nth: "sum_list (map f (insert_nth i x xs)) = f x + (sum_list (map f xs) :: nat)"
proof -
  have "sum_list (map f xs) = sum_list (map f (take i xs @ drop i xs))" by simp
  then show ?thesis by (simp add: insert_nth_def del: append_take_drop_id)
qed

text \<open>The cell count is incremented byte by byte, with a carry.\<close>

lemma count_inc:
  assumes "hdr + 4 < length d" "g2 d (hdr + 3) < 65535" and d1: "d1 = p1 d (hdr + 4) (g1 d (hdr + 4) + 1)"
    and d2: "d2 = (if g1 d1 (hdr + 4) = 0 then p1 d1 (hdr + 3) (g1 d1 (hdr + 3) + 1) else d1)"
  shows "g2 d2 (hdr + 3) = g2 d (hdr + 3) + 1" "same_on (- {hdr + 3, hdr + 4}) d d2" "length d2 = length d"
proof -
  have g: "g2 x (hdr + 3) = g1 x (hdr + 3) * 256 + g1 x (hdr + 4)" for x
    by (simp add: g2_byte_at g1_def Suc_eq_plus1 [symmetric] eval_nat_numeral)
  have l: "g1 d (hdr + 4) < 256" "g1 d (hdr + 3) < 256" by (rule g1_less)+
  have "g1 d1 (hdr + 4) = (g1 d (hdr + 4) + 1) mod 256" "g1 d1 (hdr + 3) = g1 d (hdr + 3)"
    using assms(1) unfolding d1 by (simp_all add: rw_simps)
  then show "g2 d2 (hdr + 3) = g2 d (hdr + 3) + 1"
    using assms(1,2) l unfolding g by (cases "g1 d (hdr + 4) = 255") (auto simp: d2 d1 rw_simps)
  show "same_on (- {hdr + 3, hdr + 4}) d d2"
    unfolding d2 d1 by (auto intro!: same_on_p1 intro: same_on_trans [OF same_on_p1 same_on_p1])
  show "length d2 = length d" by (simp add: d2 d1)
qed

text \<open>A page with room reserved for one more cell at \<open>idx\<close>.\<close>

definition reserved ::
    "bt_shared \<Rightarrow> mempage \<Rightarrow> bytes list \<Rightarrow> nat \<Rightarrow> nat \<Rightarrow> bytes \<Rightarrow> (nat \<times> nat) list \<Rightarrow> bool" where
  "reserved pBt pPage cs nByte idx d bs \<longleftrightarrow>
     (let hdr = hdrOffset pPage; co = cellOffset pPage; n = length cs; ps = ptrs d co n;
          R = regions (cell_regions ps cs); N = {idx..<idx + nByte}
      in length d = pageSize pBt \<and> g2 d (hdr + 3) = n \<and> list_all2 (holds d) ps cs \<and>
         disjoint_list (cell_regions ps cs) \<and> N \<inter> R = {} \<and>
         space_ok (usableSize pBt) hdr (co + 2 * n + 2) d bs (R \<union> N) \<and> co + 2 * n + 2 \<le> idx \<and>
         idx + nByte \<le> usableSize pBt)"

lemma alloc_post_reserved:
  assumes repr: "page_repr pBt pPage cs bs"
    and post: "alloc_post (usableSize pBt) (hdrOffset pPage) (cellOffset pPage + 2 * length cs) nByte pPage
      (regions (cell_regions (ptrs (aData pPage) (cellOffset pPage) (length cs)) cs)) r"
  shows "\<exists>idx d' bs'. r = (SQLITE_OK, idx, pPage\<lparr>aData := d'\<rparr>) \<and> reserved pBt pPage cs nByte idx d' bs'"
proof -
  let ?d = "aData pPage" and ?hdr = "hdrOffset pPage" and ?co = "cellOffset pPage" and ?n = "length cs"
  let ?u = "usableSize pBt"
  let ?U = "regions (cell_regions (ptrs ?d ?co ?n) cs)"
  note r = page_reprD [OF repr]
  obtain idx d' bs' where p: "r = (SQLITE_OK, idx, pPage\<lparr>aData := d'\<rparr>)" "?co + 2 * ?n + 2 \<le> idx" "idx + nByte \<le> ?u"
     "{idx..<idx + nByte} \<inter> ?U = {}" "space_ok ?u ?hdr (?co + 2 * ?n + 2) d' bs' (?U \<union> {idx..<idx + nByte})"
     "length d' = length ?d" and same: "same_on (kept ?u ?hdr (?co + 2 * ?n) ?d ?U) ?d d'"
    using post unfolding alloc_post_def by blast
  have k: "ptrs d' ?co ?n = ptrs ?d ?co ?n"
    by (rule ptrs_same_on [OF same]) (use r(2) in \<open>auto simp: kept_def\<close>)
  have "g2 d' (?hdr + 3) = g2 ?d (?hdr + 3)"
    by (rule g2_same_on [OF same]) (use r(2) in \<open>auto simp: kept_def\<close>)
  moreover have "list_all2 (holds d') (ptrs ?d ?co ?n) cs"
    by (rule list_all2_holds_same_on [OF r(7) same p(6)]) (auto simp: kept_def)
  ultimately have "reserved pBt pPage cs nByte idx d' bs'"
    using p r(1,4,8) by (simp add: reserved_def Let_def k)
  with p(1) show ?thesis by blast
qed

lemma insert_reserved:
  assumes repr: "page_repr pBt pPage cs bs" and res: "reserved pBt pPage cs (length c) idx d bs'"
    and c: "cell_ok pBt pPage c" and i: "i \<le> length cs" and n: "length cs < 65535"
    and d': "d' = blit d idx c"
  shows "page_repr pBt (insert_ptr (pPage\<lparr>aData := d', nFree := nFree pPage - int (2 + length c)\<rparr>) i idx)
    (insert_nth i c cs) bs'"
proof -
  let ?hdr = "hdrOffset pPage" and ?co = "cellOffset pPage" and ?n = "length cs" and ?u = "usableSize pBt"
  let ?ps = "ptrs d ?co ?n" and ?N = "{idx..<idx + length c}"
  let ?R = "regions (cell_regions ?ps cs)"
  note r = page_reprD [OF repr]
  have s: "length d = pageSize pBt" "g2 d (?hdr + 3) = ?n" "list_all2 (holds d) ?ps cs"
    "disjoint_list (cell_regions ?ps cs)" "?N \<inter> ?R = {}"
    "space_ok ?u ?hdr (?co + 2 * ?n + 2) d bs' (?R \<union> ?N)" "?co + 2 * ?n + 2 \<le> idx" "idx + length c \<le> ?u"
    using res by (auto simp: reserved_def Let_def)
  have geo: "?hdr + 8 \<le> ?co" "?co + 2 * ?n + 2 \<le> content_top ?hdr d" "?u \<le> length d" "?u \<le> 65536"
    "content_top ?hdr d \<le> ?u" "?R \<union> ?N \<subseteq> {content_top ?hdr d..<?u}" "4 \<le> length c"
    using s(6) r(2) c by (auto simp: space_ok_def cell_ok_def)
  let ?d1 = "p2 (memmove d' (?co + 2 * i + 2) (?co + 2 * i) (2 * (?n - i))) (?co + 2 * i) idx"
  define d2 where "d2 = p1 ?d1 (?hdr + 4) (g1 ?d1 (?hdr + 4) + 1)"
  define d3 where "d3 = (if g1 d2 (?hdr + 4) = 0 then p1 d2 (?hdr + 3) (g1 d2 (?hdr + 3) + 1) else d2)"
  have s0: "same_on (- ?N) d d'" unfolding d' by (rule same_on_blit) auto
  have s1: "same_on (- {?co..<?co + 2 * ?n + 2}) d' ?d1"
    by (rule same_on_trans [OF same_on_memmove same_on_p2]) (use i in auto)
  have l1: "length d' = length d" "length ?d1 = length d" by (simp_all add: d')
  have s01: "same_on (- ?N - {?co..<?co + 2 * ?n + 2}) d ?d1"
    by (rule same_on_trans [OF same_on_mono [OF s0] same_on_mono [OF s1]]) auto
  have h1: "g2 ?d1 (?hdr + 3) = ?n"
    using s(2) by (subst g2_same_on [OF s01]) (use geo s(7) in auto)
  have cnt: "g2 d3 (?hdr + 3) = ?n + 1" "same_on (- {?hdr + 3, ?hdr + 4}) ?d1 d3" "length d3 = length d"
    using count_inc [OF _ _ d2_def d3_def] h1 n geo l1 by auto
  have s2: "same_on (- {?co..<?co + 2 * ?n + 2} - {?hdr + 3, ?hdr + 4}) d' d3"
    by (rule same_on_trans [OF same_on_mono [OF s1] same_on_mono [OF cnt(2)]]) auto
  have "ptrs d' ?co ?n = ?ps" by (rule ptrs_same_on [OF s0]) (use s(7) in auto)
  moreover have "ptrs d3 ?co (Suc ?n) = ptrs ?d1 ?co (Suc ?n)"
    by (rule ptrs_same_on [OF cnt(2)]) (use geo in auto)
  ultimately have ps: "ptrs d3 ?co (Suc ?n) = insert_nth i idx ?ps"
    using ptrs_insert [OF i, of ?co d' idx] geo s(7,8) l1 by simp
  note ins = insert_nth_regions [OF length_ptrs i s(4,5)]
  have "holds d' idx c"
    using s(8) geo unfolding d' holds_def
    by (auto simp: subbytes_def blit_def take_all)
  moreover have "list_all2 (holds d') ?ps cs"
    by (rule list_all2_holds_same_on [OF s(3) s0]) (use s(5) l1 in auto)
  ultimately have "list_all2 (holds d') (insert_nth i idx ?ps) (insert_nth i c cs)"
    by (rule list_all2_insert_nth [rotated])
  then have hold: "list_all2 (holds d3) (insert_nth i idx ?ps) (insert_nth i c cs)"
    by (rule list_all2_holds_same_on [OF _ s2]) (use ins(2) geo cnt l1 in auto)
  have rb: "regions bs' \<subseteq> {content_top ?hdr d + 1..<?u}" "?N \<inter> regions bs' = {}"
    using space_ok_regions [OF s(6)] s(6) by (auto simp: space_ok_def)
  have "same_on (hdr_vars ?hdr \<union> regions bs') d d3"
    by (rule same_on_trans [OF same_on_mono [OF s0] same_on_mono [OF s2]])
      (use rb geo s(7) in \<open>auto dest: subsetD\<close>)
  then have sp: "space_ok ?u ?hdr (?co + 2 * ?n + 2) d3 bs' (?R \<union> ?N)"
    by (rule space_ok_frame [OF s(6) cnt(3)]) (use geo in auto)
  have e: "insert_ptr (pPage\<lparr>aData := d', nFree := nFree pPage - int (2 + length c)\<rparr>) i idx =
      pPage\<lparr>aData := d3, nFree := nFree pPage - int (2 + length c), nCell := Suc ?n\<rparr>"
    using r(3) by (simp add: insert_ptr_def Let_def d2_def d3_def)
  have cells: "\<forall>x\<in>set (insert_nth i c cs). cell_ok pBt pPage x"
    using r(6) c by (auto simp: insert_nth_def dest: in_set_takeD in_set_dropD)
  have sum: "sum_list (map length (insert_nth i c cs)) = length c + sum_list (map length cs)"
    by (rule sum_list_insert_nth)
  show ?thesis
    unfolding e using r(1,5,10,11) ps cells hold ins cnt(1,3) sp sum s(1)
    by (simp add: page_repr_def Let_def)
qed

section \<open>Defragmentation\<close>

lemma ptrs_Suc: "ptrs d co (Suc k) = ptrs d co k @ [g2 d (co + 2 * k)]"
  by (simp add: ptrs_def)

text \<open>The cells are stored in \<open>d\<close> at the regions \<open>R\<close>, reached by the first pointers of the array.\<close>

definition cells_at :: "bytes \<Rightarrow> nat \<Rightarrow> bytes list \<Rightarrow> nat set \<Rightarrow> bool" where
  "cells_at d co cs R \<longleftrightarrow>
     (let ps = ptrs d co (length cs); rs = cell_regions ps cs
      in list_all2 (holds d) ps cs \<and> disjoint_list rs \<and> regions rs = R)"

lemma cells_at_same_on:
  assumes "cells_at d co cs R" "same_on S d d'" "length d' = length d" "R \<union> {co..<co + 2 * length cs} \<subseteq> S"
  shows "cells_at d' co cs R"
proof -
  have p: "ptrs d' co (length cs) = ptrs d co (length cs)"
    by (rule ptrs_same_on [OF assms(2)]) (use assms(4) in auto)
  show ?thesis
    using assms list_all2_holds_same_on [OF _ assms(2,3)] by (auto simp: cells_at_def Let_def p)
qed

lemma drop_holds: "holds d pc c \<Longrightarrow> drop pc d = c @ drop (pc + length c) d"
  using append_take_drop_id [of "length c" "drop pc d"] by (simp add: holds_def subbytes_def add.commute)

lemma holds_blit: "pc + length c \<le> length d \<Longrightarrow> holds (blit d pc c) pc c"
  by (auto simp: holds_def subbytes_def blit_def)

lemma cells_at_snoc:
  assumes "cells_at d co cs R" "holds d (g2 d (co + 2 * length cs)) c"
    "N = {g2 d (co + 2 * length cs)..<g2 d (co + 2 * length cs) + length c}" "N \<inter> R = {}"
  shows "cells_at d co (cs @ [c]) (R \<union> N)"
proof -
  let ?ps = "ptrs d co (length cs)" and ?p = "g2 d (co + 2 * length cs)"
  have "cell_regions (ptrs d co (length (cs @ [c]))) (cs @ [c]) = cell_regions ?ps cs @ [(?p, length c)]"
    by (simp add: ptrs_Suc cell_regions_def)
  moreover have "list_all2 (holds d) (ptrs d co (length (cs @ [c]))) (cs @ [c])"
    using assms(1,2) by (simp add: cells_at_def Let_def ptrs_Suc list_all2_appendI)
  ultimately show ?thesis
    using assms(1,3,4) by (auto simp: cells_at_def Let_def)
qed

lemma defragment_loop_cells:
  assumes repr: "page_repr pBt pPage cs bs" and src: "src = aData pPage" and u: "u = usableSize pBt"
    and start: "iCellStart \<le> content_top (hdrOffset pPage) src" and co: "co = cellOffset pPage"
    and k: "k \<le> length cs" "length data = length src"
    and todo: "\<forall>j. k \<le> j \<and> j < length cs \<longrightarrow> g2 data (co + 2 * j) = g2 src (co + 2 * j)"
    and dn: "cells_at data co (take k cs) {cbrk..<u}" "cbrk + sum_list (map length (take k cs)) = u"
    and same: "same_on (- {co..<co + 2 * length cs} - {cbrk..<u}) src data"
  shows "\<exists>data' cbrk'. defragment_loop pBt pPage src iCellStart [k..<length cs] cbrk data = (SQLITE_OK, data', cbrk') \<and>
    length data' = length src \<and> cells_at data' co cs {cbrk'..<u} \<and>
    cbrk' + sum_list (map length cs) = u \<and> same_on (- {co..<co + 2 * length cs} - {cbrk'..<u}) src data'"
  using k todo dn same
proof (induction "length cs - k" arbitrary: k cbrk data)
  case 0
  then show ?case by auto
next
  case (Suc m)
  note r = page_reprD [OF repr]
  have k: "k < length cs" using Suc.hyps(2) by simp
  let ?c = "cs ! k" and ?pc = "g2 src (co + 2 * k)"
  let ?sz = "length ?c"
  note b = page_ptr_bounds [OF repr k, folded src co u]
  have "holds src (ptrs src co (length cs) ! k) ?c"
    using r(7) k list_all2_nthD [OF r(7), of k] by (simp add: src co)
  then have h: "holds src ?pc ?c" using k by (simp add: nth_ptrs)
  have size: "xCellSize pBt pPage (drop ?pc src) = ?sz"
    using r(6) k drop_holds [OF h] by (simp add: cell_ok_def)
  have split: "take (Suc k) cs = take k cs @ [?c]" using k by (rule take_Suc_conv_app_nth)
  have "sum_list (map length cs) = sum_list (map length (take (Suc k) cs @ drop (Suc k) cs))" by simp
  then have sum: "sum_list (map length (take k cs)) + ?sz \<le> sum_list (map length cs)"
    unfolding split by (simp del: append_take_drop_id)
  have total: "sum_list (map length cs) + content_top (hdrOffset pPage) src \<le> u"
    using space_total [OF r(9)] card_disjoint [OF r(8)] by (simp add: sizes_cell_regions src co u)
  let ?cb = "cbrk - ?sz" and ?pA = "co + 2 * k"
  have cb: "iCellStart + ?sz \<le> cbrk" "content_top (hdrOffset pPage) src \<le> ?cb" "?cb < 65536" "cbrk \<le> u"
    "u \<le> length src" "co + 2 * length cs \<le> content_top (hdrOffset pPage) src" "hdrOffset pPage + 8 \<le> co"
    using Suc.prems(5) sum total start b(3) r(2,9) by (auto simp: space_ok_def src u co)
  let ?d1 = "p2 data ?pA ?cb"
  let ?d2 = "blit ?d1 ?cb ?c"
  have sub: "subbytes src ?pc ?sz = ?c" using h by (simp add: holds_def)
  have step: "defragment_loop pBt pPage src iCellStart [k..<length cs] cbrk data =
      defragment_loop pBt pPage src iCellStart [Suc k..<length cs] ?cb ?d2"
    using k b cb size Suc.prems(3) sub by (simp add: upt_conv_Cons Let_def co [symmetric] u [symmetric])
  have s1: "same_on (- {?pA, Suc ?pA}) data ?d1" by (rule same_on_p2) auto
  have s2: "same_on (- {?cb..<cbrk}) ?d1 ?d2" by (rule same_on_blit) (use cb in auto)
  have s12: "same_on (- {?pA, Suc ?pA} - {?cb..<cbrk}) data ?d2"
    by (rule same_on_trans [OF same_on_mono [OF s1] same_on_mono [OF s2]]) auto
  have len: "length ?d2 = length src" using Suc.prems(2) by simp
  have pk: "g2 ?d2 ?pA = ?cb"
    using cb k Suc.prems(2) g2_same_on [OF s2, of ?pA] by (simp add: g2_p2)
  have "cells_at ?d2 co (take k cs) {cbrk..<u}"
    by (rule cells_at_same_on [OF Suc.prems(4) s12]) (use k cb in auto)
  then have dn': "cells_at ?d2 co (take (Suc k) cs) {?cb..<u}"
  proof -
    have "{?cb..<u} = {cbrk..<u} \<union> {?cb..<?cb + ?sz}" using cb b(3) by auto
    moreover have "holds ?d2 ?cb ?c" by (rule holds_blit) (use cb Suc.prems(2) in auto)
    ultimately show ?thesis
      using cells_at_snoc [OF \<open>cells_at ?d2 co (take k cs) {cbrk..<u}\<close>, of ?c] k pk cb
      unfolding split by (simp add: min_def)
  qed
  have todo': "\<forall>j. Suc k \<le> j \<and> j < length cs \<longrightarrow> g2 ?d2 (co + 2 * j) = g2 src (co + 2 * j)"
  proof (intro allI impI)
    fix j assume j: "Suc k \<le> j \<and> j < length cs"
    have "g2 ?d2 (co + 2 * j) = g2 data (co + 2 * j)"
      by (rule g2_same_on [OF s12]) (use j cb in auto)
    with j Suc.prems(3) show "g2 ?d2 (co + 2 * j) = g2 src (co + 2 * j)" by simp
  qed
  have same': "same_on (- {co..<co + 2 * length cs} - {?cb..<u}) src ?d2"
    by (rule same_on_trans [OF same_on_mono [OF Suc.prems(6)] same_on_mono [OF s12]]) (use k cb in auto)
  have "?cb + sum_list (map length (take (Suc k) cs)) = u"
    using Suc.prems(5) cb unfolding split by simp
  from Suc.hyps(1) [OF _ _ len todo' dn' this same'] Suc.hyps(2) k
  show ?case unfolding step by simp
qed

lemma defragment_out_space:
  assumes gap: "gap = cellOffset pPage + 2 * nCell pPage" "hdrOffset pPage + 8 \<le> gap" "gap \<le> cbrk" "cbrk \<le> u"
    and u: "u \<le> length data" "u \<le> 65536" and U: "U \<subseteq> {cbrk..<u}"
    and fr: "g1 data (hdrOffset pPage + 7) = card ({cbrk..<u} - U)"
    and nf: "int (g1 data (hdrOffset pPage + 7)) + int cbrk - int gap = nFree pPage"
  obtains d' where "defragment_out pPage data cbrk = (SQLITE_OK, d')" "length d' = length data"
    "space_ok u (hdrOffset pPage) gap d' [] U"
    "same_on (- hdr_vars (hdrOffset pPage) - {gap..<cbrk}) data d'" "content_top (hdrOffset pPage) d' = cbrk"
    "g1 d' (hdrOffset pPage + 7) = g1 data (hdrOffset pPage + 7)"
proof -
  let ?h = "hdrOffset pPage"
  let ?d1 = "p1 (p1 (p2 data (?h + 5) cbrk) (?h + 1) 0) (?h + 2) 0"
  let ?d' = "memzero ?d1 gap (cbrk - gap)"
  have s1: "same_on (- {?h + 1, ?h + 2, ?h + 5, ?h + 6}) data ?d1"
    by (rule same_on_trans [OF same_on_trans [OF same_on_p2 same_on_p1] same_on_p1]) auto
  have s2: "same_on (- {gap..<cbrk}) ?d1 ?d'" by (rule same_on_memzero) auto
  have s: "same_on (- {?h + 1, ?h + 2, ?h + 5, ?h + 6} - {gap..<cbrk}) data ?d'"
    by (rule same_on_trans [OF same_on_mono [OF s1] same_on_mono [OF s2]]) auto
  have "g2 ?d1 (?h + 1) = 0"
  proof -
    have "g1 ?d1 (?h + 1) = 0" "g1 ?d1 (Suc (?h + 1)) = 0" using gap u by (simp_all add: rw_simps)
    then show ?thesis using g2_zero_iff [of ?d1 "?h + 1"] by simp
  qed
  then have z: "g2 ?d' (?h + 1) = 0" by (subst g2_same_on [OF s2]) (use gap in auto)
  have "content_top ?h ?d1 = content_top ?h (p2 data (?h + 5) cbrk)"
    by (simp add: content_top_g2 rw_simps)
  also have "\<dots> = cbrk" by (rule content_top_p2) (use gap u in auto)
  finally have ct: "content_top ?h ?d' = cbrk"
    using content_top_same_on [OF s2, of ?h] gap by simp
  have f: "g1 ?d' (?h + 7) = g1 data (?h + 7)" by (rule g1_same_on [OF s]) (use gap in auto)
  have "space_ok u ?h gap ?d' [] U"
    using gap u U fr z ct f by (simp add: space_ok_def chain_def)
  moreover have "defragment_out pPage data cbrk = (SQLITE_OK, ?d')"
    using nf gap(1) by (simp add: defragment_out_def Let_def)
  moreover have "same_on (- hdr_vars ?h - {gap..<cbrk}) data ?d'"
    by (rule same_on_mono [OF s]) auto
  ultimately show thesis using that ct f by simp
qed

lemma page_repr_cells_at:
  "page_repr pBt pPage cs bs \<longleftrightarrow>
     length (aData pPage) = pageSize pBt \<and> cellOffset pPage = hdrOffset pPage + 8 + childPtrSize pPage \<and>
     nCell pPage = length cs \<and> g2 (aData pPage) (hdrOffset pPage + 3) = length cs \<and> nOverflow pPage = 0 \<and>
     (\<forall>c\<in>set cs. cell_ok pBt pPage c) \<and>
     (\<exists>R. cells_at (aData pPage) (cellOffset pPage) cs R \<and>
        space_ok (usableSize pBt) (hdrOffset pPage) (cellOffset pPage + 2 * length cs) (aData pPage) bs R) \<and>
     nFree pPage = int (usableSize pBt) - int (sum_list (map length cs)) - int (cellOffset pPage + 2 * length cs)"
  unfolding page_repr_def cells_at_def Let_def by blast

text \<open>A relocation of all cells that is followed by the final writes keeps the page's cells.\<close>

lemma relocated:
  assumes repr: "page_repr pBt pPage cs bs" and len: "length data = length (aData pPage)"
    and cells: "cells_at data (cellOffset pPage) cs R" and R: "R \<subseteq> {cbrk..<usableSize pBt}"
    and fr: "g1 data (hdrOffset pPage + 7) = card ({cbrk..<usableSize pBt} - R)"
    and cb: "cellOffset pPage + 2 * length cs \<le> cbrk" "cbrk \<le> usableSize pBt"
    and same: "same_on {hdrOffset pPage + 3, hdrOffset pPage + 4} (aData pPage) data"
  shows "\<exists>d'. defragment_out pPage data cbrk = (SQLITE_OK, d') \<and>
    page_repr pBt (pPage\<lparr>aData := d'\<rparr>) cs [] \<and> g1 d' (hdrOffset pPage + 7) = g1 data (hdrOffset pPage + 7)"
proof -
  note r = page_reprD [OF repr]
  let ?u = "usableSize pBt" and ?h = "hdrOffset pPage" and ?gap = "cellOffset pPage + 2 * length cs"
  have u: "?u \<le> length data" "?u \<le> 65536" using r(9) len by (auto simp: space_ok_def)
  have cardR: "card R = sum_list (map length cs)"
    using cells card_disjoint sizes_cell_regions [of "ptrs data (cellOffset pPage) (length cs)" cs]
    by (auto simp: cells_at_def Let_def)
  have "card ({cbrk..<?u} - R) + card R = ?u - cbrk"
    using card_Diff_subset [OF finite_subset [OF R] R] card_mono [OF _ R] by simp
  then have nf: "int (g1 data (?h + 7)) + int cbrk - int ?gap = nFree pPage"
    using fr cardR cb r(10) by simp
  obtain d' where d': "defragment_out pPage data cbrk = (SQLITE_OK, d')" "length d' = length data"
    "space_ok ?u ?h ?gap d' [] R" "same_on (- hdr_vars ?h - {?gap..<cbrk}) data d'" "g1 d' (?h + 7) = g1 data (?h + 7)"
    using defragment_out_space [of ?gap pPage cbrk ?u data R] r(2,3) cb u R fr nf by auto
  have "cells_at d' (cellOffset pPage) cs R"
    by (rule cells_at_same_on [OF cells d'(4,2)]) (use R cb r(2) in \<open>auto dest: subsetD\<close>)
  moreover have "g2 d' (?h + 3) = length cs"
  proof -
    have "g2 d' (?h + 3) = g2 data (?h + 3)" by (rule g2_same_on [OF d'(4)]) (use r(2) cb in auto)
    also have "\<dots> = g2 (aData pPage) (?h + 3)" by (rule g2_same_on [OF same]) auto
    finally show ?thesis using r(4) by simp
  qed
  ultimately show ?thesis
    using d' r len by (auto simp: page_repr_cells_at)
qed

lemma defragment_slow_repr:
  assumes repr: "page_repr pBt pPage cs bs"
  shows "\<exists>data cbrk d'. defragment_slow pBt pPage = (SQLITE_OK, data, cbrk) \<and>
    defragment_out pPage data cbrk = (SQLITE_OK, d') \<and> page_repr pBt (pPage\<lparr>aData := d'\<rparr>) cs [] \<and> g1 d' (hdrOffset pPage + 7) = 0"
proof -
  let ?d = "aData pPage" and ?h = "hdrOffset pPage" and ?co = "cellOffset pPage" and ?u = "usableSize pBt"
  note r = page_reprD [OF repr]
  have st: "g2 ?d (?h + 5) \<le> content_top ?h ?d" by (simp add: content_top_g2)
  have base: "cells_at ?d ?co (take 0 cs) {?u..<?u}"
    by (simp add: cells_at_def Let_def ptrs_def cell_regions_def)
  have "\<exists>data cbrk. defragment_loop pBt pPage ?d (g2 ?d (?h + 5)) [0..<length cs] ?u ?d = (SQLITE_OK, data, cbrk) \<and>
    length data = length ?d \<and> cells_at data ?co cs {cbrk..<?u} \<and>
    cbrk + sum_list (map length cs) = ?u \<and> same_on (- {?co..<?co + 2 * length cs} - {cbrk..<?u}) ?d data"
    by (rule defragment_loop_cells [OF repr refl refl st refl _ _ _ base]) auto
  then obtain data cbrk where l: "defragment_loop pBt pPage ?d (g2 ?d (?h + 5)) [0..<length cs] ?u ?d = (SQLITE_OK, data, cbrk)"
    "length data = length ?d" "cells_at data ?co cs {cbrk..<?u}" "cbrk + sum_list (map length cs) = ?u"
    "same_on (- {?co..<?co + 2 * length cs} - {cbrk..<?u}) ?d data" by blast
  have tot: "sum_list (map length cs) + content_top ?h ?d \<le> ?u"
    using space_total [OF r(9)] card_disjoint [OF r(8)] by (simp add: sizes_cell_regions)
  have geo: "?co + 2 * length cs \<le> content_top ?h ?d" "content_top ?h ?d \<le> cbrk" "?u \<le> length ?d" "?h + 8 \<le> ?co"
    using r(2,9) tot l(4) by (auto simp: space_ok_def)
  let ?data = "p1 data (?h + 7) 0"
  have s: "same_on (- {?h + 7}) data ?data" by (rule same_on_p1) auto
  have "cells_at ?data ?co cs {cbrk..<?u}"
    by (rule cells_at_same_on [OF l(3) s]) (use geo in auto)
  moreover have z: "g1 ?data (?h + 7) = 0" using geo l(2,4) by (simp add: rw_simps)
  moreover have "same_on {?h + 3, ?h + 4} ?d ?data"
    by (rule same_on_trans [OF same_on_mono [OF l(5)] same_on_mono [OF s]]) (use geo in auto)
  ultimately have "\<exists>d'. defragment_out pPage ?data cbrk = (SQLITE_OK, d') \<and>
      page_repr pBt (pPage\<lparr>aData := d'\<rparr>) cs [] \<and> g1 d' (?h + 7) = g1 ?data (?h + 7)"
    using geo l(2,4) by (intro relocated [OF repr]) auto
  moreover have "defragment_slow pBt pPage = (SQLITE_OK, ?data, cbrk)"
    using l(1) r(3) by (simp add: defragment_slow_def Let_def)
  ultimately show ?thesis using z by fastforce
qed

section \<open>The fast path\<close>

lemma shift_ptrs_spec:
  assumes "co + 2 * n \<le> length d" "k \<le> n"
    and \<sigma>: "\<sigma> = (\<lambda>pc. if pc < iFree then pc + sz else if pc < iFree2 then pc + sz2 else pc)"
    and small: "\<forall>j. k \<le> j \<and> j < n \<longrightarrow> \<sigma> (g2 d (co + 2 * j)) < 65536"
  shows "same_on (- {co + 2 * k..<co + 2 * n}) d (shift_ptrs co iFree iFree2 sz sz2 [k..<n] d) \<and>
    length (shift_ptrs co iFree iFree2 sz sz2 [k..<n] d) = length d \<and>
    (\<forall>j. k \<le> j \<and> j < n \<longrightarrow> g2 (shift_ptrs co iFree iFree2 sz sz2 [k..<n] d) (co + 2 * j) = \<sigma> (g2 d (co + 2 * j)))"
  using assms(1,2,4)
proof (induction "n - k" arbitrary: k d)
  case (Suc m)
  have k: "k < n" using Suc.hyps(2) by simp
  define d1 where "d1 = (if g2 d (co + 2 * k) < iFree then p2 d (co + 2 * k) (g2 d (co + 2 * k) + sz)
               else if g2 d (co + 2 * k) < iFree2 then p2 d (co + 2 * k) (g2 d (co + 2 * k) + sz2) else d)"
  let ?r = "shift_ptrs co iFree iFree2 sz sz2 [Suc k..<n] d1"
  have s: "same_on (- {co + 2 * k, Suc (co + 2 * k)}) d d1" unfolding d1_def by (auto intro: same_on_p2)
  have g: "g2 d1 (co + 2 * k) = \<sigma> (g2 d (co + 2 * k))"
    using Suc.prems(1,3) k unfolding d1_def by (auto simp: \<sigma> g2_p2)
  have g': "g2 d1 (co + 2 * j) = g2 d (co + 2 * j)" if "j \<noteq> k" for j
    by (rule g2_same_on [OF s]) (use that in auto)
  have step: "shift_ptrs co iFree iFree2 sz sz2 [k..<n] d = ?r"
    using k by (simp add: upt_conv_Cons Let_def d1_def)
  have ih: "same_on (- {co + 2 * Suc k..<co + 2 * n}) d1 ?r" "length ?r = length d1"
    "\<forall>j. Suc k \<le> j \<and> j < n \<longrightarrow> g2 ?r (co + 2 * j) = \<sigma> (g2 d1 (co + 2 * j))"
    using Suc.hyps(1) [of "Suc k" d1] Suc.hyps(2) Suc.prems g' by (auto simp: d1_def)
  have "same_on (- {co + 2 * k..<co + 2 * n}) d ?r"
    by (rule same_on_trans [OF same_on_mono [OF s] same_on_mono [OF ih(1)]]) (use k in auto)
  have "g2 ?r (co + 2 * k) = \<sigma> (g2 d (co + 2 * k))"
    using g g2_same_on [OF ih(1), of "co + 2 * k"] by simp
  then have "\<forall>j. k \<le> j \<and> j < n \<longrightarrow> g2 ?r (co + 2 * j) = \<sigma> (g2 d (co + 2 * j))"
    using ih(3) g' by (metis Suc_leI le_neq_implies_less)
  moreover have "length ?r = length d" using ih(2) by (simp add: d1_def)
  ultimately show ?case unfolding step using \<open>same_on (- {co + 2 * k..<co + 2 * n}) d ?r\<close> by blast
qed simp

text \<open>
  The bytes below the first freeblock move up by \<open>sz + sz2\<close>, those between the two freeblocks by
  \<open>sz2\<close>; the rest stays.  \<open>m2\<close> is the end of the middle part (the end of the page when there is
  only one freeblock).
\<close>

definition shifted :: "nat \<Rightarrow> nat \<Rightarrow> nat \<Rightarrow> nat \<Rightarrow> nat \<Rightarrow> nat" where
  "shifted iFree iFree2 S sz2 k = (if k < iFree then k + S else if k < iFree2 then k + sz2 else k)"

definition two_blocks :: "nat \<Rightarrow> nat \<Rightarrow> nat \<Rightarrow> nat \<Rightarrow> (nat \<times> nat) list" where
  "two_blocks iFree sz iFree2 sz2 = (iFree, sz) # (if iFree2 = 0 then [] else [(iFree2, sz2)])"

lemma shifted_image:
  assumes bo: "blocks_ok u (ct + 1) (two_blocks iFree sz iFree2 sz2)" and z: "iFree2 = 0 \<Longrightarrow> sz2 = 0" "ct \<le> u"
    and S: "S = sz + sz2"
  shows "inj_on (shifted iFree iFree2 S sz2) ({ct..<u} - regions (two_blocks iFree sz iFree2 sz2))"
    "shifted iFree iFree2 S sz2 ` ({ct..<u} - regions (two_blocks iFree sz iFree2 sz2)) = {ct + S..<u}"
proof -
  have o: "ct + 1 \<le> iFree" "iFree + sz \<le> u" "iFree2 \<noteq> 0 \<Longrightarrow> iFree + sz + 4 \<le> iFree2 \<and> iFree2 + sz2 \<le> u"
    using bo by (auto simp: two_blocks_def split: if_splits)
  show "inj_on (shifted iFree iFree2 S sz2) ({ct..<u} - regions (two_blocks iFree sz iFree2 sz2))"
    using o z S by (cases "iFree2 = 0") (auto simp: inj_on_def shifted_def two_blocks_def split: if_splits)
  show "shifted iFree iFree2 S sz2 ` ({ct..<u} - regions (two_blocks iFree sz iFree2 sz2)) = {ct + S..<u}"
  proof (intro equalityI subsetI)
    fix x assume "x \<in> shifted iFree iFree2 S sz2 ` ({ct..<u} - regions (two_blocks iFree sz iFree2 sz2))"
    then show "x \<in> {ct + S..<u}"
      using o z S by (cases "iFree2 = 0") (auto simp: shifted_def two_blocks_def split: if_splits)
  next
    fix x assume x: "x \<in> {ct + S..<u}"
    let ?B = "regions (two_blocks iFree sz iFree2 sz2)"
    have B: "?B \<subseteq> {iFree..<iFree + sz} \<union> {iFree2..<iFree2 + sz2}" "iFree2 = 0 \<Longrightarrow> ?B = {iFree..<iFree + sz}"
      by (auto simp: two_blocks_def)
    consider (low) "x < iFree + S" | (mid) "iFree + S \<le> x" "iFree2 \<noteq> 0" "x < iFree2 + sz2"
      | (high) "iFree + S \<le> x" "iFree2 = 0 \<or> iFree2 + sz2 \<le> x" by linarith
    then show "x \<in> shifted iFree iFree2 S sz2 ` ({ct..<u} - ?B)"
    proof cases
      case low
      then have "x - S \<notin> {iFree..<iFree + sz} \<union> {iFree2..<iFree2 + sz2}"
        using x o z by (cases "iFree2 = 0") auto
      with low x S B(1) show ?thesis by (intro image_eqI [of _ _ "x - S"]) (auto simp: shifted_def)
    next
      case mid
      then have "x - sz2 \<notin> {iFree..<iFree + sz} \<union> {iFree2..<iFree2 + sz2}" using x o S by auto
      with mid x S o B(1) show ?thesis by (intro image_eqI [of _ _ "x - sz2"]) (auto simp: shifted_def)
    next
      case high
      have "x \<notin> ?B"
      proof (cases "iFree2 = 0")
        case True
        then show ?thesis using high S B(2) by simp
      next
        case False
        then have "x \<notin> {iFree..<iFree + sz} \<union> {iFree2..<iFree2 + sz2}" using high S by auto
        then show ?thesis using B(1) by blast
      qed
      with high x S o show ?thesis by (intro image_eqI [of _ _ x]) (auto simp: shifted_def)
    qed
  qed
qed

lemma shifted_region:
  assumes bo: "blocks_ok u (ct + 1) (two_blocks iFree sz iFree2 sz2)" and z: "iFree2 = 0 \<Longrightarrow> sz2 = 0"
    and c: "{pc..<pc + n} \<inter> regions (two_blocks iFree sz iFree2 sz2) = {}" "0 < n"
  shows "k < n \<Longrightarrow> shifted iFree iFree2 S sz2 (pc + k) = shifted iFree iFree2 S sz2 pc + k"
    "shifted iFree iFree2 S sz2 ` {pc..<pc + n} = {shifted iFree iFree2 S sz2 pc..<shifted iFree iFree2 S sz2 pc + n}"
proof -
  have o: "4 \<le> sz" "iFree2 \<noteq> 0 \<Longrightarrow> iFree + sz + 4 \<le> iFree2 \<and> 4 \<le> sz2"
    using bo by (auto simp: two_blocks_def split: if_splits)
  have d1: "pc + n \<le> iFree \<or> iFree + sz \<le> pc" "iFree2 \<noteq> 0 \<Longrightarrow> pc + n \<le> iFree2 \<or> iFree2 + sz2 \<le> pc"
    using c o disjoint_ivl_iff [of pc "pc + n" iFree "iFree + sz"] disjoint_ivl_iff [of pc "pc + n" iFree2 "iFree2 + sz2"]
    by (auto simp: two_blocks_def Int_Un_distrib split: if_splits)
  show k: "shifted iFree iFree2 S sz2 (pc + k) = shifted iFree iFree2 S sz2 pc + k" if "k < n" for k
    using that d1 o c(2) by (cases "iFree2 = 0") (auto simp: shifted_def)
  have "{q..<q + n} = (+) q ` {0..<n}" for q :: nat
    by (simp add: add.commute)
  then show "shifted iFree iFree2 S sz2 ` {pc..<pc + n} = {shifted iFree iFree2 S sz2 pc..<shifted iFree iFree2 S sz2 pc + n}"
    using k by (auto simp: image_image simp del: image_add_atLeastLessThan intro!: image_cong)
qed

lemma cells_at_relocate:
  assumes cells: "cells_at d co cs R" and ptr: "\<forall>j<length cs. g2 d' (co + 2 * j) = \<sigma> (g2 d (co + 2 * j))"
    and len: "length d' = length d" and inj: "inj_on \<sigma> R"
    and cell: "\<And>pc n. {pc..<pc + n} \<subseteq> R \<Longrightarrow> 0 < n \<Longrightarrow> \<sigma> ` {pc..<pc + n} = {\<sigma> pc..<\<sigma> pc + n} \<and>
      (\<forall>k<n. \<sigma> (pc + k) = \<sigma> pc + k)"
    and bytes: "\<And>k. k \<in> R \<Longrightarrow> byte_at d' (\<sigma> k) = byte_at d k \<and> \<sigma> k < length d"
    and pos: "\<forall>c\<in>set cs. 0 < length c"
  shows "cells_at d' co cs (\<sigma> ` R)"
proof -
  let ?n = "length cs"
  let ?ps = "ptrs d co ?n" and ?ps' = "ptrs d' co ?n"
  have c: "list_all2 (holds d) ?ps cs" "disjoint_list (cell_regions ?ps cs)" "regions (cell_regions ?ps cs) = R"
    using cells by (auto simp: cells_at_def Let_def)
  have p: "?ps' = map \<sigma> ?ps" by (rule nth_equalityI) (use ptr in \<open>auto simp: nth_ptrs\<close>)
  have sub: "{?ps ! i..<?ps ! i + length (cs ! i)} \<subseteq> R" if "i < ?n" for i
    using cell_regions_nth_sub [of ?ps cs i] that c(3) by simp
  have "holds d' (\<sigma> (?ps ! i)) (cs ! i)" if i: "i < ?n" for i
  proof -
    let ?pc = "?ps ! i" and ?l = "length (cs ! i)"
    have l: "0 < ?l" using pos i by simp
    have h: "holds d ?pc (cs ! i)" using list_all2_nthD [OF c(1), of i] i by simp
    have k: "\<sigma> (?pc + k) = \<sigma> ?pc + k \<and> byte_at d' (\<sigma> (?pc + k)) = byte_at d (?pc + k) \<and> \<sigma> (?pc + k) < length d"
      if "k < ?l" for k
    proof -
      have "?pc + k \<in> {?pc..<?pc + ?l}" using that by simp
      then have "?pc + k \<in> R" using sub [OF i] by blast
      then show ?thesis using cell [OF sub [OF i] l] bytes that by blast
    qed
    have le: "\<sigma> ?pc + ?l \<le> length d'" using k [of "?l - 1"] l len by auto
    have "subbytes d' (\<sigma> ?pc) ?l = subbytes d ?pc ?l"
    proof -
      have "map (byte_at d') [\<sigma> ?pc..<\<sigma> ?pc + ?l] = map (byte_at d) [?pc..<?pc + ?l]"
        by (rule nth_equalityI) (use k in \<open>simp_all, metis\<close>)
      moreover have "?pc + ?l \<le> length d" using h by (simp add: holds_def)
      ultimately show ?thesis using le by (simp add: subbytes_byte_at)
    qed
    with h le show ?thesis by (simp add: holds_def)
  qed
  then have h': "list_all2 (holds d') ?ps' cs"
    unfolding p by (intro list_all2_all_nthI) auto
  have rs: "region (\<sigma> a, m) = \<sigma> ` region (a, m)" if am: "(a, m) \<in> set (cell_regions ?ps cs)" for a m
  proof -
    obtain i where i: "i < ?n" "a = ?ps ! i" "m = length (cs ! i)"
      using am by (auto simp: cell_regions_def set_zip)
    show ?thesis using cell [OF sub [OF i(1)]] pos i by simp
  qed
  have cr: "cell_regions ?ps' cs = map (\<lambda>(a, m). (\<sigma> a, m)) (cell_regions ?ps cs)"
    unfolding p cell_regions_def by (simp add: zip_map1 split_def map_fst_zip)
  have "regions (map (\<lambda>(a, m). (\<sigma> a, m)) rs) = \<sigma> ` regions rs \<and> disjoint_list (map (\<lambda>(a, m). (\<sigma> a, m)) rs)"
    if "set rs \<subseteq> set (cell_regions ?ps cs)" "disjoint_list rs" for rs
    using that
  proof (induction rs)
    case (Cons r rs)
    obtain a m where r: "r = (a, m)" by fastforce
    have sub': "region r \<subseteq> R" "regions rs \<subseteq> R" using Cons.prems(1) c(3) by (auto simp: regions_def)
    have e: "region (\<sigma> a, m) = \<sigma> ` region r" using rs Cons.prems(1) r by auto
    have "\<sigma> ` region r \<inter> \<sigma> ` regions rs = {}"
      using Cons.prems(2) inj_on_image_Int [OF inj sub'] by simp
    then show ?case using Cons e r by (auto simp: image_Un simp del: region_pair)
  qed simp
  then show ?thesis
    using h' c cr by (simp add: cells_at_def Let_def)
qed

lemma fast_bytes:
  assumes o: "ct < iFree" "iFree + sz \<le> u" "iFree2 \<noteq> 0 \<Longrightarrow> iFree + sz + 4 \<le> iFree2 \<and> iFree2 + sz2 \<le> u"
    "iFree2 = 0 \<Longrightarrow> sz2 = 0" "u \<le> length d"
    and d1: "d1 = (if iFree2 \<noteq> 0 then memmove d (iFree + sz + sz2) (iFree + sz) (iFree2 - (iFree + sz)) else d)"
    and d2: "d2 = memmove d1 (ct + (sz + sz2)) ct (iFree - ct)"
  shows "k < ct \<Longrightarrow> byte_at d2 k = byte_at d k"
    "k \<in> {ct..<u} - regions (two_blocks iFree sz iFree2 sz2) \<Longrightarrow>
       byte_at d2 (shifted iFree iFree2 (sz + sz2) sz2 k) = byte_at d k"
    "length d2 = length d"
proof -
  have l1: "length d1 = length d" by (simp add: d1)
  have b1: "byte_at d1 j = (if iFree2 \<noteq> 0 \<and> iFree + sz + sz2 \<le> j \<and> j < iFree2 + sz2
      then byte_at d (j - sz2) else byte_at d j)" for j
    using o unfolding d1 by (auto simp: byte_at_memmove)
  have b2: "byte_at d2 j = (if ct + (sz + sz2) \<le> j \<and> j < iFree + (sz + sz2)
      then byte_at d1 (j - (sz + sz2)) else byte_at d1 j)" for j
  proof -
    have "iFree + (sz + sz2) \<le> length d"
      using o by (cases "iFree2 = 0") auto
    then show ?thesis using o l1 unfolding d2 by (auto simp: byte_at_memmove)
  qed
  show "length d2 = length d" by (simp add: d2 l1)
  show "k < ct \<Longrightarrow> byte_at d2 k = byte_at d k" using o by (simp add: b1 b2)
  show "byte_at d2 (shifted iFree iFree2 (sz + sz2) sz2 k) = byte_at d k"
    if k: "k \<in> {ct..<u} - regions (two_blocks iFree sz iFree2 sz2)"
  proof (cases "iFree2 = 0")
    case True
    then show ?thesis using k o unfolding shifted_def b2 b1 by (auto simp: two_blocks_def)
  next
    case False
    then show ?thesis using k o(1,2) o(3) [OF False] unfolding shifted_def b2 b1 by (auto simp: two_blocks_def)
  qed
qed


lemma fast_relocates:
  assumes repr: "page_repr pBt pPage cs bs" and bs: "bs = two_blocks iFree sz iFree2 sz2" "iFree2 = 0 \<Longrightarrow> sz2 = 0"
    and d: "d = aData pPage" and ct: "ct = content_top (hdrOffset pPage) d"
    and d1: "d1 = (if iFree2 \<noteq> 0 then memmove d (iFree + sz + sz2) (iFree + sz) (iFree2 - (iFree + sz)) else d)"
    and d2: "d2 = memmove d1 (ct + (sz + sz2)) ct (iFree - ct)"
    and d3: "d3 = shift_ptrs (cellOffset pPage) iFree iFree2 (sz + sz2) sz2 [0..<length cs] d2"
  shows "\<exists>d'. defragment_out pPage d3 (ct + (sz + sz2)) = (SQLITE_OK, d') \<and> page_repr pBt (pPage\<lparr>aData := d'\<rparr>) cs [] \<and>
    g1 d' (hdrOffset pPage + 7) = g1 d (hdrOffset pPage + 7)"
proof -
  let ?u = "usableSize pBt" and ?h = "hdrOffset pPage" and ?co = "cellOffset pPage" and ?n = "length cs"
  let ?S = "sz + sz2" and ?B = "regions bs" and ?R = "regions (cell_regions (ptrs d (cellOffset pPage) (length cs)) cs)"
  let ?\<sigma> = "shifted iFree iFree2 ?S sz2"
  note r = page_reprD [OF repr, folded d]
  have sp: "?co + 2 * ?n \<le> ct" "ct \<le> ?u" "?u \<le> length d" "?u \<le> 65536" "blocks_ok ?u (ct + 1) bs" "?R \<subseteq> {ct..<?u}"
    "?R \<inter> ?B = {}" "g1 d (?h + 7) = card ({ct..<?u} - ?R - ?B)"
    using r(9) by (auto simp: space_ok_def ct)
  have o: "ct < iFree" "iFree + sz \<le> ?u" "iFree2 \<noteq> 0 \<Longrightarrow> iFree + sz + 4 \<le> iFree2 \<and> iFree2 + sz2 \<le> ?u"
    using sp(5) unfolding bs by (auto simp: two_blocks_def split: if_splits)
  note im = shifted_image [OF sp(5) [unfolded bs(1)] bs(2) sp(2) refl, folded bs(1)]
  note fb = fast_bytes [OF o bs(2) sp(3) d1 d2, folded bs(1)]
  have RB: "?R \<subseteq> {ct..<?u} - ?B" using sp(6,7) by auto
  have \<sigma>u: "?\<sigma> k \<in> {ct + ?S..<?u}" if "k \<in> ?R" for k
    using im(2) RB that by blast
  have low: "same_on {..<ct} d d2" using fb(1) by (simp add: same_on_def)
  have ptr2: "g2 d2 (?co + 2 * j) = g2 d (?co + 2 * j)" if "j < ?n" for j
    by (rule g2_same_on [OF low]) (use that sp(1) in auto)
  have inR: "g2 d (?co + 2 * j) \<in> ?R" if "j < ?n" for j
  proof -
    have "0 < length (cs ! j)" using r(6) nth_mem [OF that] by (fastforce simp: cell_ok_def)
    then show ?thesis
      using cell_regions_nth_sub [of "ptrs d ?co ?n" cs j] that by (auto simp: nth_ptrs)
  qed
  have len2: "length d2 = length d" by (rule fb(3))
  have small: "\<forall>j. 0 \<le> j \<and> j < ?n \<longrightarrow> ?\<sigma> (g2 d2 (?co + 2 * j)) < 65536"
    using \<sigma>u inR ptr2 sp(4) by fastforce
  have sh: "same_on (- {?co..<?co + 2 * ?n}) d2 d3" "length d3 = length d"
    "\<forall>j<?n. g2 d3 (?co + 2 * j) = ?\<sigma> (g2 d (?co + 2 * j))"
    using shift_ptrs_spec [of ?co ?n d2 0 ?\<sigma> iFree ?S iFree2 sz2] small sp len2 ptr2
    by (auto simp: d3 shifted_def [abs_def])
  have "cells_at d3 ?co cs (?\<sigma> ` ?R)"
  proof (rule cells_at_relocate [OF _ sh(3,2)])
    show "cells_at d ?co cs ?R" using r(7,8) by (simp add: cells_at_def Let_def)
    show "inj_on ?\<sigma> ?R" using inj_on_subset [OF im(1) RB] .
    show "\<forall>c\<in>set cs. 0 < length c" using r(6) by (auto simp: cell_ok_def)
  next
    fix pc n assume "{pc..<pc + n} \<subseteq> ?R" "0 < (n :: nat)"
    moreover from this have "{pc..<pc + n} \<inter> regions (two_blocks iFree sz iFree2 sz2) = {}"
      using sp(7) unfolding bs(1) by auto
    ultimately show "?\<sigma> ` {pc..<pc + n} = {?\<sigma> pc..<?\<sigma> pc + n} \<and> (\<forall>k<n. ?\<sigma> (pc + k) = ?\<sigma> pc + k)"
      using shifted_region [OF sp(5) [unfolded bs(1)] bs(2)] by blast
  next
    fix k assume k: "k \<in> ?R"
    have "byte_at d3 (?\<sigma> k) = byte_at d2 (?\<sigma> k)"
      using sh(1) \<sigma>u [OF k] sp(1) by (auto simp: same_on_def)
    then show "byte_at d3 (?\<sigma> k) = byte_at d k \<and> ?\<sigma> k < length d"
      using fb(2) RB k \<sigma>u [OF k] sp(3) by auto
  qed
  moreover have "?\<sigma> ` ?R \<subseteq> {ct + ?S..<?u}" using \<sigma>u by auto
  moreover have fr: "g1 d3 (?h + 7) = g1 d (?h + 7)"
    using g1_same_on [OF sh(1), of "?h + 7"] g1_same_on [OF low, of "?h + 7"] r(2) sp(1) by auto
  then have "g1 d3 (?h + 7) = card ({ct + ?S..<?u} - ?\<sigma> ` ?R)"
  proof -
    have "{ct + ?S..<?u} - ?\<sigma> ` ?R = ?\<sigma> ` ({ct..<?u} - ?B - ?R)"
      using im inj_on_image_set_diff [OF im(1) _ RB, of "{ct..<?u} - ?B"] by auto
    moreover have "card (?\<sigma> ` ({ct..<?u} - ?B - ?R)) = card ({ct..<?u} - ?B - ?R)"
      by (rule card_image) (rule inj_on_subset [OF im(1)], auto)
    moreover have "{ct..<?u} - ?B - ?R = {ct..<?u} - ?R - ?B" by auto
    ultimately show ?thesis using sp(8) fr by simp
  qed
  moreover have "same_on {?h + 3, ?h + 4} d d3"
    by (rule same_on_trans [OF same_on_mono [OF low] same_on_mono [OF sh(1)]]) (use r(2) sp(1) in auto)
  moreover have "ct + ?S \<le> ?u" using o bs(2) by (cases "iFree2 = 0") auto
  ultimately show ?thesis
    using relocated [OF repr, of d3 "?\<sigma> ` ?R" "ct + ?S"] sp(1) sh(2) fr by (auto simp: d)
qed

lemma defragment_fast_repr:
  assumes repr: "page_repr pBt pPage cs bs" and f: "defragment_fast pBt pPage nMaxFrag = Some res"
  shows "\<exists>data cbrk d'. res = (SQLITE_OK, data, cbrk) \<and> defragment_out pPage data cbrk = (SQLITE_OK, d') \<and>
    page_repr pBt (pPage\<lparr>aData := d'\<rparr>) cs [] \<and> int (g1 d' (hdrOffset pPage + 7)) \<le> nMaxFrag"
proof -
  let ?d = "aData pPage" and ?h = "hdrOffset pPage" and ?u = "usableSize pBt"
  note r = page_reprD [OF repr]
  let ?ct = "content_top ?h ?d"
  have ch: "chain ?d (?h + 1) bs" and bo: "blocks_ok ?u (?ct + 1) bs" and u: "?u \<le> 65536" "?h + 8 \<le> ?ct" "?ct \<le> ?u"
    using r(2,9) by (auto simp: space_ok_def)
  define iFree iFree2 where "iFree = g2 ?d (?h + 1)" and "iFree2 = g2 ?d iFree"
  note F = f [unfolded defragment_fast_def Let_def, folded iFree_def, folded iFree2_def]
  have "iFree \<noteq> 0" using F u by (auto split: if_splits)
  then obtain sz bs1 where b1: "bs = (iFree, sz) # bs1" and c1: "g2 ?d (iFree + 2) = sz" "chain ?d iFree bs1"
    using ch by (cases bs rule: first_pc.cases) (auto simp: chain_tail iFree_def)
  have i2: "iFree2 = first_pc bs1" using c1(2) by (simp add: chain_tail iFree2_def)
  have o1: "?ct < iFree" "iFree + sz \<le> ?u" "4 \<le> sz" "blocks_ok ?u (iFree + sz + 4) bs1" using bo b1 by auto
  have ctg: "g2 ?d (?h + 5) = ?ct" using o1 u by (auto simp: content_top_g2 split: if_splits)
  define sz2 where "sz2 = (if iFree2 \<noteq> 0 then g2 ?d (iFree2 + 2) else 0)"
  have bs: "bs = two_blocks iFree sz iFree2 sz2"
  proof (cases bs1 rule: first_pc.cases)
    case 1
    then show ?thesis using b1 i2 by (simp add: two_blocks_def)
  next
    case (2 pc s bs2)
    then have p: "pc = iFree2" "iFree2 \<noteq> 0" "g2 ?d (iFree2 + 2) = s" "g2 ?d iFree2 = first_pc bs2" "tail_ok ?d bs2"
      using i2 c1(2) o1(4) by (auto simp: chain_tail)
    have o2': "iFree2 + 4 \<le> ?u" "iFree + sz \<le> iFree2" "iFree2 + g2 ?d (iFree2 + 2) \<le> ?u" using o1(4) 2 p by auto
    have "g1 ?d iFree2 = 0 \<and> g1 ?d (iFree2 + 1) = 0"
      using F p(2) o1 o2' ctg c1(1) by (auto split: if_splits)
    then have "first_pc bs2 = 0" using g2_zero_iff [of ?d iFree2] p(4) by simp
    then have "bs2 = []" using p(5) by (cases bs2 rule: first_pc.cases) auto
    then show ?thesis using b1 2 p by (simp add: two_blocks_def sz2_def)
  qed
  have o2: "iFree2 \<noteq> 0 \<Longrightarrow> iFree + sz + 4 \<le> iFree2 \<and> 4 \<le> sz2 \<and> iFree2 + sz2 \<le> ?u"
    using bo unfolding bs by (auto simp: two_blocks_def split: if_splits)
  let ?d1 = "if iFree2 \<noteq> 0 then memmove ?d (iFree + sz + sz2) (iFree + sz) (iFree2 - (iFree + sz)) else ?d"
  let ?d2 = "memmove ?d1 (?ct + (sz + sz2)) ?ct (iFree - ?ct)"
  let ?d3 = "shift_ptrs (cellOffset pPage) iFree iFree2 (sz + sz2) sz2 [0..<length cs] ?d2"
  have "res = (SQLITE_OK, ?d3, ?ct + (sz + sz2))"
  proof (cases "iFree2 = 0")
    case True
    then show ?thesis
      using F o1 c1(1) ctg r(3) \<open>iFree \<noteq> 0\<close> by (auto simp: sz2_def split: if_splits)
  next
    case False
    then show ?thesis
      using F o1 o2 c1(1) ctg r(3) \<open>iFree \<noteq> 0\<close> by (auto simp: sz2_def split: if_splits)
  qed
  moreover have "\<exists>d'. defragment_out pPage ?d3 (?ct + (sz + sz2)) = (SQLITE_OK, d') \<and> page_repr pBt (pPage\<lparr>aData := d'\<rparr>) cs [] \<and>
      g1 d' (?h + 7) = g1 ?d (?h + 7)"
    by (rule fast_relocates [OF repr bs _ refl refl refl refl refl]) (simp add: sz2_def)
  moreover have "int (g1 ?d (?h + 7)) \<le> nMaxFrag" using F by (auto split: if_splits)
  ultimately show ?thesis by fastforce
qed

lemma defragmentPage_repr:
  assumes "page_repr pBt pPage cs bs"
  shows "\<exists>d'. defragmentPage pBt pPage nMaxFrag = (SQLITE_OK, d') \<and> page_repr pBt (pPage\<lparr>aData := d'\<rparr>) cs [] \<and>
    (g1 d' (hdrOffset pPage + 7) = 0 \<or> int (g1 d' (hdrOffset pPage + 7)) \<le> nMaxFrag)"
proof (cases "defragment_fast pBt pPage nMaxFrag")
  case None
  with defragment_slow_repr [OF assms] show ?thesis by (auto simp: defragmentPage_def)
next
  case (Some res)
  with defragment_fast_repr [OF assms Some] show ?thesis by (auto simp: defragmentPage_def)
qed

section \<open>Allocation and insertion\<close>

lemma reserved_update: "reserved pBt (pPage\<lparr>aData := d1\<rparr>) cs nByte idx d bs = reserved pBt pPage cs nByte idx d bs"
  by (simp add: reserved_def)

lemma allocateSpace_reserved:
  assumes repr: "page_repr pBt pPage cs bs" and n: "0 < nByte" and fit: "int nByte + 2 \<le> nFree pPage"
  shows "\<exists>idx d' bs'. allocateSpace pBt pPage nByte = (SQLITE_OK, idx, pPage\<lparr>aData := d'\<rparr>) \<and>
    reserved pBt pPage cs nByte idx d' bs'"
proof -
  let ?d = "aData pPage" and ?h = "hdrOffset pPage" and ?u = "usableSize pBt"
  let ?gap = "cellOffset pPage + 2 * length cs"
  let ?U = "regions (cell_regions (ptrs ?d (cellOffset pPage) (length cs)) cs)"
  note r = page_reprD [OF repr]
  have le: "nByte \<le> ?u" using fit r(10) by linarith
  have gap: "cellOffset pPage + 2 * nCell pPage = ?gap" using r(3) by simp
  consider (direct) "alloc_post ?u ?h ?gap nByte pPage ?U (allocateSpace pBt pPage nByte)"
    | (defrag) "content_top ?h ?d < ?gap + 2 + nByte"
        "allocateSpace pBt pPage nByte = allocate_gap pBt pPage nByte ?gap (content_top ?h ?d)"
    using allocateSpace_space [OF r(9) n le refl refl gap] by blast
  then show ?thesis
  proof cases
    case direct
    then show ?thesis by (rule alloc_post_reserved [OF repr])
  next
    case defrag
    obtain d1 where d1: "defragmentPage pBt pPage (min 4 (nFree pPage - (2 + int nByte))) = (SQLITE_OK, d1)"
      and repr1: "page_repr pBt (pPage\<lparr>aData := d1\<rparr>) cs []"
      and frag: "g1 d1 (?h + 7) = 0 \<or> int (g1 d1 (?h + 7)) \<le> min 4 (nFree pPage - (2 + int nByte))"
      using defragmentPage_repr [OF repr] by blast
    let ?p1 = "pPage\<lparr>aData := d1\<rparr>"
    let ?U1 = "regions (cell_regions (ptrs d1 (cellOffset pPage) (length cs)) cs)"
    have sp1: "space_ok ?u ?h ?gap (aData ?p1) [] ?U1" using page_reprD(9) [OF repr1] by simp
    have "g1 d1 (?h + 7) + content_top ?h d1 + sum_list (map length cs) = ?u"
      using space_total [OF sp1] card_disjoint [OF page_reprD(8) [OF repr1]] by (simp_all add: sizes_cell_regions)
    then have room: "?gap + 2 + nByte \<le> content_top ?h (aData ?p1)"
      using frag fit r(10) by auto
    have "allocateSpace pBt pPage nByte = allocate_gap pBt ?p1 nByte ?gap (content_top ?h d1)"
      using defrag d1 room by (simp add: allocate_gap_def content_top_def Let_def)
    moreover have "alloc_post ?u ?h ?gap nByte ?p1 ?U1 (allocate_gap pBt ?p1 nByte ?gap (content_top ?h (aData ?p1)))"
      by (rule allocate_gap_space [OF sp1 room n]) simp
    ultimately show ?thesis
      using alloc_post_reserved [OF repr1] by (simp add: reserved_update)
  qed
qed

end
