(* ===== verification/PageStore.thy ===== *)
theory PageStore
  imports PageCells
begin

text \<open>
  Insertion and removal of cells (\<open>insertCell\<close>, \<open>insertCellFast\<close>, \<open>dropCell\<close>, \<open>zeroPage\<close>) as the
  operations of a sequence of cells: the locale \<open>cell_store\<close> states the contract the B-tree relies
  on, and its interpretation on the page routines discharges it.
\<close>

lemma page_few_cells: "page_repr pBt pPage cs bs \<Longrightarrow> length cs < 65535"
  using page_reprD(2,9) [of pBt pPage cs bs] by (fastforce simp: space_ok_def)

lemma insertCellFast_fits:
  assumes repr: "page_repr pBt pPage cs bs" and c: "cell_ok pBt pPage c" and i: "i \<le> length cs"
    and fit: "int (length c) + 2 \<le> nFree pPage"
  shows "\<exists>pPage' bs'. insertCellFast pBt SQLITE_OK pPage i c (length c) = (SQLITE_OK, pPage') \<and>
    page_repr pBt pPage' (insert_nth i c cs) bs' \<and> same_shape pPage pPage'"
proof -
  have n: "0 < length c" using c by (auto simp: cell_ok_def)
  obtain idx d bs' where a: "allocateSpace pBt pPage (length c) = (SQLITE_OK, idx, pPage\<lparr>aData := d\<rparr>)"
    and res: "reserved pBt pPage cs (length c) idx d bs'"
    using allocateSpace_reserved [OF repr n fit] by blast
  have small: "(2 + length c) mod 65536 = 2 + length c"
    using fit page_reprD(9,10) [OF repr] by (simp add: space_ok_def)
  let ?p = "insert_ptr (pPage\<lparr>aData := blit d idx c, nFree := nFree pPage - int (2 + length c)\<rparr>) i idx"
  have "insertCellFast pBt SQLITE_OK pPage i c (length c) = (SQLITE_OK, ?p)"
    using fit a small by (simp add: insertCellFast_def subbytes_def)
  moreover have "same_shape pPage ?p" by (simp add: same_shape_def insert_ptr_def Let_def)
  ultimately show ?thesis
    using insert_reserved [OF repr res c i page_few_cells [OF repr] refl] by blast
qed

text \<open>A cell that does not fit is put aside, and the page content does not change.\<close>

lemma insertCellFast_overflow:
  "nFree pPage < int sz + 2 \<Longrightarrow> insertCellFast pBt rcWrite pPage i c sz =
     (SQLITE_OK, pPage\<lparr>nOverflow := nOverflow pPage + 1, apOvfl := apOvfl pPage @ [c], aiOvfl := aiOvfl pPage @ [i mod 65536]\<rparr>)"
  by (simp add: insertCellFast_def)

text \<open>\<open>insertCell\<close> stores the child pointer in the first four bytes of the cell.\<close>

lemma blit_child:
  assumes "4 \<le> length c" "length p = 4" "idx + length c \<le> length d"
  shows "blit (blit d (idx + 4) (subbytes c 4 (length c - 4))) idx p = blit d idx (p @ drop 4 c)"
proof -
  have s: "subbytes c 4 (length c - 4) = drop 4 c" by (simp add: subbytes_def)
  show ?thesis
    by (rule nth_equalityI) (use assms in \<open>auto simp: s nth_blit nth_append\<close>)
qed

lemma insertCell_fits:
  assumes repr: "page_repr pBt pPage cs bs" and c: "cell_ok pBt pPage (sqlite3Put4byte iChild @ drop 4 c)"
    and len: "4 \<le> length c" and i: "i \<le> length cs" and fit: "int (length c) + 2 \<le> nFree pPage"
  shows "\<exists>pPage' bs'. insertCell pBt SQLITE_OK pPage i c (length c) iChild = (SQLITE_OK, pPage') \<and>
    page_repr pBt pPage' (insert_nth i (sqlite3Put4byte iChild @ drop 4 c) cs) bs' \<and> same_shape pPage pPage'"
proof -
  let ?c = "sqlite3Put4byte iChild @ drop 4 c"
  have l: "length ?c = length c" "0 < length c" using len by (auto simp: sqlite3Put4byte_def)
  obtain idx d bs' where a: "allocateSpace pBt pPage (length c) = (SQLITE_OK, idx, pPage\<lparr>aData := d\<rparr>)"
    and res: "reserved pBt pPage cs (length ?c) idx d bs'"
    using allocateSpace_reserved [OF repr l(2) fit] l by auto
  have small: "(2 + length c) mod 65536 = 2 + length c"
    using fit page_reprD(9,10) [OF repr] by (simp add: space_ok_def)
  have in_d: "idx + length c \<le> length d"
    using res l(1) by (auto simp: reserved_def Let_def space_ok_def)
  let ?p = "insert_ptr (pPage\<lparr>aData := blit d idx ?c, nFree := nFree pPage - int (2 + length ?c)\<rparr>) i idx"
  have "insertCell pBt SQLITE_OK pPage i c (length c) iChild = (SQLITE_OK, ?p)"
    using fit a small l page_reprD(5) [OF repr] blit_child [OF len _ in_d, of "sqlite3Put4byte iChild"]
    by (simp add: insertCell_def Let_def sqlite3Put4byte_def)
  moreover have "same_shape pPage ?p" by (simp add: same_shape_def insert_ptr_def Let_def)
  ultimately show ?thesis
    using insert_reserved [OF repr res c i page_few_cells [OF repr] refl] by blast
qed

lemma freeSpace_shape: "same_shape pPage (snd (freeSpace pBt pPage iStart iSize))"
  by (auto simp: freeSpace_def Let_def same_shape_def split: option.split prod.split)

lemma dropCell_shape: "same_shape pPage (snd (dropCell pBt pPage idx sz pRC))"
  using freeSpace_shape [of pPage pBt "g2 (aData pPage) (cellOffset pPage + 2 * idx)" sz]
  by (auto simp: dropCell_def Let_def same_shape_def split: prod.split)

lemma dropCell_repr:
  assumes repr: "page_repr pBt pPage cs bs" and idx: "idx < length cs"
  shows "\<exists>pPage' bs'. dropCell pBt pPage idx (length (cs ! idx)) SQLITE_OK = (SQLITE_OK, pPage') \<and>
    page_repr pBt pPage' (remove_nth idx cs) bs' \<and> same_shape pPage pPage'"
proof (cases "length cs = 1")
  case True
  then obtain c where "cs = [c]" by (cases cs) auto
  then show ?thesis
    using dropCell_last [of pBt pPage c bs] repr idx dropCell_shape [of pPage pBt 0 "length c" SQLITE_OK]
    by (auto simp: remove_nth_def)
next
  case False
  then show ?thesis
    using dropCell_more [OF repr idx] idx dropCell_shape [of pPage pBt idx "length (cs ! idx)" SQLITE_OK] by auto
qed

section \<open>A page as a sequence of cells\<close>

text \<open>
  The interface the B-tree relies on: a page stores a sequence of cells; a cell can be inserted at
  any position while the weights of the cells stay within the capacity, and any cell can be removed
  and read.
\<close>

datatype 'c cell_op = Insert_at nat 'c | Drop_at nat

fun list_op :: "'c list \<Rightarrow> 'c cell_op \<Rightarrow> 'c list" where
  "list_op cs (Insert_at i c) = insert_nth i c cs"
| "list_op cs (Drop_at i) = remove_nth i cs"

fun op_ok :: "('c \<Rightarrow> bool) \<Rightarrow> ('c \<Rightarrow> nat) \<Rightarrow> nat \<Rightarrow> 'c list \<Rightarrow> 'c cell_op \<Rightarrow> bool" where
  "op_ok ok weight capacity cs (Insert_at i c) \<longleftrightarrow>
     ok c \<and> i \<le> length cs \<and> sum_list (map weight cs) + weight c \<le> capacity"
| "op_ok ok weight capacity cs (Drop_at i) \<longleftrightarrow> i < length cs"

fun ops_ok :: "('c \<Rightarrow> bool) \<Rightarrow> ('c \<Rightarrow> nat) \<Rightarrow> nat \<Rightarrow> 'c list \<Rightarrow> 'c cell_op list \<Rightarrow> bool" where
  "ops_ok ok weight capacity cs [] \<longleftrightarrow> True"
| "ops_ok ok weight capacity cs (x # xs) \<longleftrightarrow>
     op_ok ok weight capacity cs x \<and> ops_ok ok weight capacity (list_op cs x) xs"

fun store_op :: "('s \<Rightarrow> nat \<Rightarrow> 'c \<Rightarrow> 's option) \<Rightarrow> ('s \<Rightarrow> nat \<Rightarrow> 's option) \<Rightarrow> 's \<Rightarrow> 'c cell_op \<Rightarrow> 's option" where
  "store_op ins del s (Insert_at i c) = ins s i c"
| "store_op ins del s (Drop_at i) = del s i"

fun store_ops :: "('s \<Rightarrow> nat \<Rightarrow> 'c \<Rightarrow> 's option) \<Rightarrow> ('s \<Rightarrow> nat \<Rightarrow> 's option) \<Rightarrow> 's \<Rightarrow> 'c cell_op list \<Rightarrow> 's option" where
  "store_ops ins del s [] = Some s"
| "store_ops ins del s (x # xs) = Option.bind (store_op ins del s x) (\<lambda>s. store_ops ins del s xs)"

locale cell_store =
  fixes rep :: "'s \<Rightarrow> 'c list \<Rightarrow> bool" and ok :: "'c \<Rightarrow> bool" and weight :: "'c \<Rightarrow> nat" and capacity :: nat
    and ins :: "'s \<Rightarrow> nat \<Rightarrow> 'c \<Rightarrow> 's option" and del :: "'s \<Rightarrow> nat \<Rightarrow> 's option" and get :: "'s \<Rightarrow> nat \<Rightarrow> 'c"
  assumes ins_rep: "rep s cs \<Longrightarrow> ok c \<Longrightarrow> i \<le> length cs \<Longrightarrow> sum_list (map weight cs) + weight c \<le> capacity \<Longrightarrow>
      \<exists>s'. ins s i c = Some s' \<and> rep s' (insert_nth i c cs)"
    and del_rep: "rep s cs \<Longrightarrow> i < length cs \<Longrightarrow> \<exists>s'. del s i = Some s' \<and> rep s' (remove_nth i cs)"
    and get_rep: "rep s cs \<Longrightarrow> i < length cs \<Longrightarrow> get s i = cs ! i"
begin

lemma store_op_rep:
  "rep s cs \<Longrightarrow> op_ok ok weight capacity cs x \<Longrightarrow> \<exists>s'. store_op ins del s x = Some s' \<and> rep s' (list_op cs x)"
  using ins_rep del_rep by (cases x) auto

lemma store_ops_rep:
  "rep s cs \<Longrightarrow> ops_ok ok weight capacity cs xs \<Longrightarrow>
     \<exists>s'. store_ops ins del s xs = Some s' \<and> rep s' (foldl list_op cs xs)"
proof (induction xs arbitrary: s cs)
  case (Cons x xs)
  then obtain s' where "store_op ins del s x = Some s'" "rep s' (list_op cs x)"
    using store_op_rep by fastforce
  with Cons show ?case by simp
qed simp

lemma get_after_ops:
  assumes "rep s cs" "ops_ok ok weight capacity cs xs"
  shows "\<exists>s'. store_ops ins del s xs = Some s' \<and> rep s' (foldl list_op cs xs) \<and>
    (\<forall>i<length (foldl list_op cs xs). get s' i = foldl list_op cs xs ! i)"
  using store_ops_rep [OF assms] get_rep by blast

end

section \<open>The page routines implement the interface\<close>

definition page_insert :: "bt_shared \<Rightarrow> mempage \<Rightarrow> nat \<Rightarrow> bytes \<Rightarrow> mempage option" where
  "page_insert pBt pPage i c =
     (case insertCellFast pBt SQLITE_OK pPage i c (length c) of (rc, pPage) \<Rightarrow> if rc = SQLITE_OK then Some pPage else None)"

definition page_cell :: "bt_shared \<Rightarrow> mempage \<Rightarrow> nat \<Rightarrow> bytes" where
  "page_cell pBt pPage i = take (xCellSize pBt pPage (findCell pPage i)) (findCell pPage i)"

definition page_drop :: "bt_shared \<Rightarrow> mempage \<Rightarrow> nat \<Rightarrow> mempage option" where
  "page_drop pBt pPage i =
     (case dropCell pBt pPage i (xCellSize pBt pPage (findCell pPage i)) SQLITE_OK of (rc, pPage) \<Rightarrow>
        if rc = SQLITE_OK then Some pPage else None)"

text \<open>The page sizes \<open>sqlite3BtreeSetPageSize\<close> and \<open>lockBtree\<close> accept, and the mask of \<open>findCell\<close>.\<close>

definition mask_ok :: "bt_shared \<Rightarrow> mempage \<Rightarrow> bool" where
  "mask_ok pBt pPage \<longleftrightarrow>
     pageSize pBt \<in> (\<lambda>k. 2 ^ k) ` {9..16} \<and> maskPage pPage = pageSize pBt - 1"

lemma and_mask_less: "n \<in> (\<lambda>k. 2 ^ k) ` {9..16::nat} \<Longrightarrow> x < n \<Longrightarrow> (n - 1 :: nat) AND x = x"
proof -
  assume "n \<in> (\<lambda>k. 2 ^ k) ` {9..16::nat}" and x: "x < n"
  then obtain k where k: "n = 2 ^ k" by auto
  have "(n - 1) AND x = take_bit k x"
    unfolding k by (simp only: mask_eq_exp_minus_1 [symmetric] and.commute [of _ x] take_bit_eq_mask)
  with x k show ?thesis by (simp add: take_bit_nat_eq_self)
qed

definition page_holds :: "bt_shared \<Rightarrow> mempage \<Rightarrow> mempage \<Rightarrow> bytes list \<Rightarrow> bool" where
  "page_holds pBt p0 pPage cs \<longleftrightarrow> (\<exists>bs. page_repr pBt pPage cs bs) \<and> same_shape p0 pPage \<and> mask_ok pBt p0"

lemma page_repr_holds:
  assumes "page_repr pBt pPage cs bs" "i < length cs"
  shows "holds (aData pPage) (g2 (aData pPage) (cellOffset pPage + 2 * i)) (cs ! i)"
  using list_all2_nthD [OF page_reprD(7) [OF assms(1)], of i] assms(2) by (simp add: nth_ptrs)

lemma same_shape_fields:
  assumes "same_shape p q"
  shows "hdrOffset q = hdrOffset p" "cellOffset q = cellOffset p" "maskPage q = maskPage p" "leaf q = leaf p"
    "maxLocal q = maxLocal p" "minLocal q = minLocal p" "nOverflow q = nOverflow p" "mpgno q = mpgno p"
  using assms mempage.ext_inject [of _ _ _ _ _ _ _ _ _ _ _ _ _ _ _ _ _ "mempage.more p"]
  by (cases p; cases q; simp add: same_shape_def page_shape_def)+

lemma same_shape_cell:
  assumes "same_shape p q"
  shows "xCellSize pBt q c = xCellSize pBt p c" "cell_ok pBt q c = cell_ok pBt p c"
proof -
  show "xCellSize pBt q c = xCellSize pBt p c" for c
    using same_shape_fields [OF assms] by (simp add: xCellSize_def kvCellSizeLeaf_def kvCellSizeInterior_def Let_def split: prod.split)
  then show "cell_ok pBt q c = cell_ok pBt p c" by (simp add: cell_ok_def)
qed

lemma findCell_repr:
  assumes h: "page_holds pBt p0 pPage cs" and i: "i < length cs"
  shows "\<exists>rest. findCell pPage i = cs ! i @ rest"
proof -
  obtain bs where repr: "page_repr pBt pPage cs bs" and m: "mask_ok pBt p0" "maskPage pPage = maskPage p0"
    using h same_shape_fields(3) by (auto simp: page_holds_def)
  let ?pc = "g2 (aData pPage) (cellOffset pPage + 2 * i)"
  have hc: "holds (aData pPage) ?pc (cs ! i)" by (rule page_repr_holds [OF repr i])
  then have "?pc < pageSize pBt"
    using page_ptr_bounds(3) [OF repr i] page_reprD(1) [OF repr] by (auto simp: holds_def)
  then have "findCell_ofst pPage i = ?pc"
    using m and_mask_less by (simp add: findCell_ofst_def mask_ok_def g2_def)
  then show ?thesis
    using drop_holds [OF hc] by (auto simp: findCell_def)
qed

lemma page_cell_size:
  assumes h: "page_holds pBt p0 pPage cs" and i: "i < length cs"
  shows "xCellSize pBt pPage (findCell pPage i) = length (cs ! i)"
  using findCell_repr [OF assms] h i page_reprD(6) [of pBt pPage cs] by (auto simp: page_holds_def cell_ok_def)

interpretation pg: cell_store "page_holds pBt p0" "cell_ok pBt p0" "\<lambda>c. length c + 2"
  "usableSize pBt - cellOffset p0" "page_insert pBt" "page_drop pBt" "page_cell pBt" for pBt p0
proof
  fix s cs c i
  assume h: "page_holds pBt p0 s cs" and c: "cell_ok pBt p0 c" and i: "i \<le> length cs"
    and room: "sum_list (map (\<lambda>c. length c + 2) cs) + (length c + 2) \<le> usableSize pBt - cellOffset p0"
  obtain bs where repr: "page_repr pBt s cs bs" and sh: "same_shape p0 s" and m: "mask_ok pBt p0"
    using h by (auto simp: page_holds_def)
  have "sum_list (map (\<lambda>c. length c + 2) cs) = sum_list (map length cs) + 2 * length cs" for cs :: "bytes list"
    by (induction cs) auto
  then have "int (length c) + 2 \<le> nFree s"
    using room page_reprD(10) [OF repr] same_shape_fields(2) [OF sh] by simp
  from insertCellFast_fits [OF repr _ i this] c same_shape_cell [OF sh]
  show "\<exists>s'. page_insert pBt s i c = Some s' \<and> page_holds pBt p0 s' (insert_nth i c cs)"
    using sh m by (fastforce simp: page_insert_def page_holds_def same_shape_def)
next
  fix s cs i
  assume h: "page_holds pBt p0 s cs" and i: "i < length cs"
  obtain bs where repr: "page_repr pBt s cs bs" and sh: "same_shape p0 s" and m: "mask_ok pBt p0"
    using h by (auto simp: page_holds_def)
  show "\<exists>s'. page_drop pBt s i = Some s' \<and> page_holds pBt p0 s' (remove_nth i cs)"
    using dropCell_repr [OF repr i] page_cell_size [OF h i] sh m
    by (fastforce simp: page_drop_def page_holds_def same_shape_def)
next
  fix s cs i
  assume "page_holds pBt p0 s cs" and "i < length cs"
  then show "page_cell pBt s i = cs ! i"
    using findCell_repr [of pBt p0 s cs i] page_cell_size [of pBt p0 s cs i] by (auto simp: page_cell_def)
qed

section \<open>Empty pages and leaf cells\<close>

lemma zeroPage_repr:
  assumes len: "length (aData pPage) = pageSize pBt" and u: "usableSize pBt \<le> pageSize pBt" "pageSize pBt \<le> 65536"
    and hdr: "hdrOffset pPage + 12 < usableSize pBt"
    and flags: "flags = PTF_LEAFDATA OR PTF_INTKEY OR PTF_LEAF \<or> flags = PTF_LEAFDATA OR PTF_INTKEY"
  shows "page_repr pBt (zeroPage pBt pPage flags) [] []"
proof -
  let ?h = "hdrOffset pPage" and ?u = "usableSize pBt"
  let ?d0 = "if fastSecure pBt then memzero (aData pPage) ?h (?u - ?h) else aData pPage"
  let ?d1 = "memzero (?d0[?h := flags]) (?h + 1) 4"
  let ?d = "p2 (p1 ?d1 (?h + 7) 0) (?h + 5) ?u"
  have l: "length ?d1 = length (aData pPage)" by simp
  have z: "byte_at ?d1 k = 0" if "?h + 1 \<le> k" "k < ?h + 5" for k
    using that len u hdr by (auto simp: memzero_def byte_at_blit)
  have "g2 ?d1 (?h + 1) = 0" "g2 ?d1 (?h + 3) = 0" using z by (simp_all add: g2_byte_at)
  then have g: "g2 ?d (?h + 1) = 0" "g2 ?d (?h + 3) = 0" "g1 ?d (?h + 7) = 0" "content_top ?h ?d = ?u"
    using hdr len u by (simp_all add: rw_simps content_top_p2)
  have sp: "space_ok ?u ?h gap ?d [] {}" if "?h + 8 \<le> gap" "gap \<le> ?u" for gap
    using g that len u hdr by (intro space_ok_empty) auto
  have e: "zeroPage pBt pPage flags = (snd (decodeFlags pBt (pPage\<lparr>aData := ?d,
      nFree := int ((?u - (?h + (if flags AND PTF_LEAF = 0 then 12 else 8))) mod 65536)\<rparr>) flags))
      \<lparr>cellOffset := (?h + (if flags AND PTF_LEAF = 0 then 12 else 8)) mod 65536, nOverflow := 0, aiOvfl := [], apOvfl := [],
        maskPage := (pageSize pBt - 1) mod 65536, nCell := 0, isInit := True\<rparr>"
    by (simp add: zeroPage_def Let_def split: prod.split)
  from flags show ?thesis
  proof
    assume f: "flags = PTF_LEAFDATA OR PTF_INTKEY OR PTF_LEAF"
    show ?thesis
      unfolding e page_repr_def using f sp [of "?h + 8"] g hdr u len
      by (simp add: decodeFlags_def Let_def ptrs_def cell_regions_def)
  next
    assume f: "flags = PTF_LEAFDATA OR PTF_INTKEY"
    show ?thesis
      unfolding e page_repr_def using f sp [of "?h + 12"] g hdr u len
      by (simp add: decodeFlags_def Let_def ptrs_def cell_regions_def)
  qed
qed

lemma zeroPage_mask:
  "pageSize pBt \<in> (\<lambda>k. 2 ^ k) ` {9..16} \<Longrightarrow> mask_ok pBt (zeroPage pBt pPage flags)"
proof -
  assume p: "pageSize pBt \<in> (\<lambda>k. 2 ^ k) ` {9..16}"
  then have "(pageSize pBt - 1) mod 65536 = pageSize pBt - 1"
    using power_increasing [of _ 16 "2::nat"] by fastforce
  with p show ?thesis by (simp add: mask_ok_def zeroPage_def Let_def split: prod.split)
qed

text \<open>A KV leaf cell whose value is stored on the page.\<close>

definition local_cell :: "bytes \<Rightarrow> bytes \<Rightarrow> bytes" where
  "local_cell k v = (let c = putVarint32 (of_nat (length v)) @ putVarint32 (of_nat (length k)) @ k @ v
     in c @ replicate (4 - length c) 0)"

lemma local_cell_ok:
  assumes "leaf pPage" "length v \<le> maxLocal pPage" "maxLocal pPage < 65536" "length (local_cell k v) < 65536"
  shows "cell_ok pBt pPage (local_cell k v)"
proof -
  let ?c = "putVarint32 (of_nat (length v)) @ putVarint32 (of_nat (length k)) @ k @ v"
  have n: "length v < 2 ^ 32" "length k < 2 ^ 32"
    using assms by (auto simp: local_cell_def Let_def)
  then have w: "unat (of_nat (length v) :: u32) = length v" "unat (of_nat (length k) :: u32) = length k"
    by (simp_all add: unat_of_nat take_bit_nat_eq_self)
  have len: "length (local_cell k v) = max 4 (length ?c)" by (auto simp: local_cell_def Let_def)
  have "xCellSize pBt pPage (local_cell k v @ rest) = length (local_cell k v)" for rest
    using assms w unfolding len
    by (auto simp: xCellSize_def kvCellSizeLeaf_def local_cell_def Let_def getVarint32_putVarint32)
  then show ?thesis using len by (simp add: cell_ok_def)
qed


section \<open>Properties\<close>

text \<open>
  C1: Any admissible sequence of cell insertions and removals on a page succeeds and leaves a page
  that stores exactly the cells the same operations on a list give, each readable at its index: no
  cell is lost, moved out of place or overwritten, whatever freeblock, gap or defragmentation the
  allocator used.  A sequence is admissible when the total size of the cells and their pointers
  stays within the usable space of the page.
\<close>

theorem page_refines_cell_list:
  assumes "page_holds pBt p0 pPage cs"
    and "ops_ok (cell_ok pBt p0) (\<lambda>c. length c + 2) (usableSize pBt - cellOffset p0) cs ops"
  shows "\<exists>pPage'. store_ops (page_insert pBt) (page_drop pBt) pPage ops = Some pPage' \<and>
    page_holds pBt p0 pPage' (foldl list_op cs ops) \<and>
    (\<forall>i<length (foldl list_op cs ops). page_cell pBt pPage' i = foldl list_op cs ops ! i)"
  using assms by (rule pg.get_after_ops)

definition demo_bt :: bt_shared where
  "demo_bt = set_limits \<lparr>pageSize = 512, usableSize = 512, maxLeaf = 0, minLeaf = 0, nPage = 3,
     fastSecure = False, secureDelete = False, cellSizeCk = False\<rparr>"

definition demo_page :: mempage where
  "demo_page = zeroPage demo_bt \<lparr>isInit = False, intKey = False, intKeyLeaf = False, mpgno = 2, leaf = False,
     hdrOffset = 0, childPtrSize = 0, nOverflow = 0, maxLocal = 0, minLocal = 0, cellOffset = 0, nFree = 0,
     nCell = 0, maskPage = 0, aiOvfl = [], apOvfl = [], aData = replicate 512 7\<rparr> 0x0d"

lemma demo_bt_simps [simp]: "pageSize demo_bt = 512" "usableSize demo_bt = 512" "maxLeaf demo_bt = 477" "minLeaf demo_bt = 39"
  by (simp_all add: demo_bt_def set_limits_def)

lemma demo_page_simps [simp]: "leaf demo_page" "cellOffset demo_page = 8" "maxLocal demo_page = 229" "minLocal demo_page = 39"
  by (simp_all add: demo_page_def zeroPage_def Let_def decodeFlags_def sub16_def)

lemma demo_page_holds: "page_holds demo_bt demo_page demo_page []"
proof -
  have "page_repr demo_bt demo_page [] []"
    unfolding demo_page_def by (rule zeroPage_repr) simp_all
  moreover have "mask_ok demo_bt demo_page"
    unfolding demo_page_def by (rule zeroPage_mask) (simp add: image_iff Bex_def, rule exI [of _ 9], simp)
  ultimately show ?thesis by (auto simp: page_holds_def same_shape_def)
qed

theorem page_refines_cell_list_witness:
  "\<exists>pPage'. store_ops (page_insert demo_bt) (page_drop demo_bt) demo_page
      [Insert_at 0 (local_cell [1, 2] [3]), Insert_at 0 (local_cell [1] [9, 9]), Insert_at 1 (local_cell [1, 1] []), Drop_at 0]
      = Some pPage' \<and> page_cell demo_bt pPage' 1 = [1, 2, 1, 2, 3]"
proof -
  let ?ops = "[Insert_at 0 (local_cell [1, 2] [3]), Insert_at 0 (local_cell [1] [9, 9]),
      Insert_at 1 (local_cell [1, 1] []), Drop_at 0]"
  have ok: "cell_ok demo_bt demo_page (local_cell k v)" if "length k \<le> 2" "length v \<le> 2" for k v
    using that length_putVarint32_bound(2) [of "of_nat (length v)"] length_putVarint32_bound(2) [of "of_nat (length k)"]
    by (intro local_cell_ok) (auto simp: local_cell_def Let_def)
  have "ops_ok (cell_ok demo_bt demo_page) (\<lambda>c. length c + 2) (usableSize demo_bt - cellOffset demo_page) [] ?ops"
    using ok [of "[1, 2]" "[3]"] ok [of "[1]" "[9, 9]"] ok [of "[1, 1]" "[]"]
    by (simp add: insert_nth_def local_cell_def putVarint32_def Let_def)
  from page_refines_cell_list [OF demo_page_holds this]
  show ?thesis by (fastforce simp: insert_nth_def remove_nth_def local_cell_def putVarint32_def Let_def)
qed

end
