(* ===== verification/Freelist.thy ===== *)
theory Freelist
  imports PageSpace Bitvec
begin

text \<open>
  Page allocation (\<open>src/src/btree.c\<close>: \<open>allocateBtreePage\<close>, \<open>freePage2\<close>, \<open>clearCellOverflow\<close> and
  their helpers).  The freelist is a chain of trunk pages; each trunk page holds the number of the
  next one, a count, and the numbers of that many leaf pages.

  A database is the page images the pager hands out, the fields of \<open>BtShared\<close>, the bitmap
  \<open>pHasContent\<close> and the number of outstanding references of every page.  Whether a call of the pager
  succeeds is an input: a list of result codes, one per call, with success after its end.
\<close>

section \<open>State\<close>

record btree_db =
  bts :: bt_shared
  pg :: "pgno \<Rightarrow> bytes"
  pHasContent :: "bitvec option"
  refs :: "pgno \<Rightarrow> nat"
  inCache :: "pgno \<Rightarrow> bool"
  pagerAns :: "rc list"
  heapAns :: heap_answers

definition g4 :: "bytes \<Rightarrow> nat \<Rightarrow> nat" where
  "g4 d i = unat (sqlite3Get4byte (drop i d))"

definition p4 :: "bytes \<Rightarrow> nat \<Rightarrow> nat \<Rightarrow> bytes" where
  "p4 d i v = blit d i (sqlite3Put4byte (of_nat v))"

definition set_page :: "btree_db \<Rightarrow> pgno \<Rightarrow> bytes \<Rightarrow> btree_db" where
  "set_page db p d = db\<lparr>pg := (pg db)(p := d)\<rparr>"

text \<open>One call of the pager that only succeeds or fails (\<open>sqlite3PagerWrite\<close>).\<close>

definition pager_call :: "btree_db \<Rightarrow> rc \<times> btree_db" where
  "pager_call db = (case pagerAns db of [] \<Rightarrow> (SQLITE_OK, db) | r # rs \<Rightarrow> (r, db\<lparr>pagerAns := rs\<rparr>))"

definition btreePagecount :: "btree_db \<Rightarrow> nat" where
  "btreePagecount db = nPage (bts db)"

text \<open>
  A page that is handed out is referenced until it is released.  \<open>sqlite3PagerGet\<close> refuses page 0;
  with the no-content flag it hands out a page of zeros.
\<close>

definition refPage :: "btree_db \<Rightarrow> pgno \<Rightarrow> btree_db" where
  "refPage db pgno = db\<lparr>refs := (refs db)(pgno := refs db pgno + 1)\<rparr>"

definition releasePage :: "btree_db \<Rightarrow> pgno \<Rightarrow> btree_db" where
  "releasePage db pgno = db\<lparr>refs := (refs db)(pgno := refs db pgno - 1)\<rparr>"

definition btreeGetPage :: "btree_db \<Rightarrow> pgno \<Rightarrow> bool \<Rightarrow> rc \<times> btree_db" where
  "btreeGetPage db pgno noContent =
     (if pgno = 0 then (SQLITE_CORRUPT, db)
      else case pager_call db of (rc, db) \<Rightarrow>
        if rc \<noteq> SQLITE_OK then (rc, db)
        else
          let db = (if noContent then set_page db pgno (replicate (pageSize (bts db)) 0) else db)
          in (SQLITE_OK, refPage db pgno))"

text \<open>A page in the cache is found, and referenced; a referenced page is in the cache.\<close>

definition btreePageLookup :: "btree_db \<Rightarrow> pgno \<Rightarrow> bool \<times> btree_db" where
  "btreePageLookup db pgno =
     (if inCache db pgno \<or> refs db pgno > 0 then (True, refPage db pgno) else (False, db))"

definition btreeGetUnusedPage :: "btree_db \<Rightarrow> pgno \<Rightarrow> bool \<Rightarrow> rc \<times> btree_db" where
  "btreeGetUnusedPage db pgno noContent =
     (case btreeGetPage db pgno noContent of (rc, db) \<Rightarrow>
        if rc = SQLITE_OK \<and> refs db pgno > 1 then (SQLITE_CORRUPT, releasePage db pgno) else (rc, db))"

section \<open>Pages with content\<close>

definition btreeSetHasContent :: "btree_db \<Rightarrow> pgno \<Rightarrow> rc \<times> btree_db" where
  "btreeSetHasContent db pgno =
     (let (rc, db) =
        (if pHasContent db = None then
           case sqlite3BitvecCreate (heapAns db) (nPage (bts db)) of (v, al) \<Rightarrow>
             (if v = None then SQLITE_NOMEM else SQLITE_OK, db\<lparr>pHasContent := v, heapAns := al\<rparr>)
         else (SQLITE_OK, db))
      in if rc = SQLITE_OK \<and> pgno \<le> sqlite3BitvecSize (the (pHasContent db)) then
           case sqlite3BitvecSet (heapAns db) (pHasContent db) (of_nat pgno) of
             None \<Rightarrow> (rc, db)
           | Some (rc, al, v) \<Rightarrow> (rc, db\<lparr>pHasContent := v, heapAns := al\<rparr>)
         else (rc, db))"

definition btreeGetHasContent :: "btree_db \<Rightarrow> pgno \<Rightarrow> bool" where
  "btreeGetHasContent db pgno =
     (case pHasContent db of
        None \<Rightarrow> False
      | Some v \<Rightarrow> pgno > sqlite3BitvecSize v \<or> sqlite3BitvecTestNotNull v (of_nat pgno) = Some True)"

definition btreeClearHasContent :: "btree_db \<Rightarrow> btree_db" where
  "btreeClearHasContent db = db\<lparr>pHasContent := None\<rparr>"

section \<open>Allocating a page\<close>

definition PENDING_BYTE_PAGE :: "btree_db \<Rightarrow> pgno" where
  "PENDING_BYTE_PAGE db = 0x40000000 div pageSize (bts db) + 1"

definition sqlite3AbsInt32 :: "int \<Rightarrow> int" where
  "sqlite3AbsInt32 x = (if x \<ge> 0 then x else if x = -0x80000000 then 0x7fffffff else - x)"

text \<open>The distance of a leaf from \<open>nearby\<close>: a 32-bit difference taken as a signed number.\<close>

definition leaf_dist :: "bytes \<Rightarrow> nat \<Rightarrow> pgno \<Rightarrow> int" where
  "leaf_dist data i nearby =
     sqlite3AbsInt32 (sint (sqlite3Get4byte (drop (8 + i * 4) data) - of_nat nearby :: u32))"

fun closest_loop :: "bytes \<Rightarrow> pgno \<Rightarrow> nat list \<Rightarrow> nat \<Rightarrow> int \<Rightarrow> nat" where
  "closest_loop data nearby [] closest dist = closest"
| "closest_loop data nearby (i # is) closest dist =
     (let d2 = leaf_dist data i nearby
      in if d2 < dist then closest_loop data nearby is i d2 else closest_loop data nearby is closest dist)"

text \<open>
  Extracting a leaf from the trunk page; the result is the code, the page number and the database.
  Page numbers are 0 where the source leaves \<open>*pPgno\<close> unset.
\<close>

definition allocate_leaf :: "btree_db \<Rightarrow> pgno \<Rightarrow> pgno \<Rightarrow> nat \<Rightarrow> rc \<times> pgno \<times> btree_db" where
  "allocate_leaf db nearby iTrunk k =
     (let data = pg db iTrunk;
          closest = (if nearby > 0 then closest_loop data nearby [1..<k] 0 (leaf_dist data 0 nearby) else 0);
          iPage = g4 data (8 + closest * 4)
      in if iPage > btreePagecount db \<or> iPage < 2 then (SQLITE_CORRUPT, 0, db)
         else case pager_call db of (rc, db) \<Rightarrow>
           if rc \<noteq> SQLITE_OK then (rc, iPage, db)
           else
             let data = (if closest < k - 1 then blit data (8 + closest * 4) (subbytes data (4 + k * 4) 4) else data);
                 data = p4 data 4 (k - 1);
                 db = set_page db iTrunk data;
                 noContent = (\<not> btreeGetHasContent db iPage)
             in case btreeGetUnusedPage db iPage noContent of (rc, db) \<Rightarrow>
                  if rc \<noteq> SQLITE_OK then (rc, iPage, db)
                  else case pager_call db of (rc, db) \<Rightarrow>
                    if rc \<noteq> SQLITE_OK then (rc, iPage, releasePage db iPage) else (SQLITE_OK, iPage, db))"

text \<open>Appending a page to the database image.\<close>

definition allocate_extend :: "btree_db \<Rightarrow> rc \<times> pgno \<times> btree_db" where
  "allocate_extend db =
     (case pager_call db of (rc, db) \<Rightarrow>
        if rc \<noteq> SQLITE_OK then (rc, 0, db)
        else
          let n = nPage (bts db) + 1;
              n = (if n = PENDING_BYTE_PAGE db then n + 1 else n);
              db = db\<lparr>bts := (bts db)\<lparr>nPage := n\<rparr>\<rparr>;
              db = set_page db 1 (p4 (pg db 1) 28 n)
          in case btreeGetUnusedPage db n True of (rc, db) \<Rightarrow>
               if rc \<noteq> SQLITE_OK then (rc, n, db)
               else case pager_call db of (rc, db) \<Rightarrow>
                 if rc \<noteq> SQLITE_OK then (rc, n, releasePage db n) else (SQLITE_OK, n, db))"

text \<open>The body of the loop over the trunk pages.\<close>

definition allocate_trunk :: "btree_db \<Rightarrow> pgno \<Rightarrow> pgno \<Rightarrow> rc \<times> pgno \<times> btree_db" where
  "allocate_trunk db nearby iTrunk =
     (if iTrunk > btreePagecount db then (SQLITE_CORRUPT, 0, db)
      else case btreeGetUnusedPage db iTrunk False of (rc, db) \<Rightarrow>
        if rc \<noteq> SQLITE_OK then (rc, 0, db)
        else
          let k = g4 (pg db iTrunk) 4 in
          if k = 0 then
            case pager_call db of (rc, db) \<Rightarrow>
              if rc \<noteq> SQLITE_OK then (rc, 0, releasePage db iTrunk)
              else (SQLITE_OK, iTrunk, set_page db 1 (blit (pg db 1) 32 (subbytes (pg db iTrunk) 0 4)))
          else if k > usableSize (bts db) div 4 - 2 then (SQLITE_CORRUPT, 0, releasePage db iTrunk)
          else case allocate_leaf db nearby iTrunk k of (rc, p, db) \<Rightarrow> (rc, p, releasePage db iTrunk))"

text \<open>
  \<open>allocateBtreePage\<close> with \<open>eMode = BTALLOC_ANY\<close>, the only mode of a build without auto-vacuum: the
  list is not searched and the loop body runs once.
\<close>

definition allocateBtreePage :: "btree_db \<Rightarrow> pgno \<Rightarrow> rc \<times> pgno \<times> btree_db" where
  "allocateBtreePage db nearby =
     (let n = g4 (pg db 1) 36
      in if n \<ge> btreePagecount db then (SQLITE_CORRUPT, 0, db)
         else if n > 0 then
           case pager_call db of (rc, db) \<Rightarrow>
             if rc \<noteq> SQLITE_OK then (rc, 0, db)
             else
               let db = set_page db 1 (p4 (pg db 1) 36 (n - 1))
               in allocate_trunk db nearby (g4 (pg db 1) 32)
         else allocate_extend db)"

section \<open>Freeing a page\<close>

text \<open>
  \<open>pPage\<close> says that the page is at hand; the code after \<open>freepage_out\<close> then releases it.
  \<open>get_if_needed\<close> fetches it otherwise.
\<close>

definition get_if_needed :: "btree_db \<Rightarrow> bool \<Rightarrow> pgno \<Rightarrow> rc \<times> bool \<times> btree_db" where
  "get_if_needed db pPage iPage =
     (if pPage then (SQLITE_OK, True, db)
      else case btreeGetPage db iPage False of (rc, db) \<Rightarrow> (rc, rc = SQLITE_OK, db))"

definition free_zero :: "btree_db \<Rightarrow> bool \<Rightarrow> pgno \<Rightarrow> rc \<times> bool \<times> btree_db" where
  "free_zero db pPage iPage =
     (if secureDelete (bts db) then
        case get_if_needed db pPage iPage of (rc, pPage, db) \<Rightarrow>
          if rc \<noteq> SQLITE_OK then (rc, pPage, db)
          else case pager_call db of (rc, db) \<Rightarrow>
            if rc \<noteq> SQLITE_OK then (rc, pPage, db)
            else (SQLITE_OK, pPage, set_page db iPage (replicate (pageSize (bts db)) 0))
      else (SQLITE_OK, pPage, db))"

text \<open>The page becomes the first trunk page.\<close>

definition free_trunk :: "btree_db \<Rightarrow> bool \<Rightarrow> pgno \<Rightarrow> pgno \<Rightarrow> rc \<times> bool \<times> btree_db" where
  "free_trunk db pPage iPage iTrunk =
     (case get_if_needed db pPage iPage of (rc, pPage, db) \<Rightarrow>
        if rc \<noteq> SQLITE_OK then (rc, pPage, db)
        else case pager_call db of (rc, db) \<Rightarrow>
          if rc \<noteq> SQLITE_OK then (rc, pPage, db)
          else
            let db = set_page db iPage (p4 (p4 (pg db iPage) 0 iTrunk) 4 0)
            in (SQLITE_OK, pPage, set_page db 1 (p4 (pg db 1) 32 iPage)))"

text \<open>
  The page becomes a leaf of the first trunk page, unless that is full.  \<open>sqlite3PagerDontWrite\<close>
  only spares the pager a write of the page's old content.
\<close>

definition free_leaf :: "btree_db \<Rightarrow> bool \<Rightarrow> pgno \<Rightarrow> rc \<times> bool \<times> btree_db" where
  "free_leaf db pPage iPage =
     (let iTrunk = g4 (pg db 1) 32 in
      if iTrunk > btreePagecount db then (SQLITE_CORRUPT, pPage, db)
      else case btreeGetPage db iTrunk False of (rc, db) \<Rightarrow>
        if rc \<noteq> SQLITE_OK then (rc, pPage, db)
        else
          let nLeaf = g4 (pg db iTrunk) 4;
              (rc, pPage, db) =
                (if nLeaf > usableSize (bts db) div 4 - 2 then (SQLITE_CORRUPT, pPage, db)
                 else if nLeaf < usableSize (bts db) div 4 - 8 then
                   case pager_call db of (rc, db) \<Rightarrow>
                     if rc \<noteq> SQLITE_OK then (rc, pPage, db)
                     else case btreeSetHasContent
                         (set_page db iTrunk (p4 (p4 (pg db iTrunk) 4 (nLeaf + 1)) (8 + nLeaf * 4) iPage)) iPage
                       of (rc, db) \<Rightarrow> (rc, pPage, db)
                 else free_trunk db pPage iPage iTrunk)
          in (rc, pPage, releasePage db iTrunk))"

definition free_list :: "btree_db \<Rightarrow> bool \<Rightarrow> pgno \<Rightarrow> rc \<times> bool \<times> btree_db" where
  "free_list db pPage iPage =
     (case pager_call db of (rc, db) \<Rightarrow>
        if rc \<noteq> SQLITE_OK then (rc, pPage, db)
        else
          let n = g4 (pg db 1) 36;
              db = set_page db 1 (p4 (pg db 1) 36 (n + 1))
          in case free_zero db pPage iPage of (rc, pPage, db) \<Rightarrow>
               if rc \<noteq> SQLITE_OK then (rc, pPage, db)
               else if n \<noteq> 0 then free_leaf db pPage iPage
               else free_trunk db pPage iPage 0)"

definition freePage2 :: "btree_db \<Rightarrow> bool \<Rightarrow> pgno \<Rightarrow> rc \<times> btree_db" where
  "freePage2 db pMemPage iPage =
     (if iPage < 2 \<or> iPage > nPage (bts db) then (SQLITE_CORRUPT, db)
      else
        let (pPage, db) = (if pMemPage then (True, refPage db iPage) else btreePageLookup db iPage)
        in case free_list db pPage iPage of (rc, pPage, db) \<Rightarrow>
             (rc, if pPage then releasePage db iPage else db))"

definition freePage :: "btree_db \<Rightarrow> pgno \<Rightarrow> rc \<Rightarrow> rc \<times> btree_db" where
  "freePage db pgno pRC = (if pRC = SQLITE_OK then freePage2 db True pgno else (pRC, db))"

section \<open>Overflow chains\<close>

text \<open>
  The number of the next page of an overflow chain.  The caller asks for the page as well, and the
  guess that auto-vacuum databases allow is not compiled.
\<close>

definition getOverflowPage :: "btree_db \<Rightarrow> pgno \<Rightarrow> rc \<times> pgno \<times> btree_db" where
  "getOverflowPage db ovfl =
     (case btreeGetPage db ovfl False of (rc, db) \<Rightarrow>
        if rc = SQLITE_OK then (SQLITE_OK, g4 (pg db ovfl) 0, db) else (rc, 0, db))"

fun clear_chain :: "nat \<Rightarrow> btree_db \<Rightarrow> pgno \<Rightarrow> rc \<times> btree_db" where
  "clear_chain 0 db ovflPgno = (SQLITE_OK, db)"
| "clear_chain (Suc nOvfl) db ovflPgno =
     (if ovflPgno < 2 \<or> ovflPgno > btreePagecount db then (SQLITE_CORRUPT, db)
      else case (if nOvfl \<noteq> 0 then getOverflowPage db ovflPgno else (SQLITE_OK, 0, db)) of (rc, iNext, db) \<Rightarrow>
        if rc \<noteq> SQLITE_OK then (rc, db)
        else case (if nOvfl \<noteq> 0 then (True, db) else btreePageLookup db ovflPgno) of (pOvfl, db) \<Rightarrow>
          case (if pOvfl \<and> refs db ovflPgno \<noteq> 1 then (SQLITE_CORRUPT, db) else freePage2 db pOvfl ovflPgno)
          of (rc, db) \<Rightarrow>
            let db = (if pOvfl then releasePage db ovflPgno else db)
            in if rc \<noteq> SQLITE_OK then (rc, db) else clear_chain nOvfl db iNext)"

text \<open>\<open>ofst\<close> is the offset of the cell in its page.\<close>

definition clearCellOverflow :: "btree_db \<Rightarrow> nat \<Rightarrow> bytes \<Rightarrow> cell_info \<Rightarrow> rc \<times> btree_db" where
  "clearCellOverflow db ofst pCell pInfo =
     (if ofst + nSize pInfo > pageSize (bts db) then (SQLITE_CORRUPT, db)
      else
        let ovflPageSize = usableSize (bts db) - 4;
            nOvfl = (sub32 (nPayload pInfo) (nLocal pInfo) + ovflPageSize - 1) mod 2 ^ 32 div ovflPageSize
        in clear_chain nOvfl db (g4 pCell (nSize pInfo - 4)))"


section \<open>Four-byte fields\<close>

lemma length_p4 [simp]: "length (p4 d i v) = length d"
  by (simp add: p4_def)

lemma length_Put4byte [simp]: "length (sqlite3Put4byte v) = 4"
  by (simp add: sqlite3Put4byte_def)

lemma g4_eqI: "g4 d i = g4 e k" if "\<And>j. j < 4 \<Longrightarrow> byte_at d (i + j) = byte_at e (k + j)"
  using that [of 0] that [of 1] that [of 2] that [of 3]
  by (simp add: g4_def sqlite3Get4byte_def byte_at_drop numeral_eq_Suc)

lemma drop_blit:
  "i + length ys \<le> length xs \<Longrightarrow> drop i (blit xs i ys) = ys @ drop (i + length ys) xs"
  by (rule nth_equalityI) (auto simp: nth_blit nth_append)

lemma g4_p4: "i + 4 \<le> length d \<Longrightarrow> v < 2 ^ 32 \<Longrightarrow> g4 (p4 d i v) i = v"
  by (simp add: g4_def p4_def drop_blit Get4byte_Put4byte unat_of_nat)

lemma g4_p4_other: "j + 4 \<le> i \<or> i + 4 \<le> j \<Longrightarrow> g4 (p4 d i v) j = g4 d j"
  by (rule g4_eqI) (auto simp: p4_def byte_at_blit)

lemma g4_copy:
  "i + 4 \<le> length d \<Longrightarrow> k + 4 \<le> length e \<Longrightarrow> g4 (blit d i (subbytes e k 4)) i = g4 e k"
  by (rule g4_eqI) (auto simp: nth_blit subbytes_def byte_at_def)

lemma g4_copy_other:
  "j + 4 \<le> i \<or> i + 4 \<le> j \<Longrightarrow> length ys = 4 \<Longrightarrow> g4 (blit d i ys) j = g4 d j"
  by (rule g4_eqI) (auto simp: byte_at_blit)

lemma g4_less [simp]: "g4 d i < 4294967296"
  by (simp add: g4_def)

lemma g4_minus_less [simp]: "g4 d i - n < 4294967296"
  by (rule less_imp_diff_less) simp

lemmas g4_simps = g4_p4 g4_p4_other g4_copy g4_copy_other


section \<open>Representation\<close>

text \<open>
  The chain of trunk pages from page \<open>p\<close> on, each with its leaves.
\<close>

fun trunks :: "(pgno \<Rightarrow> bytes) \<Rightarrow> nat \<Rightarrow> pgno \<Rightarrow> (pgno \<times> pgno list) list \<Rightarrow> bool" where
  "trunks P u p [] \<longleftrightarrow> p = 0"
| "trunks P u p ((t, ls) # ts) \<longleftrightarrow>
     p = t \<and> g4 (P t) 4 = length ls \<and> length ls \<le> u div 4 - 2 \<and>
     (\<forall>i < length ls. g4 (P t) (8 + i * 4) = ls ! i) \<and> trunks P u (g4 (P t) 0) ts"

fun free_pages :: "(pgno \<times> pgno list) list \<Rightarrow> pgno list" where
  "free_pages [] = []"
| "free_pages ((t, ls) # ts) = t # ls @ free_pages ts"

definition db_ok :: "btree_db \<Rightarrow> bool" where
  "db_ok db \<longleftrightarrow>
     (\<forall>p. length (pg db p) = pageSize (bts db)) \<and> 480 \<le> usableSize (bts db) \<and>
     usableSize (bts db) \<le> pageSize (bts db) \<and> pageSize (bts db) \<le> 65536 \<and> 1 \<le> nPage (bts db) \<and> nPage (bts db) < 2 ^ 32 - 2 \<and>
     (\<forall>v. pHasContent db = Some v \<longrightarrow> bitvec_wf v)"

definition freelist :: "btree_db \<Rightarrow> (pgno \<times> pgno list) list \<Rightarrow> bool" where
  "freelist db ts \<longleftrightarrow>
     trunks (pg db) (usableSize (bts db)) (if g4 (pg db 1) 36 = 0 then 0 else g4 (pg db 1) 32) ts \<and>
     length (free_pages ts) = g4 (pg db 1) 36 \<and>
     distinct (free_pages ts) \<and> set (free_pages ts) \<subseteq> {2..nPage (bts db)}"

lemma trunks_cong:
  "trunks P u p ts \<Longrightarrow> (\<And>q. q \<in> set (map fst ts) \<Longrightarrow> P' q = P q) \<Longrightarrow> trunks P' u p ts"
  by (induction P u p ts rule: trunks.induct) auto

lemma trunk_in_free: "q \<in> set (map fst ts) \<Longrightarrow> q \<in> set (free_pages ts)"
  by (induction ts rule: free_pages.induct) auto

lemma length_free_pages_less:
  assumes "distinct (free_pages ts)" "set (free_pages ts) \<subseteq> {2..n}" "1 \<le> n"
  shows "length (free_pages ts) < n"
proof -
  have "card (set (free_pages ts)) \<le> card {2..n}" by (rule card_mono) (use assms in auto)
  with assms show ?thesis by (simp add: distinct_card)
qed

section \<open>Outcomes of the helpers\<close>

definition pager_rc :: "btree_db \<Rightarrow> rc" where
  "pager_rc db = (case pagerAns db of [] \<Rightarrow> SQLITE_OK | r # rs \<Rightarrow> r)"

definition pager_next :: "btree_db \<Rightarrow> btree_db" where
  "pager_next db = db\<lparr>pagerAns := tl (pagerAns db)\<rparr>"

lemma pager_call [simp]: "pager_call db = (pager_rc db, pager_next db)"
  by (simp add: pager_call_def pager_rc_def pager_next_def split: list.split)

lemma pager_next_simps [simp]:
  "bts (pager_next db) = bts db" "pg (pager_next db) = pg db"
  "pHasContent (pager_next db) = pHasContent db" "refs (pager_next db) = refs db"
  "heapAns (pager_next db) = heapAns db" "inCache (pager_next db) = inCache db"
  "pagerAns (pager_next db) = tl (pagerAns db)"
  by (simp_all add: pager_next_def)

text \<open>An error code is one of the pager's answers.\<close>

lemma pager_rc_error: "pager_rc db \<noteq> SQLITE_OK \<Longrightarrow> pager_rc db \<in> set (pagerAns db)"
  by (simp add: pager_rc_def split: list.splits)

lemma set_tl: "x \<in> set (tl xs) \<Longrightarrow> x \<in> set xs"
  by (cases xs) auto

lemma set_tl_mono: "set xs \<subseteq> A \<Longrightarrow> set (tl xs) \<subseteq> A"
  by (auto dest: set_tl)

lemma set_tl_subset: "set xs \<subseteq> set (tl ys) \<Longrightarrow> set (tl xs) \<subseteq> set ys"
  by (auto dest: set_tl)

lemma set_page_simps [simp]:
  "bts (set_page db p d) = bts db" "pg (set_page db p d) = (pg db)(p := d)"
  "pHasContent (set_page db p d) = pHasContent db" "refs (set_page db p d) = refs db"
  "heapAns (set_page db p d) = heapAns db" "inCache (set_page db p d) = inCache db"
  "pagerAns (set_page db p d) = pagerAns db"
  by (simp_all add: set_page_def)

lemma refPage_simps [simp]:
  "bts (refPage db p) = bts db" "pg (refPage db p) = pg db" "pHasContent (refPage db p) = pHasContent db"
  "refs (refPage db p) = (refs db)(p := refs db p + 1)" "heapAns (refPage db p) = heapAns db"
  "inCache (refPage db p) = inCache db" "pagerAns (refPage db p) = pagerAns db"
  by (simp_all add: refPage_def)

lemma releasePage_simps [simp]:
  "bts (releasePage db p) = bts db" "pg (releasePage db p) = pg db"
  "pHasContent (releasePage db p) = pHasContent db"
  "refs (releasePage db p) = (refs db)(p := refs db p - 1)" "heapAns (releasePage db p) = heapAns db"
  "inCache (releasePage db p) = inCache db" "pagerAns (releasePage db p) = pagerAns db"
  by (simp_all add: releasePage_def)

lemma btreeGetPageD:
  assumes "btreeGetPage db p nc = (rc, db')"
  shows "bts db' = bts db" "pHasContent db' = pHasContent db" "heapAns db' = heapAns db"
    "inCache db' = inCache db" "set (pagerAns db') \<subseteq> set (pagerAns db)"
    "pg db' = (if rc = SQLITE_OK \<and> nc then (pg db)(p := replicate (pageSize (bts db)) 0) else pg db)"
    "refs db' = (if rc = SQLITE_OK then (refs db)(p := refs db p + 1) else refs db)"
    "rc = SQLITE_OK \<Longrightarrow> p \<noteq> 0"
    "rc \<noteq> SQLITE_OK \<Longrightarrow> rc \<in> set (pagerAns db) \<or> rc = SQLITE_CORRUPT \<and> p = 0"
  using assms by (auto simp: btreeGetPage_def pager_rc_error split: if_splits dest: set_tl)

lemma btreeGetUnusedPageD:
  assumes "btreeGetUnusedPage db p nc = (rc, db')"
  shows "bts db' = bts db" "pHasContent db' = pHasContent db" "heapAns db' = heapAns db"
    "set (pagerAns db') \<subseteq> set (pagerAns db)"
    "rc = SQLITE_OK \<Longrightarrow> pg db' = (if nc then (pg db)(p := replicate (pageSize (bts db)) 0) else pg db)"
    "refs db' = (if rc = SQLITE_OK then (refs db)(p := refs db p + 1) else refs db)"
    "rc = SQLITE_OK \<Longrightarrow> p \<noteq> 0 \<and> refs db p = 0"
    "rc \<noteq> SQLITE_OK \<Longrightarrow> rc \<in> set (pagerAns db) \<or> rc = SQLITE_CORRUPT \<and> (p = 0 \<or> refs db p > 0)"
proof -
  obtain rc1 db1 where 1: "btreeGetPage db p nc = (rc1, db1)" by fastforce
  note d = btreeGetPageD [OF 1]
  show "bts db' = bts db" "pHasContent db' = pHasContent db" "heapAns db' = heapAns db"
    "set (pagerAns db') \<subseteq> set (pagerAns db)"
    "rc = SQLITE_OK \<Longrightarrow> pg db' = (if nc then (pg db)(p := replicate (pageSize (bts db)) 0) else pg db)"
    "refs db' = (if rc = SQLITE_OK then (refs db)(p := refs db p + 1) else refs db)"
    "rc = SQLITE_OK \<Longrightarrow> p \<noteq> 0 \<and> refs db p = 0"
    "rc \<noteq> SQLITE_OK \<Longrightarrow> rc \<in> set (pagerAns db) \<or> rc = SQLITE_CORRUPT \<and> (p = 0 \<or> refs db p > 0)"
    using assms 1 d by (auto simp: btreeGetUnusedPage_def split: if_splits)
qed

section \<open>Allocation\<close>

lemma closest_loop_mem: "closest_loop data nearby is c dist \<in> insert c (set is)"
  by (induction "is" arbitrary: c dist) (auto simp: Let_def)

text \<open>The leaves left when leaf \<open>c\<close> of a trunk page is replaced by the last one.\<close>

definition take_leaf :: "nat \<Rightarrow> 'a list \<Rightarrow> 'a list" where
  "take_leaf c ls = butlast (ls[c := last ls])"

definition trunk_take :: "bytes \<Rightarrow> nat \<Rightarrow> nat \<Rightarrow> bytes" where
  "trunk_take data c k =
     p4 (if c < k - 1 then blit data (8 + c * 4) (subbytes data (4 + k * 4) 4) else data) 4 (k - 1)"

lemma length_take_leaf [simp]: "length (take_leaf c ls) = length ls - 1"
  by (simp add: take_leaf_def)

lemma nth_take_leaf:
  "i < length ls - 1 \<Longrightarrow> take_leaf c ls ! i = (if i = c then ls ! (length ls - 1) else ls ! i)"
  by (cases "ls = []") (auto simp: take_leaf_def nth_butlast nth_list_update last_conv_nth)

lemma mset_take_leaf:
  assumes "c < length ls"
  shows "mset (take_leaf c ls) = mset ls - {#ls ! c#}"
proof -
  obtain xs x where ls: "ls = xs @ [x]" using assms by (cases ls rule: rev_cases) auto
  show ?thesis
  proof (cases "c = length xs")
    case False
    then have "c < length xs" using assms ls by simp
    then show ?thesis
      by (simp add: ls take_leaf_def list_update_append1 butlast_append mset_update nth_append
          add_mset_commute diff_union_swap)
  qed (simp add: ls take_leaf_def)
qed

lemma length_trunk_take [simp]: "length (trunk_take data c k) = length data"
  by (simp add: trunk_take_def)

lemma g4_trunk_take:
  assumes "c < k" "8 + k * 4 \<le> length data" "k < 2 ^ 32"
  shows "g4 (trunk_take data c k) 0 = g4 data 0" "g4 (trunk_take data c k) 4 = k - 1"
    "i < k - 1 \<Longrightarrow> g4 (trunk_take data c k) (8 + i * 4) =
       (if i = c then g4 data (8 + (k - 1) * 4) else g4 data (8 + i * 4))"
proof -
  have k: "4 + k * 4 = 8 + (k - 1) * 4" using assms by simp
  have ne: "i \<noteq> c \<Longrightarrow> 8 + i * 4 + 4 \<le> 8 + c * 4 \<or> 8 + c * 4 + 4 \<le> 8 + i * 4" by linarith
  show "g4 (trunk_take data c k) 0 = g4 data 0" "g4 (trunk_take data c k) 4 = k - 1"
    using assms by (auto simp: trunk_take_def g4_simps)
  show "g4 (trunk_take data c k) (8 + i * 4) =
       (if i = c then g4 data (8 + (k - 1) * 4) else g4 data (8 + i * 4))" if i: "i < k - 1"
  proof (cases "i = c")
    case True
    then show ?thesis using assms i by (simp add: trunk_take_def g4_p4_other g4_copy k)
  next
    case False
    then show ?thesis using assms i ne by (simp add: trunk_take_def g4_p4_other g4_copy_other)
  qed
qed

lemma trunks_take_leaf:
  assumes "trunks P u t ((t, ls) # ts)" "c < length ls" "length (P t) \<ge> u" "u < 2 ^ 32"
    "P' t = trunk_take (P t) c (length ls)" "\<And>q. q \<in> set (map fst ts) \<Longrightarrow> P' q = P q"
  shows "trunks P' u t ((t, take_leaf c ls) # ts)"
proof -
  have P: "g4 (P t) 4 = length ls" "length ls \<le> u div 4 - 2" "\<forall>i < length ls. g4 (P t) (8 + i * 4) = ls ! i"
    "trunks P u (g4 (P t) 0) ts"
    using assms(1) by simp_all
  have k: "8 + length ls * 4 \<le> length (P t)" "length ls < 2 ^ 32"
    using P(2) assms(2-4) by linarith+
  note g = g4_trunk_take [OF assms(2) k]
  have "trunks P' u (g4 (P t) 0) ts"
    using P(4) assms(6) by (rule trunks_cong)
  then show ?thesis using assms(2) P(2,3) unfolding trunks.simps assms(5) g(1,2)
    by (simp add: g(3) nth_take_leaf)
qed

text \<open>The outcome of taking a leaf: the number at index \<open>c\<close>, or an error of the pager or a page in use.\<close>

lemma allocate_leaf_post:
  assumes "allocate_leaf db nearby t k = (rc, p, db')" "0 < k" "length (pg db t) = pageSize (bts db)"
    "\<forall>q. length (pg db q) = pageSize (bts db)" "refs db t > 0"
    "\<forall>i < k. g4 (pg db t) (8 + i * 4) \<in> {2..nPage (bts db)}"
  shows "rc \<noteq> SQLITE_OK \<Longrightarrow> rc \<in> set (pagerAns db) \<or>
      rc = SQLITE_CORRUPT \<and> (\<exists>c < k. refs db (g4 (pg db t) (8 + c * 4)) > 0)"
    and "rc = SQLITE_OK \<Longrightarrow> \<exists>c x. c < k \<and> p = g4 (pg db t) (8 + c * 4) \<and> length x = pageSize (bts db) \<and>
      pg db' = (pg db)(t := trunk_take (pg db t) c k, p := x) \<and> refs db p = 0 \<and>
      refs db' = (refs db)(p := 1)"
    and "bts db' = bts db" "pHasContent db' = pHasContent db" "heapAns db' = heapAns db"
      "set (pagerAns db') \<subseteq> set (pagerAns db)"
proof -
  define c where "c = (if nearby > 0 then
    closest_loop (pg db t) nearby [1..<k] 0 (leaf_dist (pg db t) 0 nearby) else 0)"
  define q where "q = g4 (pg db t) (8 + c * 4)"
  define db1 where "db1 = set_page (pager_next db) t (trunk_take (pg db t) c k)"
  have c: "c < k" using assms(2) closest_loop_mem [of "pg db t" nearby "[1..<k]" 0] unfolding c_def
    by (auto split: if_splits) (metis One_nat_def assms(2) atLeastLessThan_iff insertE set_upt)
  have q: "q \<in> {2..nPage (bts db)}" using assms(6) c unfolding q_def by blast
  obtain rc2 db2 where 2: "btreeGetUnusedPage db1 q (\<not> btreeGetHasContent db1 q) = (rc2, db2)" by fastforce
  have r: "allocate_leaf db nearby t k =
      (if pager_rc db \<noteq> SQLITE_OK then (pager_rc db, q, pager_next db)
       else if rc2 \<noteq> SQLITE_OK then (rc2, q, db2)
       else if pager_rc db2 \<noteq> SQLITE_OK then (pager_rc db2, q, releasePage (pager_next db2) q)
       else (SQLITE_OK, q, pager_next db2))"
    using q 2 unfolding allocate_leaf_def Let_def btreePagecount_def c_def [symmetric] q_def [symmetric]
    by (simp add: db1_def trunk_take_def)
  note d = btreeGetUnusedPageD [OF 2, unfolded db1_def, simplified]
  show "rc \<noteq> SQLITE_OK \<Longrightarrow> rc \<in> set (pagerAns db) \<or>
      rc = SQLITE_CORRUPT \<and> (\<exists>c < k. refs db (g4 (pg db t) (8 + c * 4)) > 0)"
    using assms(1) r d(4,8) c q pager_rc_error [of db] pager_rc_error [of db2]
    by (auto simp: q_def split: if_splits dest: set_tl)
  show "bts db' = bts db" "pHasContent db' = pHasContent db" "heapAns db' = heapAns db"
      "set (pagerAns db') \<subseteq> set (pagerAns db)"
    using assms(1) r d(1-4) set_tl_subset [OF d(4)] by (auto split: if_splits dest: set_tl)
  assume "rc = SQLITE_OK"
  with assms(1) r have ok: "rc2 = SQLITE_OK" "p = q" "db' = pager_next db2"
    by (auto split: if_splits)
  have "q \<noteq> t" "refs db q = 0" using d(7) ok(1) assms(5) by auto
  moreover have "length (if \<not> btreeGetHasContent db1 q then replicate (pageSize (bts db)) 0 else pg db q) =
    pageSize (bts db)"
    using assms(4) by simp
  moreover have "pg db' = (pg db)(t := trunk_take (pg db t) c k,
      p := if \<not> btreeGetHasContent db1 q then replicate (pageSize (bts db)) 0 else pg db q)"
    using d(5) [OF ok(1)] ok(2,3) \<open>q \<noteq> t\<close> by (auto simp: db1_def)
  moreover have "refs db' = (refs db)(p := 1)" using d(6) ok \<open>refs db q = 0\<close> by simp
  ultimately show "\<exists>c x. c < k \<and> p = g4 (pg db t) (8 + c * 4) \<and> length x = pageSize (bts db) \<and>
      pg db' = (pg db)(t := trunk_take (pg db t) c k, p := x) \<and> refs db p = 0 \<and>
      refs db' = (refs db)(p := 1)"
    using c ok(2) q_def by blast
qed

text \<open>
  \<open>free_set db F\<close>: the freelist of \<open>db\<close> is well formed and holds the pages \<open>F\<close>.  The frame of a
  routine that maintains it: the pages \<open>S\<close> and the freelist and size fields of page 1 may change.
\<close>

definition free_set :: "btree_db \<Rightarrow> pgno set \<Rightarrow> bool" where
  "free_set db F \<longleftrightarrow> db_ok db \<and> (\<exists>ts. freelist db ts \<and> set (free_pages ts) = F)"

definition frame :: "pgno set \<Rightarrow> btree_db \<Rightarrow> btree_db \<Rightarrow> bool" where
  "frame S db db' \<longleftrightarrow> (\<forall>q. q \<notin> insert 1 S \<longrightarrow> pg db' q = pg db q) \<and>
     (\<forall>i. i < 28 \<or> 40 \<le> i \<longrightarrow> byte_at (pg db' 1) i = byte_at (pg db 1) i) \<and>
     (\<exists>n. bts db' = (bts db)\<lparr>nPage := n\<rparr>)"

definition next_pgno :: "btree_db \<Rightarrow> pgno" where
  "next_pgno db = (let n = nPage (bts db) + 1 in if n = PENDING_BYTE_PAGE db then n + 1 else n)"

text \<open>What an allocation promises.\<close>

definition alloc_post :: "btree_db \<Rightarrow> pgno set \<Rightarrow> pgno \<Rightarrow> btree_db \<Rightarrow> bool" where
  "alloc_post db F p db' \<longleftrightarrow>
     (if F = {} then p = next_pgno db \<and> nPage (bts db') = p \<and> free_set db' {}
      else p \<in> F \<and> nPage (bts db') = nPage (bts db) \<and> free_set db' (F - {p})) \<and>
     refs db p = 0 \<and> refs db' = (refs db)(p := 1) \<and> frame (insert p F) db db'"

lemma take_free_pages:
  assumes "freelist db ((t, ls) # ts)" "c < length ls" "p = ls ! c"
  shows "mset (free_pages ((t, take_leaf c ls) # ts)) = mset (free_pages ((t, ls) # ts)) - {#p#}"
    "length (free_pages ((t, take_leaf c ls) # ts)) = length (free_pages ((t, ls) # ts)) - 1"
    "distinct (free_pages ((t, take_leaf c ls) # ts))"
    "set (free_pages ((t, take_leaf c ls) # ts)) = set (free_pages ((t, ls) # ts)) - {p}"
proof -
  have d: "distinct (free_pages ((t, ls) # ts))" using assms(1) by (simp add: freelist_def)
  have "p \<in># mset ls" using assms by simp
  then show m: "mset (free_pages ((t, take_leaf c ls) # ts)) = mset (free_pages ((t, ls) # ts)) - {#p#}"
    using assms by (simp add: mset_take_leaf)
  show "length (free_pages ((t, take_leaf c ls) # ts)) = length (free_pages ((t, ls) # ts)) - 1"
    using assms(2) by simp
  have "mset (free_pages ((t, take_leaf c ls) # ts)) = mset (remove1 p (free_pages ((t, ls) # ts)))"
    unfolding m by simp
  then show "distinct (free_pages ((t, take_leaf c ls) # ts))"
    "set (free_pages ((t, take_leaf c ls) # ts)) = set (free_pages ((t, ls) # ts)) - {p}"
    using d by (metis distinct_remove1 mset_eq_imp_distinct_iff, metis d mset_eq_setD set_remove1_eq)
qed

lemma trunk_range:
  assumes "freelist db ((t, ls) # ts)" "db_ok db"
  shows "2 \<le> t" "t \<le> nPage (bts db)" "set ls \<subseteq> {2..nPage (bts db)} - {t}"
    "t \<notin> set (map fst ts)" "set ls \<inter> set (map fst ts) = {}" "1 \<notin> set (map fst ts)"
    "g4 (pg db 1) 32 = t" "0 < g4 (pg db 1) 36" "g4 (pg db 1) 36 < nPage (bts db)"
proof -
  have "set (map fst ts) \<subseteq> set (free_pages ts)" using trunk_in_free by blast
  with assms show "t \<notin> set (map fst ts)" "set ls \<inter> set (map fst ts) = {}" "1 \<notin> set (map fst ts)"
    unfolding freelist_def by fastforce+
  show "2 \<le> t" "t \<le> nPage (bts db)" "set ls \<subseteq> {2..nPage (bts db)} - {t}"
    "g4 (pg db 1) 32 = t" "0 < g4 (pg db 1) 36" "g4 (pg db 1) 36 < nPage (bts db)"
    using assms length_free_pages_less [of "(t, ls) # ts" "nPage (bts db)"]
    by (auto simp: freelist_def db_ok_def split: if_splits)
qed

text \<open>Taking a leaf, on the database whose free-page count is already decreased.\<close>

lemma freelist_take_leaf:
  assumes F: "freelist db ((t, ls) # ts)" and ok: "db_ok db" and c: "c < length ls" "p = ls ! c"
    and x: "length x = pageSize (bts db)"
    and pg': "pg db' = (pg db)(1 := p4 (pg db 1) 36 (g4 (pg db 1) 36 - 1),
       t := trunk_take (pg db t) c (length ls), p := x)" and bts': "bts db' = bts db"
  shows "freelist db' ((t, take_leaf c ls) # ts)"
proof -
  note r = trunk_range [OF F ok]
  have p: "p \<in> set ls" using c by simp
  have len: "length (pg db q) = pageSize (bts db)" "480 \<le> pageSize (bts db)" for q
    using ok by (auto simp: db_ok_def)
  have ne: "1 \<noteq> t" "p \<noteq> 1" "p \<noteq> t" using r(1,3) p by auto
  have tr: "trunks (pg db) (usableSize (bts db)) t ((t, ls) # ts)"
    using F r by (simp add: freelist_def)
  have P': "pg db' t = trunk_take (pg db t) c (length ls)" "pg db' 1 = p4 (pg db 1) 36 (g4 (pg db 1) 36 - 1)"
    using ne pg' by simp_all
  have "pg db' q = pg db q" if "q \<in> set (map fst ts)" for q
  proof -
    have "q \<noteq> 1" "q \<noteq> t" "q \<noteq> p" using that r(4-6) p by blast+
    then show ?thesis by (simp add: pg')
  qed
  then have "trunks (pg db') (usableSize (bts db)) t ((t, take_leaf c ls) # ts)"
    using ok by (intro trunks_take_leaf [where P' = "pg db'", OF tr c(1) _ _ P'(1)]) (auto simp: db_ok_def)
  moreover have "g4 (pg db' 1) 32 = t" "g4 (pg db' 1) 36 = g4 (pg db 1) 36 - 1"
    unfolding P'(2) using len r(7) by (auto simp: g4_simps)
  ultimately show ?thesis using take_free_pages [OF F c] F c(1) bts'
    by (auto simp: freelist_def)
qed

text \<open>Taking an empty trunk page.\<close>

lemma freelist_take_trunk:
  assumes F: "freelist db ((t, []) # ts)" and ok: "db_ok db"
    and pg': "pg db' = (pg db)(1 := blit (p4 (pg db 1) 36 (g4 (pg db 1) 36 - 1)) 32 (subbytes (pg db t) 0 4))"
    and bts': "bts db' = bts db"
  shows "freelist db' ts"
proof -
  note r = trunk_range [OF F ok]
  have len: "length (pg db q) = pageSize (bts db)" "480 \<le> pageSize (bts db)" for q
    using ok by (auto simp: db_ok_def)
  have g: "g4 (pg db' 1) 32 = g4 (pg db t) 0" "g4 (pg db' 1) 36 = g4 (pg db 1) 36 - 1"
    unfolding pg' using len by (auto simp: g4_simps)
  have "trunks (pg db) (usableSize (bts db)) (g4 (pg db t) 0) ts"
    using F by (auto simp: freelist_def)
  then have "trunks (pg db') (usableSize (bts db)) (g4 (pg db t) 0) ts"
    by (rule trunks_cong) (metis fun_upd_apply pg' r(6))
  moreover have "g4 (pg db 1) 36 = Suc (length (free_pages ts))" using F by (auto simp: freelist_def)
  ultimately show ?thesis using F g bts' by (cases ts) (auto simp: freelist_def)
qed

text \<open>The branches \<open>allocate_trunk\<close> takes on a well-formed freelist.\<close>

lemma allocate_trunk_eq:
  assumes F: "freelist db ((t, ls) # ts)" and ok: "db_ok db"
    and db1: "bts db1 = bts db" "pg db1 = (pg db)(1 := d1)"
    and 2: "btreeGetUnusedPage db1 t False = (rc2, db2)"
  shows "allocate_trunk db1 nearby t =
     (if rc2 \<noteq> SQLITE_OK then (rc2, 0, db2)
      else if ls = [] then
        if pager_rc db2 \<noteq> SQLITE_OK then (pager_rc db2, 0, releasePage (pager_next db2) t)
        else (SQLITE_OK, t, set_page (pager_next db2) 1 (blit (pg db2 1) 32 (subbytes (pg db2 t) 0 4)))
      else case allocate_leaf db2 nearby t (length ls) of (rc, p, db) \<Rightarrow> (rc, p, releasePage db t))"
    "rc2 = SQLITE_OK \<Longrightarrow> \<forall>q. length (pg db1 q) = pageSize (bts db) \<Longrightarrow>
      \<forall>q. length (pg db2 q) = pageSize (bts db2)"
    "rc2 = SQLITE_OK \<Longrightarrow> \<forall>i < length ls. g4 (pg db2 t) (8 + i * 4) = ls ! i"
    "rc2 = SQLITE_OK \<Longrightarrow> \<forall>i < length ls. g4 (pg db2 t) (8 + i * 4) \<in> {2..nPage (bts db2)}"
proof -
  note tr = trunk_range [OF F ok]
  note d = btreeGetUnusedPageD [OF 2, unfolded db1, simplified]
  have ne: "t \<noteq> 1" using tr(1) by simp
  have k: "rc2 = SQLITE_OK \<Longrightarrow> g4 (pg db2 t) 4 = length ls" "length ls \<le> usableSize (bts db) div 4 - 2"
    "\<forall>i < length ls. g4 (pg db t) (8 + i * 4) = ls ! i"
    using F tr d(5) ne by (auto simp: freelist_def)
  show "allocate_trunk db1 nearby t =
     (if rc2 \<noteq> SQLITE_OK then (rc2, 0, db2)
      else if ls = [] then
        if pager_rc db2 \<noteq> SQLITE_OK then (pager_rc db2, 0, releasePage (pager_next db2) t)
        else (SQLITE_OK, t, set_page (pager_next db2) 1 (blit (pg db2 1) 32 (subbytes (pg db2 t) 0 4)))
      else case allocate_leaf db2 nearby t (length ls) of (rc, p, db) \<Rightarrow> (rc, p, releasePage db t))"
    using 2 k d(1) tr(2) by (auto simp: allocate_trunk_def db1 btreePagecount_def)
  show "rc2 = SQLITE_OK \<Longrightarrow> \<forall>q. length (pg db1 q) = pageSize (bts db) \<Longrightarrow>
      \<forall>q. length (pg db2 q) = pageSize (bts db2)"
    using d(1,5) by (auto simp: db1)
  show l: "\<forall>i < length ls. g4 (pg db2 t) (8 + i * 4) = ls ! i" if "rc2 = SQLITE_OK"
    using k(3) d(5) [OF that] ne by simp
  show "\<forall>i < length ls. g4 (pg db2 t) (8 + i * 4) \<in> {2..nPage (bts db2)}" if "rc2 = SQLITE_OK"
    using l [OF that] tr(3) unfolding d(1) by (metis Diff_iff nth_mem subset_iff)
qed

lemma allocate_trunk_error:
  assumes r: "allocate_trunk db1 nearby t = (rc, p, db')" "rc \<noteq> SQLITE_OK"
    and F: "freelist db ((t, ls) # ts)" and ok: "db_ok db"
    and db1: "bts db1 = bts db" "pg db1 = (pg db)(1 := d1)" "refs db1 = refs db" "length d1 = pageSize (bts db)"
  shows "rc \<in> set (pagerAns db1) \<or>
      rc = SQLITE_CORRUPT \<and> (\<exists>q \<in> set (free_pages ((t, ls) # ts)). refs db q > 0)"
proof -
  note tr = trunk_range [OF F ok]
  obtain rc2 db2 where 2: "btreeGetUnusedPage db1 t False = (rc2, db2)" by fastforce
  note d = btreeGetUnusedPageD [OF 2, unfolded db1, simplified]
  note e = allocate_trunk_eq [OF F ok db1(1,2) 2]
  have len: "\<forall>q. length (pg db1 q) = pageSize (bts db)" using ok db1 by (auto simp: db_ok_def)
  show ?thesis
  proof (cases "rc2 = SQLITE_OK \<and> ls \<noteq> []")
    case True
    then have t: "rc2 = SQLITE_OK" "0 < length ls" by auto
    note e = e(1) e(2) [OF t(1) len] e(3,4) [OF t(1)]
    obtain rc3 p3 db3 where 3: "allocate_leaf db2 nearby t (length ls) = (rc3, p3, db3)"
      using prod_cases3 by blast
    have "rc3 = rc" using r(1) e(1) 3 t by simp
    then have "rc \<in> set (pagerAns db2) \<or>
        rc = SQLITE_CORRUPT \<and> (\<exists>c < length ls. refs db2 (g4 (pg db2 t) (8 + c * 4)) > 0)"
      using allocate_leaf_post(1) [OF 3 t(2) e(2) [rule_format] e(2) _ e(4)] d(6) t(1) r(2) by simp
    moreover have "refs db (ls ! c) > 0" "ls ! c \<in> set (free_pages ((t, ls) # ts))"
      if "c < length ls" "refs db2 (g4 (pg db2 t) (8 + c * 4)) > 0" for c
    proof -
      have "ls ! c \<noteq> t" using nth_mem [OF that(1)] tr(3) by blast
      then show "refs db (ls ! c) > 0" "ls ! c \<in> set (free_pages ((t, ls) # ts))"
        using that d(6) t(1) e(3) by auto
    qed
    ultimately show ?thesis using d(4) by blast
  next
    case False
    then show ?thesis
      using r e(1) d(4,8) tr(1) pager_rc_error [of db2] by (auto split: if_splits)
  qed
qed

lemma frameI:
  assumes "\<And>q. q \<noteq> 1 \<Longrightarrow> q \<notin> S \<Longrightarrow> pg db' q = pg db q" "bts db' = (bts db)\<lparr>nPage := n\<rparr>"
    "\<And>i. i < 28 \<or> 40 \<le> i \<Longrightarrow> byte_at (pg db' 1) i = byte_at (pg db 1) i"
  shows "frame S db db'"
  using assms by (auto simp: frame_def)

lemma byte_at_p4_other: "j < i \<or> i + 4 \<le> j \<Longrightarrow> byte_at (p4 d i v) j = byte_at d j"
  by (auto simp: p4_def byte_at_blit)

lemma db_ok_upd:
  assumes "db_ok db" "bts db' = bts db" "\<And>v. pHasContent db' = Some v \<Longrightarrow> bitvec_wf v"
    "\<And>q. length (pg db' q) = pageSize (bts db)"
  shows "db_ok db'"
  using assms by (auto simp: db_ok_def)

lemma db_ok_simps:
  assumes "db_ok db"
  shows "length (pg db q) = pageSize (bts db)" "480 \<le> pageSize (bts db)" "480 \<le> usableSize (bts db)"
    "usableSize (bts db) \<le> pageSize (bts db)" "pHasContent db = Some v \<Longrightarrow> bitvec_wf v"
  using assms by (auto simp: db_ok_def)

lemma allocate_trunk_OK:
  assumes r: "allocate_trunk db1 nearby t = (SQLITE_OK, p, db')"
    and F: "freelist db ((t, ls) # ts)" and ok: "db_ok db"
    and db1: "bts db1 = bts db" "pg db1 = (pg db)(1 := p4 (pg db 1) 36 (g4 (pg db 1) 36 - 1))"
      "refs db1 = refs db" "pHasContent db1 = pHasContent db"
  shows "alloc_post db (set (free_pages ((t, ls) # ts))) p db'"
proof -
  let ?F = "set (free_pages ((t, ls) # ts))"
  note tr = trunk_range [OF F ok]
  obtain rc2 db2 where 2: "btreeGetUnusedPage db1 t False = (rc2, db2)" by fastforce
  note d = btreeGetUnusedPageD [OF 2, unfolded db1, simplified]
  note e = allocate_trunk_eq [OF F ok db1(1,2) 2]
  have len: "\<forall>q. length (pg db1 q) = pageSize (bts db)" using ok db1 by (auto simp: db_ok_def)
  have ok2: "rc2 = SQLITE_OK" using r e(1) by (auto split: if_splits)
  note e = e(1) e(2) [OF ok2 len] e(3,4) [OF ok2]
  have dt: "distinct (free_pages ((t, ls) # ts))" using F by (simp add: freelist_def)
  have ne: "t \<noteq> 1" using tr(1) by simp
  show ?thesis
  proof (cases "ls = []")
    case True
    with r e(1) ok2 have db': "p = t"
        "db' = set_page (pager_next db2) 1 (blit (pg db2 1) 32 (subbytes (pg db2 t) 0 4))"
      by (auto split: if_splits)
    have pg': "pg db' = (pg db)(1 := blit (p4 (pg db 1) 36 (g4 (pg db 1) 36 - 1)) 32 (subbytes (pg db t) 0 4))"
      and b: "bts db' = bts db" and hc: "pHasContent db' = pHasContent db"
      using d(1,2,5) ok2 db'(2) ne by auto
    have "freelist db' ts"
      using freelist_take_trunk [OF F [unfolded True] ok pg' b] .
    moreover have "db_ok db'"
      by (rule db_ok_upd [OF ok b]) (auto simp: pg' db_ok_simps [OF ok] hc)
    ultimately have "free_set db' (?F - {t})"
      using dt True by (auto simp: free_set_def intro!: exI [of _ ts])
    moreover have "frame (insert p ?F) db db'"
      by (rule frameI [where n = "nPage (bts db)"]) (auto simp: pg' b byte_at_blit byte_at_p4_other)
    ultimately show ?thesis using d(6,7) ok2 db' b by (auto simp: alloc_post_def)
  next
    case False
    obtain rc3 p3 db3 where 3: "allocate_leaf db2 nearby t (length ls) = (rc3, p3, db3)"
      using prod_cases3 by blast
    have s: "rc3 = SQLITE_OK" "p3 = p" "db' = releasePage db3 t" using r e(1) 3 ok2 False by auto
    have 0: "0 < length ls" "refs db2 t > 0" using False d(6) ok2 by auto
    note l = allocate_leaf_post [OF 3 0(1) e(2) [rule_format] e(2) 0(2) e(4)]
    obtain c x where c: "c < length ls" "p = ls ! c" "length x = pageSize (bts db)"
        "pg db3 = (pg db2)(t := trunk_take (pg db2 t) c (length ls), p := x)" "refs db2 p = 0"
        "refs db3 = (refs db2)(p := 1)"
      using l(2) [OF s(1)] e(3) s(2) d(1) by auto
    have p: "p \<in> set ls" using c(1,2) by simp
    then have p: "p \<in> set ls" "p \<noteq> t" "p \<noteq> 1" using tr(3) by auto
    have pg': "pg db' = (pg db)(1 := p4 (pg db 1) 36 (g4 (pg db 1) 36 - 1),
       t := trunk_take (pg db t) c (length ls), p := x)" and b: "bts db' = bts db" and hc: "pHasContent db' = pHasContent db"
      using s(3) c(4) d(1,2,5) ok2 ne l(3,4) by auto
    have "freelist db' ((t, take_leaf c ls) # ts)"
      by (rule freelist_take_leaf [OF F ok c(1-3) pg' b])
    moreover have "db_ok db'"
      by (rule db_ok_upd [OF ok b]) (auto simp: pg' db_ok_simps [OF ok] hc c(3))
    ultimately have "free_set db' (?F - {p})"
      using take_free_pages(4) [OF F c(1,2)] by (auto simp: free_set_def simp del: free_pages.simps)
    moreover have "frame (insert p ?F) db db'"
      by (rule frameI [where n = "nPage (bts db)"]) (use p ne in \<open>auto simp: pg' b byte_at_p4_other\<close>)
    moreover have "refs db p = 0" "refs db' = (refs db)(p := 1)"
      using d(6,7) ok2 c(5,6) s(3) p(2) by (auto simp: fun_eq_iff)
    ultimately show ?thesis using b p(1) by (auto simp: alloc_post_def)
  qed
qed

lemma allocate_extend_post:
  assumes r: "allocate_extend db = (rc, p, db')" and ok: "db_ok db" and F: "freelist db []"
    and n: "nPage (bts db) < 2 ^ 32 - 4"
  shows "rc = SQLITE_OK \<Longrightarrow> alloc_post db {} p db'"
    and "rc \<noteq> SQLITE_OK \<Longrightarrow> rc \<in> set (pagerAns db) \<or> rc = SQLITE_CORRUPT \<and> refs db (next_pgno db) > 0"
proof -
  define db1 where "db1 = set_page (pager_next db\<lparr>bts := (bts db)\<lparr>nPage := next_pgno db\<rparr>\<rparr>) 1
    (p4 (pg db 1) 28 (next_pgno db))"
  obtain rc2 db2 where 2: "btreeGetUnusedPage db1 (next_pgno db) True = (rc2, db2)" by fastforce
  note d = btreeGetUnusedPageD [OF 2, unfolded db1_def, simplified]
  have np: "1 < next_pgno db" "next_pgno db < 2 ^ 32 - 2" "next_pgno db > nPage (bts db)"
    using ok n by (auto simp: next_pgno_def Let_def db_ok_def)
  have [simp]: "PENDING_BYTE_PAGE (pager_next db) = PENDING_BYTE_PAGE db"
    by (simp add: PENDING_BYTE_PAGE_def)
  have e: "allocate_extend db =
      (if pager_rc db \<noteq> SQLITE_OK then (pager_rc db, 0, pager_next db)
       else if rc2 \<noteq> SQLITE_OK then (rc2, next_pgno db, db2)
       else if pager_rc db2 \<noteq> SQLITE_OK then (pager_rc db2, next_pgno db, releasePage (pager_next db2) (next_pgno db))
       else (SQLITE_OK, next_pgno db, pager_next db2))"
    using 2 unfolding db1_def next_pgno_def by (simp add: allocate_extend_def Let_def)
  show "rc \<noteq> SQLITE_OK \<Longrightarrow> rc \<in> set (pagerAns db) \<or> rc = SQLITE_CORRUPT \<and> refs db (next_pgno db) > 0"
    using r e d(4,8) np pager_rc_error [of db] pager_rc_error [of db2] by (auto split: if_splits dest: set_tl)
  assume "rc = SQLITE_OK"
  with r e have s: "rc2 = SQLITE_OK" "p = next_pgno db" "db' = pager_next db2"
    by (auto split: if_splits)
  have pg': "pg db' = (pg db)(1 := p4 (pg db 1) 28 p, p := replicate (pageSize (bts db)) 0)"
    and b: "bts db' = (bts db)\<lparr>nPage := p\<rparr>" and p: "p \<noteq> 1"
    and hc: "pHasContent db' = pHasContent db"
    using d(1,2,5) s np by auto
  have "freelist db' []" using F p by (simp add: freelist_def pg' g4_p4_other)
  moreover have "db_ok db'" using ok np by (auto simp: db_ok_def pg' b s(2) hc)
  moreover have "frame {p} db db'"
    by (rule frameI [where n = p]) (use p in \<open>auto simp: pg' b byte_at_p4_other\<close>)
  ultimately show "alloc_post db {} p db'" using d(6,7) s b by (auto simp: alloc_post_def free_set_def)
qed

text \<open>Allocation keeps the freelist well formed and returns a free page, or a new one when there is none.\<close>

text \<open>A page the next allocation may take is referenced.\<close>

definition held_free :: "btree_db \<Rightarrow> pgno set \<Rightarrow> bool" where
  "held_free db F \<longleftrightarrow> (\<exists>q \<in> (if F = {} then {next_pgno db} else F). refs db q > 0)"

lemma allocateBtreePage_post:
  assumes r: "allocateBtreePage db nearby = (rc, p, db')" and F: "free_set db F"
    and n: "nPage (bts db) < 2 ^ 32 - 4"
  shows "rc = SQLITE_OK \<Longrightarrow> alloc_post db F p db'"
    and "rc \<noteq> SQLITE_OK \<Longrightarrow> rc \<in> set (pagerAns db) \<or>
      rc = SQLITE_CORRUPT \<and> held_free db F"
proof -
  obtain ts where ts: "freelist db ts" "set (free_pages ts) = F" and ok: "db_ok db"
    using F by (auto simp: free_set_def)
  define db1 where "db1 = set_page (pager_next db) 1 (p4 (pg db 1) 36 (g4 (pg db 1) 36 - 1))"
  have db1: "bts db1 = bts db" "pg db1 = (pg db)(1 := p4 (pg db 1) 36 (g4 (pg db 1) 36 - 1))"
    "refs db1 = refs db" "pHasContent db1 = pHasContent db" "set (pagerAns db1) \<subseteq> set (pagerAns db)"
    by (auto simp: db1_def dest: set_tl)
  have "(rc = SQLITE_OK \<longrightarrow> alloc_post db F p db') \<and> (rc \<noteq> SQLITE_OK \<longrightarrow> rc \<in> set (pagerAns db) \<or>
      rc = SQLITE_CORRUPT \<and> held_free db F)"
  proof (cases ts)
    case Nil
    then have "g4 (pg db 1) 36 = 0" "F = {}" using ts by (auto simp: freelist_def)
    moreover have "allocate_extend db = (rc, p, db')"
      using r ok calculation by (simp add: allocateBtreePage_def btreePagecount_def db_ok_def)
    ultimately show ?thesis
      using allocate_extend_post [OF _ ok _ n] ts(1) Nil unfolding held_free_def by auto
  next
    case (Cons t ts')
    obtain t ls where ts': "ts = (t, ls) # ts'" using Cons by (cases t) auto
    note F = ts(1) [unfolded ts']
    note tr = trunk_range [OF F ok]
    have "g4 (pg db1 1) 32 = t" using tr(7) by (simp add: db1 g4_p4_other)
    then have e: "allocateBtreePage db nearby =
        (if pager_rc db \<noteq> SQLITE_OK then (pager_rc db, 0, pager_next db) else allocate_trunk db1 nearby t)"
      using tr(8,9) by (simp add: allocateBtreePage_def btreePagecount_def db1_def Let_def)
    have l1: "length (p4 (pg db 1) 36 (g4 (pg db 1) 36 - 1)) = pageSize (bts db)"
      by (simp add: db_ok_simps [OF ok])
    show ?thesis
    proof (cases "pager_rc db = SQLITE_OK")
      case True
      with r e have a: "allocate_trunk db1 nearby t = (rc, p, db')" by simp
      show ?thesis
        using allocate_trunk_OK [OF _ F ok db1(1-4)] allocate_trunk_error [OF a _ F ok db1(1-3) l1] a db1(5) ts(2) ts' tr(1)
        by (cases "rc = SQLITE_OK") (auto simp: held_free_def)
    next
      case False
      with r e pager_rc_error [OF False] show ?thesis by simp
    qed
  qed
  then show "rc = SQLITE_OK \<Longrightarrow> alloc_post db F p db'" "rc \<noteq> SQLITE_OK \<Longrightarrow> rc \<in> set (pagerAns db) \<or>
      rc = SQLITE_CORRUPT \<and> held_free db F"
    by blast+
qed

section \<open>Freeing\<close>

lemma BitvecCreate_wf: "sqlite3BitvecCreate al n = (Some v, al') \<Longrightarrow> n < 2 ^ 32 \<Longrightarrow> bitvec_wf v \<and> iSize v = n"
  by (auto simp: sqlite3BitvecCreate_def split: prod.splits if_splits)

lemma BitvecSet_wf:
  assumes "bitvec_wf v" "0 < p" "p \<le> iSize v"
  shows "\<exists>rc al' v'. sqlite3BitvecSet al (Some v) (of_nat p) = Some (rc, al', Some v') \<and> bitvec_wf v' \<and>
    (rc = SQLITE_OK \<or> rc = SQLITE_NOMEM)"
proof -
  have p: "unat (of_nat p :: u32) = p" using assms by (auto simp: unat_of_nat bitvec_wf_def)
  have "0 < (of_nat p :: u32)" using assms(2) p by (metis gr0I unat_0 word_gt_0 less_irrefl)
  then obtain rc al' v' where "bitvec_set_page al v (of_nat p) = Some (rc, al', v')" "bitvec_wf v'"
      "rc = SQLITE_OK \<or> rc = SQLITE_NOMEM"
    using bv.set_law [OF assms(1), of "of_nat p" al] assms p by auto
  then show ?thesis
    by (auto simp: bitvec_set_page_def split: option.splits prod.splits)
qed

lemma btreeSetHasContentD:
  assumes "btreeSetHasContent db p = (rc, db')" "0 < p" "db_ok db"
  shows "bts db' = bts db" "pg db' = pg db" "refs db' = refs db" "pagerAns db' = pagerAns db"
    "inCache db' = inCache db"
    "\<And>v. pHasContent db' = Some v \<Longrightarrow> bitvec_wf v" "rc = SQLITE_OK \<or> rc = SQLITE_NOMEM"
proof -
  have "bts db' = bts db \<and> pg db' = pg db \<and> refs db' = refs db \<and> pagerAns db' = pagerAns db \<and>
    inCache db' = inCache db \<and>
    (\<forall>v. pHasContent db' = Some v \<longrightarrow> bitvec_wf v) \<and> (rc = SQLITE_OK \<or> rc = SQLITE_NOMEM)"
  proof (cases "pHasContent db")
    case None
    obtain v al where c: "sqlite3BitvecCreate (heapAns db) (nPage (bts db)) = (v, al)" by fastforce
    have n: "nPage (bts db) < 2 ^ 32" using assms(3) by (simp add: db_ok_def)
    show ?thesis
      using assms(1) None c BitvecCreate_wf [of "heapAns db" "nPage (bts db)" _ al] n assms(2)
        BitvecSet_wf [of "the v" p al]
      by (cases v) (auto simp: btreeSetHasContent_def sqlite3BitvecSize_def split: if_splits)
  next
    case (Some v)
    then show ?thesis
      using assms(1,2) BitvecSet_wf [of v p "heapAns db"] db_ok_simps(5) [OF assms(3) Some]
      by (auto simp: btreeSetHasContent_def sqlite3BitvecSize_def split: if_splits)
  qed
  then show "bts db' = bts db" "pg db' = pg db" "refs db' = refs db" "pagerAns db' = pagerAns db"
    "inCache db' = inCache db"
    "\<And>v. pHasContent db' = Some v \<Longrightarrow> bitvec_wf v" "rc = SQLITE_OK \<or> rc = SQLITE_NOMEM"
    by blast+
qed

text \<open>
  Reference counting: \<open>r\<close> are the counts on entry, \<open>b\<close> says whether the page to free is held.
\<close>

definition held :: "(pgno \<Rightarrow> nat) \<Rightarrow> pgno \<Rightarrow> bool \<Rightarrow> btree_db \<Rightarrow> bool" where
  "held r p b db \<longleftrightarrow> refs db = (if b then r(p := r p + 1) else r)"

lemma get_if_neededD:
  assumes "get_if_needed db b p = (rc, b', db')" "0 < p" "held r p b db"
  shows "bts db' = bts db" "pHasContent db' = pHasContent db" "set (pagerAns db') \<subseteq> set (pagerAns db)"
    "pg db' = pg db" "held r p b' db'" "rc \<noteq> SQLITE_OK \<Longrightarrow> rc \<in> set (pagerAns db)"
proof -
  obtain rc1 db1 where 1: "btreeGetPage db p False = (rc1, db1)" by fastforce
  show "bts db' = bts db" "pHasContent db' = pHasContent db" "set (pagerAns db') \<subseteq> set (pagerAns db)"
    "pg db' = pg db" "held r p b' db'" "rc \<noteq> SQLITE_OK \<Longrightarrow> rc \<in> set (pagerAns db)"
    using assms 1 btreeGetPageD [OF 1] by (auto simp: get_if_needed_def held_def split: if_splits)
qed

lemma free_zeroD:
  assumes "free_zero db b p = (rc, b', db')" "0 < p" "held r p b db" "length (pg db p) = pageSize (bts db)"
  shows "bts db' = bts db" "pHasContent db' = pHasContent db" "set (pagerAns db') \<subseteq> set (pagerAns db)"
    "rc = SQLITE_OK \<Longrightarrow> \<exists>x. length x = pageSize (bts db) \<and> pg db' = (pg db)(p := x)"
    "held r p b' db'" "rc \<noteq> SQLITE_OK \<Longrightarrow> rc \<in> set (pagerAns db)"
proof -
  obtain rc1 b1 db1 where 1: "get_if_needed db b p = (rc1, b1, db1)" using prod_cases3 by blast
  note d = get_if_neededD [OF 1 assms(2,3)]
  show "bts db' = bts db" "pHasContent db' = pHasContent db" "set (pagerAns db') \<subseteq> set (pagerAns db)"
    "held r p b' db'" "rc \<noteq> SQLITE_OK \<Longrightarrow> rc \<in> set (pagerAns db)"
    using assms 1 d pager_rc_error [of db1] set_tl_mono [OF d(3)]
    by (auto simp: free_zero_def held_def split: if_splits dest: set_tl)
  show "\<exists>x. length x = pageSize (bts db) \<and> pg db' = (pg db)(p := x)" if "rc = SQLITE_OK"
  proof (cases "secureDelete (bts db)")
    case True
    then have "pg db' = (pg db)(p := replicate (pageSize (bts db)) 0)"
      using assms(1) 1 d(1,4) that by (auto simp: free_zero_def split: if_splits)
    then show ?thesis by (metis length_replicate)
  next
    case False
    then have "pg db' = (pg db)(p := pg db p)" using assms(1) by (simp add: free_zero_def)
    then show ?thesis using assms(4) by blast
  qed
qed

lemma free_trunkD:
  assumes "free_trunk db b p t = (rc, b', db')" "1 < p" "held r p b db"
  shows "bts db' = bts db" "pHasContent db' = pHasContent db" "set (pagerAns db') \<subseteq> set (pagerAns db)"
    "rc = SQLITE_OK \<Longrightarrow> pg db' = (pg db)(p := p4 (p4 (pg db p) 0 t) 4 0, 1 := p4 (pg db 1) 32 p)"
    "held r p b' db'" "rc \<noteq> SQLITE_OK \<Longrightarrow> rc \<in> set (pagerAns db)"
proof -
  obtain rc1 b1 db1 where 1: "get_if_needed db b p = (rc1, b1, db1)" using prod_cases3 by blast
  have p: "0 < p" using assms by simp
  note d = get_if_neededD [OF 1 p assms(3)]
  show "bts db' = bts db" "pHasContent db' = pHasContent db" "set (pagerAns db') \<subseteq> set (pagerAns db)"
    "rc = SQLITE_OK \<Longrightarrow> pg db' = (pg db)(p := p4 (p4 (pg db p) 0 t) 4 0, 1 := p4 (pg db 1) 32 p)"
    "held r p b' db'" "rc \<noteq> SQLITE_OK \<Longrightarrow> rc \<in> set (pagerAns db)"
    using assms 1 d pager_rc_error [of db1] set_tl_mono [OF d(3)]
    by (auto simp: free_trunk_def held_def Let_def split: if_splits dest: set_tl)
qed

lemma freelist_add_leaf:
  assumes F: "freelist db ((t, ls) # ts)" and ok: "db_ok db"
    and p: "p \<notin> set (free_pages ((t, ls) # ts))" "2 \<le> p" "p \<le> nPage (bts db)"
    and l: "length ls < usableSize (bts db) div 4 - 8"
    and pg': "pg db' = (pg db)(1 := p4 (pg db 1) 36 (g4 (pg db 1) 36 + 1), p := x,
       t := p4 (p4 (pg db t) 4 (length ls + 1)) (8 + length ls * 4) p)" and bts': "bts db' = bts db"
  shows "freelist db' ((t, ls @ [p]) # ts)"
proof -
  note r = trunk_range [OF F ok]
  note len = db_ok_simps [OF ok]
  have ne: "1 \<noteq> t" "p \<noteq> 1" "p \<noteq> t" using r(1) p by auto
  have tr: "trunks (pg db) (usableSize (bts db)) t ((t, ls) # ts)" using F r by (simp add: freelist_def)
  have P': "pg db' t = p4 (p4 (pg db t) 4 (length ls + 1)) (8 + length ls * 4) p"
      "pg db' 1 = p4 (pg db 1) 36 (g4 (pg db 1) 36 + 1)"
    using ne pg' by simp_all
  have same: "pg db' q = pg db q" if "q \<in> set (map fst ts)" for q
  proof -
    have "p \<notin> set (map fst ts)" using p(1) trunk_in_free [of p ts] by auto
    then have "q \<noteq> 1" "q \<noteq> t" "q \<noteq> p" using that r(4,6) by blast+
    then show ?thesis by (simp add: pg')
  qed
  have sz: "8 + length ls * 4 + 4 \<le> length (pg db t)" "length ls + 1 < 2 ^ 32" "p < 2 ^ 32"
    using l len(1,3,4) ok p(3) by (auto simp: db_ok_def)
  have g: "g4 (pg db' t) 0 = g4 (pg db t) 0" "g4 (pg db' t) 4 = length ls + 1"
      "g4 (pg db' t) (8 + length ls * 4) = p"
    unfolding P'(1) using sz by (simp_all add: g4_p4 g4_p4_other)
  have g': "g4 (pg db' t) (8 + i * 4) = g4 (pg db t) (8 + i * 4)" if "i < length ls" for i
    unfolding P'(1) using that by (simp add: g4_p4_other)
  have "trunks (pg db) (usableSize (bts db)) (g4 (pg db t) 0) ts" using tr by simp
  from this same have "trunks (pg db') (usableSize (bts db)) (g4 (pg db t) 0) ts" by (rule trunks_cong)
  moreover have "\<forall>i < length (ls @ [p]). g4 (pg db' t) (8 + i * 4) = (ls @ [p]) ! i"
    using tr g(3) g' by (simp add: nth_append less_Suc_eq all_conj_distrib)
  ultimately have "trunks (pg db') (usableSize (bts db)) t ((t, ls @ [p]) # ts)"
    using l g(1,2) by simp
  moreover have "g4 (pg db 1) 36 + 1 < 2 ^ 32" using r(9) ok by (simp add: db_ok_def)
  then have "g4 (pg db' 1) 32 = t" "g4 (pg db' 1) 36 = g4 (pg db 1) 36 + 1"
    unfolding P'(2) using len r(7) by (simp_all add: g4_p4 g4_p4_other)
  moreover have "length (free_pages ((t, ls) # ts)) = g4 (pg db 1) 36" "distinct (free_pages ((t, ls) # ts))"
      "set (free_pages ((t, ls) # ts)) \<subseteq> {2..nPage (bts db)}"
    using F by (simp_all add: freelist_def)
  ultimately show ?thesis using p bts' by (simp add: freelist_def)
qed

lemma freelist_add_trunk:
  assumes F: "freelist db ts" and ok: "db_ok db"
    and p: "p \<notin> set (free_pages ts)" "2 \<le> p" "p \<le> nPage (bts db)" and x: "length x = pageSize (bts db)"
    and t: "t = (if g4 (pg db 1) 36 = 0 then 0 else g4 (pg db 1) 32)"
    and pg': "pg db' = (pg db)(1 := p4 (p4 (pg db 1) 36 (g4 (pg db 1) 36 + 1)) 32 p, p := p4 (p4 x 0 t) 4 0)"
    and bts': "bts db' = bts db"
  shows "freelist db' ((p, []) # ts)"
proof -
  note len = db_ok_simps [OF ok]
  have tr: "trunks (pg db) (usableSize (bts db)) t ts" using F t by (simp add: freelist_def)
  have n: "g4 (pg db 1) 36 + 1 < 2 ^ 32" "1 \<notin> set (free_pages ts)"
    using F ok length_free_pages_less [of ts "nPage (bts db)"] by (auto simp: freelist_def db_ok_def)
  have "pg db' q = pg db q" if "q \<in> set (map fst ts)" for q
  proof -
    have "q \<noteq> 1" "q \<noteq> p" using p(1) n(2) trunk_in_free [OF that] by auto
    then show ?thesis by (simp add: pg')
  qed
  with tr have "trunks (pg db') (usableSize (bts db)) t ts" by (rule trunks_cong)
  moreover have "t < 2 ^ 32" "g4 (pg db' p) 0 = t" "g4 (pg db' p) 4 = 0"
    using p x len t by (auto simp: pg' g4_simps)
  moreover have "p < 2 ^ 32" using p(3) ok by (simp add: db_ok_def)
  then have "g4 (pg db' 1) 32 = p" "g4 (pg db' 1) 36 = g4 (pg db 1) 36 + 1"
    using n(1) p(2) len by (auto simp: pg' g4_simps)
  ultimately show ?thesis using F p bts' by (auto simp: freelist_def)
qed

text \<open>What freeing a page promises.\<close>

definition free_post :: "btree_db \<Rightarrow> pgno set \<Rightarrow> pgno \<Rightarrow> btree_db \<Rightarrow> bool" where
  "free_post db F p db' \<longleftrightarrow> free_set db' (insert p F) \<and> bts db' = bts db \<and> refs db' = refs db \<and>
     frame (insert p F) db db'"

text \<open>
  The situation after the count is increased and the page possibly zeroed: \<open>x\<close> is its content.
\<close>

definition counted :: "btree_db \<Rightarrow> pgno \<Rightarrow> bytes \<Rightarrow> btree_db \<Rightarrow> bool" where
  "counted db p x db1 \<longleftrightarrow> bts db1 = bts db \<and> pHasContent db1 = pHasContent db \<and> length x = pageSize (bts db) \<and>
     pg db1 = (pg db)(1 := p4 (pg db 1) 36 (g4 (pg db 1) 36 + 1), p := x)"

text \<open>The outcome of the two ways to enter a page, before the references are dropped.\<close>

definition entered :: "btree_db \<Rightarrow> pgno set \<Rightarrow> pgno \<Rightarrow> btree_db \<Rightarrow> bool" where
  "entered db F p db' \<longleftrightarrow> free_set db' (insert p F) \<and> bts db' = bts db \<and> frame (insert p F) db db'"

lemma counted_free_trunk:
  assumes c: "counted db p x db1" and F: "freelist db ts" and ok: "db_ok db"
    and p: "p \<notin> set (free_pages ts)" "2 \<le> p" "p \<le> nPage (bts db)"
    and t: "t = (if g4 (pg db 1) 36 = 0 then 0 else g4 (pg db 1) 32)"
    and db': "bts db' = bts db1" "pHasContent db' = pHasContent db1"
      "pg db' = (pg db1)(p := p4 (p4 (pg db1 p) 0 t) 4 0, 1 := p4 (pg db1 1) 32 p)"
  shows "entered db (set (free_pages ts)) p db'"
proof -
  have c': "bts db1 = bts db" "pHasContent db1 = pHasContent db" "length x = pageSize (bts db)"
    "pg db1 = (pg db)(1 := p4 (pg db 1) 36 (g4 (pg db 1) 36 + 1), p := x)"
    using c by (auto simp: counted_def)
  have b: "bts db' = bts db" and hc: "pHasContent db' = pHasContent db"
    and pg': "pg db' = (pg db)(1 := p4 (p4 (pg db 1) 36 (g4 (pg db 1) 36 + 1)) 32 p, p := p4 (p4 x 0 t) 4 0)"
    using p(2) db' c' by auto
  have "freelist db' ((p, []) # ts)"
    by (rule freelist_add_trunk [OF F ok p c'(3) t pg' b])
  moreover have "db_ok db'"
    by (rule db_ok_upd [OF ok b]) (auto simp: pg' hc c'(3) db_ok_simps [OF ok])
  moreover have "frame (insert p (set (free_pages ts))) db db'"
    by (rule frameI [where n = "nPage (bts db)"]) (use p in \<open>auto simp: pg' b byte_at_p4_other\<close>)
  ultimately show ?thesis using b by (auto simp: entered_def free_set_def intro!: exI [of _ "(p, []) # ts"])
qed

lemma counted_free_leaf:
  assumes c: "counted db p x db1" and F: "freelist db ((t, ls) # ts)" and ok: "db_ok db"
    and p: "p \<notin> set (free_pages ((t, ls) # ts))" "2 \<le> p" "p \<le> nPage (bts db)"
    and l: "length ls < usableSize (bts db) div 4 - 8"
    and db': "bts db' = bts db1" "\<And>v. pHasContent db' = Some v \<Longrightarrow> bitvec_wf v"
      "pg db' = (pg db1)(t := p4 (p4 (pg db1 t) 4 (length ls + 1)) (8 + length ls * 4) p)"
  shows "entered db (set (free_pages ((t, ls) # ts))) p db'"
proof -
  have c': "bts db1 = bts db" "length x = pageSize (bts db)"
    "pg db1 = (pg db)(1 := p4 (pg db 1) 36 (g4 (pg db 1) 36 + 1), p := x)"
    using c by (auto simp: counted_def)
  have ne: "t \<noteq> 1" "t \<noteq> p" using trunk_range(1) [OF F ok] p(1) by auto
  have b: "bts db' = bts db" and pg': "pg db' = (pg db)(1 := p4 (pg db 1) 36 (g4 (pg db 1) 36 + 1), p := x,
       t := p4 (p4 (pg db t) 4 (length ls + 1)) (8 + length ls * 4) p)"
    using ne db' c' by auto
  have "freelist db' ((t, ls @ [p]) # ts)"
    by (rule freelist_add_leaf [OF F ok p l pg' b])
  moreover have "db_ok db'"
    by (rule db_ok_upd [OF ok b db'(2)]) (auto simp: pg' c'(2) db_ok_simps [OF ok])
  moreover have "frame (insert p (set (free_pages ((t, ls) # ts)))) db db'"
    by (rule frameI [where n = "nPage (bts db)"]) (use p(2) ne in \<open>auto simp: pg' b byte_at_p4_other\<close>)
  ultimately show ?thesis using b
    by (auto simp: entered_def free_set_def intro!: exI [of _ "(t, ls @ [p]) # ts"])
qed

lemma held_release:
  assumes "t \<noteq> p" "held (r(t := r t + 1)) p b db"
  shows "held r p b (releasePage db t)"
  using assms by (auto simp: held_def fun_eq_iff)

lemma free_leaf_post:
  assumes r: "free_leaf db1 b p = (rc, b', db')" and h: "held r0 p b db1"
    and c: "counted db p x db1" and F: "freelist db ((t, ls) # ts)" and ok: "db_ok db"
    and p: "p \<notin> set (free_pages ((t, ls) # ts))" "2 \<le> p" "p \<le> nPage (bts db)"
  shows "rc = SQLITE_OK \<Longrightarrow> entered db (set (free_pages ((t, ls) # ts))) p db'"
    "rc \<noteq> SQLITE_OK \<Longrightarrow> rc \<in> set (pagerAns db1) \<or> rc = SQLITE_NOMEM" "held r0 p b' db'"
proof -
  let ?F = "set (free_pages ((t, ls) # ts))"
  note tr = trunk_range [OF F ok]
  have c1: "bts db1 = bts db" "pg db1 = (pg db)(1 := p4 (pg db 1) 36 (g4 (pg db 1) 36 + 1), p := x)"
    using c by (auto simp: counted_def)
  have ne: "t \<noteq> 1" "t \<noteq> p" using tr(1) p(1) by auto
  have t: "g4 (pg db1 1) 32 = t" "pg db1 t = pg db t" "t \<le> btreePagecount db1"
    using p(2) tr(2,7) c1 ne by (auto simp: g4_p4_other btreePagecount_def)
  have ln: "g4 (pg db1 t) 4 = length ls" "length ls \<le> usableSize (bts db) div 4 - 2"
    using F tr(8) by (auto simp: freelist_def t(2))
  have t': "t = (if g4 (pg db 1) 36 = 0 then 0 else g4 (pg db 1) 32)" using tr(7,8) by simp
  obtain rc2 db2 where 2: "btreeGetPage db1 t False = (rc2, db2)" by fastforce
  note d = btreeGetPageD [OF 2, simplified]
  define db3 where "db3 = set_page (pager_next db2) t (p4 (p4 (pg db t) 4 (length ls + 1)) (8 + length ls * 4) p)"
  obtain rc4 db4 where 4: "btreeSetHasContent db3 p = (rc4, db4)" by fastforce
  obtain rc5 b5 db5 where 5: "free_trunk db2 b p t = (rc5, b5, db5)" using prod_cases3 by blast
  have e: "free_leaf db1 b p =
      (if rc2 \<noteq> SQLITE_OK then (rc2, b, db2)
       else if length ls < usableSize (bts db) div 4 - 8 then
         if pager_rc db2 \<noteq> SQLITE_OK then (pager_rc db2, b, releasePage (pager_next db2) t)
         else (rc4, b, releasePage db4 t)
       else (rc5, b5, releasePage db5 t))"
    using t ln 2 4 5 d(1,6) unfolding free_leaf_def db3_def c1(1) by (simp add: Let_def c1(1))
  have c2: "counted db p x db2" using c d(1,2,6) by (simp add: counted_def)
  have h2: "held (r0(t := r0 t + 1)) p b db2" if "rc2 = SQLITE_OK"
    using h d(7) that ne by (auto simp: held_def fun_eq_iff)
  have p0: "0 < p" "1 < p" using p(2) by auto
  have ok3: "db_ok db3"
    by (rule db_ok_upd [OF ok]) (use c2 in \<open>auto simp: db3_def counted_def db_ok_simps [OF ok]\<close>)
  note d4 = btreeSetHasContentD [OF 4 p0(1) ok3]
  note d5 = free_trunkD [OF 5 p0(2) h2]
  show "rc \<noteq> SQLITE_OK \<Longrightarrow> rc \<in> set (pagerAns db1) \<or> rc = SQLITE_NOMEM"
    using r e d(5,9) d4(7) d5(6) tr(1) pager_rc_error [of db2] by (auto split: if_splits)
  consider "rc2 \<noteq> SQLITE_OK" | (leaf) "rc2 = SQLITE_OK" "length ls < usableSize (bts db) div 4 - 8"
    | (trunk) "rc2 = SQLITE_OK" "\<not> length ls < usableSize (bts db) div 4 - 8" by blast
  then show "held r0 p b' db'"
  proof cases
    case 1
    then show ?thesis using r e h d(7) by (simp add: held_def)
  next
    case leaf
    then have "b' = b \<and> (db' = releasePage (pager_next db2) t \<or> db' = releasePage db4 t)"
      using r e by (auto split: if_splits)
    then show ?thesis
      using held_release [OF ne(2)] h2 [OF leaf(1)] d4(3) by (auto simp: held_def db3_def)
  next
    case trunk
    then show ?thesis using r e held_release [OF ne(2) d5(5)] by simp
  qed
  show "entered db ?F p db'" if "rc = SQLITE_OK"
  proof (cases "length ls < usableSize (bts db) div 4 - 8")
    case True
    then have "db' = releasePage db4 t" using r e that by (auto split: if_splits)
    then have "bts db' = bts db2" "\<And>v. pHasContent db' = Some v \<Longrightarrow> bitvec_wf v"
        "pg db' = (pg db2)(t := p4 (p4 (pg db2 t) 4 (length ls + 1)) (8 + length ls * 4) p)"
      using d4(1,2,6) d(6) t(2) by (auto simp: db3_def)
    then show ?thesis by (rule counted_free_leaf [OF c2 F ok p True])
  next
    case False
    then have s: "rc2 = SQLITE_OK" "rc5 = SQLITE_OK" "db' = releasePage db5 t"
      using r e that by (auto split: if_splits)
    then have "bts db' = bts db2" "pHasContent db' = pHasContent db2"
        "pg db' = (pg db2)(p := p4 (p4 (pg db2 p) 0 t) 4 0, 1 := p4 (pg db2 1) 32 p)"
      using d5(1,2,4) by auto
    then show ?thesis by (rule counted_free_trunk [OF c2 F ok p t'])
  qed
qed

lemma free_list_post:
  assumes r: "free_list db0 b0 p = (rc, b', db')" and ok: "db_ok db" and F: "freelist db ts"
    and p: "p \<notin> set (free_pages ts)" "2 \<le> p" "p \<le> nPage (bts db)"
    and d0: "bts db0 = bts db" "pg db0 = pg db" "pHasContent db0 = pHasContent db" "held r0 p b0 db0"
  shows "rc = SQLITE_OK \<Longrightarrow> entered db (set (free_pages ts)) p db'"
    "rc \<noteq> SQLITE_OK \<Longrightarrow> rc \<in> set (pagerAns db0) \<or> rc = SQLITE_NOMEM" "held r0 p b' db'"
proof -
  have p0: "0 < p" "1 < p" "p \<noteq> 1" using p(2) by auto
  define db1 where "db1 = set_page (pager_next db0) 1 (p4 (pg db 1) 36 (g4 (pg db 1) 36 + 1))"
  have d1: "held r0 p b0 db1" "length (pg db1 p) = pageSize (bts db1)"
      "set (pagerAns db1) \<subseteq> set (pagerAns db0)"
    using d0 p0 by (auto simp: db1_def held_def db_ok_simps [OF ok] dest: set_tl)
  obtain rc2 b2 db2 where 2: "free_zero db1 b0 p = (rc2, b2, db2)" using prod_cases3 by blast
  note d2 = free_zeroD [OF 2 p0(1) d1(1,2)]
  obtain rc3 b3 db3 where 3: "(if g4 (pg db 1) 36 \<noteq> 0 then free_leaf db2 b2 p else free_trunk db2 b2 p 0) = (rc3, b3, db3)"
    using prod_cases3 by blast
  have e: "free_list db0 b0 p = (if pager_rc db0 \<noteq> SQLITE_OK then (pager_rc db0, b0, pager_next db0)
      else if rc2 \<noteq> SQLITE_OK then (rc2, b2, db2) else (rc3, b3, db3))"
    using 2 3 d0(2) by (simp add: free_list_def Let_def db1_def)
  have c2: "\<exists>x. counted db p x db2" if "rc2 = SQLITE_OK"
    using d2(1,2) d2(4) [OF that] d0 by (auto simp: counted_def db1_def)
  have l: "(rc3 = SQLITE_OK \<longrightarrow> entered db (set (free_pages ts)) p db3) \<and>
      (rc3 \<noteq> SQLITE_OK \<longrightarrow> rc3 \<in> set (pagerAns db2) \<or> rc3 = SQLITE_NOMEM) \<and> held r0 p b3 db3"
    if ok2: "rc2 = SQLITE_OK"
  proof -
    obtain x where c: "counted db p x db2" using c2 [OF ok2] by blast
    show ?thesis
    proof (cases ts)
      case Nil
      then have "g4 (pg db 1) 36 = 0" using F by (simp add: freelist_def)
      with 3 have 3: "free_trunk db2 b2 p 0 = (rc3, b3, db3)" by simp
      note d3 = free_trunkD [OF 3 p0(2) d2(5)]
      show ?thesis
        using counted_free_trunk [OF c F ok p _ d3(1,2,4)] \<open>g4 (pg db 1) 36 = 0\<close> d3(5,6) by auto
    next
      case (Cons t ts')
      obtain t ls where ts: "ts = (t, ls) # ts'" using Cons by (cases t) auto
      note F' = F [unfolded ts]
      have 3: "free_leaf db2 b2 p = (rc3, b3, db3)" using 3 trunk_range(8) [OF F' ok] by simp
      show ?thesis
        using free_leaf_post [OF 3 d2(5) c F' ok p(1) [unfolded ts] p(2,3)] ts by blast
    qed
  qed
  show "rc = SQLITE_OK \<Longrightarrow> entered db (set (free_pages ts)) p db'"
    using r e l by (auto split: if_splits)
  show "held r0 p b' db'"
    using r e l d0(4) d2(5) by (auto simp: held_def split: if_splits)
  show "rc \<noteq> SQLITE_OK \<Longrightarrow> rc \<in> set (pagerAns db0) \<or> rc = SQLITE_NOMEM"
    using r e l d1(3) d2(3,6) pager_rc_error [of db0] by (auto split: if_splits)
qed

lemma entered_cong:
  assumes "entered db F p db1" "bts db' = bts db1" "pg db' = pg db1" "pHasContent db' = pHasContent db1"
  shows "entered db F p db'"
  using assms(1) unfolding entered_def free_set_def frame_def freelist_def db_ok_def assms(2-4) .

text \<open>Freeing a page that is not free enters it into the freelist and changes no page in use.\<close>

lemma freePage2_post:
  assumes r: "freePage2 db m p = (rc, db')" and F: "free_set db F" and p: "p \<notin> F" "2 \<le> p" "p \<le> nPage (bts db)"
  shows "rc = SQLITE_OK \<Longrightarrow> free_post db F p db'" "rc \<noteq> SQLITE_OK \<Longrightarrow> rc \<in> set (pagerAns db) \<or> rc = SQLITE_NOMEM"
    "refs db' = refs db"
proof -
  obtain ts where ts: "freelist db ts" "set (free_pages ts) = F" and ok: "db_ok db"
    using F by (auto simp: free_set_def)
  obtain b0 db0 where 0: "(if m then (True, refPage db p) else btreePageLookup db p) = (b0, db0)" by fastforce
  have d0: "bts db0 = bts db" "pg db0 = pg db" "pHasContent db0 = pHasContent db" "held (refs db) p b0 db0"
      "pagerAns db0 = pagerAns db"
    using 0 by (auto simp: held_def btreePageLookup_def split: if_splits)
  obtain rc1 b1 db1 where 1: "free_list db0 b0 p = (rc1, b1, db1)" using prod_cases3 by blast
  have e: "rc = rc1" "db' = (if b1 then releasePage db1 p else db1)"
    using r p 0 1 by (auto simp: freePage2_def)
  note l = free_list_post [OF 1 ok ts(1) _ p(2,3) d0(1-4)]
  show h: "refs db' = refs db" using l(3) p(1) ts(2) e(2) by (auto simp: held_def)
  show "rc \<noteq> SQLITE_OK \<Longrightarrow> rc \<in> set (pagerAns db) \<or> rc = SQLITE_NOMEM"
    using l(2) p(1) ts(2) e(1) d0(5) by auto
  assume "rc = SQLITE_OK"
  then have en: "entered db F p db1" using l(1) p(1) ts(2) e(1) by auto
  have "bts db' = bts db1" "pg db' = pg db1" "pHasContent db' = pHasContent db1" using e(2) by auto
  then have "entered db F p db'" by (rule entered_cong [OF en])
  then show "free_post db F p db'" using h by (simp add: free_post_def entered_def)
qed

section \<open>The allocator as an interface\<close>

datatype page_request = Alloc (nearby: pgno) | Free (page: pgno)

text \<open>
  What the b-tree relies on.  \<open>ok d F\<close>: the free pages of \<open>d\<close> are \<open>F\<close>; \<open>count d\<close> is its size in pages
  and \<open>content d q\<close> the bytes of page \<open>q\<close>.
\<close>

locale page_allocator =
  fixes ok :: "'d \<Rightarrow> pgno set \<Rightarrow> bool" and count :: "'d \<Rightarrow> nat" and content :: "'d \<Rightarrow> pgno \<Rightarrow> bytes"
    and alloc :: "'d \<Rightarrow> pgno \<Rightarrow> rc \<times> pgno \<times> 'd" and free :: "'d \<Rightarrow> pgno \<Rightarrow> rc \<times> 'd"
  assumes range_law: "ok d F \<Longrightarrow> F \<subseteq> {2..count d}"
    and alloc_law: "ok d F \<Longrightarrow> count d < 4294967292 \<Longrightarrow> alloc d near = (SQLITE_OK, p, d') \<Longrightarrow>
      ok d' (F - {p}) \<and> 2 \<le> p \<and>
      (p \<in> F \<and> count d' = count d \<or> F = {} \<and> count d < p \<and> count d' = p \<and> p \<le> count d + 2) \<and>
      (\<forall>q. q \<notin> F \<and> q \<noteq> 1 \<and> q \<noteq> p \<longrightarrow> content d' q = content d q)"
    and free_law: "ok d F \<Longrightarrow> p \<notin> F \<Longrightarrow> 2 \<le> p \<Longrightarrow> p \<le> count d \<Longrightarrow> free d p = (SQLITE_OK, d') \<Longrightarrow>
      ok d' (insert p F) \<and> count d' = count d \<and>
      (\<forall>q. q \<notin> F \<and> q \<noteq> 1 \<and> q \<noteq> p \<longrightarrow> content d' q = content d q)"
begin

text \<open>A client that keeps the set \<open>U\<close> of its pages and frees only those.\<close>

fun run :: "'d \<Rightarrow> pgno set \<Rightarrow> page_request list \<Rightarrow> (pgno set \<times> 'd) option" where
  "run d U [] = Some (U, d)"
| "run d U (Alloc near # rs) =
     (case alloc d near of (rc, p, d') \<Rightarrow> if rc = SQLITE_OK then run d' (insert p U) rs else None)"
| "run d U (Free p # rs) =
     (if p \<in> U then case free d p of (rc, d') \<Rightarrow> if rc = SQLITE_OK then run d' (U - {p}) rs else None else None)"

lemma run_safe:
  assumes "run d U rs = Some (U', d')" "ok d F" "U \<inter> F = {}" "U \<subseteq> {2..count d}"
    "count d + 2 * length rs < 4294967292"
  shows "\<exists>F'. ok d' F' \<and> U' \<inter> F' = {} \<and> U' \<subseteq> {2..count d'} \<and> U \<union> F \<subseteq> U' \<union> F' \<and>
    U' \<union> F' \<subseteq> U \<union> F \<union> {count d<..count d'} \<and> count d \<le> count d' \<and>
    (\<forall>q \<in> U. Free q \<notin> set rs \<longrightarrow> q \<in> U' \<and> content d' q = content d q)"
  using assms
proof (induction d U rs arbitrary: F rule: run.induct)
  case (1 d U)
  then show ?case by auto
next
  case (2 d U near rs)
  obtain p d1 where a: "alloc d near = (SQLITE_OK, p, d1)" and r: "run d1 (insert p U) rs = Some (U', d')"
    using "2.prems"(1) by (auto split: prod.splits if_splits)
  have n: "count d < 4294967292" using "2.prems"(5) by simp
  note A = alloc_law [OF "2.prems"(2) n a]
  have l: "ok d1 (F - {p})" "2 \<le> p" using A by blast+
  have l: "ok d1 (F - {p})" "2 \<le> p" "p \<notin> U" "count d \<le> count d1" "count d1 \<le> count d + 2" "p \<le> count d1"
    "insert p U \<union> (F - {p}) \<subseteq> U \<union> F \<union> {count d<..count d1}"
  proof -
    consider "p \<in> F" "count d1 = count d" | "F = {}" "count d < p" "count d1 = p" "p \<le> count d + 2" using A by blast
    then have "p \<notin> U \<and> count d \<le> count d1 \<and> count d1 \<le> count d + 2 \<and> p \<le> count d1 \<and>
      insert p U \<union> (F - {p}) \<subseteq> U \<union> F \<union> {count d<..count d1}"
    proof cases
      case 1
      then have "p \<le> count d" "p \<notin> U" using range_law [OF "2.prems"(2)] "2.prems"(3) by auto
      with 1 show ?thesis by auto
    next
      case 2
      then have "p \<notin> U" using "2.prems"(4) by auto
      with 2 show ?thesis by auto
    qed
    then show "p \<notin> U" "count d \<le> count d1" "count d1 \<le> count d + 2" "p \<le> count d1"
      "insert p U \<union> (F - {p}) \<subseteq> U \<union> F \<union> {count d<..count d1}" by blast+
  qed (use l in blast)+
  have c: "content d1 q = content d q" if "q \<in> U" for q
  proof -
    have "q \<notin> F" "q \<noteq> 1" "q \<noteq> p" using that "2.prems"(3,4) l(3) by auto
    then show ?thesis using alloc_law [OF "2.prems"(2) _ a] "2.prems"(5) by simp
  qed
  have "\<exists>F'. ok d' F' \<and> U' \<inter> F' = {} \<and> U' \<subseteq> {2..count d'} \<and> insert p U \<union> (F - {p}) \<subseteq> U' \<union> F' \<and>
    U' \<union> F' \<subseteq> insert p U \<union> (F - {p}) \<union> {count d1<..count d'} \<and> count d1 \<le> count d' \<and>
    (\<forall>q \<in> insert p U. Free q \<notin> set rs \<longrightarrow> q \<in> U' \<and> content d' q = content d1 q)"
  proof (rule "2.IH" [OF a [symmetric] refl refl r l(1)])
    show "insert p U \<inter> (F - {p}) = {}" using "2.prems"(3) by blast
    show "insert p U \<subseteq> {2..count d1}" using "2.prems"(4) l(2,4,6) by auto
    show "count d1 + 2 * length rs < 4294967292" using "2.prems"(5) l(5) by simp
  qed
  then obtain F' where F': "ok d' F'" "U' \<inter> F' = {}" "U' \<subseteq> {2..count d'}" "insert p U \<union> (F - {p}) \<subseteq> U' \<union> F'"
    "U' \<union> F' \<subseteq> insert p U \<union> (F - {p}) \<union> {count d1<..count d'}" "count d1 \<le> count d'"
    "\<forall>q \<in> insert p U. Free q \<notin> set rs \<longrightarrow> q \<in> U' \<and> content d' q = content d1 q"
    by blast
  have "U' \<union> F' \<subseteq> U \<union> F \<union> {count d<..count d'}"
  proof -
    have "{count d1<..count d'} \<subseteq> {count d<..count d'}" "{count d<..count d1} \<subseteq> {count d<..count d'}"
      using F'(6) l(4) by auto
    with F'(5) l(7) show ?thesis by blast
  qed
  moreover have "U \<union> F \<subseteq> U' \<union> F'" using F'(4) by blast
  moreover have "count d \<le> count d'" using F'(6) l(4) by simp
  moreover have "\<forall>q \<in> U. Free q \<notin> set (Alloc near # rs) \<longrightarrow> q \<in> U' \<and> content d' q = content d q"
    using F'(7) c by simp
  ultimately show ?case using F'(1-3) by blast
next
  case (3 d U p rs)
  obtain d1 where p: "p \<in> U" and a: "free d p = (SQLITE_OK, d1)" and r: "run d1 (U - {p}) rs = Some (U', d')"
    using "3.prems"(1) by (auto split: prod.splits if_splits)
  have l: "ok d1 (insert p F)" "count d1 = count d"
    using free_law [OF "3.prems"(2) _ _ _ a] p "3.prems"(3,4) by (auto simp: subset_iff disjoint_iff)
  have c: "content d1 q = content d q" if "q \<in> U" "q \<noteq> p" for q
  proof -
    have "q \<notin> F" "q \<noteq> 1" "p \<notin> F" "2 \<le> p" "p \<le> count d" using that p "3.prems"(3,4) by auto
    then show ?thesis using free_law [OF "3.prems"(2) _ _ _ a] that by simp
  qed
  have "\<exists>F'. ok d' F' \<and> U' \<inter> F' = {} \<and> U' \<subseteq> {2..count d'} \<and> (U - {p}) \<union> insert p F \<subseteq> U' \<union> F' \<and>
    U' \<union> F' \<subseteq> (U - {p}) \<union> insert p F \<union> {count d1<..count d'} \<and> count d1 \<le> count d' \<and>
    (\<forall>q \<in> U - {p}. Free q \<notin> set rs \<longrightarrow> q \<in> U' \<and> content d' q = content d1 q)"
  proof (rule "3.IH" [OF p a [symmetric] refl r l(1)])
    show "(U - {p}) \<inter> insert p F = {}" using "3.prems"(3) by blast
    show "U - {p} \<subseteq> {2..count d1}" using "3.prems"(4) l(2) by auto
    show "count d1 + 2 * length rs < 4294967292" using "3.prems"(5) l(2) by simp
  qed
  then obtain F' where F': "ok d' F'" "U' \<inter> F' = {}" "U' \<subseteq> {2..count d'}" "(U - {p}) \<union> insert p F \<subseteq> U' \<union> F'"
    "U' \<union> F' \<subseteq> (U - {p}) \<union> insert p F \<union> {count d<..count d'}" "count d \<le> count d'"
    "\<forall>q \<in> U - {p}. Free q \<notin> set rs \<longrightarrow> q \<in> U' \<and> content d' q = content d1 q"
    unfolding l(2) by blast
  have "(U - {p}) \<union> insert p F = U \<union> F" using p by blast
  moreover have "\<forall>q \<in> U. Free q \<notin> set (Free p # rs) \<longrightarrow> q \<in> U' \<and> content d' q = content d q"
    using F'(7) c by simp
  ultimately show ?case using F'(1-6) by (metis (no_types))
qed

end

lemma free_set_range: "free_set db F \<Longrightarrow> F \<subseteq> {2..nPage (bts db)}"
  by (auto simp: free_set_def freelist_def)

lemma next_pgno_bounds: "nPage (bts db) < next_pgno db" "next_pgno db \<le> nPage (bts db) + 2"
  by (auto simp: next_pgno_def Let_def)

lemma frame_content: "frame S db db' \<Longrightarrow> q \<noteq> 1 \<Longrightarrow> q \<notin> S \<Longrightarrow> pg db' q = pg db q"
  by (auto simp: frame_def)

interpretation fl: page_allocator free_set btreePagecount pg allocateBtreePage "\<lambda>db. freePage2 db m" for m
proof
  fix d F assume "free_set d F"
  then show "F \<subseteq> {2..btreePagecount d}" by (simp add: free_set_range btreePagecount_def)
next
  fix d F near p d' assume F: "free_set d F" and n: "btreePagecount d < 4294967292"
    and a: "allocateBtreePage d near = (SQLITE_OK, p, d')"
  have n': "nPage (bts d) < 2 ^ 32 - 4" using n by (simp add: btreePagecount_def)
  have post: "alloc_post d F p d'" by (rule allocateBtreePage_post(1) [OF a F n' refl])
  have "1 \<le> nPage (bts d)" using F by (simp add: free_set_def db_ok_def)
  then show "free_set d' (F - {p}) \<and> 2 \<le> p \<and>
      (p \<in> F \<and> btreePagecount d' = btreePagecount d \<or>
       F = {} \<and> btreePagecount d < p \<and> btreePagecount d' = p \<and> p \<le> btreePagecount d + 2) \<and>
      (\<forall>q. q \<notin> F \<and> q \<noteq> 1 \<and> q \<noteq> p \<longrightarrow> pg d' q = pg d q)"
    using post free_set_range [OF F] next_pgno_bounds [of d] frame_content [of "insert p F" d d']
    by (auto simp: alloc_post_def btreePagecount_def split: if_splits)
next
  fix d F p d' assume F: "free_set d F" and p: "p \<notin> F" "2 \<le> p" "p \<le> btreePagecount d"
    and f: "freePage2 d m p = (SQLITE_OK, d')"
  have "free_post d F p d'"
    by (rule freePage2_post(1) [OF f F p(1,2) p(3) [unfolded btreePagecount_def] refl])
  then show "free_set d' (insert p F) \<and> btreePagecount d' = btreePagecount d \<and>
      (\<forall>q. q \<notin> F \<and> q \<noteq> 1 \<and> q \<noteq> p \<longrightarrow> pg d' q = pg d q)"
    using frame_content [of "insert p F" d d'] by (auto simp: free_post_def btreePagecount_def)
qed

section \<open>Properties\<close>

text \<open>
  A client of the allocator: it owns the pages \<open>U\<close>, asks for new ones and frees only its own; it stops at
  the first error.
\<close>

fun page_client :: "btree_db \<Rightarrow> pgno set \<Rightarrow> page_request list \<Rightarrow> (pgno set \<times> btree_db) option" where
  "page_client db U [] = Some (U, db)"
| "page_client db U (Alloc near # rs) =
     (case allocateBtreePage db near of (rc, p, db') \<Rightarrow>
        if rc = SQLITE_OK then page_client db' (insert p U) rs else None)"
| "page_client db U (Free p # rs) =
     (if p \<in> U then case freePage2 db False p of (rc, db') \<Rightarrow>
        if rc = SQLITE_OK then page_client db' (U - {p}) rs else None else None)"

lemma page_client_run: "page_client db U rs = fl.run False db U rs"
  by (induction db U rs rule: page_client.induct) (auto split: prod.splits)

text \<open>
  C2: In every sequence of page allocations and frees that succeeds, an allocation never returns a page
  in use, no page is lost (every page in use or free before is in use or free afterwards, and pages
  only appear by extending the file), and the content of a page in use is unchanged unless it is freed.
\<close>

theorem allocator_safe:
  assumes "page_client db U rs = Some (U', db')" "free_set db F" "U \<inter> F = {}"
    "U \<subseteq> {2..btreePagecount db}" "btreePagecount db + 2 * length rs < 4294967292"
  shows "\<exists>F'. free_set db' F' \<and> U' \<inter> F' = {} \<and> U' \<subseteq> {2..btreePagecount db'} \<and> U \<union> F \<subseteq> U' \<union> F' \<and>
    U' \<union> F' \<subseteq> U \<union> F \<union> {btreePagecount db<..btreePagecount db'} \<and>
    (\<forall>q \<in> U. Free q \<notin> set rs \<longrightarrow> q \<in> U' \<and> pg db' q = pg db q)"
proof -
  have "fl.run False db U rs = Some (U', db')" using assms(1) by (simp add: page_client_run)
  from fl.run_safe [OF this assms(2-5)] show ?thesis by blast
qed

text \<open>A database of one page of 512 bytes with an empty freelist.\<close>

definition demo_db :: btree_db where
  "demo_db = \<lparr>bts = \<lparr>pageSize = 512, usableSize = 512, maxLeaf = 477, minLeaf = 39, nPage = 1,
       fastSecure = False, secureDelete = False, cellSizeCk = False\<rparr>,
     pg = (\<lambda>_. replicate 512 0), pHasContent = None, refs = (\<lambda>p. if p = 1 then 1 else 0),
     inCache = (\<lambda>_. False), pagerAns = [], heapAns = []\<rparr>"

lemma demo_fields: "g4 (replicate 512 0) 36 = 0" "g4 (replicate 512 0) 32 = 0"
  by code_simp+

lemma demo_db_free_set: "free_set demo_db {}"
proof -
  have "freelist demo_db []" by (simp add: freelist_def demo_db_def demo_fields)
  then show ?thesis by (auto simp: free_set_def db_ok_def demo_db_def intro!: exI [of _ "[]"])
qed

lemma demo_client: "\<exists>db'. page_client demo_db {} [Alloc 0, Alloc 0, Free 3] = Some ({2}, db')"
  by (simp add: demo_db_def allocateBtreePage_def demo_fields [simplified] btreePagecount_def allocate_extend_def
      pager_rc_def pager_next_def set_page_def PENDING_BYTE_PAGE_def Let_def btreeGetUnusedPage_def
      btreeGetPage_def refPage_def g4_p4_other freePage2_def btreePageLookup_def free_list_def free_zero_def
      free_trunk_def get_if_needed_def)

theorem allocator_safe_witness:
  "\<exists>db' F'. page_client demo_db {} [Alloc 0, Alloc 0, Free 3] = Some ({2}, db') \<and> free_set db' F' \<and>
     2 \<notin> F' \<and> F' \<subseteq> {1<..btreePagecount db'}"
proof -
  obtain db' where r: "page_client demo_db {} [Alloc 0, Alloc 0, Free 3] = Some ({2}, db')"
    using demo_client by blast
  have "btreePagecount demo_db = 1" by (simp add: btreePagecount_def demo_db_def)
  with allocator_safe [OF r demo_db_free_set] show ?thesis using r by auto
qed

text \<open>
  C19: On a well-formed freelist, with a pager that reports no error and free pages nobody holds,
  an allocation always succeeds; it returns a free page if there is one and otherwise the page after
  the last, and the freelist stays well formed.
\<close>

theorem allocate_live:
  assumes "free_set db F" "btreePagecount db < 4294967292" "\<forall>q \<in> insert (next_pgno db) F. refs db q = 0"
    "set (pagerAns db) \<subseteq> {SQLITE_OK}"
  shows "\<exists>p db'. allocateBtreePage db near = (SQLITE_OK, p, db') \<and> (if F = {} then p = next_pgno db else p \<in> F) \<and>
    refs db' p = 1 \<and> free_set db' (F - {p})"
proof -
  obtain rc p db' where a: "allocateBtreePage db near = (rc, p, db')" using prod_cases3 by blast
  have n: "nPage (bts db) < 2 ^ 32 - 4" using assms(2) by (simp add: btreePagecount_def)
  note post = allocateBtreePage_post [OF a assms(1) n]
  have "rc = SQLITE_OK" using post(2) assms(3,4) by (cases "F = {}") (auto simp: held_free_def)
  with a post(1) show ?thesis by (auto simp: alloc_post_def)
qed

lemma demo_next: "next_pgno demo_db = 2"
  by (simp add: next_pgno_def demo_db_def PENDING_BYTE_PAGE_def)

theorem allocate_live_witness:
  "\<exists>p db'. allocateBtreePage demo_db 0 = (SQLITE_OK, p, db') \<and> p = 2 \<and> refs db' p = 1 \<and> free_set db' ({} - {p})"
  using allocate_live [OF demo_db_free_set, of 0]
  by (simp add: demo_next) (simp add: demo_db_def btreePagecount_def)

text \<open>
  Where an allocation failure comes from: the pager reported one, or an allocation of the b-tree layer was
  refused.
\<close>

definition nomem_step :: "btree_db \<Rightarrow> rc \<Rightarrow> btree_db \<Rightarrow> bool" where
  "nomem_step db rc db' \<longleftrightarrow> set (pagerAns db') \<subseteq> set (pagerAns db) \<and> set (heapAns db') \<subseteq> set (heapAns db) \<and>
     (rc = SQLITE_NOMEM \<longrightarrow> SQLITE_NOMEM \<in> set (pagerAns db) \<or> False \<in> set (heapAns db) \<or> heapAns db' = [])"

lemma nomem_refl: "rc \<noteq> SQLITE_NOMEM \<Longrightarrow> pagerAns db' = pagerAns db \<Longrightarrow> heapAns db' = heapAns db \<Longrightarrow> nomem_step db rc db'"
  by (simp add: nomem_step_def)

lemma nomem_trans: "nomem_step db rc db1 \<Longrightarrow> nomem_step db1 rc' db2 \<Longrightarrow> nomem_step db rc' db2"
  by (auto simp: nomem_step_def)

lemma pager_nomem:
  "nomem_step db (pager_rc db) (pager_next db)" "pager_rc db = SQLITE_OK \<Longrightarrow> nomem_step db SQLITE_OK (pager_next db)"
  "nomem_step (pager_next db) rc db' \<Longrightarrow> nomem_step db rc db'"
proof -
  have "set (pagerAns (pager_next db)) \<subseteq> set (pagerAns db)" "heapAns (pager_next db) = heapAns db"
    by (auto simp: pager_next_def dest: set_tl)
  moreover have "pager_rc db \<noteq> SQLITE_OK \<Longrightarrow> pager_rc db \<in> set (pagerAns db)" by (rule pager_rc_error)
  ultimately show "nomem_step db (pager_rc db) (pager_next db)" "pager_rc db = SQLITE_OK \<Longrightarrow> nomem_step db SQLITE_OK (pager_next db)"
    "nomem_step (pager_next db) rc db' \<Longrightarrow> nomem_step db rc db'"
    by (auto simp: nomem_step_def)
qed

lemma answers_upd [simp]:
  "pagerAns (set_page db p d) = pagerAns db" "heapAns (set_page db p d) = heapAns db"
  "pagerAns (refPage db p) = pagerAns db" "heapAns (refPage db p) = heapAns db"
  "pagerAns (releasePage db p) = pagerAns db" "heapAns (releasePage db p) = heapAns db"
  by (simp_all add: set_page_def refPage_def releasePage_def)

lemma nomem_set [simp]:
  "nomem_step (set_page db p d) rc db' = nomem_step db rc db'" "nomem_step (refPage db p) rc db' = nomem_step db rc db'"
  "nomem_step db rc (set_page db' p d) = nomem_step db rc db'" "nomem_step db rc (refPage db' p) = nomem_step db rc db'"
  "nomem_step db rc (releasePage db' p) = nomem_step db rc db'"
  by (simp_all add: nomem_step_def)

lemmas nomem_intros = nomem_refl pager_nomem(1,2) nomem_trans [OF _ pager_nomem(1)] nomem_trans [OF _ pager_nomem(2)]

lemma btreeGetPage_nomem: "btreeGetPage db p nc = (rc, db') \<Longrightarrow> nomem_step db rc db'"
  by (auto simp: btreeGetPage_def Let_def split: if_splits intro: nomem_intros)

lemma get_if_needed_nomem: "get_if_needed db b p = (rc, b', db') \<Longrightarrow> nomem_step db rc db'"
  by (auto simp: get_if_needed_def split: prod.splits if_splits dest!: btreeGetPage_nomem intro: nomem_refl)

lemma free_zero_nomem: "free_zero db b p = (rc, b', db') \<Longrightarrow> nomem_step db rc db'"
  by (auto simp: free_zero_def split: prod.splits if_splits dest!: get_if_needed_nomem intro: nomem_intros)

lemma free_trunk_nomem: "free_trunk db b p t = (rc, b', db') \<Longrightarrow> nomem_step db rc db'"
  by (auto simp: free_trunk_def Let_def split: prod.splits if_splits dest!: get_if_needed_nomem intro: nomem_intros)

lemma BitvecSet_nomem:
  assumes "sqlite3BitvecSet al v i = Some (rc, al', v')"
  shows "heap_use al rc al'"
proof (cases v)
  case None
  then show ?thesis using assms by (simp add: sqlite3BitvecSet_def)
next
  case (Some p)
  then obtain p' where "bitvec_set 9 al p (unat (i - 1)) = Some (rc, al', p')"
    using assms by (auto simp: sqlite3BitvecSet_def split: option.splits)
  then show ?thesis using set_heap_ok_all unfolding set_heap_ok_def by blast
qed

lemma btreeSetHasContent_nomem:
  assumes "btreeSetHasContent db p = (rc, db')"
  shows "nomem_step db rc db'"
proof -
  have use: "nomem_step db rc db'" if "heap_use (heapAns db) rc (heapAns db')" "pagerAns db' = pagerAns db" for db db' :: btree_db and rc
    using that by (auto simp: nomem_step_def heap_use_def)
  define mid where "mid = (if pHasContent db = None then
      case sqlite3BitvecCreate (heapAns db) (nPage (bts db)) of (v, al) \<Rightarrow>
        (if v = None then SQLITE_NOMEM else SQLITE_OK, db\<lparr>pHasContent := v, heapAns := al\<rparr>)
      else (SQLITE_OK, db))"
  obtain rc1 db1 where m: "mid = (rc1, db1)" by (cases mid)
  obtain v al where c: "sqlite3BitvecCreate (heapAns db) (nPage (bts db)) = (v, al)" by fastforce
  have 1: "nomem_step db rc1 db1"
    using m BitvecCreate_heap [of "heapAns db" "nPage (bts db)"] c
    by (cases v) (auto simp: mid_def split: if_splits intro!: use)
  have "(rc, db') = (if rc1 = SQLITE_OK \<and> p \<le> sqlite3BitvecSize (the (pHasContent db1)) then
           case sqlite3BitvecSet (heapAns db1) (pHasContent db1) (of_nat p) of
             None \<Rightarrow> (rc1, db1)
           | Some (rc, al, v) \<Rightarrow> (rc, db1\<lparr>pHasContent := v, heapAns := al\<rparr>)
         else (rc1, db1))"
    using assms m by (simp add: btreeSetHasContent_def mid_def)
  then have "nomem_step db1 rc db' \<or> (rc, db') = (rc1, db1)"
    by (auto split: if_splits option.splits dest!: BitvecSet_nomem intro: use)
  then show ?thesis using 1 nomem_trans by blast
qed

lemma free_leaf_nomem:
  assumes "free_leaf db b p = (rc, b', db')"
  shows "nomem_step db rc db'"
proof -
  let ?t = "g4 (pg db 1) 32"
  obtain rc1 db1 where 1: "btreeGetPage db ?t False = (rc1, db1)" by fastforce
  note n1 = btreeGetPage_nomem [OF 1]
  let ?k = "g4 (pg db1 ?t) 4" and ?u = "usableSize (bts db1)"
  let ?d = "set_page (pager_next db1) ?t (p4 (p4 (pg (pager_next db1) ?t) 4 (?k + 1)) (8 + ?k * 4) p)"
  obtain rc2 db2 where 2: "btreeSetHasContent ?d p = (rc2, db2)" by fastforce
  have n2: "nomem_step db1 rc2 db2" using btreeSetHasContent_nomem [OF 2] pager_nomem(3) by simp
  obtain rc3 b3 db3 where 3: "free_trunk db1 b p ?t = (rc3, b3, db3)" using prod_cases3 by blast
  note n3 = free_trunk_nomem [OF 3]
  have "(rc, db') \<in> {(SQLITE_CORRUPT, db), (rc1, db1), (SQLITE_CORRUPT, releasePage db1 ?t),
      (pager_rc db1, releasePage (pager_next db1) ?t), (rc2, releasePage db2 ?t), (rc3, releasePage db3 ?t)}"
    using assms 1 2 3 by (auto simp: free_leaf_def Let_def split: if_splits)
  moreover have "nomem_step db SQLITE_CORRUPT db1" using n1 by (simp add: nomem_step_def)
  ultimately show ?thesis using n1 nomem_trans [OF n1 n2] nomem_trans [OF n1 n3] nomem_trans [OF n1 pager_nomem(1)]
    by (auto intro: nomem_refl)
qed

lemma free_list_nomem:
  assumes "free_list db b p = (rc, b', db')"
  shows "nomem_step db rc db'"
proof -
  let ?d = "set_page (pager_next db) 1 (p4 (pg (pager_next db) 1) 36 (g4 (pg (pager_next db) 1) 36 + 1))"
  obtain rc1 b1 db1 where 1: "free_zero ?d b p = (rc1, b1, db1)" using prod_cases3 by blast
  have n1: "nomem_step db rc1 db1" using free_zero_nomem [OF 1] pager_nomem(3) by simp
  obtain rc2 b2 db2 where 2: "free_leaf db1 b1 p = (rc2, b2, db2)" using prod_cases3 by blast
  obtain rc3 b3 db3 where 3: "free_trunk db1 b1 p 0 = (rc3, b3, db3)" using prod_cases3 by blast
  have "(rc, db') \<in> {(pager_rc db, pager_next db), (rc1, db1), (rc2, db2), (rc3, db3)}"
    using assms 1 2 3 by (auto simp: free_list_def Let_def split: if_splits)
  then show ?thesis
    using n1 nomem_trans [OF n1 free_leaf_nomem [OF 2]] nomem_trans [OF n1 free_trunk_nomem [OF 3]] pager_nomem(1) by auto
qed

lemma freePage2_nomem:
  assumes "freePage2 db m p = (rc, db')"
  shows "nomem_step db rc db'"
proof (cases "p < 2 \<or> p > nPage (bts db)")
  case True
  then show ?thesis using assms by (auto simp: freePage2_def intro: nomem_refl)
next
  case False
  obtain b0 db0 where 0: "(if m then (True, refPage db p) else btreePageLookup db p) = (b0, db0)" by fastforce
  have d0: "db0 = refPage db p \<or> db0 = db" using 0 by (auto simp: btreePageLookup_def split: if_splits)
  obtain rc1 b1 db1 where 1: "free_list db0 b0 p = (rc1, b1, db1)" using prod_cases3 by blast
  have "nomem_step db rc1 db1" using free_list_nomem [OF 1] d0 by auto
  then show ?thesis using assms False 0 1 by (auto simp: freePage2_def)
qed

text \<open>
  C22: An allocation or a free on a well-formed freelist fails only for a reason from outside.  An allocation:
  an error the pager reported, or SQLITE_CORRUPT when somebody still holds a reference to a page it may
  take, which is a free page, or the page after the end of the file if no page is free.  A free: an error the
  pager reported, or SQLITE_NOMEM when an allocation for the bitmap of freed pages was refused; it leaves every
  reference count as it was.
\<close>

theorem freelist_errors:
  assumes "free_set db F" "btreePagecount db < 4294967292" "p \<notin> F" "2 \<le> p" "p \<le> btreePagecount db"
  shows "(fst (allocateBtreePage db near) = SQLITE_OK \<or> fst (allocateBtreePage db near) \<in> set (pagerAns db) \<or>
      fst (allocateBtreePage db near) = SQLITE_CORRUPT \<and>
        (\<exists>q \<in> (if F = {} then {next_pgno db} else F). refs db q > 0)) \<and>
    (fst (freePage2 db m p) = SQLITE_OK \<or> fst (freePage2 db m p) \<in> set (pagerAns db) \<or>
      fst (freePage2 db m p) = SQLITE_NOMEM \<and> (False \<in> set (heapAns db) \<or> heapAns (snd (freePage2 db m p)) = [])) \<and>
    refs (snd (freePage2 db m p)) = refs db"
proof -
  have n: "nPage (bts db) < 2 ^ 32 - 4" "p \<le> nPage (bts db)" using assms by (simp_all add: btreePagecount_def)
  obtain rc q db1 where a: "allocateBtreePage db near = (rc, q, db1)" by (metis prod_cases3)
  obtain rc2 db2 where f: "freePage2 db m p = (rc2, db2)" by fastforce
  note al = allocateBtreePage_post(2) [OF a assms(1) n(1), unfolded held_free_def]
    and fr = freePage2_post(2,3) [OF f assms(1,3,4) n(2)]
  have "rc2 = SQLITE_NOMEM \<longrightarrow> SQLITE_NOMEM \<in> set (pagerAns db) \<or> False \<in> set (heapAns db) \<or> heapAns db2 = []"
    using freePage2_nomem [OF f] by (simp add: nomem_step_def)
  then have "rc2 = SQLITE_OK \<or> rc2 \<in> set (pagerAns db) \<or> rc2 = SQLITE_NOMEM \<and> (False \<in> set (heapAns db) \<or> heapAns db2 = [])"
    using fr(1) by blast
  then show ?thesis using al fr(2) a f by (cases "rc = SQLITE_OK") auto
qed

text \<open>A database of two pages, the second in use, whose pager fails its second call.\<close>

definition demo_db2 :: btree_db where
  "demo_db2 = demo_db\<lparr>bts := (bts demo_db)\<lparr>nPage := 2\<rparr>, pagerAns := [SQLITE_OK, SQLITE_FULL]\<rparr>"

lemma demo_db2_free_set: "free_set demo_db2 {}"
proof -
  have "freelist demo_db2 []" by (simp add: freelist_def demo_db2_def demo_db_def demo_fields)
  then show ?thesis by (auto simp: free_set_def db_ok_def demo_db2_def demo_db_def intro!: exI [of _ "[]"])
qed

theorem freelist_errors_witness:
  "fst (freePage2 demo_db2 False 2) = SQLITE_OK \<or> fst (freePage2 demo_db2 False 2) \<in> set [SQLITE_OK, SQLITE_FULL] \<or>
   fst (freePage2 demo_db2 False 2) = SQLITE_NOMEM \<and>
     (False \<in> set (heapAns demo_db2) \<or> heapAns (snd (freePage2 demo_db2 False 2)) = [])"
  using freelist_errors [OF demo_db2_free_set, of 2] by (simp add: demo_db2_def demo_db_def btreePagecount_def)

section \<open>Freeing an overflow chain\<close>

lemma sub32_le:
  assumes "b \<le> a" "a < 2 ^ 32"
  shows "sub32 a b = a - b"
proof -
  have "a + 2 ^ 32 - b = (a - b) + 2 ^ 32" using assms(1) by linarith
  moreover have "(a - b) mod 2 ^ 32 = a - b" by (rule mod_less) (use assms(2) in linarith)
  ultimately show ?thesis unfolding sub32_def by (simp only: mod_add_self2)
qed

fun ovfl_chain :: "(pgno \<Rightarrow> bytes) \<Rightarrow> pgno \<Rightarrow> pgno list \<Rightarrow> bool" where
  "ovfl_chain P p [] \<longleftrightarrow> True"
| "ovfl_chain P p (q # qs) \<longleftrightarrow> p = q \<and> ovfl_chain P (g4 (P q) 0) qs"

lemma ovfl_chain_cong:
  "ovfl_chain P p qs \<Longrightarrow> (\<And>q. q \<in> set qs \<Longrightarrow> P' q = P q) \<Longrightarrow> ovfl_chain P' p qs"
  by (induction P p qs rule: ovfl_chain.induct) auto

lemma free_set_upd:
  "bts db' = bts db \<Longrightarrow> pg db' = pg db \<Longrightarrow> pHasContent db' = pHasContent db \<Longrightarrow> free_set db' F = free_set db F"
  by (simp add: free_set_def freelist_def db_ok_def)

lemma frame_trans: "frame S db db1 \<Longrightarrow> frame S' db1 db2 \<Longrightarrow> frame (S \<union> S') db db2"
  by (auto simp: frame_def)

lemma frame_upd: "bts db1 = bts db \<Longrightarrow> pg db1 = pg db \<Longrightarrow> frame S db1 db' = frame S db db'"
  by (simp add: frame_def)

text \<open>One round of the loop: the page is looked at, freed and released.\<close>

lemma clear_chain_step:
  assumes F: "free_set db F" and q: "q \<notin> F" "2 \<le> q" "q \<le> nPage (bts db)" "refs db q = 0"
  shows "(\<exists>db1. free_set db1 (insert q F) \<and> bts db1 = bts db \<and> refs db1 = refs db \<and>
      frame (insert q F) db db1 \<and>
      clear_chain (Suc n) db q = clear_chain n db1 (if n = 0 then 0 else g4 (pg db q) 0)) \<or>
    fst (clear_chain (Suc n) db q) \<noteq> SQLITE_OK"
proof -
  obtain rc1 i db1 where 1: "(if n \<noteq> 0 then getOverflowPage db q else (SQLITE_OK, 0, db)) = (rc1, i, db1)"
    using prod_cases3 by blast
  obtain rc0 db0 where 0: "btreeGetPage db q False = (rc0, db0)" by fastforce
  note d0 = btreeGetPageD [OF 0, simplified]
  obtain b db2 where 2: "(if n \<noteq> 0 then (True, db1) else btreePageLookup db1 q) = (b, db2)" by fastforce
  obtain rc3 db3 where 3: "freePage2 db2 b q = (rc3, db3)" by fastforce
  show ?thesis
  proof (cases "rc1 = SQLITE_OK \<and> rc3 = SQLITE_OK")
    case True
    have i: "i = (if n = 0 then 0 else g4 (pg db q) 0)"
      using 1 0 True d0(6) by (auto simp: getOverflowPage_def split: if_splits)
    have d2: "bts db2 = bts db" "pg db2 = pg db" "pHasContent db2 = pHasContent db" "held (refs db) q b db2"
      using 0 1 2 d0(1,2,6,7) True
      by (auto simp: getOverflowPage_def btreePageLookup_def held_def split: if_splits)
    have F2: "free_set db2 F" using F free_set_upd [OF d2(1-3)] by simp
    have post: "free_post db2 F q db3"
      by (rule freePage2_post(1) [OF 3 F2 q(1,2)]) (use True q(3) d2(1) in simp_all)
    define db4 where "db4 = (if b then releasePage db3 q else db3)"
    have e: "clear_chain (Suc n) db q = clear_chain n db4 i"
      using 1 2 3 q(2-4) True d2(4) by (cases b) (simp_all add: btreePagecount_def held_def db4_def)
    have d4: "bts db4 = bts db3" "pg db4 = pg db3" "pHasContent db4 = pHasContent db3" "refs db4 = refs db"
      using post d2(4) q(4) by (auto simp: db4_def free_post_def held_def fun_eq_iff)
    have "free_set db4 (insert q F)" using post free_set_upd [OF d4(1-3)] by (simp add: free_post_def)
    moreover have "frame (insert q F) db2 db3" using post by (simp add: free_post_def)
    then have "frame (insert q F) db db4" unfolding frame_def d4(1,2) d2(1,2) .
    ultimately show ?thesis using e i d4(1,4) post d2(1) by (auto simp: free_post_def)
  next
    case False
    have "b \<Longrightarrow> refs db2 q = 1" if "rc1 = SQLITE_OK"
      using 0 1 2 d0(7) q(4) that by (auto simp: getOverflowPage_def btreePageLookup_def split: if_splits)
    with 1 2 3 False have "fst (clear_chain (Suc n) db q) \<noteq> SQLITE_OK"
      using q(2,3) by (auto simp: btreePagecount_def)
    then show ?thesis by blast
  qed
qed

lemma clear_chain_frees:
  assumes "clear_chain (length qs) db p = (SQLITE_OK, db')" "ovfl_chain (pg db) p qs" "free_set db F"
    "distinct qs" "set qs \<inter> F = {}" "set qs \<subseteq> {2..nPage (bts db)}" "\<forall>q \<in> set qs. refs db q = 0"
  shows "free_set db' (F \<union> set qs) \<and> bts db' = bts db \<and> refs db' = refs db \<and> frame (F \<union> set qs) db db'"
  using assms
proof (induction qs arbitrary: db p F)
  case Nil
  then show ?case by (auto simp: frame_def intro: exI [of _ "nPage (bts db')"])
next
  case (Cons q qs)
  let ?next = "if length qs = 0 then 0 else g4 (pg db q) 0"
  have p: "p = q" using Cons.prems(2) by simp
  have q: "q \<notin> F" "2 \<le> q" "q \<le> nPage (bts db)" "refs db q = 0" using Cons.prems(5-7) by auto
  obtain db1 where 1: "free_set db1 (insert q F)" "bts db1 = bts db" "refs db1 = refs db"
      "frame (insert q F) db db1" "clear_chain (length qs) db1 ?next = (SQLITE_OK, db')"
    using clear_chain_step [OF Cons.prems(3) q, of "length qs"] Cons.prems(1) p by auto
  have ch: "ovfl_chain (pg db1) ?next qs"
  proof (cases qs)
    case (Cons q' qs')
    have "ovfl_chain (pg db) (g4 (pg db q) 0) qs" using Cons.prems(2) by simp
    then have "ovfl_chain (pg db1) (g4 (pg db q) 0) qs"
    proof (rule ovfl_chain_cong)
      fix r assume "r \<in> set qs"
      then have "r \<noteq> 1" "r \<notin> insert q F" using Cons.prems(4-6) by auto
      then show "pg db1 r = pg db r" using frame_content [OF 1(4)] by blast
    qed
    then show ?thesis using Cons by simp
  qed simp
  have "free_set db' (insert q F \<union> set qs) \<and> bts db' = bts db1 \<and> refs db' = refs db1 \<and>
      frame (insert q F \<union> set qs) db1 db'"
    by (rule Cons.IH [OF 1(5) ch 1(1)]) (use Cons.prems(4-7) 1(2,3) in auto)
  moreover have "frame (F \<union> set (q # qs)) db db'"
    using frame_trans [OF 1(4), of "insert q F \<union> set qs" db'] calculation by (simp add: Un_absorb1 Un_ac)
  ultimately show ?case using 1(2,3) by simp
qed

lemma clearCellOverflow_post:
  assumes "clearCellOverflow db ofst pCell pInfo = (SQLITE_OK, db')" "free_set db F"
    "ovfl_chain (pg db) (g4 pCell (nSize pInfo - 4)) qs" "distinct qs" "set qs \<inter> F = {}"
    "set qs \<subseteq> {2..btreePagecount db}" "\<forall>q \<in> set qs. refs db q = 0" "nLocal pInfo < nPayload pInfo"
    "length qs = (nPayload pInfo - nLocal pInfo + (usableSize (bts db) - 4) - 1) div (usableSize (bts db) - 4)"
    "nPayload pInfo + usableSize (bts db) < 2 ^ 32"
  shows "free_set db' (F \<union> set qs) \<and> refs db' = refs db \<and> (\<forall>q. q \<notin> F \<union> set qs \<union> {1} \<longrightarrow> pg db' q = pg db q)"
proof -
  let ?u = "usableSize (bts db) - 4" and ?d = "nPayload pInfo - nLocal pInfo"
  have "sub32 (nPayload pInfo) (nLocal pInfo) = ?d"
    by (rule sub32_le) (use assms(8,10) in linarith)+
  moreover have "(?d + ?u - 1) mod 2 ^ 32 = ?d + ?u - 1" by (rule mod_less) (use assms(10) in linarith)
  ultimately have "clear_chain (length qs) db (g4 pCell (nSize pInfo - 4)) = (SQLITE_OK, db')"
    using assms(1) unfolding assms(9) by (simp add: clearCellOverflow_def Let_def split: if_splits)
  note c = clear_chain_frees [OF this assms(3,2,4,5) assms(6) [unfolded btreePagecount_def] assms(7)]
  then have "frame (F \<union> set qs) db db'" by blast
  then have "\<forall>q. q \<notin> F \<union> set qs \<union> {1} \<longrightarrow> pg db' q = pg db q" by (simp add: frame_def)
  with c show ?thesis by blast
qed

text \<open>
  C20: Freeing a cell's overflow chain puts exactly the pages of the chain on the freelist: on success
  the free pages are the old ones and the chain, every other page keeps its content and every
  reference count is as before.
\<close>

theorem clearCellOverflow_frees:
  assumes "clearCellOverflow db ofst pCell pInfo = (SQLITE_OK, db')" "free_set db F"
    "ovfl_chain (pg db) (g4 pCell (nSize pInfo - 4)) qs" "distinct qs" "set qs \<inter> F = {}"
    "set qs \<subseteq> {2..btreePagecount db}" "\<forall>q \<in> set qs. refs db q = 0" "nLocal pInfo < nPayload pInfo"
    "length qs = (nPayload pInfo - nLocal pInfo + (usableSize (bts db) - 4) - 1) div (usableSize (bts db) - 4)"
    "nPayload pInfo + usableSize (bts db) < 2 ^ 32"
  shows "free_set db' (F \<union> set qs) \<and> refs db' = refs db \<and> (\<forall>q. q \<notin> F \<union> set qs \<union> {1} \<longrightarrow> pg db' q = pg db q)"
  using assms by (rule clearCellOverflow_post)

text \<open>A cell of 110 bytes whose last four name overflow page 2.\<close>

definition demo_cell :: bytes where
  "demo_cell = replicate 106 0 @ [0, 0, 0, 2]"

definition demo_cell_info :: cell_info where
  "demo_cell_info = \<lparr>pPayload = 6, nPayload = 300, nLocal = 100, nSize = 110, pKey = 2, nKeyLen = 4\<rparr>"

lemma demo_cell_ovfl: "g4 demo_cell 106 = 2"
  by code_simp

lemma demo_chain: "fst (clear_chain (Suc 0) (demo_db2\<lparr>pagerAns := []\<rparr>) 2) = SQLITE_OK"
  by (simp add: demo_db2_def demo_db_def
      btreePagecount_def btreePageLookup_def freePage2_def free_list_def free_zero_def free_trunk_def
      get_if_needed_def btreeGetPage_def pager_rc_def pager_next_def set_page_def refPage_def
      demo_fields [simplified])

lemma demo_clear: "fst (clearCellOverflow (demo_db2\<lparr>pagerAns := []\<rparr>) 0 demo_cell demo_cell_info) = SQLITE_OK"
proof -
  have sz: "pageSize (bts (demo_db2\<lparr>pagerAns := []\<rparr>)) = 512" "usableSize (bts (demo_db2\<lparr>pagerAns := []\<rparr>)) = 512"
    by (simp_all add: demo_db2_def demo_db_def)
  have "clearCellOverflow (demo_db2\<lparr>pagerAns := []\<rparr>) 0 demo_cell demo_cell_info =
      clear_chain (Suc 0) (demo_db2\<lparr>pagerAns := []\<rparr>) 2"
    unfolding clearCellOverflow_def Let_def sz
    by (simp add: demo_cell_info_def sub32_le demo_cell_ovfl del: clear_chain.simps)
  then show ?thesis using demo_chain by simp
qed

theorem clearCellOverflow_frees_witness:
  "\<exists>db'. clearCellOverflow (demo_db2\<lparr>pagerAns := []\<rparr>) 0 demo_cell demo_cell_info = (SQLITE_OK, db') \<and>
     free_set db' ({} \<union> set [2]) \<and> refs db' = refs demo_db2"
proof -
  obtain db' where r: "clearCellOverflow (demo_db2\<lparr>pagerAns := []\<rparr>) 0 demo_cell demo_cell_info = (SQLITE_OK, db')"
    using demo_clear by (metis prod.collapse)
  have F: "free_set (demo_db2\<lparr>pagerAns := []\<rparr>) {}" 
    using demo_db2_free_set free_set_upd [of "demo_db2\<lparr>pagerAns := []\<rparr>" demo_db2] by simp
  have "free_set db' ({} \<union> set [2]) \<and> refs db' = refs (demo_db2\<lparr>pagerAns := []\<rparr>) \<and>
      (\<forall>q. q \<notin> {} \<union> set [2] \<union> {1} \<longrightarrow> pg db' q = pg (demo_db2\<lparr>pagerAns := []\<rparr>) q)"
    by (rule clearCellOverflow_frees [OF r F])
      (simp_all add: demo_cell_info_def demo_cell_ovfl demo_db2_def demo_db_def btreePagecount_def)
  with r show ?thesis by simp
qed

end
