(* ===== verification/Payload.thy ===== *)
theory Payload
  imports Freelist
begin

text \<open>
  Values on a leaf and its overflow pages (\<open>src/src/btree.c\<close>): building a cell (\<open>fillInCell\<close>), and
  reading and overwriting the value under a cursor (\<open>accessPayload\<close> and the KV accessors).

  The build defines \<open>SQLITE_DIRECT_OVERFLOW_READ\<close>: an overflow page may be read straight from the
  database file.  Whether the pager allows it (\<open>sqlite3PagerDirectReadOk\<close>) and what the read returns
  are parameters.
\<close>

section \<open>Building a cell\<close>

text \<open>A place to write to: the buffer of the cell, or a page.\<close>

datatype loc = InCell nat | InPage pgno nat

fun store_at :: "bytes \<Rightarrow> btree_db \<Rightarrow> loc \<Rightarrow> bytes \<Rightarrow> bytes \<times> btree_db" where
  "store_at cell db (InCell i) bs = (blit cell i bs, db)"
| "store_at cell db (InPage p i) bs = (cell, set_page db p (blit (pg db p) i bs))"

fun loc_add :: "loc \<Rightarrow> nat \<Rightarrow> loc" where
  "loc_add (InCell i) n = InCell (i + n)"
| "loc_add (InPage p i) n = InPage p (i + n)"

lemma store_at_bts: "(c, d) = store_at cell db l bs \<Longrightarrow> bts d = bts db"
  by (cases l) auto

definition release_opt :: "btree_db \<Rightarrow> pgno option \<Rightarrow> btree_db" where
  "release_opt db p = (case p of None \<Rightarrow> db | Some p \<Rightarrow> releasePage db p)"

text \<open>
  The loop that writes the value into the cell and the overflow pages.  \<open>lockBtree\<close> refuses a
  database with fewer than 480 usable bytes, so the branch for at most four is never taken.
\<close>

function fill_loop :: "bytes \<Rightarrow> nat \<Rightarrow> nat \<Rightarrow> loc \<Rightarrow> loc \<Rightarrow> pgno option \<Rightarrow> pgno \<Rightarrow> bytes \<Rightarrow> btree_db \<Rightarrow>
    rc \<times> bytes \<times> btree_db" where
  "fill_loop pSrc nPay spaceLeft pDst pPrior pToRelease pgnoOvfl pCell db =
     (let n = (if nPay > spaceLeft then spaceLeft else nPay);
          chunk = (if length pSrc \<ge> n then take n pSrc else if pSrc \<noteq> [] then pSrc else replicate n 0);
          n = length chunk;
          (pCell, db) = store_at pCell db pDst chunk;
          nPay = nPay - n
      in if nPay = 0 then (SQLITE_OK, pCell, release_opt db pToRelease)
         else
           let pDst = loc_add pDst n; pSrc = drop n pSrc; spaceLeft = spaceLeft - n in
           if spaceLeft = 0 then
             case allocateBtreePage db pgnoOvfl of (rc, pgnoOvfl, db) \<Rightarrow>
               if rc \<noteq> SQLITE_OK then (rc, pCell, release_opt db pToRelease)
               else if usableSize (bts db) \<le> 4 then (SQLITE_CORRUPT, pCell, db)
               else
                 let (pCell, db) = store_at pCell db pPrior (sqlite3Put4byte (of_nat pgnoOvfl));
                     db = release_opt db pToRelease;
                     db = set_page db pgnoOvfl (p4 (pg db pgnoOvfl) 0 0)
                 in fill_loop pSrc nPay (usableSize (bts db) - 4) (InPage pgnoOvfl 4) (InPage pgnoOvfl 0)
                      (Some pgnoOvfl) pgnoOvfl pCell db
           else fill_loop pSrc nPay spaceLeft pDst pPrior pToRelease pgnoOvfl pCell db)"
  by pat_completeness auto
termination
proof (relation "measures [\<lambda>(pSrc, nPay, spaceLeft, _). nPay, \<lambda>(pSrc, nPay, spaceLeft, _). if spaceLeft = 0 then 1 else 0]",
    goal_cases)
  case 1
  show ?case by simp
qed (auto simp: release_opt_def split: option.splits if_splits dest!: store_at_bts)

declare fill_loop.simps [simp del]

text \<open>
  \<open>pData\<close> followed by \<open>nZero\<close> zero bytes is the value; the result is the code, the cell, its size
  and the database.
\<close>

definition fillInCell ::
    "btree_db \<Rightarrow> mempage \<Rightarrow> bytes \<Rightarrow> bytes \<Rightarrow> bytes \<Rightarrow> nat \<Rightarrow> rc \<times> bytes \<times> nat \<times> btree_db" where
  "fillInCell db pPage pCell key pData nZero =
     (let nHeader = childPtrSize pPage;
          nPay = length pData + nZero;
          v = putVarint32 (of_nat nPay);
          pCell = blit pCell nHeader v; nHeader = nHeader + length v;
          v = putVarint32 (of_nat (length key));
          pCell = blit pCell nHeader v; nHeader = nHeader + length v;
          pCell = blit pCell nHeader key; nHeader = nHeader + length key
      in if nPay \<le> maxLocal pPage then
           let n = nHeader + nPay;
               pCell = (if n < 4 then blit pCell (nHeader + nPay) [0] else pCell);
               n = (if n < 4 then 4 else n);
               pCell = blit pCell nHeader pData;
               pCell = blit pCell (nHeader + length pData) (replicate nZero 0)
           in (SQLITE_OK, pCell, n, db)
         else
           let mn = minLocal pPage;
               n = mn + (nPay - mn) mod (usableSize (bts db) - 4);
               n = (if n > maxLocal pPage then mn else n)
           in case fill_loop pData nPay n (InCell nHeader) (InCell (nHeader + n)) None 0 pCell db of
                (rc, pCell, db) \<Rightarrow> (rc, pCell, n + nHeader + 4, db))"

section \<open>Cursors\<close>

datatype cursor_state = CURSOR_VALID | CURSOR_INVALID | CURSOR_SKIPNEXT | CURSOR_REQUIRESEEK | CURSOR_FAULT

text \<open>
  The fields of \<open>BtCursor\<close>; the bits \<open>BTCF_ValidNKey\<close>, \<open>BTCF_ValidOvfl\<close>, \<open>BTCF_AtLast\<close>, \<open>BTCF_Multiple\<close>,
  \<open>BTCF_WriteFlag\<close> and \<open>BTCF_Pinned\<close> of \<open>curFlags\<close> are fields.  \<open>apPage\<close> and \<open>aiIdx\<close> are the arrays of
  \<open>BTCURSOR_MAX_DEPTH - 1\<close> pages above the current one and of the positions in them, the root first, of which
  the first \<open>iPage\<close> entries are in use; \<open>iPage\<close> is \<open>-1\<close> when the cursor holds no page.  The field
  \<open>pPage\<close> is called \<open>pCurPage\<close>, the saved key \<open>(pKey, nKey)\<close> \<open>savedKey\<close>.  The error code that
  \<open>skipNext\<close> holds in state \<open>CURSOR_FAULT\<close> is the field \<open>faultCode\<close>.
\<close>

record bt_cursor =
  eState :: cursor_state
  skipNext :: int
  aOverflow :: "pgno list"
  info :: cell_info
  validNKey :: bool
  validOvfl :: bool
  atLast :: bool
  pgnoRoot :: pgno
  iPage :: int
  ix :: nat
  aiIdx :: "nat list"
  pCurPage :: mempage
  apPage :: "mempage list"
  curIntKey :: bool
  savedKey :: "bytes option"
  multiple :: bool
  writeFlag :: bool
  pinned :: bool
  faultCode :: rc

text \<open>The data of a page belongs to the pager: the page object under the cursor sees its current content.\<close>

definition cur_page :: "btree_db \<Rightarrow> bt_cursor \<Rightarrow> mempage" where
  "cur_page db cur = (pCurPage cur)\<lparr>aData := pg db (mpgno (pCurPage cur))\<rparr>"

definition getCellInfo :: "btree_db \<Rightarrow> bt_cursor \<Rightarrow> bt_cursor" where
  "getCellInfo db cur =
     (if nSize (info cur) = 0
      then cur\<lparr>validNKey := True, info := btreeParseCell (bts db) (cur_page db cur) (ix cur)\<rparr> else cur)"

section \<open>Reading and overwriting a value\<close>

text \<open>Copying between page \<open>p\<close> and a buffer, from position \<open>iBuf\<close> of the buffer on.\<close>

definition copyPayload :: "btree_db \<Rightarrow> pgno \<Rightarrow> nat \<Rightarrow> bytes \<Rightarrow> nat \<Rightarrow> nat \<Rightarrow> bool \<Rightarrow> rc \<times> bytes \<times> btree_db" where
  "copyPayload db p ofst pBuf iBuf nByte eOp =
     (if eOp then
        case pager_call db of (rc, db) \<Rightarrow>
          if rc \<noteq> SQLITE_OK then (rc, pBuf, db)
          else (SQLITE_OK, pBuf, set_page db p (blit (pg db p) ofst (subbytes pBuf iBuf nByte)))
      else (SQLITE_OK, blit pBuf iBuf (subbytes (pg db p) ofst nByte), db))"

text \<open>The next page of a chain, when the page itself is not wanted.\<close>

definition nextOverflow :: "btree_db \<Rightarrow> pgno \<Rightarrow> rc \<times> pgno \<times> btree_db" where
  "nextOverflow db ovfl =
     (case getOverflowPage db ovfl of (rc, next, db) \<Rightarrow> (rc, next, if rc = SQLITE_OK then releasePage db ovfl else db))"

text \<open>
  Data from one overflow page: directly from the file over the four bytes before the position in
  the buffer, which are saved and restored, or through the pager.
\<close>

definition direct_read :: "(pgno \<Rightarrow> nat \<Rightarrow> rc \<times> bytes) \<Rightarrow> pgno \<Rightarrow> nat \<Rightarrow> nat \<Rightarrow> bytes \<Rightarrow> rc \<times> pgno \<times> bytes" where
  "direct_read osRead p a iBuf pBuf =
     (let aSave = subbytes pBuf (iBuf - 4) 4;
          (rc, bs) = osRead p (a + 4);
          pBuf = blit pBuf (iBuf - 4) bs;
          next = g4 pBuf (iBuf - 4);
          pBuf = blit pBuf (iBuf - 4) aSave
      in (rc, next, pBuf))"

definition page_access :: "btree_db \<Rightarrow> bool \<Rightarrow> pgno \<Rightarrow> nat \<Rightarrow> nat \<Rightarrow> nat \<Rightarrow> bytes \<Rightarrow> rc \<times> pgno \<times> bytes \<times> btree_db" where
  "page_access db eOp p offset a iBuf pBuf =
     (case btreeGetPage db p False of (rc, db) \<Rightarrow>
        if rc \<noteq> SQLITE_OK then (rc, p, pBuf, db)
        else if eOp \<and> refs db p \<noteq> 1 then (SQLITE_CORRUPT, p, pBuf, releasePage db p)
        else
          let next = g4 (pg db p) 0
          in case copyPayload db p (offset + 4) pBuf iBuf a eOp of (rc, pBuf, db) \<Rightarrow>
               (rc, next, pBuf, releasePage db p))"

text \<open>
  The loop over the overflow pages; \<open>amt\<close> bytes are wanted from \<open>offset\<close> on, counted from the start
  of page number \<open>iIdx\<close> of the chain.
\<close>

function access_loop :: "(pgno \<Rightarrow> bool) \<Rightarrow> (pgno \<Rightarrow> nat \<Rightarrow> rc \<times> bytes) \<Rightarrow> nat \<Rightarrow> bool \<Rightarrow> btree_db \<Rightarrow> bt_cursor \<Rightarrow>
    nat \<Rightarrow> pgno \<Rightarrow> nat \<Rightarrow> nat \<Rightarrow> nat \<Rightarrow> bytes \<Rightarrow> rc \<times> bytes \<times> bt_cursor \<times> btree_db" where
  "access_loop directOk osRead ovflSize eOp db cur iIdx nextPage offset amt iBuf pBuf =
     (if nextPage = 0 \<or> amt = 0 \<or> ovflSize = 0 then (if amt > 0 then SQLITE_CORRUPT else SQLITE_OK, pBuf, cur, db)
      else if nextPage > nPage (bts db) then (SQLITE_CORRUPT, pBuf, cur, db)
      else
        let cur = cur\<lparr>aOverflow := (aOverflow cur)[iIdx := nextPage]\<rparr> in
        if offset \<ge> ovflSize then
          case (if aOverflow cur ! (iIdx + 1) \<noteq> 0 then (SQLITE_OK, aOverflow cur ! (iIdx + 1), db)
                else nextOverflow db nextPage) of (rc, nextPage, db) \<Rightarrow>
            if rc \<noteq> SQLITE_OK then (rc, pBuf, cur, db)
            else access_loop directOk osRead ovflSize eOp db cur (iIdx + 1) nextPage (offset - ovflSize) amt iBuf pBuf
        else
          let a = (if amt + offset > ovflSize then ovflSize - offset else amt)
          in case (if \<not> eOp \<and> offset = 0 \<and> directOk nextPage \<and> iBuf \<ge> 4 then
                     case direct_read osRead nextPage a iBuf pBuf of (rc, next, pBuf) \<Rightarrow> (rc, next, pBuf, db)
                   else page_access db eOp nextPage offset a iBuf pBuf) of (rc, nextPage, pBuf, db) \<Rightarrow>
               if amt - a = 0 then (rc, pBuf, cur, db)
               else if rc \<noteq> SQLITE_OK then (rc, pBuf, cur, db)
               else access_loop directOk osRead ovflSize eOp db cur (iIdx + 1) nextPage 0 (amt - a) (iBuf + a) pBuf)"
  by pat_completeness auto
termination
  by (relation "measure (\<lambda>(_, _, _, _, _, _, _, _, offset, amt, _). offset + amt)") (auto split: if_splits)

declare access_loop.simps [simp del]

text \<open>
  Preparing the cache \<open>aOverflow\<close>.  \<open>junk\<close> is what the memory that \<open>sqlite3Realloc\<close> adds contains;
  the result is \<open>None\<close> when the allocation fails.
\<close>

definition overflow_cache :: "pgno \<Rightarrow> btree_db \<Rightarrow> bt_cursor \<Rightarrow> nat \<Rightarrow> (bt_cursor \<times> btree_db) option" where
  "overflow_cache junk db cur nOvfl =
     (let (ok, db, a) =
        (if aOverflow cur = [] \<or> nOvfl > length (aOverflow cur) then
           case next_alloc (heapAns db) of (ok, al) \<Rightarrow>
             (ok, db\<lparr>heapAns := al\<rparr>, aOverflow cur @ replicate (2 * nOvfl - length (aOverflow cur)) junk)
         else (True, db, aOverflow cur))
      in if ok then Some (cur\<lparr>validOvfl := True, aOverflow := replicate nOvfl 0 @ drop nOvfl a\<rparr>, db) else None)"

text \<open>The part of the access after the local bytes.\<close>

definition access_overflow ::
    "(pgno \<Rightarrow> bool) \<Rightarrow> (pgno \<Rightarrow> nat \<Rightarrow> rc \<times> bytes) \<Rightarrow> pgno \<Rightarrow> btree_db \<Rightarrow> bt_cursor \<Rightarrow> pgno \<Rightarrow> nat \<Rightarrow> nat \<Rightarrow> nat \<Rightarrow> bytes \<Rightarrow>
     bool \<Rightarrow> rc \<times> bytes \<times> bt_cursor \<times> btree_db" where
  "access_overflow directOk osRead junk db cur nextPage offset amt a pBuf eOp =
     (let ovflSize = usableSize (bts db) - 4 in
      if \<not> validOvfl cur then
        case overflow_cache junk db cur ((nPayload (info cur) - nLocal (info cur) + ovflSize - 1) div ovflSize) of
          None \<Rightarrow> (SQLITE_NOMEM, pBuf, cur, db)
        | Some (cur, db) \<Rightarrow> access_loop directOk osRead ovflSize eOp db cur 0 nextPage offset amt a pBuf
      else
        let iIdx = offset div ovflSize in
        if aOverflow cur ! iIdx \<noteq> 0 then
          access_loop directOk osRead ovflSize eOp db cur iIdx (aOverflow cur ! iIdx) (offset mod ovflSize) amt a pBuf
        else access_loop directOk osRead ovflSize eOp db cur 0 nextPage offset amt a pBuf)"

definition accessPayload ::
    "(pgno \<Rightarrow> bool) \<Rightarrow> (pgno \<Rightarrow> nat \<Rightarrow> rc \<times> bytes) \<Rightarrow> pgno \<Rightarrow> btree_db \<Rightarrow> bt_cursor \<Rightarrow> nat \<Rightarrow> nat \<Rightarrow> bytes \<Rightarrow> bool \<Rightarrow>
     rc \<times> bytes \<times> bt_cursor \<times> btree_db" where
  "accessPayload directOk osRead junk db cur offset amt pBuf eOp =
     (if ix cur \<ge> nCell (pCurPage cur) then (SQLITE_CORRUPT, pBuf, cur, db)
      else
        let cur = getCellInfo db cur; p = mpgno (pCurPage cur); nl = nLocal (info cur);
            aPayload = findCell_ofst (cur_page db cur) (ix cur) + pPayload (info cur)
        in if aPayload > sub32 (usableSize (bts db)) nl then (SQLITE_CORRUPT, pBuf, cur, db)
           else
             let a = (if offset < nl then if amt + offset > nl then nl - offset else amt else 0)
             in case (if offset < nl then copyPayload db p (aPayload + offset) pBuf 0 a eOp
                      else (SQLITE_OK, pBuf, db)) of (rc, pBuf, db) \<Rightarrow>
               let offset = (if offset < nl then 0 else offset - nl); amt = amt - a in
               if rc \<noteq> SQLITE_OK \<or> amt = 0 then (rc, pBuf, cur, db)
               else access_overflow directOk osRead junk db cur (g4 (pg db p) (aPayload + nl)) offset amt a pBuf eOp)"

section \<open>The accessors\<close>

definition sqlite3BtreeKvKey :: "btree_db \<Rightarrow> bt_cursor \<Rightarrow> bytes \<times> bt_cursor" where
  "sqlite3BtreeKvKey db cur =
     (let cur = getCellInfo db cur; page = cur_page db cur
      in (info_key (info cur) (findCell page (ix cur)), cur))"

definition sqlite3BtreeKvValueSize :: "btree_db \<Rightarrow> bt_cursor \<Rightarrow> nat \<times> bt_cursor" where
  "sqlite3BtreeKvValueSize db cur = (let cur = getCellInfo db cur in (nPayload (info cur), cur))"

definition sqlite3BtreeKvValueRead ::
    "(pgno \<Rightarrow> bool) \<Rightarrow> (pgno \<Rightarrow> nat \<Rightarrow> rc \<times> bytes) \<Rightarrow> pgno \<Rightarrow> btree_db \<Rightarrow> bt_cursor \<Rightarrow> nat \<Rightarrow> nat \<Rightarrow> bytes \<Rightarrow>
     rc \<times> bytes \<times> bt_cursor \<times> btree_db" where
  "sqlite3BtreeKvValueRead directOk osRead junk db cur offset amt pBuf =
     (let cur = getCellInfo db cur
      in if offset + amt > nPayload (info cur) then (SQLITE_ERROR, pBuf, cur, db)
         else accessPayload directOk osRead junk db cur offset amt pBuf False)"

definition sqlite3BtreeKvValueFetch :: "btree_db \<Rightarrow> bt_cursor \<Rightarrow> bytes \<times> bt_cursor" where
  "sqlite3BtreeKvValueFetch db cur =
     (let cur = getCellInfo db cur
      in (subbytes (findCell (cur_page db cur) (ix cur)) (pPayload (info cur)) (nLocal (info cur)), cur))"

section \<open>Writing a value\<close>

lemma blit_append: "blit (blit xs i a) (i + length a) b = blit xs i (a @ b)"
  by (rule nth_equalityI) (auto simp: nth_blit nth_append)

lemma store_at_append:
  "store_at cell db l a = (cell1, db1) \<Longrightarrow>
   store_at cell1 db1 (loc_add l (length a)) b = store_at cell db l (a @ b)"
  by (cases l) (auto simp: blit_append set_page_def)

text \<open>The value written: the source bytes, then zeros.\<close>

definition padded :: "bytes \<Rightarrow> nat \<Rightarrow> bytes" where
  "padded src n = take n src @ replicate (n - length src) 0"

lemma length_padded [simp]: "length (padded src n) = n"
  by (simp add: padded_def)

lemma padded_Nil [simp]: "padded [] n = replicate n 0"
  by (simp add: padded_def)

lemma nth_padded: "i < n \<Longrightarrow> padded src n ! i = (if i < length src then src ! i else 0)"
  by (auto simp: padded_def nth_append)

lemma take_padded: "k \<le> n \<Longrightarrow> take k (padded src n) = padded src k"
  by (auto simp: padded_def min_def)

lemma drop_padded: "k \<le> n \<Longrightarrow> drop k (padded src n) = padded (drop k src) (n - k)"
  by (rule nth_equalityI) (auto simp: nth_padded)

lemma padded_short: "length src \<le> n \<Longrightarrow> padded src n = src @ replicate (n - length src) 0"
  by (simp add: padded_def)

text \<open>
  One stretch of the loop fills the space at hand, in one or two rounds, and then either ends or goes
  on with a new page.
\<close>

definition fill_next :: "bytes \<Rightarrow> nat \<Rightarrow> loc \<Rightarrow> pgno option \<Rightarrow> pgno \<Rightarrow> bytes \<times> btree_db \<Rightarrow> rc \<times> bytes \<times> btree_db" where
  "fill_next src n pPrior rel g = (\<lambda>(cell, db).
     case allocateBtreePage db g of (rc, p, db) \<Rightarrow>
       if rc \<noteq> SQLITE_OK then (rc, cell, release_opt db rel)
       else if usableSize (bts db) \<le> 4 then (SQLITE_CORRUPT, cell, db)
       else
         let (cell, db) = store_at cell db pPrior (sqlite3Put4byte (of_nat p));
             db = release_opt db rel;
             db = set_page db p (p4 (pg db p) 0 0)
         in fill_loop src n (usableSize (bts db) - 4) (InPage p 4) (InPage p 0) (Some p) p cell db)"

lemma fill_one:
  assumes "0 < sp" "0 < n" "src = [] \<or> min n sp \<le> length src"
  shows "fill_loop src n sp l pPrior rel g cell db =
    (let (cell, db) = store_at cell db l (padded src (min n sp))
     in if n \<le> sp then (SQLITE_OK, cell, release_opt db rel) else fill_next (drop sp src) (n - sp) pPrior rel g (cell, db))"
proof -
  have m: "(if n > sp then sp else n) = min n sp" by simp
  have c: "(if length src \<ge> min n sp then take (min n sp) src else if src \<noteq> [] then src else replicate (min n sp) 0) =
      padded src (min n sp)"
    using assms by (auto simp: padded_def)
  obtain c1 d1 where s: "store_at cell db l (padded src (min n sp)) = (c1, d1)" by fastforce
  have "n \<le> sp \<or> (\<not> n \<le> sp \<and> min n sp = sp \<and> n - sp \<noteq> 0)" by auto
  then show ?thesis
    by (subst fill_loop.simps) (auto simp only: m c Let_def s prod.case length_padded fill_next_def, auto)
qed

lemma fill_seg:
  assumes "0 < sp" "0 < n"
  shows "fill_loop src n sp l pPrior rel g cell db =
    (let (cell, db) = store_at cell db l (padded src (min n sp))
     in if n \<le> sp then (SQLITE_OK, cell, release_opt db rel) else fill_next (drop sp src) (n - sp) pPrior rel g (cell, db))"
proof (cases "src = [] \<or> min n sp \<le> length src")
  case True
  then show ?thesis by (rule fill_one [OF assms])
next
  case False
  let ?k = "length src"
  have k: "0 < ?k" "?k < n" "?k < sp" "src \<noteq> []" using False by auto
  obtain c1 d1 where s: "store_at cell db l src = (c1, d1)" by fastforce
  have p: "padded src (min n sp) = src @ padded [] (min (n - ?k) (sp - ?k))"
    using k by (simp add: padded_short min_def)
  have "fill_loop src n sp l pPrior rel g cell db =
      fill_loop [] (n - ?k) (sp - ?k) (loc_add l ?k) pPrior rel g c1 d1"
    using k s by (subst fill_loop.simps) (auto simp: Let_def)
  also have "\<dots> = (let (cell, db) = store_at cell db l (padded src (min n sp))
     in if n \<le> sp then (SQLITE_OK, cell, release_opt db rel) else fill_next [] (n - sp) pPrior rel g (cell, db))"
  proof -
    have "n - ?k \<le> sp - ?k \<longleftrightarrow> n \<le> sp" "n - ?k - (sp - ?k) = n - sp" using k by linarith+
    then show ?thesis using k by (subst fill_one) (auto simp: store_at_append [OF s] p Let_def split: prod.split)
  qed
  also have "drop sp src = []" using k by simp
  then have "[] = drop sp src" by simp
  finally show ?thesis .
qed

text \<open>The value \<open>V\<close> in the chain \<open>qs\<close> of overflow pages from page \<open>p\<close> on, \<open>m\<close> bytes to a page.\<close>

fun stored :: "(pgno \<Rightarrow> bytes) \<Rightarrow> nat \<Rightarrow> pgno \<Rightarrow> pgno list \<Rightarrow> bytes \<Rightarrow> bool" where
  "stored P m p [] V \<longleftrightarrow> p = 0 \<and> V = []"
| "stored P m p (q # qs) V \<longleftrightarrow>
     p = q \<and> V \<noteq> [] \<and> subbytes (P q) 4 (min m (length V)) = take m V \<and> stored P m (g4 (P q) 0) qs (drop m V)"

lemma stored_cong:
  "stored P m p qs V \<Longrightarrow> (\<And>q. q \<in> set qs \<Longrightarrow> P' q = P q) \<Longrightarrow> stored P' m p qs V"
  by (induction P m p qs V rule: stored.induct) auto

lemma free_set_set_page:
  assumes "free_set db F" "q \<notin> F" "q \<noteq> 1" "length d = pageSize (bts db)"
  shows "free_set (set_page db q d) F"
proof -
  obtain ts where ts: "freelist db ts" "set (free_pages ts) = F" and ok: "db_ok db"
    using assms(1) by (auto simp: free_set_def)
  have "trunks (pg (set_page db q d)) u p ts = trunks (pg db) u p ts" for u p
  proof -
    have same: "pg (set_page db q d) r = pg db r" if "r \<in> set (map fst ts)" for r
      using trunk_in_free [OF that] assms(2) ts(2) by auto
    show ?thesis using trunks_cong [of _ u p ts] same by metis
  qed
  then have "freelist (set_page db q d) ts" using ts(1) assms(3) by (auto simp: freelist_def)
  moreover have "db_ok (set_page db q d)"
    by (rule db_ok_upd [OF ok]) (auto simp: assms(4) db_ok_simps [OF ok])
  ultimately show ?thesis using ts(2) by (auto simp: free_set_def)
qed

lemma frame_mono: "frame S db db' \<Longrightarrow> S \<subseteq> S' \<Longrightarrow> frame S' db db'"
  by (auto simp: frame_def)

lemma free_set_release [simp]: "free_set (releasePage db p) F = free_set db F"
  by (rule free_set_upd) simp_all

lemma blit_subbytes_same: "i + length bs \<le> length xs \<Longrightarrow> subbytes (blit xs i bs) i (length bs) = bs"
  by (rule nth_equalityI) (auto simp: subbytes_def nth_blit)

lemma subbytes_blit_other:
  "j + n \<le> i \<or> i + length bs \<le> j \<Longrightarrow> subbytes (blit xs i bs) j n = subbytes xs j n"
  by (rule nth_equalityI) (auto simp: subbytes_def nth_blit)

lemma g4_blit_other: "4 \<le> i \<Longrightarrow> g4 (blit d i bs) 0 = g4 d 0"
  by (rule g4_eqI) (auto simp: byte_at_blit)

text \<open>A new page and the link to it from page \<open>q\<close>.\<close>

definition link :: "btree_db \<Rightarrow> pgno \<Rightarrow> pgno \<Rightarrow> btree_db" where
  "link db q p = (let db = releasePage (set_page db q (blit (pg db q) 0 (sqlite3Put4byte (of_nat p)))) q
     in set_page db p (p4 (pg db p) 0 0))"

text \<open>The pages the file was extended by; the page of the pending byte is not used.\<close>

definition new_pages :: "btree_db \<Rightarrow> btree_db \<Rightarrow> pgno set" where
  "new_pages db db' = {nPage (bts db)<..nPage (bts db')} - {PENDING_BYTE_PAGE db}"

lemma new_pages_trans:
  "pageSize (bts db1) = pageSize (bts db) \<Longrightarrow> nPage (bts db) \<le> nPage (bts db1) \<Longrightarrow> nPage (bts db1) \<le> nPage (bts db') \<Longrightarrow>
     new_pages db db' = new_pages db db1 \<union> new_pages db1 db'"
  by (auto simp: new_pages_def PENDING_BYTE_PAGE_def)

lemma new_pages_upd:
  "bts db1 = bts db \<Longrightarrow> new_pages db1 db' = new_pages db db'" "bts db1 = bts db' \<Longrightarrow> new_pages db db1 = new_pages db db'"
  by (auto simp: new_pages_def PENDING_BYTE_PAGE_def)

lemma alloc_new_pages:
  assumes "allocateBtreePage db g = (SQLITE_OK, p, db')" "free_set db F" "nPage (bts db) < 4294967292"
  shows "new_pages db db' = {p} - F"
proof -
  have "alloc_post db F p db'" by (rule allocateBtreePage_post(1) [OF assms(1,2)]) (use assms(3) in simp_all)
  then show ?thesis by (auto simp: alloc_post_def new_pages_def next_pgno_def Let_def split: if_splits)
qed

lemma alloc_bounds:
  assumes "allocateBtreePage db g = (SQLITE_OK, p, db')" "free_set db F" "nPage (bts db) < 4294967292"
  shows "alloc_post db F p db'" "free_set db' (F - {p})" "2 \<le> p" "p \<le> nPage (bts db')"
    "p \<in> F \<or> nPage (bts db) < p" "nPage (bts db) \<le> nPage (bts db')" "nPage (bts db') \<le> nPage (bts db) + 2"
    "frame (insert p F) db db'" "refs db p = 0" "refs db' = (refs db)(p := 1)"
proof -
  show post: "alloc_post db F p db'" by (rule allocateBtreePage_post(1) [OF assms(1,2)]) (use assms(3) in simp_all)
  have n: "1 \<le> nPage (bts db)" using assms(2) by (simp add: free_set_def db_ok_def)
  show "free_set db' (F - {p})" "2 \<le> p" "p \<le> nPage (bts db')"
    "p \<in> F \<or> nPage (bts db) < p" "nPage (bts db) \<le> nPage (bts db')" "nPage (bts db') \<le> nPage (bts db) + 2"
    "frame (insert p F) db db'" "refs db p = 0" "refs db' = (refs db)(p := 1)"
    using post n next_pgno_bounds [of db] free_set_range [OF assms(2)]
    by (auto simp: alloc_post_def split: if_splits)
qed

lemma alloc_link:
  assumes a: "allocateBtreePage db g = (SQLITE_OK, p, db')" and F: "free_set db F" and n: "nPage (bts db) < 4294967292"
    and q: "q \<notin> F" "2 \<le> q" "q \<le> nPage (bts db)"
  shows "p \<noteq> q" "free_set (link db' q p) (F - {p})" "bts (link db' q p) = bts db'"
    "g4 (pg (link db' q p) p) 0 = 0" "pg (link db' q p) q = p4 (pg db q) 0 p"
    "frame (insert p (insert q F)) db (link db' q p)" "refs (link db' q p) = (refs db)(p := 1, q := refs db q - 1)"
proof -
  note b = alloc_bounds [OF a F n]
  have ok: "db_ok db" "db_ok db'" using F b(2) by (auto simp: free_set_def)
  show ne: "p \<noteq> q" using b(5) q by auto
  have pq: "pg db' q = pg db q" using frame_content [OF b(8), of q] ne q by auto
  have sz: "pageSize (bts db') = pageSize (bts db)" using b(8) by (auto simp: frame_def)
  have pl: "pg (link db' q p) = (pg db')(q := p4 (pg db q) 0 p, p := p4 (pg db' p) 0 0)"
    using ne pq by (auto simp: link_def p4_def Let_def)
  have lb: "bts (link db' q p) = bts db'" "pHasContent (link db' q p) = pHasContent db'"
    by (simp_all add: link_def Let_def)
  show "bts (link db' q p) = bts db'" by fact
  have len: "length (pg db' r) = pageSize (bts db')" for r by (rule db_ok_simps(1) [OF ok(2)])
  have "free_set (set_page (set_page db' q (p4 (pg db q) 0 p)) p (p4 (pg db' p) 0 0)) (F - {p})"
    using b(2,3) q len len [of q] pq by (intro free_set_set_page) auto
  then show "free_set (link db' q p) (F - {p})"
    using free_set_upd [of "link db' q p" "set_page (set_page db' q (p4 (pg db q) 0 p)) p (p4 (pg db' p) 0 0)"] lb pl
    by simp
  show "g4 (pg (link db' q p) p) 0 = 0"
    using db_ok_simps(2) [OF ok(2)] len by (simp add: pl g4_p4)
  show "pg (link db' q p) q = p4 (pg db q) 0 p" using ne by (simp add: pl)
  show "frame (insert p (insert q F)) db (link db' q p)"
    using b(3,8) q(2) by (auto simp: frame_def pl lb)
  show "refs (link db' q p) = (refs db)(p := 1, q := refs db q - 1)"
    using b(10) ne by (auto simp: link_def Let_def)
qed

lemma fill_page:
  assumes "fill_loop src n m (InPage q 4) (InPage q 0) (Some q) g cell db = (SQLITE_OK, cell', db')"
    "0 < n" "m = usableSize (bts db) - 4" "free_set db F" "q \<notin> F" "2 \<le> q" "q \<le> nPage (bts db)"
    "g4 (pg db q) 0 = 0" "nPage (bts db) + 2 * n < 4294967292"
  shows "cell' = cell \<and> (\<exists>qs. stored (pg db') m q (q # qs) (padded src n) \<and> distinct (q # qs) \<and>
    set qs \<subseteq> F \<union> {nPage (bts db)<..nPage (bts db')} \<and> free_set db' (F - set qs) \<and>
    frame (insert q (F \<union> set qs)) db db' \<and> nPage (bts db) \<le> nPage (bts db') \<and>
    refs db' = (refs db)(q := refs db q - 1) \<and> set qs \<subseteq> F \<union> new_pages db db' \<and> new_pages db db' \<subseteq> set qs)"
  using assms
proof (induction n arbitrary: src q g cell db F rule: less_induct)
  case (less n)
  note ok = less.prems(4) [unfolded free_set_def, THEN conjunct1]
  have m: "0 < m" "m + 4 \<le> pageSize (bts db)" "usableSize (bts db) = m + 4"
    using db_ok_simps(3,4) [OF ok] less.prems(3) by auto
  define db1 where "db1 = set_page db q (blit (pg db q) 4 (padded src (min n m)))"
  have e: "fill_loop src n m (InPage q 4) (InPage q 0) (Some q) g cell db =
    (if n \<le> m then (SQLITE_OK, cell, release_opt db1 (Some q)) else fill_next (drop m src) (n - m) (InPage q 0) (Some q) g (cell, db1))"
    by (subst fill_seg [OF m(1) less.prems(2)]) (simp add: db1_def)
  have F1: "free_set db1 F" unfolding db1_def
    using less.prems(4-6) db_ok_simps(1) [OF ok] by (intro free_set_set_page) auto
  have len: "length (pg db q) = pageSize (bts db)" by (rule db_ok_simps(1) [OF ok])
  have q1: "pg db1 q = blit (pg db q) 4 (padded src (min n m))" "bts db1 = bts db" "refs db1 = refs db"
    by (simp_all add: db1_def)
  have s1: "subbytes (pg db1 q) 4 (min n m) = padded src (min n m)" "g4 (pg db1 q) 0 = 0"
    using blit_subbytes_same [of 4 "padded src (min n m)" "pg db q"] m(2) less.prems(8) len
    by (auto simp: q1 g4_blit_other)
  show ?case
  proof (cases "n \<le> m")
    case True
    then have r: "cell' = cell" "db' = releasePage db1 q" using less.prems(1) e by (auto simp: release_opt_def)
    have "stored (pg db') m q [q] (padded src n)"
      using s1 True less.prems(2) r(2) by (auto simp: min_def simp flip: length_greater_0_conv)
    moreover have "frame (insert q F) db db'"
      by (rule frameI [where n = "nPage (bts db)"]) (use less.prems(6) in \<open>auto simp: r(2) db1_def\<close>)
    ultimately show ?thesis using r F1 q1 by (auto simp: new_pages_def intro!: exI [of _ "[]"])
  next
    case False
    obtain rc p db2 where a: "allocateBtreePage db1 g = (rc, p, db2)" using prod_cases3 by blast
    have lim: "nPage (bts db1) < 4294967292" "q \<le> nPage (bts db1)" using less.prems(7,9) q1(2) by auto
    have l: "fill_next (drop m src) (n - m) (InPage q 0) (Some q) g (cell, db1) = (SQLITE_OK, cell', db')"
      using less.prems(1) e False by simp
    then have rc: "rc = SQLITE_OK" using a by (auto simp: fill_next_def split: if_splits)
    note a = a [unfolded rc]
    note b = alloc_bounds [OF a F1 lim(1)]
    note k = alloc_link [OF a F1 lim(1) less.prems(5,6) lim(2)]
    let ?db = "link db2 q p"
    have u: "usableSize (bts db2) = m + 4" using b(8) m(3) q1(2) by (auto simp: frame_def)
    have l: "fill_loop (drop m src) (n - m) m (InPage p 4) (InPage p 0) (Some p) p cell ?db = (SQLITE_OK, cell', db')"
      using l a u m(1) by (simp add: fill_next_def link_def release_opt_def Let_def)
    have "cell' = cell \<and> (\<exists>qs. stored (pg db') m p (p # qs) (padded (drop m src) (n - m)) \<and> distinct (p # qs) \<and>
      set qs \<subseteq> (F - {p}) \<union> {nPage (bts ?db)<..nPage (bts db')} \<and> free_set db' ((F - {p}) - set qs) \<and>
      frame (insert p ((F - {p}) \<union> set qs)) ?db db' \<and> nPage (bts ?db) \<le> nPage (bts db') \<and>
      refs db' = (refs ?db)(p := refs ?db p - 1) \<and> set qs \<subseteq> (F - {p}) \<union> new_pages ?db db' \<and> new_pages ?db db' \<subseteq> set qs)"
    proof (rule less.IH [OF _ l])
      show "nPage (bts ?db) + 2 * (n - m) < 4294967292"
        using less.prems(9) b(7) k(3) q1(2) False m(1) by simp
    qed (use False m(1) u k(2-4) b(3,4) in auto)
    then obtain qs where c: "cell' = cell" and qs: "stored (pg db') m p (p # qs) (padded (drop m src) (n - m))"
      "distinct (p # qs)" "set qs \<subseteq> (F - {p}) \<union> {nPage (bts ?db)<..nPage (bts db')}" "free_set db' ((F - {p}) - set qs)"
      "frame (insert p ((F - {p}) \<union> set qs)) ?db db'" "nPage (bts ?db) \<le> nPage (bts db')"
      "refs db' = (refs ?db)(p := refs ?db p - 1)" "set qs \<subseteq> (F - {p}) \<union> new_pages ?db db'" "new_pages ?db db' \<subseteq> set qs"
      by blast
    have nn: "nPage (bts db) \<le> nPage (bts ?db)" using b(6) k(3) q1(2) by simp
    have q_qs: "q \<notin> insert p ((F - {p}) \<union> set qs)" using qs(3) k(1) less.prems(5,7) nn by auto
    have pq: "pg db' q = p4 (pg db1 q) 0 p"
      using frame_content [OF qs(5) _ q_qs] k(5) less.prems(6) by simp
    have "p < 2 ^ 32" using b(4) b(7) lim(1) by simp
    then have "g4 (pg db' q) 0 = p" using len m(2) by (simp add: pq g4_p4 q1)
    moreover have "subbytes (pg db' q) 4 m = padded src m"
      using s1(1) False by (simp add: pq p4_def subbytes_blit_other min_def)
    ultimately have "stored (pg db') m q (q # p # qs) (padded src n)"
      using qs(1) False less.prems(2)
      by (simp add: take_padded drop_padded min_def flip: length_greater_0_conv del: stored.simps(2))
        (simp add: stored.simps(2) [of _ _ _ q] take_padded drop_padded min_def flip: length_greater_0_conv)
    moreover have "frame (insert q (F \<union> set (p # qs))) db db'"
    proof -
      have "frame {q} db db1"
        by (rule frameI [where n = "nPage (bts db)"]) (use less.prems(6) in \<open>auto simp: db1_def\<close>)
      from frame_trans [OF frame_trans [OF this k(6)] qs(5)] show ?thesis
        by (rule frame_mono) auto
    qed
    moreover have "set (p # qs) \<subseteq> F \<union> {nPage (bts db)<..nPage (bts db')}"
      using qs(3,6) nn b(4,5) k(3) q1(2) by auto
    moreover have "free_set db' (F - set (p # qs))" using qs(4) by (simp add: Diff_insert2 [symmetric] insert_Diff_if)
    moreover have "refs db' = (refs db)(q := refs db q - 1)"
      using qs(7) k(1,7) b(9) q1(3) by (auto simp: fun_eq_iff)
    moreover have "set (p # qs) \<subseteq> F \<union> new_pages db db' \<and> new_pages db db' \<subseteq> set (p # qs)"
    proof -
      have "new_pages db db' = new_pages db ?db \<union> new_pages ?db db'"
        using nn qs(6) b(8) k(3) q1(2) by (intro new_pages_trans) (auto simp: frame_def)
      moreover have "new_pages db ?db = {p} - F"
        using alloc_new_pages [OF a F1 lim(1)] new_pages_upd(1) [OF q1(2)] new_pages_upd(2) [OF k(3)] by simp
      ultimately show ?thesis using qs(8,9) by auto
    qed
    ultimately show ?thesis using c qs(2) q_qs nn qs(6) by (intro conjI exI [of _ "p # qs"]) auto
  qed
qed

text \<open>The whole loop: \<open>n\<close> bytes in the cell, the rest in new pages.\<close>

lemma fill_local:
  assumes r: "fill_loop src N n (InCell h) (InCell (h + n)) None 0 cell db = (SQLITE_OK, cell', db')"
    and n: "0 < n" "n < N" and F: "free_set db F" and lim: "nPage (bts db) + 2 * N < 4294967292"
  shows "\<exists>p qs. cell' = blit cell h (padded src n @ sqlite3Put4byte (of_nat p)) \<and>
    stored (pg db') (usableSize (bts db) - 4) p (p # qs) (padded (drop n src) (N - n)) \<and> distinct (p # qs) \<and>
    set (p # qs) \<subseteq> F \<union> {nPage (bts db)<..nPage (bts db')} \<and> set (p # qs) \<subseteq> {2..nPage (bts db')} \<and>
    free_set db' (F - set (p # qs)) \<and> frame (F \<union> set (p # qs)) db db' \<and> refs db' = refs db \<and>
    set (p # qs) \<subseteq> F \<union> new_pages db db' \<and> new_pages db db' \<subseteq> set (p # qs)"
proof -
  have ok: "db_ok db" using F by (simp add: free_set_def)
  define c1 where "c1 = blit cell h (padded src n)"
  have e: "fill_next (drop n src) (N - n) (InCell (h + n)) None 0 (c1, db) = (SQLITE_OK, cell', db')"
    using r fill_seg [of n N src "InCell h" "InCell (h + n)" None 0 cell db] n by (simp add: c1_def min_def)
  obtain rc p db2 where a: "allocateBtreePage db 0 = (rc, p, db2)" using prod_cases3 by blast
  have "rc = SQLITE_OK" using a e by (auto simp: fill_next_def split: if_splits)
  note a = a [unfolded this]
  have l1: "nPage (bts db) < 4294967292" using lim by simp
  note b = alloc_bounds [OF a F l1]
  have ok2: "db_ok db2" using b(2) by (simp add: free_set_def)
  have u: "usableSize (bts db2) = usableSize (bts db)" "\<not> usableSize (bts db2) \<le> 4"
    using b(8) db_ok_simps(3) [OF ok] by (auto simp: frame_def)
  define db3 where "db3 = set_page db2 p (p4 (pg db2 p) 0 0)"
  have l: "fill_loop (drop n src) (N - n) (usableSize (bts db) - 4) (InPage p 4) (InPage p 0) (Some p) p
      (blit c1 (h + n) (sqlite3Put4byte (of_nat p))) db3 = (SQLITE_OK, cell', db')"
    using e a u by (simp add: fill_next_def release_opt_def Let_def db3_def)
  have F3: "free_set db3 (F - {p})" unfolding db3_def
    using b(2,3) db_ok_simps(1) [OF ok2] by (intro free_set_set_page) auto
  have "cell' = blit c1 (h + n) (sqlite3Put4byte (of_nat p)) \<and>
    (\<exists>qs. stored (pg db') (usableSize (bts db) - 4) p (p # qs) (padded (drop n src) (N - n)) \<and> distinct (p # qs) \<and>
    set qs \<subseteq> (F - {p}) \<union> {nPage (bts db3)<..nPage (bts db')} \<and> free_set db' ((F - {p}) - set qs) \<and>
    frame (insert p ((F - {p}) \<union> set qs)) db3 db' \<and> nPage (bts db3) \<le> nPage (bts db') \<and>
    refs db' = (refs db3)(p := refs db3 p - 1) \<and> set qs \<subseteq> (F - {p}) \<union> new_pages db3 db' \<and> new_pages db3 db' \<subseteq> set qs)"
  proof (rule fill_page [OF l])
    show "g4 (pg db3 p) 0 = 0" using db_ok_simps(1,2) [OF ok2] by (simp add: db3_def g4_p4)
    show "nPage (bts db3) + 2 * (N - n) < 4294967292" using lim b(7) n by (simp add: db3_def)
  qed (use n u F3 b(3,4) in \<open>auto simp: db3_def\<close>)
  then obtain qs where c: "cell' = blit c1 (h + n) (sqlite3Put4byte (of_nat p))"
    and qs: "stored (pg db') (usableSize (bts db) - 4) p (p # qs) (padded (drop n src) (N - n))" "distinct (p # qs)"
    "set qs \<subseteq> (F - {p}) \<union> {nPage (bts db3)<..nPage (bts db')}" "free_set db' ((F - {p}) - set qs)"
    "frame (insert p ((F - {p}) \<union> set qs)) db3 db'" "nPage (bts db3) \<le> nPage (bts db')"
    "refs db' = (refs db3)(p := refs db3 p - 1)" "set qs \<subseteq> (F - {p}) \<union> new_pages db3 db'" "new_pages db3 db' \<subseteq> set qs"
    by blast
  have "cell' = blit cell h (padded src n @ sqlite3Put4byte (of_nat p))"
    using c blit_append [of cell h "padded src n"] by (simp add: c1_def)
  moreover have new: "set (p # qs) \<subseteq> F \<union> {nPage (bts db)<..nPage (bts db')}"
    using qs(3,6) b(4-6) by (auto simp: db3_def)
  moreover have "set (p # qs) \<subseteq> {2..nPage (bts db')}"
  proof -
    have "F \<subseteq> {2..nPage (bts db')}" using free_set_range [OF F] b(6) qs(6) by (fastforce simp: db3_def)
    moreover have "1 \<le> nPage (bts db)" using ok by (simp add: db_ok_def)
    ultimately show ?thesis using new by fastforce
  qed
  moreover have "free_set db' (F - set (p # qs))" using qs(4) by (simp add: Diff_insert2 [symmetric] insert_Diff_if)
  moreover have "frame (F \<union> set (p # qs)) db db'"
  proof -
    have "frame {p} db2 db3"
      by (rule frameI [where n = "nPage (bts db2)"]) (use b(3) in \<open>auto simp: db3_def\<close>)
    from frame_trans [OF frame_trans [OF b(8) this] qs(5)] show ?thesis by (rule frame_mono) auto
  qed
  moreover have "refs db' = refs db" using qs(7) b(9,10) by (auto simp: db3_def fun_eq_iff)
  moreover have "set (p # qs) \<subseteq> F \<union> new_pages db db' \<and> new_pages db db' \<subseteq> set (p # qs)"
  proof -
    have b3: "bts db3 = bts db2" by (simp add: db3_def)
    have "new_pages db db' = new_pages db db3 \<union> new_pages db3 db'"
      using b(6,8) qs(6) b3 by (intro new_pages_trans) (auto simp: frame_def)
    moreover have "new_pages db db3 = {p} - F" using alloc_new_pages [OF a F l1] new_pages_upd(2) [OF b3] by simp
    ultimately show ?thesis using qs(8,9) by auto
  qed
  ultimately show ?thesis using qs(1,2) by blast
qed

section \<open>A cell that is built parses back\<close>

text \<open>The parameters of a leaf page, as \<open>decodeFlags\<close> sets them.\<close>

definition kv_leaf :: "bt_shared \<Rightarrow> mempage \<Rightarrow> bool" where
  "kv_leaf pBt pPage \<longleftrightarrow> leaf pPage \<and> childPtrSize pPage = 0 \<and> 0 < minLocal pPage \<and> minLocal pPage \<le> maxLocal pPage \<and>
     maxLocal pPage + KV_CELL_MAX_HDR + 4 < usableSize pBt \<and> usableSize pBt \<le> 65536"

lemma decodeFlags_kv_leaf:
  assumes "480 \<le> usableSize pBt" "usableSize pBt \<le> 65536"
    "decodeFlags (set_limits pBt) pPage (PTF_LEAFDATA OR PTF_INTKEY OR PTF_LEAF) = (SQLITE_OK, pPage')"
  shows "kv_leaf (set_limits pBt) pPage'"
proof -
  obtain v where u: "usableSize pBt = 480 + v" "v \<le> 65056" using assms(1,2) le_Suc_ex by fastforce
  define m where "m = (468 + v) * 32 div 255"
  have m: "m * 255 \<le> (468 + v) * 32" "(468 + v) * 32 < 255 + m * 255"
    unfolding m_def by (rule div_times_less_eq_dividend, rule dividend_less_div_times) simp
  have b: "24 \<le> m" "m \<le> 220 + v" "m < 65536" using m u(2) by simp_all
  have l: "maxLeaf (set_limits pBt) = 445 + v" "minLeaf (set_limits pBt) = m - 23"
      "usableSize (set_limits pBt) = 480 + v"
    using u b(3) by (simp_all add: set_limits_def m_def)
  have "445 + v + 65536 - 248 = (197 + v) + 65536" by simp
  then have "sub16 (445 + v) 248 = (197 + v) mod 65536" by (simp only: sub16_def mod_add_self2)
  then have "sub16 (445 + v) KV_CELL_HDR_OVERAGE = 197 + v" using u(2) by simp
  then have p: "leaf pPage'" "childPtrSize pPage' = 0" "minLocal pPage' = m - 23" "maxLocal pPage' = 197 + v"
    using assms(3) l by (auto simp: decodeFlags_def)
  show ?thesis unfolding kv_leaf_def p l using b u(2) p(1) by simp
qed

text \<open>The header of a leaf cell.\<close>

definition kv_header :: "nat \<Rightarrow> bytes \<Rightarrow> bytes" where
  "kv_header nPay key = putVarint32 (of_nat nPay) @ putVarint32 (of_nat (length key)) @ key"

lemma length_kv_header: "length key \<le> 255 \<Longrightarrow> length (kv_header nPay key) \<le> KV_CELL_MAX_HDR \<and> 2 \<le> length (kv_header nPay key)"
proof -
  assume k: "length key \<le> 255"
  then have "unat (of_nat (length key) :: u32) < 16384" by (simp add: unat_of_nat)
  then show ?thesis
    using k length_putVarint32_bound(1,2) [of "of_nat nPay"] length_putVarint32_bound(1,3) [of "of_nat (length key)"]
    unfolding kv_header_def length_append by linarith
qed

lemma kvParseCellLeaf_header:
  assumes "nPay < 2 ^ 32" "length key \<le> 255"
  shows "kvParseCellLeaf pBt pPage (kv_header nPay key @ rest) =
    (let h = length (kv_header nPay key);
         pInfo = \<lparr>pPayload = h, nPayload = nPay, nLocal = 0, nSize = 0, pKey = h - length key, nKeyLen = length key\<rparr>
     in if nPay \<le> maxLocal pPage then
          pInfo\<lparr>nSize := (if (nPay + h) mod 65536 < 4 then 4 else (nPay + h) mod 65536), nLocal := nPay mod 65536\<rparr>
        else btreeParseCellAdjustSizeForOverflow pBt pPage pInfo)"
proof -
  have u: "unat (of_nat nPay :: u32) = nPay" "unat (of_nat (length key) :: u32) = length key"
    using assms by (simp_all add: unat_of_nat)
  show ?thesis
    unfolding kvParseCellLeaf_def kv_header_def
    by (simp add: getVarint32_putVarint32 u Let_def add.assoc)
qed

text \<open>The number of bytes of the value kept on the page.\<close>

definition local_size :: "bt_shared \<Rightarrow> mempage \<Rightarrow> nat \<Rightarrow> nat" where
  "local_size pBt pPage nPay =
     (if nPay \<le> maxLocal pPage then nPay
      else let n = minLocal pPage + (nPay - minLocal pPage) mod (usableSize pBt - 4)
           in if n > maxLocal pPage then minLocal pPage else n)"

lemma local_size_bounds:
  assumes "kv_leaf pBt pPage"
  shows "local_size pBt pPage nPay \<le> maxLocal pPage" "local_size pBt pPage nPay \<le> nPay"
    "maxLocal pPage < nPay \<Longrightarrow> 0 < local_size pBt pPage nPay \<and> local_size pBt pPage nPay < nPay"
  using assms mod_less_eq_dividend [of "nPay - minLocal pPage" "usableSize pBt - 4"]
  by (auto simp: local_size_def kv_leaf_def Let_def)

lemma parse_info:
  assumes "kv_leaf pBt pPage" "nPay < 2 ^ 31" "length key \<le> 255"
  shows "kvParseCellLeaf pBt pPage (kv_header nPay key @ rest) =
    \<lparr>pPayload = length (kv_header nPay key), nPayload = nPay, nLocal = local_size pBt pPage nPay,
     nSize = (let n = length (kv_header nPay key) + local_size pBt pPage nPay
              in if nPay > maxLocal pPage then n + 4 else if n < 4 then 4 else n),
     pKey = length (kv_header nPay key) - length key, nKeyLen = length key\<rparr>"
proof -
  let ?h = "length (kv_header nPay key)"
  have h: "?h \<le> 262" using length_kv_header [OF assms(3), of nPay] by simp
  note b = local_size_bounds [OF assms(1), of nPay]
  have k: "minLocal pPage \<le> maxLocal pPage" "maxLocal pPage + 266 < 65536" using assms(1) by (auto simp: kv_leaf_def)
  have n32: "nPay < 2 ^ 32" using assms(2) by simp
  show ?thesis
  proof (cases "nPay \<le> maxLocal pPage")
    case True
    then show ?thesis using h k
      by (simp add: kvParseCellLeaf_header [OF n32 assms(3)] Let_def local_size_def add.commute)
  next
    case False
    then have "sub32 nPay (minLocal pPage) = nPay - minLocal pPage"
      by (intro sub32_le) (use k n32 in auto)
    then show ?thesis using h k False b(1)
      by (auto simp: kvParseCellLeaf_header [OF n32 assms(3)] Let_def local_size_def
          btreeParseCellAdjustSizeForOverflow_def)
  qed
qed

text \<open>
  The cell holds \<open>key\<close> and the value \<open>V\<close>: the header, the local part, and the number of the first of the
  overflow pages \<open>qs\<close> with the rest.
\<close>

definition cell_value :: "(pgno \<Rightarrow> bytes) \<Rightarrow> bt_shared \<Rightarrow> mempage \<Rightarrow> bytes \<Rightarrow> bytes \<Rightarrow> bytes \<Rightarrow> pgno list \<Rightarrow> bool" where
  "cell_value P pBt pPage cell key V qs \<longleftrightarrow>
     (let n = local_size pBt pPage (length V) in
      \<exists>rest. cell = kv_header (length V) key @ take n V @ rest \<and>
        (if n < length V then 4 \<le> length rest \<and> stored P (usableSize pBt - 4) (g4 rest 0) qs (drop n V) else qs = []))"

lemma blit_start: "length a \<le> length xs \<Longrightarrow> blit xs 0 a = a @ drop (length a) xs"
  by (simp add: blit_def)

lemma g4_Put4byte: "p < 2 ^ 32 \<Longrightarrow> g4 (sqlite3Put4byte (of_nat p) @ rest) 0 = p"
  by (simp add: g4_def Get4byte_Put4byte unat_of_nat)

lemma fillInCell_header:
  "childPtrSize pPage = 0 \<Longrightarrow>
   blit (blit (blit pCell 0 (putVarint32 (of_nat n))) (length (putVarint32 (of_nat n))) (putVarint32 (of_nat (length key))))
     (length (putVarint32 (of_nat n)) + length (putVarint32 (of_nat (length key)))) key = blit pCell 0 (kv_header n key)"
  using blit_append [of pCell 0 "putVarint32 (of_nat n)" "putVarint32 (of_nat (length key))"]
    blit_append [of pCell 0 "putVarint32 (of_nat n) @ putVarint32 (of_nat (length key))" key]
  by (simp add: kv_header_def)

lemma fillInCell_eq:
  assumes "childPtrSize pPage = 0" "N = length pData + nZero" "h = length (kv_header N key)"
    "cell0 = blit pCell 0 (kv_header N key)"
  shows "fillInCell db pPage pCell key pData nZero =
    (if N \<le> maxLocal pPage then
       (SQLITE_OK, blit (if h + N < 4 then blit cell0 (h + N) [0] else cell0) h (pData @ replicate nZero 0),
        if h + N < 4 then 4 else h + N, db)
     else case fill_loop pData N (local_size (bts db) pPage N) (InCell h) (InCell (h + local_size (bts db) pPage N)) None 0 cell0 db of
       (rc, cell, db') \<Rightarrow> (rc, cell, local_size (bts db) pPage N + h + 4, db'))"
proof -
  have h: "length (putVarint32 (of_nat N)) + length (putVarint32 (of_nat (length key))) + length key = h"
    by (simp add: assms(3) kv_header_def)
  show ?thesis
    unfolding fillInCell_def Let_def assms(1,2) [symmetric] add_0
    using fillInCell_header [OF assms(1), of pCell N key] assms(1)
    by (simp add: h assms(4) blit_append local_size_def Let_def)
qed

lemma fillInCell_post:
  assumes r: "fillInCell db pPage pCell key pData nZero = (SQLITE_OK, cell, sz, db')"
    and kv: "kv_leaf (bts db) pPage" and F: "free_set db F" and k: "length key \<le> 255"
    and N: "length pData + nZero < 2 ^ 31" "nPage (bts db) + 2 * (length pData + nZero) < 4294967292"
    and buf: "usableSize (bts db) \<le> length pCell"
  shows "\<exists>qs. cell_value (pg db') (bts db) pPage cell key (pData @ replicate nZero 0) qs \<and> distinct qs \<and>
    set qs \<subseteq> F \<union> {nPage (bts db)<..nPage (bts db')} \<and> set qs \<subseteq> {2..nPage (bts db')} \<and>
    free_set db' (F - set qs) \<and> frame (F \<union> set qs) db db' \<and> refs db' = refs db \<and>
    sz = nSize (kvParseCellLeaf (bts db) pPage cell) \<and> sz \<le> length cell \<and>
    set qs \<subseteq> F \<union> new_pages db db' \<and> new_pages db db' \<subseteq> set qs"
proof -
  define N where "N = length pData + nZero"
  define V where "V = pData @ replicate nZero 0"
  define hd where "hd = kv_header N key"
  define n where "n = local_size (bts db) pPage N"
  have V: "V = padded pData N" "length V = N" by (simp_all add: V_def N_def padded_short)
  have c0: "childPtrSize pPage = 0" and mx: "maxLocal pPage + 266 < usableSize (bts db)"
    using kv by (auto simp: kv_leaf_def)
  have h: "length hd \<le> 262" "2 \<le> length hd" using length_kv_header [OF k, of N] by (simp_all add: hd_def)
  note b = local_size_bounds [OF kv, of N, folded n_def]
  note e = fillInCell_eq [where key = key and db = db and pCell = pCell, OF c0 N_def refl refl, folded hd_def n_def]
  have pz: "nSize (kvParseCellLeaf (bts db) pPage (hd @ rest)) =
      (if N > maxLocal pPage then length hd + n + 4 else if length hd + n < 4 then 4 else length hd + n)" for rest
    using parse_info [OF kv N(1) [folded N_def] k] by (simp add: hd_def n_def Let_def)
  show ?thesis
  proof (cases "N \<le> maxLocal pPage")
    case True
    have n: "n = N" using True by (simp add: n_def local_size_def)
    define c1 where "c1 = (if length hd + N < 4 then blit (blit pCell 0 hd) (length hd + N) [0] else blit pCell 0 hd)"
    have r': "cell = blit c1 (length hd) V" "sz = (if length hd + N < 4 then 4 else length hd + N)" "db' = db"
      using r e True by (simp_all add: c1_def V_def)
    have c1: "length c1 = length pCell" by (simp add: c1_def)
    have "take (length hd) c1 = hd"
      using h mx buf True by (auto simp: c1_def blit_def min_def)
    then have "cell = hd @ V @ drop (length hd + N) c1"
      using h mx buf True V(2) by (simp add: r'(1) blit_def c1_def)
    then have "cell_value (pg db') (bts db) pPage cell key V [] \<and> sz = nSize (kvParseCellLeaf (bts db) pPage cell)"
      "sz \<le> length cell"
      using True n r'(1,2) V(2) pz c1 h mx buf by (auto simp: cell_value_def hd_def n_def)
    then show ?thesis using r'(3) F
      by (intro exI [of _ "[]"]) (auto simp: V_def frame_def new_pages_def intro: exI [of _ "nPage (bts db)"])
  next
    case False
    then have nn: "0 < n" "n < N" using b(3) by auto
    have l: "fill_loop pData N n (InCell (length hd)) (InCell (length hd + n)) None 0 (blit pCell 0 hd) db = (SQLITE_OK, cell, db')"
      "sz = n + length hd + 4"
      using r e False by (auto split: prod.splits)
    obtain p qs where f: "cell = blit (blit pCell 0 hd) (length hd) (padded pData n @ sqlite3Put4byte (of_nat p))"
      "stored (pg db') (usableSize (bts db) - 4) p (p # qs) (padded (drop n pData) (N - n))" "distinct (p # qs)"
      "set (p # qs) \<subseteq> F \<union> {nPage (bts db)<..nPage (bts db')}" "set (p # qs) \<subseteq> {2..nPage (bts db')}"
      "free_set db' (F - set (p # qs))" "frame (F \<union> set (p # qs)) db db'" "refs db' = refs db"
      "set (p # qs) \<subseteq> F \<union> new_pages db db'" "new_pages db db' \<subseteq> set (p # qs)"
      using fill_local [OF l(1) nn F N(2) [folded N_def]] by blast
    have p: "p < 2 ^ 32" using f(5,6) by (auto simp: free_set_def db_ok_def)
    have "cell = blit pCell 0 (hd @ padded pData n @ sqlite3Put4byte (of_nat p))"
      using f(1) blit_append [of pCell 0 hd] by simp
    then have c: "cell = hd @ take n V @ sqlite3Put4byte (of_nat p) @ drop (length hd + n + 4) pCell"
      using h mx buf b(1) nn by (simp add: blit_start V take_padded add.assoc)
    have "cell_value (pg db') (bts db) pPage cell key V (p # qs)"
      unfolding cell_value_def Let_def V(2) n_def [symmetric] hd_def [symmetric]
      using nn f(2) g4_Put4byte [OF p] c V(1) by (intro exI) (auto simp: drop_padded)
    moreover have "sz = nSize (kvParseCellLeaf (bts db) pPage cell) \<and> sz \<le> length cell"
      using c l(2) pz False nn V(2) by simp
    ultimately show ?thesis using f(3-10) unfolding V_def by blast
  qed
qed

section \<open>Reading a value\<close>

text \<open>A read changes neither the pages nor anything else the b-tree layer sees of the database.\<close>

definition same_db :: "btree_db \<Rightarrow> btree_db \<Rightarrow> bool" where
  "same_db db db' \<longleftrightarrow> bts db' = bts db \<and> pg db' = pg db \<and> pHasContent db' = pHasContent db \<and> refs db' = refs db \<and>
     set (pagerAns db') \<subseteq> set (pagerAns db)"

lemma same_db_refl [simp]: "same_db db db"
  by (simp add: same_db_def)

lemma same_db_trans: "same_db db db1 \<Longrightarrow> same_db db1 db2 \<Longrightarrow> same_db db db2"
  by (auto simp: same_db_def)

lemma release_get:
  assumes "btreeGetPage db p False = (SQLITE_OK, db')"
  shows "same_db db (releasePage db' p)"
  using btreeGetPageD [OF assms] by (auto simp: same_db_def)

lemma nextOverflow_same:
  assumes "nextOverflow db p = (rc, q, db')"
  shows "rc = SQLITE_OK \<Longrightarrow> same_db db db' \<and> q = g4 (pg db p) 0" "rc \<noteq> SQLITE_OK \<Longrightarrow> p \<noteq> 0 \<Longrightarrow> rc \<in> set (pagerAns db)"
proof -
  obtain rc1 db1 where 1: "btreeGetPage db p False = (rc1, db1)" by fastforce
  show "rc = SQLITE_OK \<Longrightarrow> same_db db db' \<and> q = g4 (pg db p) 0" "rc \<noteq> SQLITE_OK \<Longrightarrow> p \<noteq> 0 \<Longrightarrow> rc \<in> set (pagerAns db)"
    using assms 1 release_get [of db p db1] btreeGetPageD(6,9) [OF 1]
    by (auto simp: nextOverflow_def getOverflowPage_def split: if_splits)
qed

lemma page_access_read:
  assumes "page_access db False p offset a iBuf pBuf = (rc, q, pBuf', db')"
  shows "rc = SQLITE_OK \<Longrightarrow> same_db db db' \<and> q = g4 (pg db p) 0 \<and>
      pBuf' = blit pBuf iBuf (subbytes (pg db p) (offset + 4) a)"
    "rc \<noteq> SQLITE_OK \<Longrightarrow> p \<noteq> 0 \<Longrightarrow> rc \<in> set (pagerAns db)"
proof -
  obtain rc1 db1 where 1: "btreeGetPage db p False = (rc1, db1)" by fastforce
  show "rc = SQLITE_OK \<Longrightarrow> same_db db db' \<and> q = g4 (pg db p) 0 \<and>
      pBuf' = blit pBuf iBuf (subbytes (pg db p) (offset + 4) a)"
    "rc \<noteq> SQLITE_OK \<Longrightarrow> p \<noteq> 0 \<Longrightarrow> rc \<in> set (pagerAns db)"
    using assms 1 release_get [of db p db1] btreeGetPageD(6,9) [OF 1]
    by (auto simp: page_access_def copyPayload_def split: if_splits)
qed

text \<open>
  What a direct read relies on: the pager allows it only when the file has the content of the page
  (\<open>sqlite3PagerDirectReadOk\<close>: no page is dirty and the page is not in the log), and a read that
  succeeds returns the first bytes of the page.
\<close>

definition direct_ok :: "(pgno \<Rightarrow> bool) \<Rightarrow> (pgno \<Rightarrow> nat \<Rightarrow> rc \<times> bytes) \<Rightarrow> (pgno \<Rightarrow> bytes) \<Rightarrow> bool" where
  "direct_ok directOk osRead P \<longleftrightarrow>
     (\<forall>p n bs. directOk p \<longrightarrow> n \<le> length (P p) \<longrightarrow> osRead p n = (SQLITE_OK, bs) \<longrightarrow> bs = take n (P p))"

lemma direct_read_eq:
  assumes "direct_read osRead p a iBuf pBuf = (SQLITE_OK, q, pBuf')" "direct_ok directOk osRead P" "directOk p"
    "a + 4 \<le> length (P p)" "4 \<le> iBuf" "iBuf + a \<le> length pBuf"
  shows "q = g4 (P p) 0 \<and> pBuf' = blit pBuf iBuf (subbytes (P p) 4 a)"
proof -
  obtain rc bs where o: "osRead p (a + 4) = (rc, bs)" by fastforce
  have rc: "rc = SQLITE_OK" using assms(1) o by (simp add: direct_read_def Let_def)
  have bs: "bs = take (a + 4) (P p)" using assms(2-4) o rc unfolding direct_ok_def by blast
  have r: "q = g4 (blit pBuf (iBuf - 4) bs) (iBuf - 4)"
    "pBuf' = blit (blit pBuf (iBuf - 4) bs) (iBuf - 4) (subbytes pBuf (iBuf - 4) 4)"
    using assms(1) o by (simp_all add: direct_read_def Let_def)
  have "q = g4 (P p) 0"
    unfolding r(1) using assms(4-6) by (intro g4_eqI) (auto simp: bs nth_blit byte_at_def)
  moreover have "pBuf' = blit pBuf iBuf (subbytes (P p) 4 a)"
    unfolding r(2) using assms(4-6) by (intro nth_equalityI) (auto simp: bs nth_blit subbytes_def add.commute)
  ultimately show ?thesis by blast
qed

text \<open>The cache knows no page but the ones of the chain \<open>qs\<close>.\<close>

definition cache_ok :: "bt_cursor \<Rightarrow> pgno list \<Rightarrow> bool" where
  "cache_ok cur qs \<longleftrightarrow> length qs \<le> length (aOverflow cur) \<and>
     (\<forall>i < length qs. aOverflow cur ! i = 0 \<or> aOverflow cur ! i = qs ! i)"

text \<open>Two cursors that differ at most in their caches.\<close>

definition same_cur :: "bt_cursor \<Rightarrow> bt_cursor \<Rightarrow> bool" where
  "same_cur cur cur' \<longleftrightarrow> (\<exists>a. cur' = cur\<lparr>aOverflow := a\<rparr>)"

lemma same_cur_refl [simp]: "same_cur cur cur"
  unfolding same_cur_def by (rule exI [of _ "aOverflow cur"]) simp

lemma same_cur_upd: "same_cur (cur\<lparr>aOverflow := a\<rparr>) cur' \<Longrightarrow> same_cur cur cur'"
  by (auto simp: same_cur_def)

lemma cache_ok_upd:
  "cache_ok cur qs \<Longrightarrow> i < length qs \<Longrightarrow> cache_ok (cur\<lparr>aOverflow := (aOverflow cur)[i := qs ! i]\<rparr>) qs"
  by (auto simp: cache_ok_def nth_list_update)

lemma subbytes_stored:
  assumes "subbytes P 4 (min m (length W)) = take m W" "offset + a \<le> m" "offset + a \<le> length W"
  shows "subbytes P (offset + 4) a = subbytes W offset a"
proof -
  have "subbytes P (offset + 4) a = subbytes (subbytes P 4 (min m (length W))) offset a"
    using assms(2,3) by (simp add: subbytes_def drop_take min_def add.commute)
  also have "\<dots> = subbytes W offset a" unfolding assms(1) using assms(2) by (simp add: subbytes_def drop_take min_def)
  finally show ?thesis .
qed

lemma subbytes_split:
  "a \<le> amt \<Longrightarrow> subbytes W offset amt = subbytes W offset a @ subbytes W (offset + a) (amt - a)"
  by (simp add: subbytes_def take_add [symmetric] add.commute flip: drop_drop)

lemma subbytes_drop: "m \<le> offset \<Longrightarrow> subbytes (drop m W) (offset - m) amt = subbytes W offset amt"
  by (simp add: subbytes_def)

lemma access_loop_read:
  assumes "access_loop directOk osRead m False db cur iIdx nextPage offset amt iBuf pBuf = (rc, pBuf', cur', db')"
    "stored (pg db) m nextPage (drop iIdx qs) W" "0 < amt" "offset + amt \<le> length W" "iBuf + amt \<le> length pBuf"
    "cache_ok cur qs" "0 < m" "set qs \<subseteq> {1..nPage (bts db)}" "\<And>p. m + 4 \<le> length (pg db p)"
    "direct_ok directOk osRead (pg db)"
  shows "if rc = SQLITE_OK then pBuf' = blit pBuf iBuf (subbytes W offset amt) \<and> same_db db db' \<and>
      cache_ok cur' qs \<and> same_cur cur cur'
    else rc \<in> set (pagerAns db) \<or> (\<exists>p n. rc = fst (osRead p n))"
  using assms
proof (induction "offset + amt" arbitrary: db cur iIdx nextPage offset amt iBuf pBuf W rule: less_induct)
  case less
  note prems = less.prems
  obtain q rest where d: "drop iIdx qs = q # rest" using prems(2-4) by (cases "drop iIdx qs") auto
  have i: "iIdx < length qs" "q = qs ! iIdx" "drop (iIdx + 1) qs = rest"
    using d by (metis drop_eq_Nil leI list.discI, metis nth_via_drop, metis Suc_eq_plus1 drop_Suc list.sel(3) tl_drop)
  have st: "nextPage = q" "subbytes (pg db q) 4 (min m (length W)) = take m W" "stored (pg db) m (g4 (pg db q) 0) rest (drop m W)"
    using prems(2) d by auto
  have q: "0 < q" "q \<le> nPage (bts db)" using prems(8) nth_mem [OF i(1)] i(2) by auto
  define cur1 where "cur1 = cur\<lparr>aOverflow := (aOverflow cur)[iIdx := q]\<rparr>"
  have c1: "cache_ok cur1 qs" using cache_ok_upd [OF prems(6) i(1)] i(2) by (simp add: cur1_def)
  have sc: "same_cur cur1 c \<Longrightarrow> same_cur cur c" for c unfolding cur1_def by (rule same_cur_upd)
  show ?case
  proof (cases "offset \<ge> m")
    case True
    define pr where "pr = (if aOverflow cur1 ! (iIdx + 1) \<noteq> 0 then (SQLITE_OK, aOverflow cur1 ! (iIdx + 1), db) else nextOverflow db q)"
    obtain rc1 n1 db1 where 1: "pr = (rc1, n1, db1)" using prod_cases3 by blast
    have e: "access_loop directOk osRead m False db cur iIdx nextPage offset amt iBuf pBuf =
       (if rc1 \<noteq> SQLITE_OK then (rc1, pBuf, cur1, db1)
        else access_loop directOk osRead m False db1 cur1 (iIdx + 1) n1 (offset - m) amt iBuf pBuf)"
      using True prems(3,7) q st(1) 1 unfolding pr_def
      by (subst access_loop.simps) (auto simp: cur1_def Let_def split: if_splits)
    have W: "drop m W \<noteq> []" using True prems(3,4) by simp
    then obtain r rs where rest: "rest = r # rs" using st(3) by (cases rest) auto
    have nx: "g4 (pg db q) 0 = qs ! (iIdx + 1)" "iIdx + 1 < length qs"
      using st(3) rest i(3) by (metis drop_eq_Nil leI list.discI nth_via_drop stored.simps(2))+
    show ?thesis
    proof (cases "rc1 = SQLITE_OK")
      case False
      then have "rc1 \<in> set (pagerAns db)" using 1 nextOverflow_same(2) [of db q] q(1) by (auto simp: pr_def split: if_splits)
      then show ?thesis using False e prems(1) by simp
    next
      case ok: True
      have "n1 = g4 (pg db q) 0 \<and> same_db db db1"
        using 1 ok nextOverflow_same(1) [of db q] c1 nx unfolding pr_def cache_ok_def by (auto split: if_splits)
      then have n1: "n1 = g4 (pg db q) 0" and sd: "same_db db db1" by auto
      have db1: "pg db1 = pg db" "bts db1 = bts db" "set (pagerAns db1) \<subseteq> set (pagerAns db)"
        using sd by (auto simp: same_db_def)
      have l: "access_loop directOk osRead m False db1 cur1 (iIdx + 1) n1 (offset - m) amt iBuf pBuf = (rc, pBuf', cur', db')"
        using e ok prems(1) by simp
      have "if rc = SQLITE_OK then pBuf' = blit pBuf iBuf (subbytes (drop m W) (offset - m) amt) \<and> same_db db1 db' \<and>
          cache_ok cur' qs \<and> same_cur cur1 cur'
        else rc \<in> set (pagerAns db1) \<or> (\<exists>p n. rc = fst (osRead p n))"
        by (rule less.hyps [OF _ l]) (use True prems(3-5,7-10) st(3) i(3) c1 n1 db1 in auto)
      then show ?thesis using sc same_db_trans [OF sd] db1(3) True by (auto simp: subbytes_drop split: if_splits)
    qed
  next
    case False
    define a where "a = (if amt + offset > m then m - offset else amt)"
    define pr where "pr = (if offset = 0 \<and> directOk q \<and> iBuf \<ge> 4 then
        case direct_read osRead q a iBuf pBuf of (rc, next, pBuf) \<Rightarrow> (rc, next, pBuf, db)
      else page_access db False q offset a iBuf pBuf)"
    obtain rc1 n1 buf1 db1 where 1: "pr = (rc1, n1, buf1, db1)" using prod_cases4 by blast
    have e: "access_loop directOk osRead m False db cur iIdx nextPage offset amt iBuf pBuf =
       (if amt - a = 0 then (rc1, buf1, cur1, db1) else if rc1 \<noteq> SQLITE_OK then (rc1, buf1, cur1, db1)
        else access_loop directOk osRead m False db1 cur1 (iIdx + 1) n1 0 (amt - a) (iBuf + a) buf1)"
    proof -
      have "access_loop directOk osRead m False db cur iIdx nextPage offset amt iBuf pBuf =
        (case pr of (rc, nextPage, pBuf, db) \<Rightarrow>
           if amt - a = 0 then (rc, pBuf, cur1, db) else if rc \<noteq> SQLITE_OK then (rc, pBuf, cur1, db)
           else access_loop directOk osRead m False db cur1 (iIdx + 1) nextPage 0 (amt - a) (iBuf + a) pBuf)"
        using False prems(3,7) q unfolding pr_def a_def cur1_def st(1)
        by (subst access_loop.simps) (simp add: Let_def split del: if_split)
      then show ?thesis by (simp add: 1)
    qed
    have a: "0 < a" "a \<le> amt" "offset + a \<le> m" using False prems(3) by (auto simp: a_def)
    have sb: "subbytes (pg db q) (offset + 4) a = subbytes W offset a"
      by (rule subbytes_stored [OF st(2) a(3)]) (use a(2) prems(4) in simp)
    show ?thesis
    proof (cases "rc1 = SQLITE_OK")
      case bad: False
      then have "rc1 \<in> set (pagerAns db) \<or> (\<exists>p n. rc1 = fst (osRead p n))"
        using 1 page_access_read(2) [of db q offset a iBuf pBuf] q(1) unfolding pr_def direct_read_def Let_def
        by (auto split: if_splits prod.splits) (metis fst_conv)
      then show ?thesis using bad e prems(1) by (auto split: if_splits)
    next
      case ok: True
      have "n1 = g4 (pg db q) 0 \<and> buf1 = blit pBuf iBuf (subbytes W offset a) \<and> same_db db db1"
      proof (cases "offset = 0 \<and> directOk q \<and> iBuf \<ge> 4")
        case True
        have "direct_read osRead q a iBuf pBuf = (SQLITE_OK, n1, buf1)" "db1 = db"
          using 1 ok True unfolding pr_def by (auto split: prod.splits)
        then show ?thesis
          using direct_read_eq [OF _ prems(10), of q a iBuf pBuf n1 buf1] True a prems(5) prems(9) [of q] sb by auto
      next
        case False
        then show ?thesis using 1 ok page_access_read(1) [of db q offset a iBuf pBuf] sb unfolding pr_def by auto
      qed
      then have n1: "n1 = g4 (pg db q) 0" and b1: "buf1 = blit pBuf iBuf (subbytes W offset a)" and sd: "same_db db db1" by auto
      have db1: "pg db1 = pg db" "bts db1 = bts db" "set (pagerAns db1) \<subseteq> set (pagerAns db)"
        using sd by (auto simp: same_db_def)
      show ?thesis
      proof (cases "amt = a")
        case True
        then show ?thesis using e prems(1) ok b1 sd c1 sc by auto
      next
        case ne: False
        then have am: "a < amt" "offset + a = m" using a by (auto simp: a_def split: if_splits)
        have l: "access_loop directOk osRead m False db1 cur1 (iIdx + 1) n1 0 (amt - a) (iBuf + a) buf1 = (rc, pBuf', cur', db')"
          using e ok prems(1) am(1) by simp
        have "if rc = SQLITE_OK then pBuf' = blit buf1 (iBuf + a) (subbytes (drop m W) 0 (amt - a)) \<and> same_db db1 db' \<and>
            cache_ok cur' qs \<and> same_cur cur1 cur'
          else rc \<in> set (pagerAns db1) \<or> (\<exists>p n. rc = fst (osRead p n))"
          by (rule less.hyps [OF _ l]) (use a am prems(3-5,7-10) st(3) i(3) c1 n1 db1 b1 in auto)
        moreover have "blit buf1 (iBuf + a) (subbytes (drop m W) 0 (amt - a)) = blit pBuf iBuf (subbytes W offset amt)"
        proof -
          have "length (subbytes W offset a) = a" using am prems(4) by simp
          then show ?thesis
            using blit_append [of pBuf iBuf "subbytes W offset a"] subbytes_split [of a amt W offset] am
            by (simp add: b1 subbytes_def)
        qed
        ultimately show ?thesis using sc same_db_trans [OF sd] db1(3) by (auto split: if_splits)
      qed
    qed
  qed
qed

lemma stored_length: "stored P m p qs W \<Longrightarrow> 0 < m \<Longrightarrow> length qs = (length W + m - 1) div m"
proof (induction P m p qs W rule: stored.induct)
  case (2 P m p q qs V)
  have st: "stored P m (g4 (P q) 0) qs (drop m V)" and l2: "0 < length V" using "2.prems"(1) by simp_all
  have l: "length qs = (length V - m + m - 1) div m" "0 < length V"
    using "2.IH" [OF st "2.prems"(2)] l2 by (simp_all only: length_drop)
  show ?case
  proof (cases "length V \<le> m")
    case True
    have e: "length V + m - 1 = (length V - 1) + m" using l(2) by linarith
    have "(length V + m - 1) div m = Suc ((length V - 1) div m)"
      unfolding e using "2.prems"(2) div_add_self2 [of m "length V - 1"] by linarith
    then show ?thesis using l True "2.prems"(2) by simp
  next
    case False
    have e: "length V + m - 1 = (length V - m + m - 1) + m" using False by linarith
    have "(length V + m - 1) div m = Suc (length qs)"
      unfolding e l(1) using "2.prems"(2) div_add_self2 [of m "length V - m + m - 1"] by linarith
    then show ?thesis by simp
  qed
qed simp

lemma stored_drop:
  "stored P m p qs W \<Longrightarrow> i < length qs \<Longrightarrow> stored P m (qs ! i) (drop i qs) (drop (i * m) W)"
proof (induction i arbitrary: p qs W)
  case 0
  then show ?case by (cases qs) auto
next
  case (Suc i)
  obtain q rs where qs: "qs = q # rs" using Suc.prems(2) by (cases qs) auto
  have "stored P m (rs ! i) (drop i rs) (drop (i * m) (drop m W))"
    by (rule Suc.IH [of "g4 (P q) 0"]) (use Suc.prems qs in auto)
  then show ?case by (simp add: qs add.commute)
qed

text \<open>
  The cursor points at a cell with key \<open>key\<close> and value \<open>V\<close>, whose overflow pages are \<open>qs\<close>.
\<close>

definition cursor_at :: "btree_db \<Rightarrow> bt_cursor \<Rightarrow> bytes \<Rightarrow> bytes \<Rightarrow> pgno list \<Rightarrow> bool" where
  "cursor_at db cur key V qs \<longleftrightarrow>
     ix cur < nCell (pCurPage cur) \<and> kv_leaf (bts db) (cur_page db cur) \<and>
     cell_value (pg db) (bts db) (cur_page db cur) (findCell (cur_page db cur) (ix cur)) key V qs \<and>
     findCell_ofst (cur_page db cur) (ix cur) + length (kv_header (length V) key) +
       local_size (bts db) (cur_page db cur) (length V) \<le> usableSize (bts db) \<and>
     length key \<le> 255 \<and> length V < 2 ^ 31 \<and> set qs \<subseteq> {1..nPage (bts db)} \<and>
     (nSize (info cur) = 0 \<or> info cur = btreeParseCell (bts db) (cur_page db cur) (ix cur)) \<and>
     (validOvfl cur \<longrightarrow> cache_ok cur qs) \<and> (\<forall>p. usableSize (bts db) \<le> length (pg db p))"

lemma getCellInfo_at:
  assumes "cursor_at db cur key V qs"
  shows "cursor_at db (getCellInfo db cur) key V qs"
    "nPayload (info (getCellInfo db cur)) = length V"
    "nLocal (info (getCellInfo db cur)) = local_size (bts db) (cur_page db cur) (length V)"
    "pPayload (info (getCellInfo db cur)) = length (kv_header (length V) key)"
    "info_key (info (getCellInfo db cur)) (findCell (cur_page db cur) (ix cur)) = key"
    "cur_page db (getCellInfo db cur) = cur_page db cur" "ix (getCellInfo db cur) = ix cur"
    "pCurPage (getCellInfo db cur) = pCurPage cur" "validOvfl (getCellInfo db cur) = validOvfl cur"
proof -
  obtain rest where c: "findCell (cur_page db cur) (ix cur) = kv_header (length V) key @
      take (local_size (bts db) (cur_page db cur) (length V)) V @ rest"
    using assms by (auto simp: cursor_at_def cell_value_def Let_def)
  have kv: "kv_leaf (bts db) (cur_page db cur)" "length V < 2 ^ 31" "length key \<le> 255"
    using assms by (auto simp: cursor_at_def)
  have "leaf (cur_page db cur)" using kv(1) by (simp add: kv_leaf_def)
  then have i: "info (getCellInfo db cur) = kvParseCellLeaf (bts db) (cur_page db cur) (findCell (cur_page db cur) (ix cur))"
    using assms by (auto simp: getCellInfo_def cursor_at_def btreeParseCell_def xParseCell_def)
  note p = parse_info [OF kv, of "take (local_size (bts db) (cur_page db cur) (length V)) V @ rest", folded c]
  show "nPayload (info (getCellInfo db cur)) = length V"
    "nLocal (info (getCellInfo db cur)) = local_size (bts db) (cur_page db cur) (length V)"
    "pPayload (info (getCellInfo db cur)) = length (kv_header (length V) key)"
    unfolding i p by simp_all
  show "info_key (info (getCellInfo db cur)) (findCell (cur_page db cur) (ix cur)) = key"
    unfolding i p info_key_def by (simp add: c kv_header_def subbytes_def)
  show [simp]: "cur_page db (getCellInfo db cur) = cur_page db cur" "ix (getCellInfo db cur) = ix cur"
    "pCurPage (getCellInfo db cur) = pCurPage cur" "validOvfl (getCellInfo db cur) = validOvfl cur"
    by (simp_all add: getCellInfo_def cur_page_def)
  have "aOverflow (getCellInfo db cur) = aOverflow cur" by (simp add: getCellInfo_def)
  then show "cursor_at db (getCellInfo db cur) key V qs"
    using assms i \<open>leaf (cur_page db cur)\<close>
    by (simp add: cursor_at_def cache_ok_def btreeParseCell_def xParseCell_def)
qed

lemma access_overflow_read:
  assumes r: "access_overflow directOk osRead junk db cur nextPage offset amt iBuf pBuf False = (rc, pBuf', cur', db')"
    and st: "stored (pg db) (usableSize (bts db) - 4) nextPage qs W" and amt: "0 < amt" "offset + amt \<le> length W"
    and W: "length W = nPayload (info cur) - nLocal (info cur)"
    and buf: "iBuf + amt \<le> length pBuf" and c: "validOvfl cur \<longrightarrow> cache_ok cur qs"
    and u: "4 < usableSize (bts db)" and q: "set qs \<subseteq> {1..nPage (bts db)}"
    and len: "\<And>p. usableSize (bts db) \<le> length (pg db p)" and d: "direct_ok directOk osRead (pg db)"
  shows "if rc = SQLITE_OK then pBuf' = blit pBuf iBuf (subbytes W offset amt) \<and> same_db db db' \<and> validOvfl cur' \<and>
      cache_ok cur' qs \<and> (\<exists>a. cur' = cur\<lparr>validOvfl := True, aOverflow := a\<rparr>)
    else rc \<in> set (pagerAns db) \<or> rc = SQLITE_NOMEM \<or> (\<exists>p n. rc = fst (osRead p n))"
proof -
  define m where "m = usableSize (bts db) - 4"
  have m: "0 < m" "\<And>p. m + 4 \<le> length (pg db p)" using u len by (auto simp: m_def)
  note st = st [folded m_def]
  have ql: "length qs = (length W + m - 1) div m" by (rule stored_length [OF st m(1)])
  show ?thesis
  proof (cases "validOvfl cur")
    case False
    have r': "(case overflow_cache junk db cur (length qs) of None \<Rightarrow> (SQLITE_NOMEM, pBuf, cur, db)
        | Some (cur, db) \<Rightarrow> access_loop directOk osRead m False db cur 0 nextPage offset amt iBuf pBuf) = (rc, pBuf', cur', db')"
      using r False unfolding access_overflow_def Let_def m_def [symmetric] W [symmetric] ql [symmetric] by simp
    show ?thesis
    proof (cases "overflow_cache junk db cur (length qs)")
      case None
      then show ?thesis using r' by auto
    next
      case (Some x)
      obtain cur1 db1 where x: "x = (cur1, db1)" by fastforce
      have c1: "cache_ok cur1 qs" "validOvfl cur1" "\<exists>a. cur1 = cur\<lparr>validOvfl := True, aOverflow := a\<rparr>" "same_db db db1"
        using Some x
        by (auto simp: overflow_cache_def Let_def cache_ok_def same_db_def nth_append split: if_splits prod.splits)
      have db1: "pg db1 = pg db" "bts db1 = bts db" "pagerAns db1 = pagerAns db"
        using Some x by (auto simp: overflow_cache_def Let_def split: if_splits prod.splits)
      have l: "access_loop directOk osRead m False db1 cur1 0 nextPage offset amt iBuf pBuf = (rc, pBuf', cur', db')"
        using r' Some x by simp
      have "if rc = SQLITE_OK then pBuf' = blit pBuf iBuf (subbytes W offset amt) \<and> same_db db1 db' \<and>
          cache_ok cur' qs \<and> same_cur cur1 cur'
        else rc \<in> set (pagerAns db1) \<or> (\<exists>p n. rc = fst (osRead p n))"
        by (rule access_loop_read [OF l]) (use st amt buf c1(1) m q d db1 in auto)
      then show ?thesis using c1 same_db_trans [OF c1(4)] db1(3) by (auto simp: same_cur_def split: if_splits)
    qed
  next
    case True
    then have ck: "cache_ok cur qs" using c by simp
    define i where "i = offset div m"
    have fin: ?thesis if l: "access_loop directOk osRead m False db cur k p ofs amt iBuf pBuf = (rc, pBuf', cur', db')"
        and k: "stored (pg db) m p (drop k qs) W'" "ofs + amt \<le> length W'" "subbytes W' ofs amt = subbytes W offset amt" for k p ofs W'
    proof -
      have "if rc = SQLITE_OK then pBuf' = blit pBuf iBuf (subbytes W' ofs amt) \<and> same_db db db' \<and>
          cache_ok cur' qs \<and> same_cur cur cur'
        else rc \<in> set (pagerAns db) \<or> (\<exists>p n. rc = fst (osRead p n))"
        by (rule access_loop_read [OF l]) (use k amt(1) buf ck m q d in auto)
      moreover have "\<exists>a. cur' = cur\<lparr>validOvfl := True, aOverflow := a\<rparr>" if "same_cur cur cur'"
      proof -
        have "cur\<lparr>validOvfl := True\<rparr> = cur" using True by (cases cur) simp
        then show ?thesis using that by (auto simp: same_cur_def)
      qed
      ultimately show ?thesis using k(3) True by (auto simp: same_cur_def split: if_splits)
    qed
    have o: "i * m + offset mod m = offset" by (simp add: i_def)
    have i: "i < length qs"
    proof -
      have "i * m < length W" using o amt by linarith
      then have "i * m + m \<le> length W + m - 1" by simp
      then have "(i + 1) * m div m \<le> (length W + m - 1) div m" by (intro div_le_mono) simp
      then show ?thesis using ql m(1) by simp
    qed
    show ?thesis
    proof (cases "aOverflow cur ! i = 0")
      case z: True
      then have "access_loop directOk osRead m False db cur 0 nextPage offset amt iBuf pBuf = (rc, pBuf', cur', db')"
        using r True by (simp add: access_overflow_def m_def i_def Let_def)
      then show ?thesis by (rule fin) (use st amt in auto)
    next
      case nz: False
      then have p: "aOverflow cur ! i = qs ! i" using ck i by (auto simp: cache_ok_def)
      have "access_loop directOk osRead m False db cur i (qs ! i) (offset mod m) amt iBuf pBuf = (rc, pBuf', cur', db')"
        using r True nz p by (simp add: access_overflow_def m_def i_def Let_def)
      then show ?thesis
      proof (rule fin)
        show "stored (pg db) m (qs ! i) (drop i qs) (drop (i * m) W)" by (rule stored_drop [OF st i])
        show "offset mod m + amt \<le> length (drop (i * m) W)" using o amt(2) by simp
        show "subbytes (drop (i * m) W) (offset mod m) amt = subbytes W offset amt"
          using subbytes_drop [of "i * m" offset W amt] o by (metis add_diff_cancel_left' le_add1)
      qed
    qed
  qed
qed

lemma accessPayload_read:
  assumes r: "accessPayload directOk osRead junk db cur offset amt pBuf False = (rc, pBuf', cur', db')"
    and at: "cursor_at db cur key V qs" and n: "offset + amt \<le> length V" "amt \<le> length pBuf"
    and d: "direct_ok directOk osRead (pg db)"
  shows "if rc = SQLITE_OK then pBuf' = blit pBuf 0 (subbytes V offset amt) \<and> same_db db db' \<and> cursor_at db' cur' key V qs
    else rc \<in> set (pagerAns db) \<or> rc = SQLITE_NOMEM \<or> (\<exists>p n. rc = fst (osRead p n))"
proof -
  define c where "c = getCellInfo db cur"
  define page where "page = cur_page db cur"
  define nl where "nl = local_size (bts db) page (length V)"
  define h where "h = length (kv_header (length V) key)"
  note g = getCellInfo_at [OF at, folded c_def page_def, folded nl_def h_def]
  define ap where "ap = findCell_ofst page (ix cur) + h"
  have u: "ap + nl \<le> usableSize (bts db)" "usableSize (bts db) \<le> 65536" "4 < usableSize (bts db)" "ix cur < nCell (pCurPage cur)"
      "set qs \<subseteq> {1..nPage (bts db)}" "\<And>p. usableSize (bts db) \<le> length (pg db p)"
    using at by (auto simp: cursor_at_def ap_def h_def nl_def page_def kv_leaf_def)
  have kv: "kv_leaf (bts db) page" using at by (simp add: cursor_at_def page_def)
  note b = local_size_bounds [OF kv, of "length V", folded nl_def]
  obtain rest where cell: "drop (findCell_ofst page (ix cur)) (aData page) = kv_header (length V) key @ take nl V @ rest"
    and ov: "if nl < length V then 4 \<le> length rest \<and> stored (pg db) (usableSize (bts db) - 4) (g4 rest 0) qs (drop nl V) else qs = []"
    using at unfolding cursor_at_def cell_value_def Let_def page_def nl_def findCell_def by blast
  have pd: "aData page = pg db (mpgno (pCurPage cur))" by (simp add: page_def cur_page_def)
  have dr: "drop ap (pg db (mpgno (pCurPage cur))) = take nl V @ rest"
    using cell unfolding ap_def pd by (metis append_eq_conv_conj drop_drop add.commute h_def)
  have loc: "subbytes (pg db (mpgno (pCurPage cur))) (ap + offset) a = subbytes V offset a" if "offset + a \<le> nl" for a
  proof -
    have "subbytes (pg db (mpgno (pCurPage cur))) (ap + offset) a = subbytes (take nl V @ rest) offset a"
      using dr by (simp add: subbytes_def flip: drop_drop add.commute [of offset ap])
    also have "\<dots> = subbytes V offset a"
      by (rule nth_equalityI) (use that b(2) in \<open>auto simp: subbytes_def nth_append\<close>)
    finally show ?thesis .
  qed
  have nx: "g4 (pg db (mpgno (pCurPage cur))) (ap + nl) = g4 rest 0"
    using dr b(2) unfolding g4_def by (metis append_eq_conv_conj drop_0 drop_drop add.commute length_take min.absorb2)
  define a where "a = (if offset < nl then if amt + offset > nl then nl - offset else amt else 0)"
  define off where "off = (if offset < nl then 0 else offset - nl)"
  define buf1 where "buf1 = blit pBuf 0 (subbytes V offset a)"
  have a: "a \<le> amt" "offset < nl \<Longrightarrow> offset + a \<le> nl" by (auto simp: a_def)
  have s32: "sub32 (usableSize (bts db)) nl = usableSize (bts db) - nl" by (rule sub32_le) (use u(1,2) in simp_all)
  have e: "accessPayload directOk osRead junk db cur offset amt pBuf False =
      (if amt - a = 0 then (SQLITE_OK, buf1, c, db)
       else access_overflow directOk osRead junk db c (g4 rest 0) off (amt - a) a buf1 False)"
  proof -
    have cp: "(if offset < nl then copyPayload db (mpgno (pCurPage cur)) (ap + offset) pBuf 0 a False else (SQLITE_OK, pBuf, db)) =
        (SQLITE_OK, buf1, db)"
      using loc [of a] a(2) by (auto simp: copyPayload_def buf1_def a_def subbytes_def)
    have in_page: "\<not> usableSize (bts db) - nl < ap" using u(1) by linarith
    show ?thesis
      unfolding accessPayload_def c_def [symmetric] Let_def g(3,4,6-8) ap_def [symmetric] a_def [symmetric]
        off_def [symmetric] cp s32 prod.case nx
      using in_page u(4) by simp
  qed
  show ?thesis
  proof (cases "amt = a")
    case True
    then show ?thesis using r e g(1) by (auto simp: buf1_def)
  next
    case False
    then have am: "0 < amt - a" using a(1) by simp
    have "nl < length V" using am n(1) b(2) by (auto simp: a_def split: if_splits)
    then have st: "stored (pg db) (usableSize (bts db) - 4) (g4 rest 0) qs (drop nl V)" using ov by simp
    have of: "off + nl = offset + a" using am by (auto simp: a_def off_def split: if_splits)
    have o: "access_overflow directOk osRead junk db c (g4 rest 0) off (amt - a) a buf1 False = (rc, pBuf', cur', db')"
      using r e am by simp
    have f: "if rc = SQLITE_OK then pBuf' = blit buf1 a (subbytes (drop nl V) off (amt - a)) \<and> same_db db db' \<and> validOvfl cur' \<and>
        cache_ok cur' qs \<and> (\<exists>a. cur' = c\<lparr>validOvfl := True, aOverflow := a\<rparr>)
      else rc \<in> set (pagerAns db) \<or> rc = SQLITE_NOMEM \<or> (\<exists>p n. rc = fst (osRead p n))"
      by (rule access_overflow_read [OF o st am])
        (use n of a(1) g(1-3) u d in \<open>auto simp: buf1_def cursor_at_def\<close>)
    have "blit buf1 a (subbytes (drop nl V) off (amt - a)) = blit pBuf 0 (subbytes V offset amt)"
    proof -
      have "length (subbytes V offset a) = a" using n(1) a(1) by simp
      moreover have "subbytes (drop nl V) off (amt - a) = subbytes V (offset + a) (amt - a)"
        using of by (simp add: subbytes_def add.commute)
      ultimately show ?thesis
        using blit_append [of pBuf 0 "subbytes V offset a"] subbytes_split [OF a(1), of V offset] by (simp add: buf1_def)
    qed
    moreover have "cursor_at db' cur' key V qs"
      if "same_db db db'" "cache_ok cur' qs" "\<exists>a. cur' = c\<lparr>validOvfl := True, aOverflow := a\<rparr>"
      using that g(1) by (auto simp: cursor_at_def same_db_def cur_page_def)
    ultimately show ?thesis using f by (auto split: if_splits)
  qed
qed

section \<open>A value that is written is read back\<close>

lemma g4_take: "4 \<le> length xs \<Longrightarrow> g4 (take 4 xs @ ys) 0 = g4 xs 0"
  by (rule g4_eqI) (auto simp: byte_at_def nth_append)

lemma cell_value_take:
  assumes v: "cell_value P pBt pPage cell key V qs" and kv: "kv_leaf pBt pPage" and k: "length key \<le> 255" "length V < 2 ^ 31"
    and sz: "sz = nSize (kvParseCellLeaf pBt pPage cell)"
  shows "cell_value P pBt pPage (take sz cell @ r) key V qs"
    "length (kv_header (length V) key) + local_size pBt pPage (length V) \<le> sz"
proof -
  define n where "n = local_size pBt pPage (length V)"
  let ?h = "kv_header (length V) key"
  obtain rest where c: "cell = ?h @ take n V @ rest"
    and o: "if n < length V then 4 \<le> length rest \<and> stored P (usableSize pBt - 4) (g4 rest 0) qs (drop n V) else qs = []"
    using v unfolding cell_value_def Let_def n_def by blast
  note b = local_size_bounds [OF kv, of "length V", folded n_def]
  have z: "sz = (if length V > maxLocal pPage then length ?h + n + 4 else if length ?h + n < 4 then 4 else length ?h + n)"
    using parse_info [OF kv k(2,1)] by (simp add: sz c n_def Let_def)
  show le: "length ?h + local_size pBt pPage (length V) \<le> sz" using z by (auto simp: n_def)
  have t: "take sz cell = ?h @ take n V @ take (sz - (length ?h + n)) rest"
  proof -
    have "length (?h @ take n V) = length ?h + n" using b(2) by simp
    then show ?thesis
      unfolding c append_assoc [symmetric] take_append using le by (simp add: n_def del: length_append)
  qed
  have "n < length V \<Longrightarrow> maxLocal pPage < length V" by (rule ccontr) (simp add: n_def local_size_def)
  then have "n < length V \<Longrightarrow> sz - (length ?h + n) = 4" using z by simp
  then show "cell_value P pBt pPage (take sz cell @ r) key V qs"
    unfolding cell_value_def Let_def n_def [symmetric] using o g4_take t
    by (intro exI [of _ "take (sz - (length ?h + n)) rest @ r"]) auto
qed

lemma cell_value_params:
  assumes "cell_value P pBt pPage cell key V qs" "usableSize pBt' = usableSize pBt"
    "maxLocal pPage' = maxLocal pPage" "minLocal pPage' = minLocal pPage" "\<And>q. q \<in> set qs \<Longrightarrow> P' q = P q"
  shows "cell_value P' pBt' pPage' cell key V qs"
proof -
  have "local_size pBt' pPage' (length V) = local_size pBt pPage (length V)"
    using assms(2-4) by (simp add: local_size_def Let_def)
  then show ?thesis
    using assms(1,2) stored_cong [OF _ assms(5)] unfolding cell_value_def Let_def by (auto split: if_splits)
qed

text \<open>
  The cursor of a page that has received the cell: the page \<open>p\<close> of the cursor now has the content \<open>d\<close>,
  in which cell number \<open>ix\<close> starts with the bytes of the cell.
\<close>

definition holds_cell :: "btree_db \<Rightarrow> bt_cursor \<Rightarrow> mempage \<Rightarrow> bytes \<Rightarrow> bool" where
  "holds_cell db cur pPage bs \<longleftrightarrow>
     ix cur < nCell (pCurPage cur) \<and> leaf (pCurPage cur) \<and> childPtrSize (pCurPage cur) = 0 \<and>
     maxLocal (pCurPage cur) = maxLocal pPage \<and> minLocal (pCurPage cur) = minLocal pPage \<and>
     nSize (info cur) = 0 \<and> \<not> validOvfl cur \<and>
     findCell_ofst (cur_page db cur) (ix cur) + length bs \<le> usableSize (bts db) \<and>
     take (length bs) (findCell (cur_page db cur) (ix cur)) = bs"

lemma holds_cell_at:
  assumes v: "cell_value P (bts db0) pPage cell key V qs" and kv: "kv_leaf (bts db0) pPage"
    and k: "length key \<le> 255" "length V < 2 ^ 31" and sz: "sz = nSize (kvParseCellLeaf (bts db0) pPage cell)"
    and h: "holds_cell db cur pPage (take sz cell)" and u: "usableSize (bts db) = usableSize (bts db0)"
    and P: "\<And>q. q \<in> set qs \<Longrightarrow> pg db q = P q" and q: "set qs \<subseteq> {1..nPage (bts db)}"
    and len: "\<And>p. usableSize (bts db) \<le> length (pg db p)" and s: "sz \<le> length cell"
  shows "cursor_at db cur key V qs"
proof -
  let ?page = "cur_page db cur"
  have pp: "maxLocal ?page = maxLocal pPage" "minLocal ?page = minLocal pPage" "leaf ?page" "childPtrSize ?page = 0"
    using h by (simp_all add: holds_cell_def cur_page_def)
  have ls: "local_size (bts db) ?page (length V) = local_size (bts db0) pPage (length V)"
    using pp u by (simp add: local_size_def Let_def)
  have f: "findCell ?page (ix cur) = take sz cell @ drop sz (findCell ?page (ix cur))"
    using h s unfolding holds_cell_def by (metis append_take_drop_id length_take min.absorb2)
  note ct = cell_value_take [OF v kv k sz]
  have "cell_value (pg db) (bts db) ?page (findCell ?page (ix cur)) key V qs"
    by (subst f) (rule cell_value_params [OF ct(1) u pp(1,2) P])
  moreover have "kv_leaf (bts db) ?page" using kv pp u by (simp add: kv_leaf_def)
  moreover have "findCell_ofst ?page (ix cur) + length (kv_header (length V) key) + local_size (bts db) ?page (length V) \<le> usableSize (bts db)"
  proof -
    have "findCell_ofst ?page (ix cur) + sz \<le> usableSize (bts db)" using h s by (simp add: holds_cell_def)
    then show ?thesis using ct(2) ls by linarith
  qed
  ultimately show ?thesis using h k q len unfolding cursor_at_def holds_cell_def by auto
qed

section \<open>Properties\<close>

text \<open>
  C3: A value that \<open>fillInCell\<close> has written, on the leaf and its overflow pages, is read back by
  \<open>sqlite3BtreeKvValueRead\<close>: once the page \<open>p\<close> of a cursor holds the cell, the cursor reports the key and
  the size of the value, and every read that succeeds, in any part of the value, through the pager or
  directly from the file, delivers the bytes written there.
\<close>

theorem value_roundtrip:
  assumes "fillInCell db pPage pCell key pData nZero = (SQLITE_OK, cell, sz, db')" "kv_leaf (bts db) pPage"
    "free_set db F" "length key \<le> 255" "length pData + nZero < 2 ^ 31"
    "nPage (bts db) + 2 * (length pData + nZero) < 4294967292" "usableSize (bts db) \<le> length pCell"
    "p = mpgno (pCurPage cur)" "p \<notin> F" "p \<le> nPage (bts db)" "length d = pageSize (bts db)"
    "holds_cell (set_page db' p d) cur pPage (take sz cell)"
    "offset + amt \<le> length pData + nZero" "amt \<le> length pBuf" "direct_ok directOk osRead (pg (set_page db' p d))"
    "sqlite3BtreeKvValueRead directOk osRead junk (set_page db' p d) cur offset amt pBuf = (SQLITE_OK, pBuf', cur', db2)"
  shows "fst (sqlite3BtreeKvKey (set_page db' p d) cur) = key \<and>
    fst (sqlite3BtreeKvValueSize (set_page db' p d) cur) = length pData + nZero \<and>
    take amt pBuf' = subbytes (pData @ replicate nZero 0) offset amt \<and> pg db2 = pg (set_page db' p d)"
proof -
  let ?V = "pData @ replicate nZero 0" and ?db = "set_page db' p d"
  obtain qs where qs: "cell_value (pg db') (bts db) pPage cell key ?V qs"
    "set qs \<subseteq> F \<union> {nPage (bts db)<..nPage (bts db')}" "set qs \<subseteq> {2..nPage (bts db')}" "free_set db' (F - set qs)"
    "frame (F \<union> set qs) db db'" "sz = nSize (kvParseCellLeaf (bts db) pPage cell)" "sz \<le> length cell"
    using fillInCell_post [OF assms(1-7)] by blast
  have ok: "db_ok db'" using qs(4) by (simp add: free_set_def)
  have sz: "usableSize (bts ?db) = usableSize (bts db)" "pageSize (bts db') = pageSize (bts db)"
    using qs(5) by (auto simp: frame_def)
  have p: "p \<notin> set qs" using qs(2) assms(9,10) by auto
  have at: "cursor_at ?db cur key ?V qs"
    by (rule holds_cell_at [OF qs(1) assms(2,4) _ qs(6) assms(12) sz(1)])
      (use p qs(3,7) assms(5,11) sz db_ok_simps(1,4) [OF ok] in auto)
  note g = getCellInfo_at [OF at]
  have "accessPayload directOk osRead junk ?db (getCellInfo ?db cur) offset amt pBuf False = (SQLITE_OK, pBuf', cur', db2)"
    using assms(13,16) g(2) by (simp add: sqlite3BtreeKvValueRead_def Let_def)
  from accessPayload_read [OF this g(1) _ assms(14,15)] assms(13)
  have r: "pBuf' = blit pBuf 0 (subbytes ?V offset amt)" "same_db ?db db2" by auto
  have "take amt pBuf' = subbytes ?V offset amt"
    using assms(13,14) by (simp add: r(1) blit_def subbytes_def)
  then show ?thesis
    using g(2,5,6,7) r(2) by (simp add: sqlite3BtreeKvKey_def sqlite3BtreeKvValueSize_def Let_def same_db_def)
qed

lemma stored_chain: "stored P m p qs V \<Longrightarrow> ovfl_chain P p qs"
  by (induction P m p qs V rule: stored.induct) auto

lemma cell_pointer:
  assumes v: "cell_value P pBt pPage cell key V qs" and kv: "kv_leaf pBt pPage" and k: "length key \<le> 255" "length V < 2 ^ 31"
    and big: "maxLocal pPage < length V"
  shows "stored P (usableSize pBt - 4) (g4 cell (nSize (kvParseCellLeaf pBt pPage cell) - 4)) qs (drop (local_size pBt pPage (length V)) V)"
    "nLocal (kvParseCellLeaf pBt pPage cell) = local_size pBt pPage (length V)" "nPayload (kvParseCellLeaf pBt pPage cell) = length V"
proof -
  define n where "n = local_size pBt pPage (length V)"
  note b = local_size_bounds(2,3) [OF kv, of "length V", folded n_def]
  obtain rest where c: "cell = kv_header (length V) key @ take n V @ rest"
    and o: "stored P (usableSize pBt - 4) (g4 rest 0) qs (drop n V)"
    using v b(2) big unfolding cell_value_def Let_def n_def by auto
  note i = parse_info [OF kv k(2,1), of "take n V @ rest", folded c n_def]
  show "nLocal (kvParseCellLeaf pBt pPage cell) = local_size pBt pPage (length V)" "nPayload (kvParseCellLeaf pBt pPage cell) = length V"
    unfolding i by (simp_all add: n_def)
  have "nSize (kvParseCellLeaf pBt pPage cell) - 4 = length (kv_header (length V) key) + n"
    unfolding i using big by (simp add: Let_def)
  moreover have "drop (length (kv_header (length V) key) + n) cell = rest" using b(1) by (simp add: c)
  ultimately show "stored P (usableSize pBt - 4) (g4 cell (nSize (kvParseCellLeaf pBt pPage cell) - 4)) qs
      (drop (local_size pBt pPage (length V)) V)"
    using o by (simp add: g4_def n_def)
qed

text \<open>
  C21: Overflow pages are not leaked: after writing a large value and then freeing the overflow chain of the
  cell, the free pages are exactly the pages that were free before and all the pages the file was extended by
  (except for the page of the pending byte, which is never used); the pages in use and the reference counts are
  as they were.
\<close>

theorem overflow_no_leak:
  assumes "fillInCell db pPage pCell key pData nZero = (SQLITE_OK, cell, sz, db')" "kv_leaf (bts db) pPage"
    "free_set db F" "length key \<le> 255" "length pData + nZero < 2 ^ 31" "maxLocal pPage < length pData + nZero"
    "nPage (bts db) + 2 * (length pData + nZero) < 4294967292" "usableSize (bts db) \<le> length pCell"
    "\<forall>q. q \<in> F \<or> nPage (bts db) < q \<longrightarrow> refs db q = 0"
    "clearCellOverflow db' ofst cell (kvParseCellLeaf (bts db) pPage cell) = (SQLITE_OK, db2)"
  shows "free_set db2 (F \<union> ({nPage (bts db)<..nPage (bts db')} - {PENDING_BYTE_PAGE db})) \<and>
    refs db2 = refs db \<and> (\<forall>q. q \<notin> F \<and> q \<noteq> 1 \<and> q \<le> nPage (bts db) \<longrightarrow> pg db2 q = pg db q)"
proof -
  let ?V = "pData @ replicate nZero 0" and ?i = "kvParseCellLeaf (bts db) pPage cell"
  let ?n = "local_size (bts db) pPage (length pData + nZero)" and ?u = "usableSize (bts db) - 4"
  obtain qs where qs: "cell_value (pg db') (bts db) pPage cell key ?V qs" "distinct qs"
    "set qs \<subseteq> F \<union> {nPage (bts db)<..nPage (bts db')}" "set qs \<subseteq> {2..nPage (bts db')}" "free_set db' (F - set qs)"
    "frame (F \<union> set qs) db db'" "refs db' = refs db" "set qs \<subseteq> F \<union> new_pages db db'" "new_pages db db' \<subseteq> set qs"
    using fillInCell_post [OF assms(1-5,7,8)] by blast
  have u: "usableSize (bts db') = usableSize (bts db)" using qs(6) by (auto simp: frame_def)
  have V: "length ?V < 2 ^ 31" "maxLocal pPage < length ?V" "length ?V = length pData + nZero" using assms(5,6) by simp_all
  note c = cell_pointer [OF qs(1) assms(2,4) V(1,2), unfolded V(3)]
  have n: "?n < length pData + nZero" using local_size_bounds(3) [OF assms(2)] assms(6) by blast
  have u4: "0 < ?u" using assms(2) by (auto simp: kv_leaf_def)
  have "free_set db2 (F - set qs \<union> set qs) \<and> refs db2 = refs db' \<and>
      (\<forall>q. q \<notin> F - set qs \<union> set qs \<union> {1} \<longrightarrow> pg db2 q = pg db' q)"
  proof (rule clearCellOverflow_post [OF assms(10) qs(5)])
    show "ovfl_chain (pg db') (g4 cell (nSize ?i - 4)) qs" using stored_chain [OF c(1)] .
    show "length qs = (nPayload ?i - nLocal ?i + (usableSize (bts db') - 4) - 1) div (usableSize (bts db') - 4)"
      using stored_length [OF c(1) u4] unfolding c(2,3) u V(3) length_drop .
    show "nPayload ?i + usableSize (bts db') < 2 ^ 32" using assms(2,5) c(3) u by (simp add: kv_leaf_def)
  qed (use qs(2-4,7) assms(9) n c(2,3) in \<open>auto simp: btreePagecount_def\<close>)
  moreover have "F - set qs \<union> set qs = F \<union> ({nPage (bts db)<..nPage (bts db')} - {PENDING_BYTE_PAGE db})"
    using qs(8,9) unfolding new_pages_def by blast
  moreover have "pg db2 q = pg db q" if "q \<notin> F" "q \<noteq> 1" "q \<le> nPage (bts db)" for q
  proof -
    have "q \<notin> F \<union> set qs" using that qs(3) by auto
    then show ?thesis using frame_content [OF qs(6) that(2)] calculation(1) that(2) by auto
  qed
  ultimately show ?thesis using qs(7) by simp
qed

text \<open>A leaf on page 1 with one cell, at offset 300: key 7 with the value 8, 9.\<close>

definition demo_leaf :: mempage where
  "demo_leaf = \<lparr>isInit = True, intKey = True, intKeyLeaf = True, mpgno = 1, leaf = True, hdrOffset = 100,
     childPtrSize = 0, nOverflow = 0, maxLocal = 229, minLocal = 39, cellOffset = 108, nFree = 0, nCell = 1,
     maskPage = 511, aiOvfl = [], apOvfl = [], aData = []\<rparr>"

definition demo_cursor :: bt_cursor where
  "demo_cursor = \<lparr>eState = CURSOR_VALID, skipNext = 0, aOverflow = [],
     info = \<lparr>pPayload = 0, nPayload = 0, nLocal = 0, nSize = 0, pKey = 0, nKeyLen = 0\<rparr>,
     validNKey = False, validOvfl = False, atLast = False, pgnoRoot = 1, iPage = 0, ix = 0, aiIdx = [],
     pCurPage = demo_leaf, apPage = [], curIntKey = True, savedKey = None, multiple = False,
     writeFlag = False, pinned = False, faultCode = SQLITE_OK\<rparr>"

definition demo_leaf_data :: bytes where
  "demo_leaf_data = replicate 108 0 @ [1, 44] @ replicate 190 0 @ [2, 1, 7, 8, 9] @ replicate 207 0"

lemma demo_fill: "fillInCell demo_db demo_leaf (replicate 512 0) [7] [8, 9] 0 = (SQLITE_OK, [2, 1, 7, 8, 9] @ replicate 507 0, 5, demo_db)"
proof -
  have h: "kv_header 2 [7] = [2, 1, 7]" by code_simp
  have "blit (blit (replicate 512 0) 0 [2, 1, 7]) 3 [8, 9] = [2, 1, 7, 8, 9] @ replicate 507 0"
    using blit_append [of "replicate 512 0" 0 "[2, 1, 7]" "[8, 9]"] by (simp add: blit_start numeral_3_eq_3)
  then show ?thesis
    by (subst fillInCell_eq [where N = 2 and h = 3]) (simp_all add: h demo_leaf_def)
qed

lemma demo_leaf_cell:
  "findCell_ofst (demo_leaf\<lparr>aData := demo_leaf_data\<rparr>) 0 = 300" "findCell (demo_leaf\<lparr>aData := demo_leaf_data\<rparr>) 0 = [2, 1, 7, 8, 9] @ replicate 207 0"
  by code_simp+

lemma demo_cur_page: "cur_page (set_page demo_db 1 demo_leaf_data) demo_cursor = demo_leaf\<lparr>aData := demo_leaf_data\<rparr>"
  by (simp add: cur_page_def demo_cursor_def demo_leaf_def)

lemma demo_kv_leaf: "kv_leaf (bts demo_db) demo_leaf"
  by (simp add: kv_leaf_def demo_leaf_def demo_db_def)

lemma demo_holds: "holds_cell (set_page demo_db 1 demo_leaf_data) demo_cursor demo_leaf (take 5 ([2, 1, 7, 8, 9] @ replicate 507 0))"
  unfolding holds_cell_def demo_cur_page
  using demo_leaf_cell by (simp add: demo_cursor_def) (simp add: demo_leaf_def demo_db_def)

lemma demo_info: "info (getCellInfo (set_page demo_db 1 demo_leaf_data) demo_cursor) =
    \<lparr>pPayload = 3, nPayload = 2, nLocal = 2, nSize = 5, pKey = 2, nKeyLen = 1\<rparr>"
proof -
  have "kv_header 2 [7] = [2, 1, 7]" by code_simp
  moreover have "kv_leaf (bts demo_db) (demo_leaf\<lparr>aData := demo_leaf_data\<rparr>)"
    using demo_kv_leaf by (simp add: kv_leaf_def)
  ultimately have "kvParseCellLeaf (bts demo_db) (demo_leaf\<lparr>aData := demo_leaf_data\<rparr>) ([2, 1, 7, 8, 9] @ replicate 207 0) =
      \<lparr>pPayload = 3, nPayload = 2, nLocal = 2, nSize = 5, pKey = 2, nKeyLen = 1\<rparr>"
    using parse_info [of "bts demo_db" "demo_leaf\<lparr>aData := demo_leaf_data\<rparr>" 2 "[7]" "[8, 9] @ replicate 207 0"]
    by (simp add: local_size_def demo_leaf_def Let_def)
  then show ?thesis
    using demo_leaf_cell(2) unfolding getCellInfo_def btreeParseCell_def xParseCell_def demo_cur_page
    by (simp add: demo_cursor_def) (simp add: demo_leaf_def)
qed

lemma demo_read: "fst (sqlite3BtreeKvValueRead (\<lambda>_. False) (\<lambda>_ _. (SQLITE_OK, [])) 0 (set_page demo_db 1 demo_leaf_data) demo_cursor 0 2 [0, 0]) = SQLITE_OK"
proof -
  let ?db = "set_page demo_db 1 demo_leaf_data"
  have c: "ix (getCellInfo ?db demo_cursor) = 0" "pCurPage (getCellInfo ?db demo_cursor) = demo_leaf"
    "getCellInfo ?db (getCellInfo ?db demo_cursor) = getCellInfo ?db demo_cursor"
    "cur_page ?db (getCellInfo ?db demo_cursor) = demo_leaf\<lparr>aData := demo_leaf_data\<rparr>"
    using demo_info demo_cur_page by (auto simp: getCellInfo_def demo_cursor_def cur_page_def)
  have "nCell demo_leaf = 1" "usableSize (bts ?db) = 512" by (simp_all add: demo_leaf_def demo_db_def)
  then show ?thesis
    unfolding sqlite3BtreeKvValueRead_def accessPayload_def Let_def c demo_info
    using demo_leaf_cell(1) by (simp add: sub32_le copyPayload_def)
qed

theorem value_roundtrip_witness:
  "\<exists>pBuf' cur' db2. sqlite3BtreeKvValueRead (\<lambda>_. False) (\<lambda>_ _. (SQLITE_OK, [])) 0 (set_page demo_db 1 demo_leaf_data) demo_cursor 0 2 [0, 0] =
      (SQLITE_OK, pBuf', cur', db2) \<and> take 2 pBuf' = [8, 9]"
proof -
  obtain pBuf' cur' db2 where r: "sqlite3BtreeKvValueRead (\<lambda>_. False) (\<lambda>_ _. (SQLITE_OK, [])) 0 (set_page demo_db 1 demo_leaf_data)
      demo_cursor 0 2 [0, 0] = (SQLITE_OK, pBuf', cur', db2)"
    using demo_read by (metis prod.collapse)
  have m: "mpgno (pCurPage demo_cursor) = 1" by (simp add: demo_cursor_def demo_leaf_def)
  have "fst (sqlite3BtreeKvKey (set_page demo_db 1 demo_leaf_data) demo_cursor) = [7] \<and>
    fst (sqlite3BtreeKvValueSize (set_page demo_db 1 demo_leaf_data) demo_cursor) = length [8, 9 :: u8] + 0 \<and>
    take 2 pBuf' = subbytes ([8, 9] @ replicate 0 0) 0 2 \<and> pg db2 = pg (set_page demo_db 1 demo_leaf_data)"
    by (rule value_roundtrip [OF demo_fill demo_kv_leaf demo_db_free_set _ _ _ _ _ _ _ _ demo_holds _ _ _ r])
      (simp_all add: m direct_ok_def demo_db_def demo_leaf_data_def)
  then show ?thesis using r by (auto simp: subbytes_def)
qed

text \<open>A value of 301 bytes takes one overflow page, page 2.\<close>

definition demo_db3 :: btree_db where
  "demo_db3 = (let d = p4 (replicate 512 0) 0 0 in
     demo_db\<lparr>bts := (bts demo_db)\<lparr>nPage := 2\<rparr>,
       pg := (\<lambda>_. replicate 512 0)(1 := p4 (replicate 512 0) 28 2, 2 := blit d 4 (replicate 262 0))\<rparr>)"

lemma demo_alloc: "allocateBtreePage demo_db 0 =
   (SQLITE_OK, 2, demo_db\<lparr>bts := (bts demo_db)\<lparr>nPage := 2\<rparr>, pg := (\<lambda>_. replicate 512 0)(1 := p4 (replicate 512 0) 28 2, 2 := replicate 512 0),
      refs := (\<lambda>p. if p = 1 \<or> p = 2 then 1 else 0)\<rparr>)"
  by (simp add: demo_db_def allocateBtreePage_def demo_fields [simplified] btreePagecount_def allocate_extend_def
      pager_rc_def pager_next_def set_page_def PENDING_BYTE_PAGE_def Let_def btreeGetUnusedPage_def
      btreeGetPage_def refPage_def fun_eq_iff numeral_2_eq_2)

lemma demo_fill_big: "\<exists>cell. fillInCell demo_db demo_leaf (replicate 512 0) [7] [8] 300 = (SQLITE_OK, cell, 47, demo_db3)"
proof -
  have h: "length (kv_header 301 [7]) = 4" by code_simp
  have ls: "local_size (bts demo_db) demo_leaf 301 = 39" by (simp add: local_size_def demo_leaf_def demo_db_def)
  have u: "usableSize (bts demo_db) = 512" "\<not> 301 \<le> maxLocal demo_leaf" "childPtrSize demo_leaf = 0" by (simp_all add: demo_db_def demo_leaf_def)
  have "releasePage (set_page (set_page (snd (snd (allocateBtreePage demo_db 0))) 2 (p4 (replicate 512 0) 0 0)) 2
      (blit (p4 (replicate 512 0) 0 0) 4 (replicate 262 0))) 2 = demo_db3"
    unfolding demo_alloc by (simp add: demo_db3_def demo_db_def set_page_def releasePage_def fun_eq_iff Let_def)
  then show ?thesis
    by (subst fillInCell_eq [where N = 301 and h = 4])
      (simp_all add: h ls u fill_seg fill_next_def demo_alloc release_opt_def Let_def)
qed

lemma demo_db3_fields: "g4 (pg demo_db3 1) 36 = 0" "pagerAns demo_db3 = []" "secureDelete (bts demo_db3) = False"
    "nPage (bts demo_db3) = 2" "refs demo_db3 2 = 0" "inCache demo_db3 = (\<lambda>_. False)" "usableSize (bts demo_db3) = 512"
    "pageSize (bts demo_db3) = 512"
  using demo_fields by (simp_all add: demo_db3_def demo_db_def g4_p4_other Let_def)

lemma demo_clear_chain: "fst (clear_chain (Suc 0) demo_db3 2) = SQLITE_OK"
  using demo_db3_fields
  by (simp add: btreePagecount_def btreePageLookup_def freePage2_def free_list_def free_zero_def free_trunk_def
      get_if_needed_def btreeGetPage_def pager_rc_def Let_def)

theorem overflow_no_leak_witness:
  "\<exists>cell db2. fillInCell demo_db demo_leaf (replicate 512 0) [7] [8] 300 = (SQLITE_OK, cell, 47, demo_db3) \<and>
     clearCellOverflow demo_db3 0 cell (kvParseCellLeaf (bts demo_db) demo_leaf cell) = (SQLITE_OK, db2) \<and>
     free_set db2 {2}"
proof -
  obtain cell where f: "fillInCell demo_db demo_leaf (replicate 512 0) [7] [8] 300 = (SQLITE_OK, cell, 47, demo_db3)"
    using demo_fill_big by blast
  have n: "nPage (bts demo_db) = 1" "usableSize (bts demo_db) = 512" by (simp_all add: demo_db_def)
  obtain qs where qs: "cell_value (pg demo_db3) (bts demo_db) demo_leaf cell [7] ([8] @ replicate 300 0) qs" "distinct qs"
    "set qs \<subseteq> {} \<union> {nPage (bts demo_db)<..nPage (bts demo_db3)}" "47 = nSize (kvParseCellLeaf (bts demo_db) demo_leaf cell)"
    using fillInCell_post [OF f demo_kv_leaf demo_db_free_set] n by auto
  have p: "stored (pg demo_db3) 508 (g4 cell 43) qs (drop 39 ([8] @ replicate 300 0))"
      "nLocal (kvParseCellLeaf (bts demo_db) demo_leaf cell) = 39" "nPayload (kvParseCellLeaf (bts demo_db) demo_leaf cell) = 301"
    using cell_pointer [OF qs(1) demo_kv_leaf] qs(4) n(2) by (simp_all add: demo_leaf_def local_size_def)
  then obtain q qs' where "qs = q # qs'" "g4 cell 43 = q" by (cases qs) auto
  moreover have "set qs \<subseteq> {2}" using qs(3) demo_db3_fields(4) n(1) by auto
  ultimately have g: "g4 cell 43 = 2" by auto
  have "clearCellOverflow demo_db3 0 cell (kvParseCellLeaf (bts demo_db) demo_leaf cell) = clear_chain (Suc 0) demo_db3 2"
    unfolding clearCellOverflow_def Let_def demo_db3_fields p(2,3) qs(4) [symmetric]
    by (simp add: g sub32_le del: clear_chain.simps)
  then obtain db2 where c: "clearCellOverflow demo_db3 0 cell (kvParseCellLeaf (bts demo_db) demo_leaf cell) = (SQLITE_OK, db2)"
    using demo_clear_chain by (metis prod.collapse)
  have "free_set db2 ({} \<union> ({nPage (bts demo_db)<..nPage (bts demo_db3)} - {PENDING_BYTE_PAGE demo_db})) \<and> refs db2 = refs demo_db \<and>
    (\<forall>q. q \<notin> {} \<and> q \<noteq> 1 \<and> q \<le> nPage (bts demo_db) \<longrightarrow> pg db2 q = pg demo_db q)"
    by (rule overflow_no_leak [OF f demo_kv_leaf demo_db_free_set _ _ _ _ _ _ c]) (simp_all add: demo_leaf_def demo_db_def)
  moreover have "{nPage (bts demo_db)<..nPage (bts demo_db3)} - {PENDING_BYTE_PAGE demo_db} = {2}"
    unfolding n(1) demo_db3_fields(4) by (auto simp: PENDING_BYTE_PAGE_def demo_db_def)
  ultimately show ?thesis using f c by auto
qed

end
