(* ===== verification/Cursor.thy ===== *)
theory Cursor
  imports Payload
begin

text \<open>
  Cursor movement (\<open>src/src/btree.c\<close>): from page to page (\<open>moveToRoot\<close>, \<open>moveToChild\<close>, \<open>moveToParent\<close>,
  \<open>moveToLeftmost\<close>, \<open>moveToRightmost\<close>), from entry to entry (\<open>sqlite3BtreeFirst\<close>, \<open>Last\<close>, \<open>Next\<close>,
  \<open>Previous\<close>), to a key (\<open>sqlite3BtreeKvMoveto\<close>), and saving and restoring a position while the tree
  changes.

  The assertions of the source and \<open>sqlite3FaultSim\<close>, which is 0 outside of tests, are not modelled.  A
  cursor has no \<open>pKeyInfo\<close>: the routines are only used on trees of byte-string keys.
\<close>

section \<open>Page objects\<close>

text \<open>
  The pager keeps a page object with every page in its cache; the memory of a page that enters the
  cache is zero.  The cursor holds a copy of the object, which does not change while the cursor is on it.
\<close>

record bt_state =
  sdb :: btree_db
  objs :: "pgno \<Rightarrow> mempage"

definition blank_page :: mempage where
  "blank_page = \<lparr>isInit = False, intKey = False, intKeyLeaf = False, mpgno = 0, leaf = False, hdrOffset = 0,
     childPtrSize = 0, nOverflow = 0, maxLocal = 0, minLocal = 0, cellOffset = 0, nFree = 0, nCell = 0,
     maskPage = 0, aiOvfl = [], apOvfl = [], aData = []\<rparr>"

definition sqlite3PagerGetExtra :: "bt_state \<Rightarrow> pgno \<Rightarrow> mempage" where
  "sqlite3PagerGetExtra st pgno = (if inCache (sdb st) pgno \<or> refs (sdb st) pgno > 0 then objs st pgno else blank_page)"

definition btreePageFromDbPage :: "btree_db \<Rightarrow> pgno \<Rightarrow> mempage \<Rightarrow> mempage" where
  "btreePageFromDbPage db pgno pPage =
     (if pgno \<noteq> mpgno pPage
      then pPage\<lparr>aData := pg db pgno, mpgno := pgno, hdrOffset := (if pgno = 1 then 100 else 0)\<rparr>
      else pPage\<lparr>aData := pg db pgno\<rparr>)"

definition getAndInitPage :: "bt_state \<Rightarrow> pgno \<Rightarrow> rc \<times> mempage \<times> bt_state" where
  "getAndInitPage st pgno =
     (if pgno > btreePagecount (sdb st) then (SQLITE_CORRUPT, blank_page, st)
      else case btreeGetPage (sdb st) pgno False of (rc, db) \<Rightarrow>
        if rc \<noteq> SQLITE_OK then (rc, blank_page, st\<lparr>sdb := db\<rparr>)
        else
          let pPage = sqlite3PagerGetExtra st pgno in
          if isInit pPage then (SQLITE_OK, pPage, st\<lparr>sdb := db, objs := (objs st)(pgno := pPage)\<rparr>)
          else case btreeInitPage (bts db) (btreePageFromDbPage db pgno pPage) of (rc, pPage) \<Rightarrow>
            let st = st\<lparr>sdb := db, objs := (objs st)(pgno := pPage)\<rparr>
            in if rc \<noteq> SQLITE_OK then (rc, blank_page, st\<lparr>sdb := releasePage db pgno\<rparr>)
               else (SQLITE_OK, pPage, st))"

text \<open>The children of the page under a cursor.\<close>

definition left_child :: "btree_db \<Rightarrow> bt_cursor \<Rightarrow> nat \<Rightarrow> pgno" where
  "left_child db cur i = g4 (findCell (cur_page db cur) i) 0"

definition right_child :: "btree_db \<Rightarrow> bt_cursor \<Rightarrow> pgno" where
  "right_child db cur = g4 (aData (cur_page db cur)) (hdrOffset (pCurPage cur) + 8)"

section \<open>From page to page\<close>

abbreviation BTCURSOR_MAX_DEPTH :: int where "BTCURSOR_MAX_DEPTH \<equiv> 20"

definition forget :: "bt_cursor \<Rightarrow> bt_cursor" where
  "forget cur = cur\<lparr>info := (info cur)\<lparr>nSize := 0\<rparr>, validNKey := False, validOvfl := False\<rparr>"

definition moveToChild :: "bt_state \<Rightarrow> bt_cursor \<Rightarrow> pgno \<Rightarrow> rc \<times> bt_cursor \<times> bt_state" where
  "moveToChild st cur newPgno =
     (if iPage cur \<ge> BTCURSOR_MAX_DEPTH - 1 then (SQLITE_CORRUPT, cur, st)
      else
        let cur = forget cur;
            cur = cur\<lparr>aiIdx := (aiIdx cur)[nat (iPage cur) := ix cur],
                      apPage := (apPage cur)[nat (iPage cur) := pCurPage cur],
                      ix := 0, iPage := iPage cur + 1\<rparr>
        in case getAndInitPage st newPgno of (rc, pPage, st) \<Rightarrow>
          let (rc, st) =
            (if rc = SQLITE_OK \<and> (nCell pPage < 1 \<or> intKey pPage \<noteq> curIntKey cur)
             then (SQLITE_CORRUPT, st\<lparr>sdb := releasePage (sdb st) newPgno\<rparr>) else (rc, st))
          in if rc \<noteq> SQLITE_OK
             then (rc, cur\<lparr>iPage := iPage cur - 1, pCurPage := apPage cur ! nat (iPage cur - 1)\<rparr>, st)
             else (SQLITE_OK, cur\<lparr>pCurPage := pPage\<rparr>, st))"

definition moveToParent :: "bt_state \<Rightarrow> bt_cursor \<Rightarrow> bt_cursor \<times> bt_state" where
  "moveToParent st cur =
     (let pLeaf = pCurPage cur; cur = forget cur
      in (cur\<lparr>ix := aiIdx cur ! nat (iPage cur - 1), pCurPage := apPage cur ! nat (iPage cur - 1),
              iPage := iPage cur - 1\<rparr>,
          st\<lparr>sdb := releasePage (sdb st) (mpgno pLeaf)\<rparr>))"

definition sqlite3BtreeClearCursor :: "bt_cursor \<Rightarrow> bt_cursor" where
  "sqlite3BtreeClearCursor cur = cur\<lparr>savedKey := None, eState := CURSOR_INVALID\<rparr>"

text \<open>The end of \<open>moveToRoot\<close>, from the label \<open>skip_init\<close> on.\<close>

definition root_ready :: "bt_state \<Rightarrow> bt_cursor \<Rightarrow> rc \<times> bt_cursor \<times> bt_state" where
  "root_ready st cur =
     (let pRoot = pCurPage cur; cur = (forget cur)\<lparr>ix := 0, atLast := False\<rparr>
      in if nCell pRoot > 0 then (SQLITE_OK, cur\<lparr>eState := CURSOR_VALID\<rparr>, st)
         else if \<not> leaf pRoot then
           if mpgno pRoot \<noteq> 1 then (SQLITE_CORRUPT, cur, st)
           else
             let subpage = right_child (sdb st) cur
             in moveToChild st (cur\<lparr>eState := CURSOR_VALID\<rparr>) subpage
         else (SQLITE_EMPTY, cur\<lparr>eState := CURSOR_INVALID\<rparr>, st))"

definition root_check :: "bt_state \<Rightarrow> bt_cursor \<Rightarrow> rc \<times> bt_cursor \<times> bt_state" where
  "root_check st cur =
     (if \<not> isInit (pCurPage cur) \<or> \<not> intKey (pCurPage cur) then (SQLITE_CORRUPT, cur, st) else root_ready st cur)"

definition moveToRoot :: "bt_state \<Rightarrow> bt_cursor \<Rightarrow> rc \<times> bt_cursor \<times> bt_state" where
  "moveToRoot st cur =
     (if iPage cur \<ge> 0 then
        if iPage cur \<noteq> 0 then
          let db = releasePage (sdb st) (mpgno (pCurPage cur));
              db = fold (\<lambda>i db. releasePage db (mpgno (apPage cur ! i))) (rev [1..<nat (iPage cur)]) db
          in root_ready (st\<lparr>sdb := db\<rparr>) (cur\<lparr>iPage := 0, pCurPage := apPage cur ! 0\<rparr>)
        else root_check st cur
      else if pgnoRoot cur = 0 then (SQLITE_EMPTY, cur\<lparr>eState := CURSOR_INVALID\<rparr>, st)
      else if eState cur = CURSOR_FAULT then (faultCode cur, cur, st)
      else
        let cur = (if eState cur = CURSOR_REQUIRESEEK then sqlite3BtreeClearCursor cur else cur)
        in case getAndInitPage st (pgnoRoot cur) of (rc, pPage, st) \<Rightarrow>
             if rc \<noteq> SQLITE_OK then (rc, cur\<lparr>eState := CURSOR_INVALID\<rparr>, st)
             else root_check st (cur\<lparr>pCurPage := pPage, iPage := 0, curIntKey := intKey pPage\<rparr>))"

lemma moveToChild_iPage:
  "moveToChild st cur p = (rc, cur', st') \<Longrightarrow>
   iPage cur' = (if rc = SQLITE_OK then iPage cur + 1 else iPage cur) \<and> (rc = SQLITE_OK \<longrightarrow> iPage cur < BTCURSOR_MAX_DEPTH - 1)"
  by (auto simp: moveToChild_def forget_def Let_def split: if_splits prod.splits)

function moveToLeftmost :: "bt_state \<Rightarrow> bt_cursor \<Rightarrow> rc \<times> bt_cursor \<times> bt_state" where
  "moveToLeftmost st cur =
     (if leaf (pCurPage cur) then (SQLITE_OK, cur, st)
      else case moveToChild st cur (left_child (sdb st) cur (ix cur)) of (rc, cur, st) \<Rightarrow>
        if rc \<noteq> SQLITE_OK then (rc, cur, st) else moveToLeftmost st cur)"
  by pat_completeness auto
termination
  by (relation "measure (\<lambda>(st, cur). nat (BTCURSOR_MAX_DEPTH - iPage cur))") (auto dest!: sym [of "(_, _, _)"] moveToChild_iPage)

function moveToRightmost :: "bt_state \<Rightarrow> bt_cursor \<Rightarrow> rc \<times> bt_cursor \<times> bt_state" where
  "moveToRightmost st cur =
     (if leaf (pCurPage cur) then (SQLITE_OK, cur\<lparr>ix := sub16 (nCell (pCurPage cur)) 1\<rparr>, st)
      else case moveToChild st (cur\<lparr>ix := nCell (pCurPage cur)\<rparr>) (right_child (sdb st) cur) of (rc, cur, st) \<Rightarrow>
        if rc \<noteq> SQLITE_OK then (rc, cur, st) else moveToRightmost st cur)"
  by pat_completeness auto
termination
  by (relation "measure (\<lambda>(st, cur). nat (BTCURSOR_MAX_DEPTH - iPage cur))") (auto dest!: sym [of "(_, _, _)"] moveToChild_iPage)

declare moveToLeftmost.simps [simp del] moveToRightmost.simps [simp del]

section \<open>The ends of the tree\<close>

text \<open>The result \<open>*pRes\<close> is \<open>None\<close> where it is not set.\<close>

definition sqlite3BtreeFirst :: "bt_state \<Rightarrow> bt_cursor \<Rightarrow> rc \<times> int option \<times> bt_cursor \<times> bt_state" where
  "sqlite3BtreeFirst st cur =
     (case moveToRoot st cur of (rc, cur, st) \<Rightarrow>
        if rc = SQLITE_OK then case moveToLeftmost st cur of (rc, cur, st) \<Rightarrow> (rc, Some 0, cur, st)
        else if rc = SQLITE_EMPTY then (SQLITE_OK, Some 1, cur, st)
        else (rc, None, cur, st))"

definition sqlite3BtreeIsEmpty :: "bt_state \<Rightarrow> bt_cursor \<Rightarrow> rc \<times> int option \<times> bt_cursor \<times> bt_state" where
  "sqlite3BtreeIsEmpty st cur =
     (if eState cur = CURSOR_VALID then (SQLITE_OK, Some 0, cur, st)
      else case moveToRoot st cur of (rc, cur, st) \<Rightarrow>
        if rc = SQLITE_EMPTY then (SQLITE_OK, Some 1, cur, st) else (rc, Some 0, cur, st))"

definition btreeLast :: "bt_state \<Rightarrow> bt_cursor \<Rightarrow> rc \<times> int option \<times> bt_cursor \<times> bt_state" where
  "btreeLast st cur =
     (case moveToRoot st cur of (rc, cur, st) \<Rightarrow>
        if rc = SQLITE_OK then
          case moveToRightmost st cur of (rc, cur, st) \<Rightarrow> (rc, Some 0, cur\<lparr>atLast := (rc = SQLITE_OK)\<rparr>, st)
        else if rc = SQLITE_EMPTY then (SQLITE_OK, Some 1, cur, st)
        else (rc, None, cur, st))"

definition sqlite3BtreeLast :: "bt_state \<Rightarrow> bt_cursor \<Rightarrow> rc \<times> int option \<times> bt_cursor \<times> bt_state" where
  "sqlite3BtreeLast st cur =
     (if eState cur = CURSOR_VALID \<and> atLast cur then (SQLITE_OK, Some 0, cur, st) else btreeLast st cur)"

section \<open>To a key\<close>

text \<open>
  The binary search in a page: the final \<open>lwr\<close>, \<open>idx\<close> and the result \<open>c\<close> of the last comparison.
\<close>

function kv_search :: "bt_shared \<Rightarrow> mempage \<Rightarrow> bytes \<Rightarrow> int \<Rightarrow> int \<Rightarrow> int \<Rightarrow> int \<times> int \<times> int" where
  "kv_search pBt pPage k lwr upr idx =
     (let c = kvKeyCompareCell pBt pPage (nat idx) k in
      if c = 0 then (lwr, idx, c)
      else
        let (lwr, upr) = (if c < 0 then (idx + 1, upr) else (lwr, idx - 1)) in
        if lwr > upr then (lwr, idx, c)
        else kv_search pBt pPage k lwr upr ((lwr + upr) div 2))"
  by pat_completeness auto
termination
  by (relation "measures [\<lambda>(_, _, _, lwr, upr, idx). if lwr \<le> idx \<and> idx \<le> upr then 0 else 1,
        \<lambda>(_, _, _, lwr, upr, idx). nat (upr - lwr + 1)]") (auto split: if_splits)

declare kv_search.simps [simp del]

text \<open>The loop of \<open>sqlite3BtreeKvMoveto\<close>, once per level.\<close>

function kv_moveto_loop :: "bytes \<Rightarrow> bool \<Rightarrow> bt_state \<Rightarrow> bt_cursor \<Rightarrow> rc \<times> int option \<times> bt_cursor \<times> bt_state" where
  "kv_moveto_loop k biasRight st cur =
     (let pPage = cur_page (sdb st) cur;
          upr = int (nCell pPage) - 1;
          (lwr, idx, c) = kv_search (bts (sdb st)) pPage k 0 upr (if biasRight then upr else upr div 2)
      in if leaf pPage then
           if c = 0 then
             (SQLITE_OK, Some 0, cur\<lparr>ix := nat idx mod 65536, validNKey := True, info := (info cur)\<lparr>nSize := 0\<rparr>\<rparr>, st)
           else (SQLITE_OK, Some c, cur\<lparr>ix := nat idx mod 65536, info := (info cur)\<lparr>nSize := 0\<rparr>\<rparr>, st)
         else
           let lwr = (if c = 0 then idx else lwr);
               chldPg = (if lwr \<ge> int (nCell pPage) then right_child (sdb st) cur else left_child (sdb st) cur (nat lwr))
           in case moveToChild st (cur\<lparr>ix := nat lwr mod 65536\<rparr>) chldPg of (rc, cur, st) \<Rightarrow>
                if rc \<noteq> SQLITE_OK then (rc, None, cur\<lparr>info := (info cur)\<lparr>nSize := 0\<rparr>\<rparr>, st)
                else kv_moveto_loop k biasRight st cur)"
  by pat_completeness auto
termination
  by (relation "measure (\<lambda>(k, b, st, cur). nat (BTCURSOR_MAX_DEPTH - iPage cur))") (auto dest!: sym [of "(_, _, _)"] moveToChild_iPage)

declare kv_moveto_loop.simps [simp del]

definition sqlite3BtreeKvMoveto :: "bt_state \<Rightarrow> bt_cursor \<Rightarrow> bytes \<Rightarrow> bool \<Rightarrow> rc \<times> int option \<times> bt_cursor \<times> bt_state" where
  "sqlite3BtreeKvMoveto st cur k biasRight =
     (if eState cur = CURSOR_VALID \<and> validNKey cur \<and> skipNext cur = 0 \<and>
         info_key (btreeParseCell (bts (sdb st)) (cur_page (sdb st) cur) (ix cur)) (findCell (cur_page (sdb st) cur) (ix cur)) = k
      then (SQLITE_OK, Some 0, cur, st)
      else case moveToRoot st cur of (rc, cur, st) \<Rightarrow>
        if rc = SQLITE_EMPTY then (SQLITE_OK, Some (-1), cur, st)
        else if rc \<noteq> SQLITE_OK then (rc, None, cur, st)
        else kv_moveto_loop k biasRight st cur)"

definition btreeMoveto :: "bt_state \<Rightarrow> bt_cursor \<Rightarrow> bytes \<Rightarrow> bool \<Rightarrow> rc \<times> int option \<times> bt_cursor \<times> bt_state" where
  "btreeMoveto st cur k bias = sqlite3BtreeKvMoveto st cur k bias"

section \<open>Saving and restoring a position\<close>

definition btreeReleaseAllCursorPages :: "bt_state \<Rightarrow> bt_cursor \<Rightarrow> bt_cursor \<times> bt_state" where
  "btreeReleaseAllCursorPages st cur =
     (if iPage cur \<ge> 0 then
        let db = fold (\<lambda>i db. releasePage db (mpgno (apPage cur ! i))) [0..<nat (iPage cur)] (sdb st)
        in (cur\<lparr>iPage := -1\<rparr>, st\<lparr>sdb := releasePage db (mpgno (pCurPage cur))\<rparr>)
      else (cur, st))"

definition saveCursorKey :: "bt_state \<Rightarrow> bt_cursor \<Rightarrow> rc \<times> bt_cursor \<times> bt_state" where
  "saveCursorKey st cur =
     (let cur = getCellInfo (sdb st) cur
      in case next_alloc (heapAns (sdb st)) of (ok, al) \<Rightarrow>
        let st = st\<lparr>sdb := (sdb st)\<lparr>heapAns := al\<rparr>\<rparr>
        in if ok then
             (SQLITE_OK, cur\<lparr>savedKey := Some (info_key (info cur) (findCell (cur_page (sdb st) cur) (ix cur)))\<rparr>, st)
           else (SQLITE_NOMEM, cur, st))"

definition saveCursorPosition :: "bt_state \<Rightarrow> bt_cursor \<Rightarrow> rc \<times> bt_cursor \<times> bt_state" where
  "saveCursorPosition st cur =
     (if pinned cur then (SQLITE_CONSTRAINT_PINNED, cur, st)
      else
        let cur = (if eState cur = CURSOR_SKIPNEXT then cur\<lparr>eState := CURSOR_VALID\<rparr> else cur\<lparr>skipNext := 0\<rparr>)
        in case saveCursorKey st cur of (rc, cur, st) \<Rightarrow>
          let (cur, st) =
            (if rc = SQLITE_OK then
               case btreeReleaseAllCursorPages st cur of (cur, st) \<Rightarrow> (cur\<lparr>eState := CURSOR_REQUIRESEEK\<rparr>, st)
             else (cur, st))
          in (rc, cur\<lparr>validNKey := False, validOvfl := False, atLast := False\<rparr>, st))"

text \<open>
  Saving the cursors of a list, but for the one at place \<open>except\<close>; \<open>i\<close> is the place of the first one.
\<close>

fun saveCursorsOnList :: "bt_state \<Rightarrow> pgno \<Rightarrow> nat option \<Rightarrow> nat \<Rightarrow> bt_cursor list \<Rightarrow> rc \<times> bt_cursor list \<times> bt_state" where
  "saveCursorsOnList st iRoot pExcept i [] = (SQLITE_OK, [], st)"
| "saveCursorsOnList st iRoot pExcept i (p # ps) =
     (let (rc, p, st) =
        (if pExcept \<noteq> Some i \<and> (iRoot = 0 \<or> pgnoRoot p = iRoot) then
           if eState p = CURSOR_VALID \<or> eState p = CURSOR_SKIPNEXT then saveCursorPosition st p
           else case btreeReleaseAllCursorPages st p of (p, st) \<Rightarrow> (SQLITE_OK, p, st)
         else (SQLITE_OK, p, st))
      in if rc \<noteq> SQLITE_OK then (rc, p # ps, st)
         else case saveCursorsOnList st iRoot pExcept (i + 1) ps of (rc, ps, st) \<Rightarrow> (rc, p # ps, st))"

definition saveAllCursors :: "bt_state \<Rightarrow> pgno \<Rightarrow> nat option \<Rightarrow> bt_cursor list \<Rightarrow> rc \<times> bt_cursor list \<times> bt_state" where
  "saveAllCursors st iRoot pExcept cs =
     (case List.find (\<lambda>i. pExcept \<noteq> Some i \<and> (iRoot = 0 \<or> pgnoRoot (cs ! i) = iRoot)) [0..<length cs] of
        Some i \<Rightarrow> (case saveCursorsOnList st iRoot pExcept i (drop i cs) of (rc, ps, st) \<Rightarrow> (rc, take i cs @ ps, st))
      | None \<Rightarrow>
          (SQLITE_OK, case pExcept of None \<Rightarrow> cs | Some e \<Rightarrow> cs[e := (cs ! e)\<lparr>multiple := False\<rparr>], st))"

definition btreeRestoreCursorPosition :: "bt_state \<Rightarrow> bt_cursor \<Rightarrow> rc \<times> bt_cursor \<times> bt_state" where
  "btreeRestoreCursorPosition st cur =
     (if eState cur = CURSOR_FAULT then (faultCode cur, cur, st)
      else case btreeMoveto st (cur\<lparr>eState := CURSOR_INVALID\<rparr>) (the (savedKey cur)) False of (rc, res, cur, st) \<Rightarrow>
        if rc = SQLITE_OK then
          let cur = cur\<lparr>savedKey := None\<rparr>;
              cur = (if res = Some 0 then cur else cur\<lparr>skipNext := the res\<rparr>);
              cur = (if skipNext cur \<noteq> 0 \<and> eState cur = CURSOR_VALID then cur\<lparr>eState := CURSOR_SKIPNEXT\<rparr> else cur)
          in (rc, cur, st)
        else (rc, cur, st))"

definition restoreCursorPosition :: "bt_state \<Rightarrow> bt_cursor \<Rightarrow> rc \<times> bt_cursor \<times> bt_state" where
  "restoreCursorPosition st cur =
     (if eState cur = CURSOR_REQUIRESEEK \<or> eState cur = CURSOR_FAULT then btreeRestoreCursorPosition st cur
      else (SQLITE_OK, cur, st))"

definition sqlite3BtreeCursorHasMoved :: "bt_cursor \<Rightarrow> bool" where
  "sqlite3BtreeCursorHasMoved cur = (eState cur \<noteq> CURSOR_VALID)"

definition sqlite3BtreeCursorRestore :: "bt_state \<Rightarrow> bt_cursor \<Rightarrow> rc \<times> bool \<times> bt_cursor \<times> bt_state" where
  "sqlite3BtreeCursorRestore st cur =
     (case restoreCursorPosition st cur of (rc, cur, st) \<Rightarrow>
        if rc \<noteq> SQLITE_OK then (rc, True, cur, st) else (SQLITE_OK, eState cur \<noteq> CURSOR_VALID, cur, st))"

section \<open>Opening a cursor\<close>

text \<open>Zeroing the fields before \<open>BTCURSOR_FIRST_UNINIT\<close>; the state with the value 0 is \<open>CURSOR_VALID\<close>.\<close>

definition sqlite3BtreeCursorZero :: "bt_cursor \<Rightarrow> bt_cursor" where
  "sqlite3BtreeCursorZero cur = cur\<lparr>eState := CURSOR_VALID, validNKey := False, validOvfl := False, atLast := False,
     multiple := False, writeFlag := False, pinned := False, skipNext := 0, faultCode := SQLITE_OK, aOverflow := [], savedKey := None\<rparr>"

text \<open>
  The cursors of the database are a list, the newest first; \<open>tmp\<close> tells whether \<open>pTmpSpace\<close> is allocated.  When
  it cannot be allocated, the new cursor is unlinked.
\<close>

definition allocateTempSpace :: "bt_state \<Rightarrow> bt_cursor list \<Rightarrow> rc \<times> bt_cursor list \<times> bool \<times> bt_state" where
  "allocateTempSpace st cs =
     (case next_alloc (heapAns (sdb st)) of (ok, al) \<Rightarrow>
        let st = st\<lparr>sdb := (sdb st)\<lparr>heapAns := al\<rparr>\<rparr>
        in if ok then (SQLITE_OK, cs, True, st) else (SQLITE_NOMEM, tl cs, False, st))"

definition btreeCursor ::
    "bt_state \<Rightarrow> bool \<Rightarrow> bt_cursor list \<Rightarrow> pgno \<Rightarrow> bool \<Rightarrow> bt_cursor \<Rightarrow> rc \<times> bt_cursor list \<times> bool \<times> bt_state" where
  "btreeCursor st tmp cs iTable wrFlag cur =
     (if iTable < 1 then (SQLITE_CORRUPT, cs, tmp, st)
      else
        let iTable = (if iTable \<le> 1 \<and> btreePagecount (sdb st) = 0 then 0 else iTable);
            cur = cur\<lparr>pgnoRoot := iTable, iPage := -1, validNKey := False, validOvfl := False, atLast := False, pinned := False,
              writeFlag := False, multiple := (\<exists>pX \<in> set cs. pgnoRoot pX = iTable)\<rparr>;
            cs = map (\<lambda>pX. if pgnoRoot pX = iTable then pX\<lparr>multiple := True\<rparr> else pX) cs;
            cur = cur\<lparr>eState := CURSOR_INVALID, writeFlag := wrFlag\<rparr>
        in if wrFlag \<and> \<not> tmp then allocateTempSpace st (cur # cs) else (SQLITE_OK, cur # cs, tmp, st))"

section \<open>From entry to entry\<close>

definition sqlite3BtreeEof :: "bt_cursor \<Rightarrow> bool" where
  "sqlite3BtreeEof cur = (eState cur \<noteq> CURSOR_VALID)"

text \<open>The estimate is computed in 64-bit arithmetic.\<close>

definition sqlite3BtreeRowCountEst :: "bt_cursor \<Rightarrow> i64" where
  "sqlite3BtreeRowCountEst cur =
     (if eState cur \<noteq> CURSOR_VALID then 0
      else if \<not> leaf (pCurPage cur) then -1
      else fold (\<lambda>i n. n * (of_nat (nCell (apPage cur ! i)) + 1)) [0..<nat (iPage cur)] (of_nat (nCell (pCurPage cur))))"

text \<open>
  The loop of \<open>btreeNext\<close> that leaves the pages the cursor is done with; the result is \<open>False\<close> when there is no
  page left.  (A cursor on a page has \<open>iPage \<ge> 0\<close>.)
\<close>

function next_climb :: "bt_state \<Rightarrow> bt_cursor \<Rightarrow> bool \<times> bt_cursor \<times> bt_state" where
  "next_climb st cur =
     (if iPage cur \<le> 0 then (False, cur\<lparr>eState := CURSOR_INVALID\<rparr>, st)
      else case moveToParent st cur of (cur, st) \<Rightarrow>
        if ix cur \<ge> nCell (pCurPage cur) then next_climb st cur else (True, cur, st))"
  by pat_completeness auto
termination
  by (relation "measure (\<lambda>(st, cur). nat (iPage cur))") (auto simp: moveToParent_def forget_def Let_def)

declare next_climb.simps [simp del]

lemma next_climb_iPage: "next_climb st cur = (True, cur', st') \<Longrightarrow> iPage cur' < iPage cur \<and> 0 < iPage cur"
proof (induction st cur rule: next_climb.induct)
  case (1 st cur)
  have p: "iPage (fst (moveToParent st cur)) = iPage cur - 1" by (simp add: moveToParent_def forget_def Let_def)
  from 1 p show ?case
    by (subst (asm) (2) next_climb.simps) (fastforce split: if_splits prod.splits)
qed

text \<open>
  \<open>sqlite3BtreeNext\<close> on a cursor in state \<open>CURSOR_VALID\<close>, and the part of \<open>btreeNext\<close> after the restoring of
  the position.
\<close>

function sqlite3BtreeNext_valid :: "bt_state \<Rightarrow> bt_cursor \<Rightarrow> rc \<times> bt_cursor \<times> bt_state"
  and btreeNext_valid :: "bt_state \<Rightarrow> bt_cursor \<Rightarrow> rc \<times> bt_cursor \<times> bt_state" where
  "sqlite3BtreeNext_valid st cur =
     (let cur = forget cur; idx = (ix cur + 1) mod 65536 in
      if idx \<ge> nCell (pCurPage cur) then btreeNext_valid st cur
      else if leaf (pCurPage cur) then (SQLITE_OK, cur\<lparr>ix := idx\<rparr>, st)
      else moveToLeftmost st (cur\<lparr>ix := idx\<rparr>))"
| "btreeNext_valid st cur =
     (let pPage = pCurPage cur; idx = (ix cur + 1) mod 65536; cur = cur\<lparr>ix := idx\<rparr> in
      if \<not> isInit pPage then (SQLITE_CORRUPT, cur, st)
      else if idx \<ge> nCell pPage then
        if \<not> leaf pPage then
          case moveToChild st cur (right_child (sdb st) cur) of (rc, cur, st) \<Rightarrow>
            if rc \<noteq> SQLITE_OK then (rc, cur, st) else moveToLeftmost st cur
        else
          case next_climb st cur of (found, cur, st) \<Rightarrow>
            if \<not> found then (SQLITE_DONE, cur, st)
            else if intKey (pCurPage cur) then sqlite3BtreeNext_valid st cur
            else (SQLITE_OK, cur, st)
      else if leaf pPage then (SQLITE_OK, cur, st)
      else moveToLeftmost st cur)"
  by pat_completeness auto
termination
  by (relation "measures [\<lambda>x. case x of Inl (st, cur) \<Rightarrow> nat (iPage cur) | Inr (st, cur) \<Rightarrow> nat (iPage cur),
        \<lambda>x. case x of Inl _ \<Rightarrow> 1 | Inr _ \<Rightarrow> 0]")
    (auto simp: forget_def dest!: sym [of "(_, _, _)"] next_climb_iPage)

declare sqlite3BtreeNext_valid.simps [simp del] btreeNext_valid.simps [simp del]

definition btreeNext :: "bt_state \<Rightarrow> bt_cursor \<Rightarrow> rc \<times> bt_cursor \<times> bt_state" where
  "btreeNext st cur =
     (if eState cur \<noteq> CURSOR_VALID then
        case restoreCursorPosition st cur of (rc, cur, st) \<Rightarrow>
          if rc \<noteq> SQLITE_OK then (rc, cur, st)
          else if eState cur = CURSOR_INVALID then (SQLITE_DONE, cur, st)
          else if eState cur = CURSOR_SKIPNEXT then
            let cur = cur\<lparr>eState := CURSOR_VALID\<rparr>
            in if skipNext cur > 0 then (SQLITE_OK, cur, st) else btreeNext_valid st cur
          else btreeNext_valid st cur
      else btreeNext_valid st cur)"

definition sqlite3BtreeNext :: "bt_state \<Rightarrow> bt_cursor \<Rightarrow> rc \<times> bt_cursor \<times> bt_state" where
  "sqlite3BtreeNext st cur =
     (if eState cur \<noteq> CURSOR_VALID then btreeNext st (forget cur) else sqlite3BtreeNext_valid st cur)"

function prev_climb :: "bt_state \<Rightarrow> bt_cursor \<Rightarrow> bool \<times> bt_cursor \<times> bt_state" where
  "prev_climb st cur =
     (if ix cur = 0 then
        if iPage cur \<le> 0 then (False, cur\<lparr>eState := CURSOR_INVALID\<rparr>, st)
        else case moveToParent st cur of (cur, st) \<Rightarrow> prev_climb st cur
      else (True, cur, st))"
  by pat_completeness auto
termination
  by (relation "measure (\<lambda>(st, cur). nat (iPage cur))") (auto simp: moveToParent_def forget_def Let_def)

declare prev_climb.simps [simp del]

text \<open>
  The part of \<open>btreePrevious\<close> after the restoring of the position.  The recursive call goes through
  \<open>sqlite3BtreePrevious\<close>, which for a page that is not a leaf only resets the flags.
\<close>

function btreePrevious_valid :: "bt_state \<Rightarrow> bt_cursor \<Rightarrow> rc \<times> bt_cursor \<times> bt_state" where
  "btreePrevious_valid st cur =
     (if \<not> isInit (pCurPage cur) then (SQLITE_CORRUPT, cur, st)
      else if \<not> leaf (pCurPage cur) then
        case moveToChild st cur (left_child (sdb st) cur (ix cur)) of (rc, cur, st) \<Rightarrow>
          if rc \<noteq> SQLITE_OK then (rc, cur, st) else moveToRightmost st cur
      else
        case prev_climb st cur of (found, cur, st) \<Rightarrow>
          if \<not> found then (SQLITE_DONE, cur, st)
          else
            let cur = cur\<lparr>ix := ix cur - 1\<rparr>
            in if intKey (pCurPage cur) \<and> \<not> leaf (pCurPage cur)
               then btreePrevious_valid st ((forget cur)\<lparr>atLast := False\<rparr>)
               else (SQLITE_OK, cur, st))"
  by pat_completeness auto
termination
  by (relation "measure (\<lambda>(st, cur). if leaf (pCurPage cur) then 1 else 0)") (auto simp: forget_def)

declare btreePrevious_valid.simps [simp del]

definition btreePrevious :: "bt_state \<Rightarrow> bt_cursor \<Rightarrow> rc \<times> bt_cursor \<times> bt_state" where
  "btreePrevious st cur =
     (if eState cur \<noteq> CURSOR_VALID then
        case restoreCursorPosition st cur of (rc, cur, st) \<Rightarrow>
          if rc \<noteq> SQLITE_OK then (rc, cur, st)
          else if eState cur = CURSOR_INVALID then (SQLITE_DONE, cur, st)
          else if eState cur = CURSOR_SKIPNEXT then
            let cur = cur\<lparr>eState := CURSOR_VALID\<rparr>
            in if skipNext cur < 0 then (SQLITE_OK, cur, st) else btreePrevious_valid st cur
          else btreePrevious_valid st cur
      else btreePrevious_valid st cur)"

definition sqlite3BtreePrevious :: "bt_state \<Rightarrow> bt_cursor \<Rightarrow> rc \<times> bt_cursor \<times> bt_state" where
  "sqlite3BtreePrevious st cur =
     (let cur = (forget cur)\<lparr>atLast := False\<rparr> in
      if eState cur \<noteq> CURSOR_VALID \<or> ix cur = 0 \<or> \<not> leaf (pCurPage cur) then btreePrevious st cur
      else (SQLITE_OK, cur\<lparr>ix := ix cur - 1\<rparr>, st))"

end
