(* ===== verification/CursorTree.thy ===== *)
theory CursorTree
  imports Cursor
begin

text \<open>
  Search trees in the file and cursors in them (\<open>src/src/btree.c\<close>): page objects that are up to date, the tree a
  set of pages represents with its keys in order, the path of pages a cursor holds, and the moves between pages
  and to the two ends of the tree.
\<close>

section \<open>Page objects\<close>

text \<open>The fields of a page object that the cursor routines read.\<close>

definition page_view :: "mempage \<Rightarrow> bool \<times> bool \<times> nat \<times> bool \<times> nat \<times> nat \<times> nat \<times> nat \<times> nat \<times> nat \<times> nat" where
  "page_view p = (isInit p, intKey p, mpgno p, leaf p, hdrOffset p, childPtrSize p, maxLocal p, minLocal p, cellOffset p,
     nCell p, maskPage p)"

lemma page_view_eq:
  "page_view p = page_view q \<longleftrightarrow>
     isInit p = isInit q \<and> intKey p = intKey q \<and> mpgno p = mpgno q \<and> leaf p = leaf q \<and> hdrOffset p = hdrOffset q \<and>
     childPtrSize p = childPtrSize q \<and> maxLocal p = maxLocal q \<and> minLocal p = minLocal q \<and> cellOffset p = cellOffset q \<and>
     nCell p = nCell q \<and> maskPage p = maskPage q"
  by (auto simp: page_view_def)

lemma xCellSize_cong: 
  "leaf p = leaf q \<Longrightarrow> maxLocal p = maxLocal q \<Longrightarrow> minLocal p = minLocal q \<Longrightarrow> xCellSize pBt p = xCellSize pBt q"
  by (rule ext) (simp add: xCellSize_def kvCellSizeLeaf_def kvCellSizeInterior_def Let_def split: prod.splits)

lemma xParseCell_cong:
  "leaf p = leaf q \<Longrightarrow> maxLocal p = maxLocal q \<Longrightarrow> minLocal p = minLocal q \<Longrightarrow> xParseCell pBt p = xParseCell pBt q"
  by (rule ext) (simp add: xParseCell_def kvParseCellLeaf_def kvParseCellInterior_def btreeParseCellAdjustSizeForOverflow_def Let_def split: prod.splits)

lemma cellsize_loop_cong:
  "page_view p = page_view q \<Longrightarrow> aData p = aData q \<Longrightarrow> cellsize_loop pBt p a b is = cellsize_loop pBt q a b is"
proof (induction "is")
  case (Cons i "is")
  then show ?case using xCellSize_cong [of p q] by (simp add: page_view_eq Let_def)
qed simp

lemma btreeCellSizeCheck_cong:
  "page_view p = page_view q \<Longrightarrow> aData p = aData q \<Longrightarrow> btreeCellSizeCheck pBt p = btreeCellSizeCheck pBt q"
  using cellsize_loop_cong [of p q] by (simp add: btreeCellSizeCheck_def page_view_eq)

text \<open>What a page object becomes is determined by the content of the page and its number.\<close>

lemma decodeFlags_keeps [simp]:
  "hdrOffset (snd (decodeFlags pBt p flag)) = hdrOffset p" "aData (snd (decodeFlags pBt p flag)) = aData p"
  "mpgno (snd (decodeFlags pBt p flag)) = mpgno p" "nFree (snd (decodeFlags pBt p flag)) = nFree p" "isInit (snd (decodeFlags pBt p flag)) = isInit p"
  by (simp_all add: decodeFlags_def)

lemma btreeInitPage_cong:
  assumes "hdrOffset p = hdrOffset q" "aData p = aData q" "mpgno p = mpgno q"
    and i: "btreeInitPage pBt q = (SQLITE_OK, q')"
  shows "fst (btreeInitPage pBt p) = SQLITE_OK \<and> page_view (snd (btreeInitPage pBt p)) = page_view q'
    \<and> aData (snd (btreeInitPage pBt p)) = aData q \<and> isInit q' \<and> mpgno q' = mpgno q \<and> intKey q' \<and> hdrOffset q' = hdrOffset q \<and> nCell q' < 65536"
proof -
  define fin where "fin p flag = (snd (decodeFlags pBt p flag))\<lparr>maskPage := (pageSize pBt - 1) mod 65536, nOverflow := 0, aiOvfl := [], apOvfl := [],
     cellOffset := (hdrOffset p + 8 + childPtrSize (snd (decodeFlags pBt p flag))) mod 65536, nCell := get2byte (drop 3 (drop (hdrOffset p) (aData p))),
     nFree := -1, isInit := True\<rparr>" for p flag
  have d: "fst (decodeFlags pBt p flag) = fst (decodeFlags pBt q flag)" for flag by (simp add: decodeFlags_def)
  have e: "btreeInitPage pBt p =
     (let flag = byte_at (drop (hdrOffset p) (aData p)) 0
      in if fst (decodeFlags pBt p flag) \<noteq> SQLITE_OK then (SQLITE_CORRUPT, snd (decodeFlags pBt p flag))
         else if get2byte (drop 3 (drop (hdrOffset p) (aData p))) > MX_CELL pBt then (SQLITE_CORRUPT, (fin p flag)\<lparr>nFree := nFree p, isInit := isInit p\<rparr>)
         else (if cellSizeCk pBt then btreeCellSizeCheck pBt (fin p flag) else SQLITE_OK, fin p flag))" for p
    by (simp add: btreeInitPage_def fin_def Let_def split_beta)
  have v: "fst (decodeFlags pBt q flag) = SQLITE_OK \<Longrightarrow> page_view (fin p flag) = page_view (fin q flag) \<and> aData (fin p flag) = aData (fin q flag)
    \<and> aData (fin q flag) = aData q \<and> isInit (fin q flag) \<and> mpgno (fin q flag) = mpgno q \<and> intKey (fin q flag) \<and> hdrOffset (fin q flag) = hdrOffset q \<and> nCell (fin q flag) < 65536" for flag
  proof -
    assume ok: "fst (decodeFlags pBt q flag) = SQLITE_OK"
    then consider "flag = PTF_LEAFDATA OR PTF_INTKEY OR PTF_LEAF" | "flag \<noteq> PTF_LEAFDATA OR PTF_INTKEY OR PTF_LEAF" "flag = PTF_LEAFDATA OR PTF_INTKEY"
      by (auto simp: decodeFlags_def split: if_splits)
    then have "leaf (snd (decodeFlags pBt p flag)) = leaf (snd (decodeFlags pBt q flag)) \<and>
      childPtrSize (snd (decodeFlags pBt p flag)) = childPtrSize (snd (decodeFlags pBt q flag)) \<and>
      maxLocal (snd (decodeFlags pBt p flag)) = maxLocal (snd (decodeFlags pBt q flag)) \<and>
      minLocal (snd (decodeFlags pBt p flag)) = minLocal (snd (decodeFlags pBt q flag)) \<and>
      intKey (snd (decodeFlags pBt p flag)) \<and> intKey (snd (decodeFlags pBt q flag))"
      by cases (simp_all add: decodeFlags_def)
    then show ?thesis using assms(1-3) by (simp add: fin_def page_view_eq get2byte_less)
  qed
  let ?f = "byte_at (drop (hdrOffset q) (aData q)) 0"
  have ok: "fst (decodeFlags pBt q ?f) = SQLITE_OK" "\<not> get2byte (drop 3 (drop (hdrOffset q) (aData q))) > MX_CELL pBt"
    "(if cellSizeCk pBt then btreeCellSizeCheck pBt (fin q ?f) else SQLITE_OK) = SQLITE_OK" "q' = fin q ?f"
    using i unfolding e by (auto simp: Let_def split: if_splits)
  have "btreeCellSizeCheck pBt (fin p ?f) = btreeCellSizeCheck pBt (fin q ?f)" using v [OF ok(1)] by (intro btreeCellSizeCheck_cong) simp_all
  then have "btreeInitPage pBt p = (SQLITE_OK, fin p ?f)" using ok unfolding e by (simp add: Let_def d assms(1,2) split: if_splits)
  then show ?thesis using v [OF ok(1)] ok(4) by simp
qed


text \<open>The object of a page that enters the cache.\<close>

definition the_page :: "btree_db \<Rightarrow> pgno \<Rightarrow> mempage" where
  "the_page db p = snd (btreeInitPage (bts db) (btreePageFromDbPage db p blank_page))"

text \<open>
  A page that can be fetched: it is in the file and well formed, and its object, if it is initialised, is
  up to date.
\<close>

definition good_page :: "bt_state \<Rightarrow> pgno \<Rightarrow> bool" where
  "good_page st p \<longleftrightarrow> 0 < p \<and> p \<le> btreePagecount (sdb st) \<and>
     fst (btreeInitPage (bts (sdb st)) (btreePageFromDbPage (sdb st) p blank_page)) = SQLITE_OK \<and>
     (isInit (objs st p) \<longrightarrow> page_view (objs st p) = page_view (the_page (sdb st) p)) \<and>
     (mpgno (objs st p) = p \<longrightarrow> hdrOffset (objs st p) = (if p = 1 then 100 else 0))"

text \<open>Moving a cursor changes the references and the objects of the pages only.\<close>

definition same_content :: "bt_state \<Rightarrow> bt_state \<Rightarrow> bool" where
  "same_content st st' \<longleftrightarrow> (\<exists>r a. sdb st' = (sdb st)\<lparr>refs := r, pagerAns := a\<rparr> \<and> set a \<subseteq> set (pagerAns (sdb st))) \<and>
     (\<forall>p. good_page st p \<longrightarrow> good_page st' p)"

definition calm :: "bt_state \<Rightarrow> bool" where
  "calm st \<longleftrightarrow> set (pagerAns (sdb st)) \<subseteq> {SQLITE_OK}"

lemma the_page_cong: "pg db = pg db' \<Longrightarrow> bts db = bts db' \<Longrightarrow> the_page db = the_page db'"
  by (rule ext) (simp add: the_page_def btreePageFromDbPage_def)

lemma the_page_upd [simp]: "the_page (db\<lparr>refs := r\<rparr>) = the_page db" "the_page (db\<lparr>pagerAns := a\<rparr>) = the_page db"
  "the_page (releasePage db p) = the_page db" "the_page (refPage db p) = the_page db"
  by (rule the_page_cong; simp)+

lemma good_page_cong:
  "pg (sdb st) = pg (sdb st') \<Longrightarrow> bts (sdb st) = bts (sdb st') \<Longrightarrow> objs st p = objs st' p \<Longrightarrow> good_page st p = good_page st' p"
  using the_page_cong [of "sdb st" "sdb st'"] by (simp add: good_page_def btreePagecount_def btreePageFromDbPage_def)

lemma good_pageD:
  assumes "good_page st p"
  shows "isInit (the_page (sdb st) p)" "mpgno (the_page (sdb st) p) = p" "intKey (the_page (sdb st) p)"
    "aData (the_page (sdb st) p) = pg (sdb st) p" "hdrOffset (the_page (sdb st) p) = (if p = 1 then 100 else 0)" "nCell (the_page (sdb st) p) < 65536"
proof -
  let ?q = "btreePageFromDbPage (sdb st) p blank_page"
  have "btreeInitPage (bts (sdb st)) ?q = (SQLITE_OK, the_page (sdb st) p)"
    using assms by (auto simp: good_page_def the_page_def intro: prod_eqI)
  from btreeInitPage_cong [OF refl refl refl this]
  show "isInit (the_page (sdb st) p)" "mpgno (the_page (sdb st) p) = p" "intKey (the_page (sdb st) p)"
    "aData (the_page (sdb st) p) = pg (sdb st) p" "hdrOffset (the_page (sdb st) p) = (if p = 1 then 100 else 0)" "nCell (the_page (sdb st) p) < 65536"
    using assms by (auto simp: the_page_def btreePageFromDbPage_def blank_page_def good_page_def split: if_splits)
qed

lemma same_content_refl [simp]: "same_content st st"
  unfolding same_content_def by (rule conjI, rule exI [of _ "refs (sdb st)"], rule exI [of _ "pagerAns (sdb st)"]) auto

lemma same_content_trans: "same_content st st' \<Longrightarrow> same_content st' st'' \<Longrightarrow> same_content st st''"
  unfolding same_content_def by (fastforce intro: order_trans)

lemma same_content_release: "same_content st (st\<lparr>sdb := releasePage (sdb st) p\<rparr>)"
proof -
  have "good_page (st\<lparr>sdb := releasePage (sdb st) p\<rparr>) q = good_page st q" for q by (rule good_page_cong) simp_all
  then show ?thesis unfolding same_content_def
    by (intro conjI exI [of _ "(refs (sdb st))(p := refs (sdb st) p - 1)"] exI [of _ "pagerAns (sdb st)"])
       (auto simp: releasePage_def)
qed

lemma same_contentD:
  assumes "same_content st st'"
  shows "pg (sdb st') = pg (sdb st)" "bts (sdb st') = bts (sdb st)" "the_page (sdb st') = the_page (sdb st)"
    "calm st \<Longrightarrow> calm st'" "good_page st p \<Longrightarrow> good_page st' p" "heapAns (sdb st') = heapAns (sdb st)"
  using assms by (auto simp: same_content_def calm_def intro: the_page_cong)

lemma getAndInitPage_good:
  assumes g: "good_page st p" and c: "calm st"
  obtains pPage st' where "getAndInitPage st p = (SQLITE_OK, pPage, st')" "page_view pPage = page_view (the_page (sdb st) p)"
    "same_content st st'"
proof -
  define db where "db = (sdb st)\<lparr>refs := (refs (sdb st))(p := refs (sdb st) p + 1), pagerAns := tl (pagerAns (sdb st))\<rparr>"
  have db: "btreeGetPage (sdb st) p False = (SQLITE_OK, db)" 
    using c g by (cases "pagerAns (sdb st)") (auto simp: btreeGetPage_def pager_call_def refPage_def good_page_def calm_def db_def pager_rc_def pager_next_def)
  have eq: "bts db = bts (sdb st)" "pg db = pg (sdb st)" by (simp_all add: db_def)
  let ?x = "sqlite3PagerGetExtra st p" and ?q = "btreePageFromDbPage (sdb st) p blank_page"
  have x: "?x = objs st p \<or> ?x = blank_page" by (simp add: sqlite3PagerGetExtra_def)
  have same: "page_view pPage = page_view (the_page (sdb st) p) \<Longrightarrow> same_content st (st\<lparr>sdb := db, objs := (objs st)(p := pPage)\<rparr>)" for pPage
  proof -
    assume v: "page_view pPage = page_view (the_page (sdb st) p)"
    have g': "good_page (st\<lparr>sdb := db, objs := (objs st)(p := pPage)\<rparr>) q" if "good_page st q" for q
    proof (cases "q = p")
      case True
      have "hdrOffset pPage = (if p = 1 then 100 else 0)" using v good_pageD(5) [OF g] by (simp add: page_view_eq)
      moreover have "btreePageFromDbPage db p blank_page = btreePageFromDbPage (sdb st) p blank_page"
        using eq by (simp add: btreePageFromDbPage_def)
      ultimately show ?thesis using True g v eq the_page_cong [OF eq(2,1)]
        by (simp add: good_page_def btreePagecount_def)
    next
      case False
      then show ?thesis using that good_page_cong [of st "st\<lparr>sdb := db, objs := (objs st)(p := pPage)\<rparr>" q] eq by simp
    qed
    have "set (tl (pagerAns (sdb st))) \<subseteq> set (pagerAns (sdb st))" by (cases "pagerAns (sdb st)") auto
    then show ?thesis unfolding same_content_def using g' by (auto simp: db_def)
  qed
  show thesis
  proof (cases "isInit ?x")
    case True
    then have "?x = objs st p" using x by (auto simp: blank_page_def)
    then show thesis using True g db same [of ?x] that by (auto simp: getAndInitPage_def good_page_def)
  next
    case False
    let ?y = "btreePageFromDbPage (sdb st) p ?x"
    have q: "btreeInitPage (bts (sdb st)) ?q = (SQLITE_OK, the_page (sdb st) p)"
      using g by (auto simp: good_page_def the_page_def intro: prod_eqI)
    have y: "hdrOffset ?y = hdrOffset ?q" "aData ?y = aData ?q" "mpgno ?y = mpgno ?q"
      using x g by (auto simp: btreePageFromDbPage_def good_page_def blank_page_def)
    from btreeInitPage_cong [OF y q] obtain r where r: "btreeInitPage (bts (sdb st)) ?y = (SQLITE_OK, r)" "page_view r = page_view (the_page (sdb st) p)"
      by (cases "btreeInitPage (bts (sdb st)) ?y") auto
    have e: "btreePageFromDbPage db p ?x = ?y" using eq by (simp add: btreePageFromDbPage_def)
    show thesis using that [OF _ r(2) same [OF r(2)]] False g db r(1) e eq by (simp add: getAndInitPage_def good_page_def)
  qed
qed

section \<open>Trees\<close>

text \<open>
  A tree of byte-string keys: the keys of a leaf, or the children of an interior page with the separators
  between them.
\<close>

datatype kv_tree = Leaf pgno "bytes list" | Node pgno "(kv_tree \<times> bytes) list" kv_tree

fun root_pg :: "kv_tree \<Rightarrow> pgno" where
  "root_pg (Leaf p ks) = p"
| "root_pg (Node p cs r) = p"

fun keys :: "kv_tree \<Rightarrow> bytes list" where
  "keys (Leaf p ks) = ks"
| "keys (Node p cs r) = concat (map (\<lambda>c. keys (fst c)) cs) @ keys r"

fun subtrees :: "kv_tree \<Rightarrow> kv_tree list" where
  "subtrees (Leaf p ks) = []"
| "subtrees (Node p cs r) = map fst cs @ [r]"

fun separators :: "kv_tree \<Rightarrow> bytes list" where
  "separators (Leaf p ks) = ks"
| "separators (Node p cs r) = map snd cs"

fun is_leaf :: "kv_tree \<Rightarrow> bool" where
  "is_leaf (Leaf p ks) = True"
| "is_leaf (Node p cs r) = False"

fun height :: "kv_tree \<Rightarrow> nat" where
  "height (Leaf p ks) = 0"
| "height (Node p cs r) = Suc (foldr max (map (\<lambda>c. height (fst c)) cs) (height r))"

fun all_nodes :: "kv_tree \<Rightarrow> kv_tree list" where
  "all_nodes (Leaf p ks) = [Leaf p ks]"
| "all_nodes (Node p cs r) = Node p cs r # concat (map (\<lambda>c. all_nodes (fst c)) cs) @ all_nodes r"

lemma keys_subtrees: "\<not> is_leaf t \<Longrightarrow> keys t = concat (map keys (subtrees t))"
  by (cases t) (simp_all add: comp_def)

lemma keys_leaf: "is_leaf t \<Longrightarrow> keys t = separators t"
  by (cases t) simp_all

lemma length_subtrees: "\<not> is_leaf t \<Longrightarrow> length (subtrees t) = Suc (length (separators t))"
  by (cases t) simp_all

lemma leaf_subtrees: "is_leaf t \<Longrightarrow> subtrees t = []"
  by (cases t) simp_all

lemma foldr_max: "x \<in> set xs \<Longrightarrow> x \<le> foldr max xs (y :: nat)" "y \<le> foldr max xs (y :: nat)"
  by (induction xs) (auto simp: le_max_iff_disj)

lemma height_subtree: "u \<in> set (subtrees t) \<Longrightarrow> height u < height t"
  by (cases t) (use foldr_max in \<open>force simp: less_Suc_eq_le\<close>)+

lemma all_nodes_self [simp]: "t \<in> set (all_nodes t)"
  by (cases t) simp_all

lemma all_nodes_subtree: "u \<in> set (subtrees t) \<Longrightarrow> set (all_nodes u) \<subseteq> set (all_nodes t)"
  by (cases t) auto

section \<open>Paths\<close>

fun locate :: "kv_tree \<Rightarrow> nat list \<Rightarrow> kv_tree" where
  "locate t [] = t"
| "locate t (i # is) = locate (subtrees t ! i) is"

fun path_ok :: "kv_tree \<Rightarrow> nat list \<Rightarrow> bool" where
  "path_ok t [] = True"
| "path_ok t (i # is) = (i < length (subtrees t) \<and> path_ok (subtrees t ! i) is)"

text \<open>How many keys of a subtree come before its child \<open>i\<close>, and of the tree before a subtree.\<close>

definition edge :: "kv_tree \<Rightarrow> nat \<Rightarrow> nat" where
  "edge t i = (if is_leaf t then i else length (concat (map keys (take i (subtrees t)))))"

fun before :: "kv_tree \<Rightarrow> nat list \<Rightarrow> nat" where
  "before t [] = 0"
| "before t (i # is) = edge t i + before (subtrees t ! i) is"

lemma locate_snoc [simp]: "locate t (is @ [i]) = subtrees (locate t is) ! i"
  by (induction "is" arbitrary: t) auto

lemma path_ok_snoc [simp]: "path_ok t (is @ [i]) \<longleftrightarrow> path_ok t is \<and> i < length (subtrees (locate t is))"
  by (induction "is" arbitrary: t) auto

lemma before_snoc [simp]: "before t (is @ [i]) = before t is + edge (locate t is) i"
  by (induction "is" arbitrary: t) auto

lemma path_ok_prefix: "path_ok t (is @ js) \<Longrightarrow> path_ok t is"
  by (induction "is" arbitrary: t) auto

lemma path_height: "path_ok t is \<Longrightarrow> length is + height (locate t is) \<le> height t"
proof (induction "is" arbitrary: t)
  case (Cons i "is")
  then have "height (subtrees t ! i) < height t" by (simp add: height_subtree)
  then show ?case using Cons.IH [of "subtrees t ! i"] Cons.prems by simp
qed simp

lemma path_nodes: "path_ok t is \<Longrightarrow> set (all_nodes (locate t is)) \<subseteq> set (all_nodes t)"
proof (induction "is" arbitrary: t)
  case (Cons i "is")
  have "set (all_nodes (subtrees t ! i)) \<subseteq> set (all_nodes t)" using Cons.prems by (intro all_nodes_subtree) simp
  then show ?case using Cons.IH [of "subtrees t ! i"] Cons.prems by auto
qed simp

lemma not_leaf_child: "i < length (subtrees t) \<Longrightarrow> \<not> is_leaf t"
  by (cases t) simp_all

lemma edge_child: "i < length (subtrees t) \<Longrightarrow>
  keys t = concat (map keys (take i (subtrees t))) @ keys (subtrees t ! i) @ concat (map keys (drop (Suc i) (subtrees t)))"
  by (metis (no_types) concat_append keys_subtrees not_leaf_child id_take_nth_drop map_append list.map(2) concat.simps(2))

lemma edge_Suc: "i < length (subtrees t) \<Longrightarrow> edge t (Suc i) = edge t i + length (keys (subtrees t ! i))"
  using not_leaf_child [of i t] by (simp add: edge_def take_Suc_conv_app_nth)

lemma edge_all: "\<not> is_leaf t \<Longrightarrow> edge t (length (subtrees t)) = length (keys t)"
  by (simp add: edge_def keys_subtrees)

lemma edge_0 [simp]: "edge t 0 = 0"
  by (simp add: edge_def)

lemma path_keys:
  "path_ok t is \<Longrightarrow> \<exists>xs ys. keys t = xs @ keys (locate t is) @ ys \<and> length xs = before t is"
proof (induction "is" arbitrary: t)
  case (Cons i "is")
  obtain xs ys where "keys (subtrees t ! i) = xs @ keys (locate (subtrees t ! i) is) @ ys" "length xs = before (subtrees t ! i) is"
    using Cons.IH [of "subtrees t ! i"] Cons.prems by auto
  moreover have "length (concat (map keys (take i (subtrees t)))) = edge t i"
    using Cons.prems not_leaf_child [of i t] by (simp add: edge_def)
  ultimately show ?case using edge_child [of i t] Cons.prems
    by (intro exI [of _ "concat (map keys (take i (subtrees t))) @ xs"] exI [of _ "ys @ concat (map keys (drop (Suc i) (subtrees t)))"]) simp
qed auto

section \<open>Trees in the file\<close>

definition cell_key :: "bt_shared \<Rightarrow> mempage \<Rightarrow> nat \<Rightarrow> bytes" where
  "cell_key pBt P i = info_key (xParseCell pBt P (findCell P i)) (findCell P i)"

definition child_ptr :: "mempage \<Rightarrow> nat \<Rightarrow> pgno" where
  "child_ptr P i = (if i < nCell P then g4 (findCell P i) 0 else g4 (aData P) (hdrOffset P + 8))"

definition node_at :: "bt_state \<Rightarrow> kv_tree \<Rightarrow> bool" where
  "node_at st u \<longleftrightarrow>
     (let P = the_page (sdb st) (root_pg u) in
      good_page st (root_pg u) \<and> leaf P = is_leaf u \<and> nCell P = length (separators u) \<and>
      (\<forall>i < length (separators u). cell_key (bts (sdb st)) P i = separators u ! i) \<and>
      (\<forall>i < length (subtrees u). child_ptr P i = root_pg (subtrees u ! i)))"

text \<open>Only the root may be an empty page: a leaf, or page 1 with a single child.\<close>

definition tree_at :: "bt_state \<Rightarrow> kv_tree \<Rightarrow> bool" where
  "tree_at st t \<longleftrightarrow> (\<forall>u \<in> set (all_nodes t). node_at st u) \<and> height t \<le> 19 \<and>
     (\<forall>v \<in> set (subtrees t). \<forall>u \<in> set (all_nodes v). separators u \<noteq> []) \<and>
     (separators t = [] \<longrightarrow> is_leaf t \<or> root_pg t = 1)"

lemma tree_at_same: "same_content st st' \<Longrightarrow> tree_at st t \<Longrightarrow> tree_at st' t"
  using same_contentD [of st st'] by (auto simp: tree_at_def node_at_def Let_def)

lemma tree_at_node: "tree_at st t \<Longrightarrow> path_ok t path \<Longrightarrow> node_at st (locate t path)"
  using path_nodes [of t path] by (force simp: tree_at_def)

lemma tree_at_full: "tree_at st t \<Longrightarrow> path_ok t path \<Longrightarrow> path \<noteq> [] \<Longrightarrow> separators (locate t path) \<noteq> []"
  using path_nodes [of "subtrees t ! hd path" "tl path"] by (cases path) (force simp: tree_at_def)+

section \<open>A cursor in a tree\<close>

text \<open>The cursor is on the page at the end of a path from the root.\<close>

definition on_path :: "bt_state \<Rightarrow> kv_tree \<Rightarrow> nat list \<Rightarrow> bt_cursor \<Rightarrow> bool" where
  "on_path st t path cur \<longleftrightarrow> path_ok t path \<and> iPage cur = int (length path) \<and> length (aiIdx cur) = 19 \<and> length (apPage cur) = 19 \<and>
     (\<forall>d < length path. aiIdx cur ! d = path ! d \<and>
        page_view (apPage cur ! d) = page_view (the_page (sdb st) (root_pg (locate t (take d path))))) \<and>
     page_view (pCurPage cur) = page_view (the_page (sdb st) (root_pg (locate t path))) \<and>
     curIntKey cur \<and> eState cur = CURSOR_VALID \<and> pgnoRoot cur = root_pg t"

text \<open>What moving a cursor keeps.\<close>

definition kept :: "bt_cursor \<Rightarrow> int \<times> bytes option \<times> bool \<times> bool" where
  "kept cur = (skipNext cur, savedKey cur, pinned cur, atLast cur)"

definition moves :: "bt_state \<Rightarrow> bt_cursor \<Rightarrow> bt_state \<Rightarrow> bt_cursor \<Rightarrow> bool" where
  "moves st cur st' cur' \<longleftrightarrow> same_content st st' \<and> kept cur' = kept cur"

lemma moves_refl [simp]: "moves st cur st cur"
  by (simp add: moves_def)

lemma moves_trans: "moves st cur st' cur' \<Longrightarrow> moves st' cur' st'' cur'' \<Longrightarrow> moves st cur st'' cur''"
  by (auto simp: moves_def intro: same_content_trans)

lemma forget_simps [simp]:
  "eState (forget cur) = eState cur" "skipNext (forget cur) = skipNext cur" "atLast (forget cur) = atLast cur"
  "pgnoRoot (forget cur) = pgnoRoot cur" "iPage (forget cur) = iPage cur" "ix (forget cur) = ix cur" "aiIdx (forget cur) = aiIdx cur"
  "pCurPage (forget cur) = pCurPage cur" "apPage (forget cur) = apPage cur" "curIntKey (forget cur) = curIntKey cur"
  "faultCode (forget cur) = faultCode cur" "savedKey (forget cur) = savedKey cur" "pinned (forget cur) = pinned cur" "nSize (info (forget cur)) = 0"
  "validNKey (forget cur) = False" "validOvfl (forget cur) = False" "kept (forget cur) = kept cur"
  by (simp_all add: forget_def kept_def)

lemma on_path_cong:
  "on_path st t path cur \<Longrightarrow> the_page (sdb st') = the_page (sdb st) \<Longrightarrow>
   iPage cur' = iPage cur \<Longrightarrow> aiIdx cur' = aiIdx cur \<Longrightarrow> apPage cur' = apPage cur \<Longrightarrow> pCurPage cur' = pCurPage cur \<Longrightarrow>
   curIntKey cur' = curIntKey cur \<Longrightarrow> eState cur' = eState cur \<Longrightarrow> pgnoRoot cur' = pgnoRoot cur \<Longrightarrow> on_path st' t path cur'"
  by (simp add: on_path_def)

lemma on_path_forget [simp]: "on_path st t path (forget cur) = on_path st t path cur"
  by (auto intro: on_path_cong)

lemma on_path_ix [simp]: "on_path st t path (cur\<lparr>ix := i\<rparr>) = on_path st t path cur"
  by (auto intro: on_path_cong)

text \<open>The page under the cursor is the one of the tree.\<close>

lemma on_path_page:
  assumes "on_path st t path cur" "tree_at st t"
  defines "u \<equiv> locate t path"
  shows "leaf (pCurPage cur) = is_leaf u" "nCell (pCurPage cur) = length (separators u)" "isInit (pCurPage cur)" "intKey (pCurPage cur)"
    "page_view (cur_page (sdb st) cur) = page_view (the_page (sdb st) (root_pg u))"
    "aData (cur_page (sdb st) cur) = aData (the_page (sdb st) (root_pg u))"
    "leaf (cur_page (sdb st) cur) = is_leaf u" "nCell (cur_page (sdb st) cur) = length (separators u)"
    "length path \<le> 19 - height u" "nCell (pCurPage cur) < 65536"
proof -
  have n: "node_at st u" using assms tree_at_node by (auto simp: on_path_def)
  have v: "page_view (pCurPage cur) = page_view (the_page (sdb st) (root_pg u))" using assms by (auto simp: on_path_def)
  note g = good_pageD [of st "root_pg u"]
  show "leaf (pCurPage cur) = is_leaf u" "nCell (pCurPage cur) = length (separators u)" "isInit (pCurPage cur)" "intKey (pCurPage cur)"
    "nCell (pCurPage cur) < 65536" using n v g by (auto simp: node_at_def page_view_eq Let_def)
  then show "leaf (cur_page (sdb st) cur) = is_leaf u" "nCell (cur_page (sdb st) cur) = length (separators u)" by (auto simp: cur_page_def)
  show "page_view (cur_page (sdb st) cur) = page_view (the_page (sdb st) (root_pg u))"
    using v by (simp add: cur_page_def page_view_eq)
  show "aData (cur_page (sdb st) cur) = aData (the_page (sdb st) (root_pg u))"
    using v n g by (simp add: cur_page_def page_view_eq node_at_def Let_def)
  show "length path \<le> 19 - height u" using path_height [of t path] assms by (auto simp: on_path_def tree_at_def)
qed

lemma findCell_cong: "page_view p = page_view q \<Longrightarrow> aData p = aData q \<Longrightarrow> findCell p = findCell q"
  by (rule ext) (simp add: findCell_def findCell_ofst_def page_view_eq)

lemma cell_key_cong: "page_view p = page_view q \<Longrightarrow> aData p = aData q \<Longrightarrow> cell_key pBt p = cell_key pBt q"
  using findCell_cong [of p q] xParseCell_cong [of p q pBt] by (intro ext) (simp add: cell_key_def page_view_eq)

lemma on_path_key:
  assumes "on_path st t path cur" "tree_at st t" "i < length (separators (locate t path))"
  shows "cell_key (bts (sdb st)) (cur_page (sdb st) cur) i = separators (locate t path) ! i"
proof -
  have "node_at st (locate t path)" using assms tree_at_node by (auto simp: on_path_def)
  then show ?thesis using assms(3) cell_key_cong [OF on_path_page(5,6) [OF assms(1,2)]] by (simp add: node_at_def Let_def)
qed

lemma on_path_child:
  assumes "on_path st t path cur" "tree_at st t" "i < length (subtrees (locate t path))"
  shows "(if i < nCell (pCurPage cur) then left_child (sdb st) cur i else right_child (sdb st) cur) = root_pg (subtrees (locate t path) ! i)"
proof -
  let ?P = "the_page (sdb st) (root_pg (locate t path))"
  have n: "node_at st (locate t path)" using assms tree_at_node by (auto simp: on_path_def)
  have v: "page_view (pCurPage cur) = page_view ?P" using assms by (auto simp: on_path_def)
  have "child_ptr ?P i = root_pg (subtrees (locate t path) ! i)"
    using n assms(3) by (simp add: node_at_def Let_def)
  then show ?thesis using findCell_cong [OF on_path_page(5,6) [OF assms(1,2)]] on_path_page(6) [OF assms(1,2)] v
    by (simp add: child_ptr_def left_child_def right_child_def page_view_eq split: if_splits)
qed

lemma moveToChild_tree:
  assumes p: "on_path st t path cur" and t: "tree_at st t" and c: "calm st"
    and i: "ix cur < length (subtrees (locate t path))"
  obtains cur' st' where "moveToChild st cur (root_pg (subtrees (locate t path) ! ix cur)) = (SQLITE_OK, cur', st')"
    "on_path st' t (path @ [ix cur]) cur'" "moves st cur st' cur'" "ix cur' = 0" "nSize (info cur') = 0" "\<not> validNKey cur'" "\<not> validOvfl cur'"
proof -
  let ?u = "subtrees (locate t path) ! ix cur"
  have ok: "path_ok t (path @ [ix cur])" using p i by (auto simp: on_path_def)
  have n: "node_at st ?u" using tree_at_node [OF t ok] by simp
  have f: "separators ?u \<noteq> []" using tree_at_full [OF t ok] by simp
  have "height ?u < height (locate t path)" using i by (simp add: height_subtree)
  then have l: "length path < 19" using on_path_page(9) [OF p t] by simp
  have g: "good_page st (root_pg ?u)" using n by (simp add: node_at_def Let_def)
  obtain q st' where q: "getAndInitPage st (root_pg ?u) = (SQLITE_OK, q, st')" "page_view q = page_view (the_page (sdb st) (root_pg ?u))"
    "same_content st st'" by (rule getAndInitPage_good [OF g c])
  have qn: "0 < nCell q" "intKey q" using n f q(2) good_pageD [OF g] by (auto simp: node_at_def Let_def page_view_eq)
  let ?cur = "(forget cur)\<lparr>aiIdx := (aiIdx cur)[length path := ix cur], apPage := (apPage cur)[length path := pCurPage cur],
    ix := 0, iPage := int (length path) + 1, pCurPage := q\<rparr>"
  have "moveToChild st cur (root_pg ?u) = (SQLITE_OK, ?cur, st')"
    using p l q(1) qn by (simp add: moveToChild_def Let_def on_path_def)
  moreover have "on_path st' t (path @ [ix cur]) ?cur"
    using p ok l q(2) by (auto simp: on_path_def same_contentD(3) [OF q(3)] nth_append nth_list_update less_Suc_eq)
  moreover have "moves st cur st' ?cur" using q(3) by (simp add: moves_def kept_def)
  ultimately show thesis by (rule that) simp_all
qed

text \<open>The number of the entry the cursor is on, or is heading for.\<close>

definition rank :: "kv_tree \<Rightarrow> nat list \<Rightarrow> nat \<Rightarrow> nat" where
  "rank t path i = before t path + edge (locate t path) i"

lemma moveToLeftmost_tree:
  assumes "on_path st t path cur" "tree_at st t" "calm st" "ix cur < length (separators (locate t path))"
  shows "\<exists>cur' st' path'. moveToLeftmost st cur = (SQLITE_OK, cur', st') \<and> on_path st' t path' cur' \<and> moves st cur st' cur' \<and>
    is_leaf (locate t path') \<and> ix cur' < length (separators (locate t path')) \<and> rank t path' (ix cur') = rank t path (ix cur) \<and>
    (nSize (info cur) = 0 \<longrightarrow> nSize (info cur') = 0) \<and> (\<not> validOvfl cur \<longrightarrow> \<not> validOvfl cur') \<and> (\<not> validNKey cur \<longrightarrow> \<not> validNKey cur')"
  using assms
proof (induction "height (locate t path)" arbitrary: st path cur rule: less_induct)
  case less
  note pg = on_path_page [OF less.prems(1,2)]
  show ?case
  proof (cases "is_leaf (locate t path)")
    case True
    then show ?thesis using less.prems pg(1) by (subst moveToLeftmost.simps) auto
  next
    case False
    then have i: "ix cur < length (subtrees (locate t path))" using less.prems(4) by (simp add: length_subtrees)
    let ?u = "subtrees (locate t path) ! ix cur"
    obtain cur1 st1 where m: "moveToChild st cur (root_pg ?u) = (SQLITE_OK, cur1, st1)"
      "on_path st1 t (path @ [ix cur]) cur1" "moves st cur st1 cur1" "ix cur1 = 0" "nSize (info cur1) = 0" "\<not> validNKey cur1" "\<not> validOvfl cur1"
      by (rule moveToChild_tree [OF less.prems(1-3) i])
    have sc: "same_content st st1" using m(3) by (simp add: moves_def)
    have lc: "left_child (sdb st) cur (ix cur) = root_pg ?u"
      using on_path_child [OF less.prems(1,2) i] less.prems(4) pg(2) by simp
    have f: "separators ?u \<noteq> []" using tree_at_full [OF less.prems(2), of "path @ [ix cur]"] m(2) by (simp add: on_path_def)
    have h: "height (locate t (path @ [ix cur])) < height (locate t path)" using i by (simp add: height_subtree)
    obtain cur2 st2 path2 where r: "moveToLeftmost st1 cur1 = (SQLITE_OK, cur2, st2)" "on_path st2 t path2 cur2" "moves st1 cur1 st2 cur2"
      "is_leaf (locate t path2)" "ix cur2 < length (separators (locate t path2))" "rank t path2 (ix cur2) = rank t (path @ [ix cur]) 0"
      "nSize (info cur2) = 0" "\<not> validOvfl cur2" "\<not> validNKey cur2"
      using less.hyps [OF h m(2)] tree_at_same [OF sc less.prems(2)] same_contentD(4) [OF sc less.prems(3)] f m(4-7) by auto
    have "moveToLeftmost st cur = (SQLITE_OK, cur2, st2)"
      using False pg(1) lc m(1) r(1) by (subst moveToLeftmost.simps) simp
    moreover have "rank t path2 (ix cur2) = rank t path (ix cur)" using r(6) by (simp add: rank_def)
    ultimately show ?thesis using r moves_trans [OF m(3) r(3)] by blast
  qed
qed

lemma moveToRightmost_tree:
  assumes "on_path st t path cur" "tree_at st t" "calm st" "separators (locate t path) \<noteq> []"
  shows "\<exists>cur' st' path'. moveToRightmost st cur = (SQLITE_OK, cur', st') \<and> on_path st' t path' cur' \<and> moves st cur st' cur' \<and>
    is_leaf (locate t path') \<and> ix cur' < length (separators (locate t path')) \<and>
    Suc (rank t path' (ix cur')) = before t path + length (keys (locate t path)) \<and>
    (nSize (info cur) = 0 \<longrightarrow> nSize (info cur') = 0) \<and> (\<not> validOvfl cur \<longrightarrow> \<not> validOvfl cur') \<and> (\<not> validNKey cur \<longrightarrow> \<not> validNKey cur')"
  using assms
proof (induction "height (locate t path)" arbitrary: st path cur rule: less_induct)
  case less
  note pg = on_path_page [OF less.prems(1,2)]
  note lt = pg(10)
  show ?case
  proof (cases "is_leaf (locate t path)")
    case True
    have "sub16 (nCell (pCurPage cur)) 1 = length (separators (locate t path)) - 1"
      using lt less.prems(4) pg(2) by (cases "separators (locate t path)") (simp_all add: sub16_def)
    moreover have "moves st cur st (cur\<lparr>ix := i\<rparr>)" for i by (simp add: moves_def kept_def)
    ultimately show ?thesis using less.prems pg(1) True
      by (subst moveToRightmost.simps) (auto simp: rank_def edge_def keys_leaf Suc_diff_Suc intro!: exI [of _ path])
  next
    case False
    let ?n = "length (separators (locate t path))" and ?cur = "cur\<lparr>ix := nCell (pCurPage cur)\<rparr>"
    have i: "ix ?cur < length (subtrees (locate t path))" using False pg(2) by (simp add: length_subtrees)
    let ?u = "subtrees (locate t path) ! ?n"
    have p: "on_path st t path ?cur" using less.prems(1) by simp
    obtain cur1 st1 where m: "moveToChild st ?cur (root_pg ?u) = (SQLITE_OK, cur1, st1)"
      "on_path st1 t (path @ [?n]) cur1" "moves st ?cur st1 cur1" "nSize (info cur1) = 0" "\<not> validNKey cur1" "\<not> validOvfl cur1"
      by (rule moveToChild_tree [OF p less.prems(2,3) i]) (use pg(2) in simp)
    have sc: "same_content st st1" using m(3) by (simp add: moves_def)
    have lc: "right_child (sdb st) cur = root_pg ?u"
      using on_path_child [OF less.prems(1,2), of ?n] i pg(2) by simp
    have f: "separators ?u \<noteq> []" using tree_at_full [OF less.prems(2), of "path @ [?n]"] m(2) by (simp add: on_path_def)
    have h: "height (locate t (path @ [?n])) < height (locate t path)" using i pg(2) by (simp add: height_subtree)
    obtain cur2 st2 path2 where r: "moveToRightmost st1 cur1 = (SQLITE_OK, cur2, st2)" "on_path st2 t path2 cur2" "moves st1 cur1 st2 cur2"
      "is_leaf (locate t path2)" "ix cur2 < length (separators (locate t path2))" "Suc (rank t path2 (ix cur2)) = before t (path @ [?n]) + length (keys ?u)"
      "nSize (info cur2) = 0" "\<not> validOvfl cur2" "\<not> validNKey cur2"
      using less.hyps [OF h m(2)] tree_at_same [OF sc less.prems(2)] same_contentD(4) [OF sc less.prems(3)] f m(4-6) by auto
    have "moveToRightmost st cur = (SQLITE_OK, cur2, st2)"
      using False pg(1) lc m(1) r(1) by (subst moveToRightmost.simps) simp
    moreover have "Suc (rank t path2 (ix cur2)) = before t path + length (keys (locate t path))"
      using r(6) edge_all [OF False] edge_Suc [of ?n "locate t path"] False by (simp add: length_subtrees)
    moreover have "moves st cur st2 cur2" using moves_trans [OF m(3) r(3)] by (simp add: moves_def kept_def)
    ultimately show ?thesis using r by blast
  qed
qed

section \<open>Positions\<close>

text \<open>The cursor is on entry number \<open>n\<close> of the tree; what it remembers of the entry is right.\<close>

definition at_entry :: "bt_state \<Rightarrow> kv_tree \<Rightarrow> bt_cursor \<Rightarrow> nat \<Rightarrow> bool" where
  "at_entry st t cur n \<longleftrightarrow>
     (\<exists>path. on_path st t path cur \<and> is_leaf (locate t path) \<and> ix cur < length (separators (locate t path)) \<and>
        n = rank t path (ix cur)) \<and>
     (atLast cur \<longrightarrow> Suc n = length (keys t)) \<and>
     (nSize (info cur) = 0 \<or> info cur = btreeParseCell (bts (sdb st)) (cur_page (sdb st) cur) (ix cur))"

text \<open>A cursor that is open on the tree; the pages it holds are those of a path.\<close>

definition opened :: "bt_state \<Rightarrow> kv_tree \<Rightarrow> bt_cursor \<Rightarrow> bool" where
  "opened st t cur \<longleftrightarrow> length (aiIdx cur) = 19 \<and> length (apPage cur) = 19 \<and> pgnoRoot cur = root_pg t \<and> eState cur \<noteq> CURSOR_FAULT \<and>
     (iPage cur = -1 \<or> (\<exists>path. on_path st t path (cur\<lparr>eState := CURSOR_VALID\<rparr>)))"

lemma on_path_opened: "on_path st t path cur \<Longrightarrow> opened st t cur"
  unfolding opened_def using on_path_cong [of st t path cur st "cur\<lparr>eState := CURSOR_VALID\<rparr>"] by (auto simp: on_path_def)

lemma at_entry_opened: "at_entry st t cur n \<Longrightarrow> opened st t cur"
  by (auto simp: at_entry_def intro: on_path_opened)

lemma rank_leaf: "is_leaf (locate t path) \<Longrightarrow> rank t path i = before t path + i"
  by (simp add: rank_def edge_def)

lemma rank_keys:
  assumes "path_ok t path" "is_leaf (locate t path)" "i < length (separators (locate t path))"
  shows "rank t path i < length (keys t)" "keys t ! rank t path i = separators (locate t path) ! i"
proof -
  obtain xs ys where "keys t = xs @ separators (locate t path) @ ys" "length xs = before t path"
    using path_keys [OF assms(1)] keys_leaf [OF assms(2)] by auto
  then show "rank t path i < length (keys t)" "keys t ! rank t path i = separators (locate t path) ! i"
    using assms(2,3) by (simp_all add: rank_leaf nth_append)
qed

lemma at_entry_less: "at_entry st t cur n \<Longrightarrow> n < length (keys t)"
  using rank_keys by (auto simp: at_entry_def on_path_def)

lemma full_keys: "(\<forall>u \<in> set (all_nodes v). separators u \<noteq> []) \<Longrightarrow> keys v \<noteq> []"
proof (induction "height v" arbitrary: v rule: less_induct)
  case less
  show ?case
  proof (cases v)
    case (Node p cs r)
    then have "keys r \<noteq> []" using less.prems less.hyps [of r] height_subtree [of r v] by auto
    then show ?thesis using Node by simp
  qed (use less.prems in auto)
qed

lemma tree_at_empty: "tree_at st t \<Longrightarrow> keys t = [] \<longleftrightarrow> is_leaf t \<and> separators t = []"
  using full_keys by (cases t) (auto simp: tree_at_def)

lemma tree_at_single: "tree_at st t \<Longrightarrow> separators t = [] \<Longrightarrow> \<not> is_leaf t \<Longrightarrow> subtrees t = [subtrees t ! 0] \<and> keys (subtrees t ! 0) = keys t"
  by (cases t) auto

section \<open>The root\<close>

lemma release_all: "same_content st (st\<lparr>sdb := fold (\<lambda>i db. releasePage db (f i)) is (sdb st)\<rparr>)"
proof (induction "is" arbitrary: st)
  case (Cons i "is")
  then show ?case
    using same_content_trans [OF same_content_release Cons.IH [of "st\<lparr>sdb := releasePage (sdb st) (f i)\<rparr>"]] by simp
qed simp

text \<open>Where the root is and that the cursor is on it.\<close>

lemma root_ready_tree:
  assumes p: "on_path st t [] (cur\<lparr>eState := CURSOR_VALID\<rparr>)" and t: "tree_at st t" and c: "calm st"
  shows "if keys t = [] then root_ready st cur = (SQLITE_EMPTY, (forget cur)\<lparr>ix := 0, atLast := False, eState := CURSOR_INVALID\<rparr>, st)
    else \<exists>cur' st' path. root_ready st cur = (SQLITE_OK, cur', st') \<and> on_path st' t path cur' \<and> same_content st st' \<and>
      ix cur' = 0 \<and> separators (locate t path) \<noteq> [] \<and> before t path = 0 \<and> keys (locate t path) = keys t \<and>
      nSize (info cur') = 0 \<and> \<not> validNKey cur' \<and> \<not> validOvfl cur' \<and> kept cur' = (skipNext cur, savedKey cur, pinned cur, False)"
proof -
  note pg = on_path_page [OF p t]
  have n: "mpgno (pCurPage cur) = root_pg t"
    using p t good_pageD(2) [of st "root_pg t"] tree_at_node [of st t "[]"] by (simp add: on_path_def page_view_eq node_at_def Let_def)
  let ?cur = "(forget cur)\<lparr>ix := 0, atLast := False, eState := CURSOR_VALID\<rparr>"
  have p': "on_path st t [] ?cur" using p by (rule on_path_cong) simp_all
  show ?thesis
  proof (cases "separators t = []")
    case True
    show ?thesis
    proof (cases "is_leaf t")
      case True
      then show ?thesis using \<open>separators t = []\<close> pg(1,2) tree_at_empty [OF t] by (simp add: root_ready_def Let_def)
    next
      case False
      note s = tree_at_single [OF t True False]
      have r: "root_pg t = 1" using t True False by (simp add: tree_at_def)
      have i: "ix ?cur < length (subtrees (locate t []))" using False by (simp add: length_subtrees)
      obtain cur' st' where m: "moveToChild st ?cur (root_pg (subtrees t ! 0)) = (SQLITE_OK, cur', st')"
        "on_path st' t [0] cur'" "moves st ?cur st' cur'" "ix cur' = 0" "nSize (info cur') = 0" "\<not> validNKey cur'" "\<not> validOvfl cur'"
        by (rule moveToChild_tree [OF p' t c i]) simp
      have "right_child (sdb st) ((forget cur)\<lparr>ix := 0, atLast := False\<rparr>) = root_pg (subtrees t ! 0)"
        using on_path_child [OF p' t, of 0] pg(2) True False by (simp add: length_subtrees right_child_def cur_page_def)
      then have e: "root_ready st cur = (SQLITE_OK, cur', st')"
        using pg(1,2) True False n r m(1) by (simp add: root_ready_def Let_def)
      have k: "kept cur' = (skipNext cur, savedKey cur, pinned cur, False)" "same_content st st'"
        using m(3) by (simp_all add: moves_def kept_def)
      have "separators (subtrees t ! 0) \<noteq> []" using tree_at_full [OF t, of "[0]"] m(2) by (simp add: on_path_def)
      moreover have "keys t \<noteq> []" using tree_at_empty [OF t] False by simp
      ultimately show ?thesis using e k m s by (auto intro!: exI [of _ "[0]"])
    qed
  next
    case False
    then have "root_ready st cur = (SQLITE_OK, ?cur, st)" using pg(2) by (simp add: root_ready_def Let_def)
    then show ?thesis using p' False tree_at_empty [OF t] by (auto simp: kept_def intro!: exI [of _ "[]"])
  qed
qed

lemma moveToRoot_tree:
  assumes o: "opened st t cur" and t: "tree_at st t" and c: "calm st"
  shows "if keys t = [] then \<exists>cur' st'. moveToRoot st cur = (SQLITE_EMPTY, cur', st') \<and> opened st' t cur' \<and> same_content st st' \<and>
      eState cur' = CURSOR_INVALID \<and> skipNext cur' = skipNext cur
    else \<exists>cur' st' path. moveToRoot st cur = (SQLITE_OK, cur', st') \<and> on_path st' t path cur' \<and> same_content st st' \<and>
      ix cur' = 0 \<and> separators (locate t path) \<noteq> [] \<and> before t path = 0 \<and> keys (locate t path) = keys t \<and>
      nSize (info cur') = 0 \<and> \<not> validNKey cur' \<and> \<not> validOvfl cur' \<and> \<not> atLast cur' \<and> skipNext cur' = skipNext cur \<and> pinned cur' = pinned cur"
proof -
  have root: "\<exists>st1 cur1. moveToRoot st cur = root_ready st1 cur1 \<and> on_path st1 t [] (cur1\<lparr>eState := CURSOR_VALID\<rparr>) \<and> same_content st st1 \<and>
    skipNext cur1 = skipNext cur \<and> pinned cur1 = pinned cur"
  proof (cases "iPage cur = -1")
    case True
    let ?cur = "if eState cur = CURSOR_REQUIRESEEK then sqlite3BtreeClearCursor cur else cur"
    have n: "node_at st t" using tree_at_node [OF t, of "[]"] by simp
    then have g: "good_page st (root_pg t)" by (simp add: node_at_def Let_def)
    obtain q st' where q: "getAndInitPage st (root_pg t) = (SQLITE_OK, q, st')" "page_view q = page_view (the_page (sdb st) (root_pg t))"
      "same_content st st'" by (rule getAndInitPage_good [OF g c])
    have i: "isInit q" "intKey q" using q(2) good_pageD [OF g] by (simp_all add: page_view_eq)
    let ?c = "?cur\<lparr>pCurPage := q, iPage := 0, curIntKey := intKey q\<rparr>"
    have "pgnoRoot cur \<noteq> 0" using o g by (simp add: opened_def good_page_def)
    then have "moveToRoot st cur = root_ready st' ?c"
      using True o q(1) i by (simp add: moveToRoot_def opened_def root_check_def sqlite3BtreeClearCursor_def)
    moreover have "on_path st' t [] (?c\<lparr>eState := CURSOR_VALID\<rparr>)"
      using o q(2,3) i by (simp add: on_path_def opened_def same_contentD(3) sqlite3BtreeClearCursor_def)
    moreover have "skipNext ?c = skipNext cur \<and> pinned ?c = pinned cur" by (simp add: sqlite3BtreeClearCursor_def)
    ultimately show ?thesis using q(3) by blast
  next
    case False
    then obtain path where p: "on_path st t path (cur\<lparr>eState := CURSOR_VALID\<rparr>)" using o by (auto simp: opened_def)
    show ?thesis
    proof (cases path)
      case Nil
      have "moveToRoot st cur = root_ready st cur"
        using p Nil on_path_page(3,4) [OF p t] by (simp add: moveToRoot_def root_check_def on_path_def)
      then show ?thesis using p Nil by (intro exI [of _ st] exI [of _ cur]) simp
    next
      case (Cons a list)
      let ?st1 = "st\<lparr>sdb := releasePage (sdb st) (mpgno (pCurPage cur))\<rparr>"
      define st2 where "st2 = ?st1\<lparr>sdb := fold (\<lambda>i db. releasePage db (mpgno (apPage cur ! i))) (rev [1..<nat (iPage cur)]) (sdb ?st1)\<rparr>"
      let ?c = "cur\<lparr>iPage := 0, pCurPage := apPage cur ! 0\<rparr>"
      have s: "same_content st st2"
        unfolding st2_def by (rule same_content_trans [OF same_content_release release_all])
      have "moveToRoot st cur = root_ready st2 ?c"
        using p Cons by (simp add: moveToRoot_def on_path_def Let_def st2_def)
      moreover have "page_view (apPage cur ! 0) = page_view (the_page (sdb st) (root_pg t))"
        using p Cons by (auto simp: on_path_def dest!: spec [of _ 0])
      then have "on_path st2 t [] (?c\<lparr>eState := CURSOR_VALID\<rparr>)" using p by (simp add: on_path_def same_contentD(3) [OF s])
      ultimately show ?thesis using s by (intro exI [of _ st2] exI [of _ ?c]) simp
    qed
  qed
  then obtain st1 cur1 where r: "moveToRoot st cur = root_ready st1 cur1" "on_path st1 t [] (cur1\<lparr>eState := CURSOR_VALID\<rparr>)" "same_content st st1"
    "skipNext cur1 = skipNext cur" "pinned cur1 = pinned cur" by blast
  note s = root_ready_tree [OF r(2) tree_at_same [OF r(3) t] same_contentD(4) [OF r(3) c]]
  show ?thesis
  proof (cases "keys t = []")
    case True
    let ?c = "(forget cur1)\<lparr>ix := 0, atLast := False, eState := CURSOR_INVALID\<rparr>"
    have "on_path st1 t [] (?c\<lparr>eState := CURSOR_VALID\<rparr>)" using r(2) by (rule on_path_cong) simp_all
    then have "opened st1 t ?c" using r(2) unfolding opened_def by (auto simp: on_path_def)
    then show ?thesis using True s r by simp
  next
    case False
    then show ?thesis using s r(1,3-5) same_content_trans [OF r(3)] by (fastforce simp: kept_def)
  qed
qed

lemma sqlite3BtreeFirst_tree:
  assumes "opened st t cur" "tree_at st t" "calm st"
  shows "\<exists>cur' st'. same_content st st' \<and> opened st' t cur' \<and>
    (if keys t = [] then sqlite3BtreeFirst st cur = (SQLITE_OK, Some 1, cur', st') \<and> eState cur' = CURSOR_INVALID
     else sqlite3BtreeFirst st cur = (SQLITE_OK, Some 0, cur', st') \<and> at_entry st' t cur' 0 \<and> pinned cur' = pinned cur)"
proof (cases "keys t = []")
  case True
  then show ?thesis using moveToRoot_tree [OF assms] by (auto simp: sqlite3BtreeFirst_def)
next
  case False
  then obtain cur1 st1 path where r: "moveToRoot st cur = (SQLITE_OK, cur1, st1)" "on_path st1 t path cur1" "same_content st st1"
    "ix cur1 = 0" "separators (locate t path) \<noteq> []" "before t path = 0" "nSize (info cur1) = 0" "\<not> atLast cur1" "pinned cur1 = pinned cur"
    using moveToRoot_tree [OF assms] by auto
  obtain cur2 st2 path2 where l: "moveToLeftmost st1 cur1 = (SQLITE_OK, cur2, st2)" "on_path st2 t path2 cur2" "moves st1 cur1 st2 cur2"
    "is_leaf (locate t path2)" "ix cur2 < length (separators (locate t path2))" "rank t path2 (ix cur2) = 0" "nSize (info cur2) = 0"
    using moveToLeftmost_tree [OF r(2) tree_at_same [OF r(3) assms(2)] same_contentD(4) [OF r(3) assms(3)]] r(4-7) by (auto simp: rank_def)
  have "at_entry st2 t cur2 0" using l r(8) by (fastforce simp: at_entry_def moves_def kept_def)
  then show ?thesis using False r(1,3,9) l(1,3) same_content_trans [OF r(3)]
    by (auto simp: sqlite3BtreeFirst_def moves_def kept_def intro!: at_entry_opened)
qed

lemma sqlite3BtreeLast_tree:
  assumes "opened st t cur" "tree_at st t" "calm st" and v: "eState cur = CURSOR_VALID \<Longrightarrow> atLast cur \<Longrightarrow> \<exists>n. at_entry st t cur n"
  shows "\<exists>cur' st'. same_content st st' \<and> opened st' t cur' \<and>
    (if keys t = [] then sqlite3BtreeLast st cur = (SQLITE_OK, Some 1, cur', st') \<and> eState cur' = CURSOR_INVALID
     else sqlite3BtreeLast st cur = (SQLITE_OK, Some 0, cur', st') \<and> at_entry st' t cur' (length (keys t) - 1))"
proof (cases "eState cur = CURSOR_VALID \<and> atLast cur")
  case True
  then obtain n where "at_entry st t cur n" using v by blast
  moreover from this have "n = length (keys t) - 1" "keys t \<noteq> []" using True by (auto simp: at_entry_def)
  ultimately show ?thesis using True assms(1) by (auto simp: sqlite3BtreeLast_def intro!: exI [of _ cur] exI [of _ st])
next
  case F: False
  then have e: "sqlite3BtreeLast st cur = btreeLast st cur" unfolding sqlite3BtreeLast_def by (simp only: if_False)
  show ?thesis
  proof (cases "keys t = []")
    case True
    then show ?thesis using moveToRoot_tree [OF assms(1-3)] e by (auto simp: btreeLast_def)
  next
    case False
    then obtain cur1 st1 path where r: "moveToRoot st cur = (SQLITE_OK, cur1, st1)" "on_path st1 t path cur1" "same_content st st1"
      "ix cur1 = 0" "separators (locate t path) \<noteq> []" "before t path = 0" "keys (locate t path) = keys t" "nSize (info cur1) = 0" "\<not> atLast cur1"
      using moveToRoot_tree [OF assms(1-3)] by auto
    obtain cur2 st2 path2 where l: "moveToRightmost st1 cur1 = (SQLITE_OK, cur2, st2)" "on_path st2 t path2 cur2" "moves st1 cur1 st2 cur2"
      "is_leaf (locate t path2)" "ix cur2 < length (separators (locate t path2))" "Suc (rank t path2 (ix cur2)) = length (keys t)" "nSize (info cur2) = 0"
      using moveToRightmost_tree [OF r(2) tree_at_same [OF r(3) assms(2)] same_contentD(4) [OF r(3) assms(3)]] r(4-8) by auto
    let ?c = "cur2\<lparr>atLast := True\<rparr>"
    have "on_path st2 t path2 ?c" using l(2) by (rule on_path_cong) simp_all
    then have "at_entry st2 t ?c (length (keys t) - 1)" unfolding at_entry_def using l(4-7) by (auto intro!: exI [of _ path2])
    then show ?thesis using False e r(1,3) l(1,3) same_content_trans [OF r(3)]
      by (auto simp: btreeLast_def moves_def intro!: at_entry_opened)
  qed
qed

end
