(* ===== verification/CursorSteps.thy ===== *)
theory CursorSteps
  imports CursorTree
begin

text \<open>
  Moving a cursor from entry to entry, to a key, and back to a saved position (\<open>src/src/btree.c\<close>): the entry
  reached, as a position in the list of keys of the tree.
\<close>

section \<open>From entry to entry\<close>

lemma on_path_parent:
  assumes "on_path st t (path @ [j]) cur"
  shows "moveToParent st cur = (fst (moveToParent st cur), st\<lparr>sdb := releasePage (sdb st) (mpgno (pCurPage cur))\<rparr>)"
    "on_path (st\<lparr>sdb := releasePage (sdb st) (mpgno (pCurPage cur))\<rparr>) t path (fst (moveToParent st cur))"
    "ix (fst (moveToParent st cur)) = j" "kept (fst (moveToParent st cur)) = kept cur" "nSize (info (fst (moveToParent st cur))) = 0"
    "iPage cur > 0" "j < length (subtrees (locate t path))"
proof -
  have q: "aiIdx cur ! length path = j" "page_view (apPage cur ! length path) = page_view (the_page (sdb st) (root_pg (locate t path)))"
    using assms by (auto simp: on_path_def nth_append dest!: spec [of _ "length path"])
  have r: "\<forall>d < length path. aiIdx cur ! d = path ! d \<and>
      page_view (apPage cur ! d) = page_view (the_page (sdb st) (root_pg (locate t (take d path))))"
    using assms by (auto simp: on_path_def nth_append)
  show "on_path (st\<lparr>sdb := releasePage (sdb st) (mpgno (pCurPage cur))\<rparr>) t path (fst (moveToParent st cur))"
    using assms q r by (simp add: on_path_def moveToParent_def Let_def)
qed (use assms in \<open>auto simp: on_path_def moveToParent_def Let_def kept_def nth_append dest!: spec [of _ "length path"]\<close>)

text \<open>Leaving a subtree on the right.\<close>

lemma next_climb_tree:
  assumes "on_path st t path cur" "tree_at st t"
  shows "\<exists>found cur' st'. next_climb st cur = (found, cur', st') \<and> moves st cur st' cur' \<and>
    (if found then \<exists>path'. on_path st' t path' cur' \<and> \<not> is_leaf (locate t path') \<and> ix cur' < length (separators (locate t path')) \<and>
         rank t path' (Suc (ix cur')) = before t path + length (keys (locate t path)) \<and> nSize (info cur') = 0
     else before t path + length (keys (locate t path)) = length (keys t) \<and> eState cur' = CURSOR_INVALID \<and> opened st' t cur')"
  using assms
proof (induction path arbitrary: st cur rule: rev_induct)
  case Nil
  have "on_path st t [] (cur\<lparr>eState := CURSOR_VALID\<rparr>)" using Nil(1) by (rule on_path_cong) (use Nil(1) in \<open>simp_all add: on_path_def\<close>)
  then have "opened st t (cur\<lparr>eState := CURSOR_INVALID\<rparr>)" by (auto simp: opened_def on_path_def)
  moreover have "next_climb st cur = (False, cur\<lparr>eState := CURSOR_INVALID\<rparr>, st)"
    using Nil by (subst next_climb.simps) (simp add: on_path_def)
  moreover have "moves st cur st (cur\<lparr>eState := CURSOR_INVALID\<rparr>)" by (simp add: moves_def kept_def)
  ultimately show ?case by (intro exI [of _ False]) simp
next
  case (snoc j path)
  let ?c = "fst (moveToParent st cur)" and ?st = "st\<lparr>sdb := releasePage (sdb st) (mpgno (pCurPage cur))\<rparr>"
  note pa = on_path_parent [OF snoc.prems(1)]
  have m: "moves st cur ?st ?c" using pa(4) same_content_release by (simp add: moves_def)
  have t: "tree_at ?st t" using tree_at_same [OF same_content_release snoc.prems(2)] .
  note pg = on_path_page [OF pa(2) t]
  have nl: "\<not> is_leaf (locate t path)" using not_leaf_child [OF pa(7)] .
  have e: "before t (path @ [j]) + length (keys (locate t (path @ [j]))) = rank t path (Suc j)"
    using edge_Suc [OF pa(7)] by (simp add: rank_def)
  show ?case
  proof (cases "j < length (separators (locate t path))")
    case True
    have "next_climb st cur = (True, ?c, ?st)" using True pg(2) pa(3,6) by (subst next_climb.simps) (subst pa(1), simp)
    then show ?thesis using m pa(2,3,5) nl True e by auto
  next
    case False
    then have j: "Suc j = length (subtrees (locate t path))" using pa(7) nl by (simp add: length_subtrees)
    have c: "next_climb st cur = next_climb ?st ?c" using False pg(2) pa(3,6) by (subst next_climb.simps) (subst pa(1), simp)
    have "before t path + length (keys (locate t path)) = rank t path (Suc j)" using edge_all [OF nl] j by (simp add: rank_def)
    then show ?thesis using snoc.IH [OF pa(2) t] moves_trans [OF m] unfolding c e by fastforce
  qed
qed

lemma next_interior:
  assumes p: "on_path st t path cur" and t: "tree_at st t" and c: "calm st" and nl: "\<not> is_leaf (locate t path)"
    and i: "ix cur < length (separators (locate t path))"
  shows "\<exists>cur' st' path'. sqlite3BtreeNext_valid st cur = (SQLITE_OK, cur', st') \<and> on_path st' t path' cur' \<and> moves st cur st' cur' \<and>
    is_leaf (locate t path') \<and> ix cur' < length (separators (locate t path')) \<and> rank t path' (ix cur') = rank t path (Suc (ix cur)) \<and>
    nSize (info cur') = 0"
proof -
  note pg = on_path_page [OF p t]
  let ?n = "length (separators (locate t path))" and ?f = "(forget cur)\<lparr>ix := Suc (ix cur)\<rparr>"
  have m: "Suc (ix cur) mod 65536 = Suc (ix cur)" using i pg(2,10) by simp
  have pf: "on_path st t path ?f" "moves st cur st ?f" using p by (simp_all add: moves_def kept_def)
  show ?thesis
  proof (cases "Suc (ix cur) < ?n")
    case True
    have "sqlite3BtreeNext_valid st cur = moveToLeftmost st ?f"
      using True nl pg(1,2) m by (simp add: sqlite3BtreeNext_valid.simps Let_def)
    then show ?thesis using moveToLeftmost_tree [OF pf(1) t c] True moves_trans [OF pf(2)] by fastforce
  next
    case False
    then have n: "Suc (ix cur) = ?n" using i by simp
    then have j: "ix ?f < length (subtrees (locate t path))" using nl by (simp add: length_subtrees)
    obtain cur1 st1 where r: "moveToChild st ?f (root_pg (subtrees (locate t path) ! ix ?f)) = (SQLITE_OK, cur1, st1)"
      "on_path st1 t (path @ [ix ?f]) cur1" "moves st ?f st1 cur1" "ix cur1 = 0" "nSize (info cur1) = 0" "\<not> validNKey cur1" "\<not> validOvfl cur1"
      by (rule moveToChild_tree [OF pf(1) t c j])
    have sc: "same_content st st1" using r(3) by (simp add: moves_def)
    have f: "separators (locate t (path @ [ix ?f])) \<noteq> []" using tree_at_full [OF t, of "path @ [ix ?f]"] r(2) by (simp add: on_path_def)
    have rc: "right_child (sdb st) ?f = root_pg (subtrees (locate t path) ! ix ?f)"
      using on_path_child [OF pf(1) t j] n pg(2) by simp
    have "sqlite3BtreeNext_valid st cur = moveToLeftmost st1 cur1"
      using n nl pg(1-3) m r(1) rc by (simp add: sqlite3BtreeNext_valid.simps btreeNext_valid.simps Let_def)
    moreover have "rank t (path @ [ix ?f]) 0 = rank t path (Suc (ix cur))" by (simp add: rank_def)
    ultimately show ?thesis
      using moveToLeftmost_tree [OF r(2) tree_at_same [OF sc t] same_contentD(4) [OF sc c]] f r(4,5) moves_trans [OF pf(2)] moves_trans [OF r(3)]
      by fastforce
  qed
qed

text \<open>The next entry.\<close>

lemma btreeNext_tree:
  assumes a: "on_path st t path cur" "is_leaf (locate t path)" "ix cur < length (separators (locate t path))"
    and nf: "nSize (info cur) = 0" "atLast cur \<Longrightarrow> Suc (rank t path (ix cur)) = length (keys t)"
    and t: "tree_at st t" and c: "calm st"
  shows "\<exists>rc cur' st'. btreeNext_valid st cur = (rc, cur', st') \<and> same_content st st' \<and> skipNext cur' = skipNext cur \<and>
    (if Suc (rank t path (ix cur)) < length (keys t) then rc = SQLITE_OK \<and> at_entry st' t cur' (Suc (rank t path (ix cur)))
     else rc = SQLITE_DONE \<and> eState cur' = CURSOR_INVALID \<and> opened st' t cur')"
proof -
  note pg = on_path_page [OF a(1) t]
  let ?n = "length (separators (locate t path))" and ?c = "cur\<lparr>ix := Suc (ix cur)\<rparr>"
  have m: "Suc (ix cur) mod 65536 = Suc (ix cur)" using a(3) pg(2,10) by simp
  have pf: "on_path st t path ?c" "moves st cur st ?c" using a(1) by (simp_all add: moves_def kept_def)
  show ?thesis
  proof (cases "Suc (ix cur) < ?n")
    case True
    then have "Suc (rank t path (ix cur)) < length (keys t)" "rank t path (Suc (ix cur)) = Suc (rank t path (ix cur))"
      using rank_keys(1) [of t path "Suc (ix cur)"] a by (auto simp: on_path_def rank_leaf)
    moreover from this have "at_entry st t ?c (Suc (rank t path (ix cur)))"
      using a True nf pf(1) by (auto simp: at_entry_def intro!: exI [of _ path])
    moreover have "btreeNext_valid st cur = (SQLITE_OK, ?c, st)"
      using True a(2) pg(1-3) m by (simp add: btreeNext_valid.simps Let_def)
    ultimately show ?thesis by simp
  next
    case False
    then have n: "Suc (rank t path (ix cur)) = before t path + length (keys (locate t path))"
      using a(2,3) by (simp add: rank_leaf keys_leaf)
    obtain found cur1 st1 where k: "next_climb st ?c = (found, cur1, st1)" "moves st ?c st1 cur1"
      "if found then \<exists>path'. on_path st1 t path' cur1 \<and> \<not> is_leaf (locate t path') \<and> ix cur1 < length (separators (locate t path')) \<and>
         rank t path' (Suc (ix cur1)) = Suc (rank t path (ix cur)) \<and> nSize (info cur1) = 0
       else Suc (rank t path (ix cur)) = length (keys t) \<and> eState cur1 = CURSOR_INVALID \<and> opened st1 t cur1"
      using next_climb_tree [OF pf(1) t] nf n by auto
    have sc: "same_content st st1" and kp: "kept cur1 = kept cur" using k(2) by (simp_all add: moves_def kept_def)
    have e: "btreeNext_valid st cur = (if \<not> found then (SQLITE_DONE, cur1, st1) else if intKey (pCurPage cur1) then sqlite3BtreeNext_valid st1 cur1 else (SQLITE_OK, cur1, st1))"
      using False a(2) pg(1-3) m k(1) by (simp add: btreeNext_valid.simps Let_def)
    show ?thesis
    proof (cases found)
      case True
      then obtain path' where q: "on_path st1 t path' cur1" "\<not> is_leaf (locate t path')" "ix cur1 < length (separators (locate t path'))"
        "rank t path' (Suc (ix cur1)) = Suc (rank t path (ix cur))" using k(3) by auto
      note t1 = tree_at_same [OF sc t]
      obtain cur2 st2 path2 where r: "sqlite3BtreeNext_valid st1 cur1 = (SQLITE_OK, cur2, st2)" "on_path st2 t path2 cur2" "moves st1 cur1 st2 cur2"
        "is_leaf (locate t path2)" "ix cur2 < length (separators (locate t path2))" "rank t path2 (ix cur2) = Suc (rank t path (ix cur))" "nSize (info cur2) = 0"
        using next_interior [OF q(1) t1 same_contentD(4) [OF sc c] q(2,3)] q(4) by auto
      have l: "Suc (rank t path (ix cur)) < length (keys t)" using rank_keys(1) [of t path2 "ix cur2"] r by (simp add: on_path_def)
      have k2: "skipNext cur2 = skipNext cur" "atLast cur2 = atLast cur" using r(3) kp by (simp_all add: moves_def kept_def)
      have "at_entry st2 t cur2 (Suc (rank t path (ix cur)))"
        unfolding at_entry_def using r k2 nf(2) l by (auto intro!: exI [of _ path2])
      then show ?thesis using e True r(1,3) l k2 on_path_page(4) [OF q(1) t1] same_content_trans [OF sc]
        by (auto simp: moves_def)
    next
      case False
      then show ?thesis using k(3) e sc kp by (auto simp: kept_def)
    qed
  qed
qed

lemma sqlite3BtreeNext_tree:
  assumes a: "at_entry st t cur n" and t: "tree_at st t" and c: "calm st"
  shows "\<exists>rc cur' st'. sqlite3BtreeNext st cur = (rc, cur', st') \<and> same_content st st' \<and> opened st' t cur' \<and> skipNext cur' = skipNext cur \<and>
    (if Suc n < length (keys t) then rc = SQLITE_OK \<and> at_entry st' t cur' (Suc n)
     else rc = SQLITE_DONE \<and> eState cur' = CURSOR_INVALID)"
proof -
  obtain path where p: "on_path st t path cur" "is_leaf (locate t path)" "ix cur < length (separators (locate t path))" "n = rank t path (ix cur)"
    using a by (auto simp: at_entry_def)
  note pg = on_path_page [OF p(1) t]
  have v: "eState cur = CURSOR_VALID" using p(1) by (simp add: on_path_def)
  have m: "Suc (ix cur) mod 65536 = Suc (ix cur)" using p(3) pg(2,10) by simp
  have pf: "on_path st t path (forget cur)" using p(1) by simp
  have nx: "\<exists>rc cur' st'. btreeNext_valid st (forget cur) = (rc, cur', st') \<and> same_content st st' \<and> skipNext cur' = skipNext (forget cur) \<and>
    (if Suc n < length (keys t) then rc = SQLITE_OK \<and> at_entry st' t cur' (Suc n)
     else rc = SQLITE_DONE \<and> eState cur' = CURSOR_INVALID \<and> opened st' t cur')"
  proof -
    have "atLast cur \<Longrightarrow> Suc n = length (keys t)" using a by (simp add: at_entry_def)
    then show ?thesis using btreeNext_tree [OF pf p(2) _ _ _ t c] p(3,4) by (auto split: if_splits)
  qed
  show ?thesis
  proof (cases "Suc (ix cur) < length (separators (locate t path))")
    case True
    have "sqlite3BtreeNext st cur = (SQLITE_OK, (forget cur)\<lparr>ix := Suc (ix cur)\<rparr>, st)"
      using True v m pg(1,2) p(2) by (simp add: sqlite3BtreeNext_def sqlite3BtreeNext_valid.simps Let_def)
    moreover have "btreeNext_valid st (forget cur) = (SQLITE_OK, (forget cur)\<lparr>ix := Suc (ix cur)\<rparr>, st)"
      using True m pg(1-3) p(2) by (simp add: btreeNext_valid.simps Let_def)
    ultimately show ?thesis using nx by (auto intro: at_entry_opened split: if_splits)
  next
    case False
    have "sqlite3BtreeNext st cur = btreeNext_valid st (forget cur)"
      using False v m pg(2) by (simp add: sqlite3BtreeNext_def sqlite3BtreeNext_valid.simps Let_def)
    then show ?thesis using nx by (auto intro: at_entry_opened split: if_splits)
  qed
qed


text \<open>Leaving a subtree on the left.\<close>

lemma prev_climb_tree:
  assumes "on_path st t path cur" "tree_at st t" "nSize (info cur) = 0"
    "ix cur = 0 \<or> ix cur < length (subtrees (locate t path))"
  shows "\<exists>found cur' st'. prev_climb st cur = (found, cur', st') \<and> moves st cur st' cur' \<and>
    (if found then \<exists>path'. on_path st' t path' cur' \<and> ix cur' < length (subtrees (locate t path')) \<and>
         0 < ix cur' \<and> rank t path' (ix cur') = rank t path (ix cur) \<and> nSize (info cur') = 0
     else rank t path (ix cur) = 0 \<and> eState cur' = CURSOR_INVALID \<and> opened st' t cur')"
  using assms
proof (induction path arbitrary: st cur rule: rev_induct)
  case Nil
  show ?case
  proof (cases "ix cur = 0")
    case True
    have "on_path st t [] (cur\<lparr>eState := CURSOR_VALID\<rparr>)" using Nil(1) by (rule on_path_cong) (use Nil(1) in \<open>simp_all add: on_path_def\<close>)
    then have "opened st t (cur\<lparr>eState := CURSOR_INVALID\<rparr>)" by (auto simp: opened_def on_path_def)
    moreover have "prev_climb st cur = (False, cur\<lparr>eState := CURSOR_INVALID\<rparr>, st)"
      using Nil True by (subst prev_climb.simps) (simp add: on_path_def)
    moreover have "moves st cur st (cur\<lparr>eState := CURSOR_INVALID\<rparr>)" by (simp add: moves_def kept_def)
    ultimately show ?thesis using True by (intro exI [of _ False]) (simp add: rank_def)
  next
    case False
    then have "prev_climb st cur = (True, cur, st)" by (subst prev_climb.simps) simp
    then show ?thesis using False Nil by (intro exI [of _ True]) auto
  qed
next
  case (snoc j path)
  show ?case
  proof (cases "ix cur = 0")
    case True
    let ?c = "fst (moveToParent st cur)" and ?st = "st\<lparr>sdb := releasePage (sdb st) (mpgno (pCurPage cur))\<rparr>"
    note pa = on_path_parent [OF snoc.prems(1)]
    have m: "moves st cur ?st ?c" using pa(4) same_content_release by (simp add: moves_def)
    have t: "tree_at ?st t" using tree_at_same [OF same_content_release snoc.prems(2)] .
    have c: "prev_climb st cur = prev_climb ?st ?c" using True pa(6) by (subst prev_climb.simps) (subst pa(1), simp)
    have e: "rank t (path @ [j]) (ix cur) = rank t path j" using True by (simp add: rank_def)
    obtain found cur' st' where r: "prev_climb ?st ?c = (found, cur', st')" "moves ?st ?c st' cur'"
      "if found then \<exists>path'. on_path st' t path' cur' \<and> ix cur' < length (subtrees (locate t path')) \<and>
         0 < ix cur' \<and> rank t path' (ix cur') = rank t path j \<and> nSize (info cur') = 0
       else rank t path j = 0 \<and> eState cur' = CURSOR_INVALID \<and> opened st' t cur'"
      using snoc.IH [OF pa(2) t pa(5)] pa(3,7) by auto
    show ?thesis
    proof (cases found)
      case True
      then show ?thesis using r c moves_trans [OF m r(2)] e by (intro exI [of _ True]) auto
    next
      case False
      then show ?thesis using r c moves_trans [OF m r(2)] e by auto
    qed
  next
    case False
    then have "prev_climb st cur = (True, cur, st)" by (subst prev_climb.simps) simp
    then show ?thesis using False snoc.prems by (intro exI [of _ True]) auto
  qed
qed


text \<open>The previous entry.\<close>

lemma prev_interior:
  assumes p: "on_path st t path cur" and t: "tree_at st t" and c: "calm st" and nl: "\<not> is_leaf (locate t path)"
    and i: "ix cur < length (separators (locate t path))"
  shows "\<exists>cur' st' path'. btreePrevious_valid st cur = (SQLITE_OK, cur', st') \<and> on_path st' t path' cur' \<and> moves st cur st' cur' \<and>
    is_leaf (locate t path') \<and> ix cur' < length (separators (locate t path')) \<and> Suc (rank t path' (ix cur')) = rank t path (Suc (ix cur)) \<and>
    nSize (info cur') = 0"
proof -
  note pg = on_path_page [OF p t]
  have j: "ix cur < length (subtrees (locate t path))" using nl i by (simp add: length_subtrees)
  obtain cur1 st1 where r: "moveToChild st cur (root_pg (subtrees (locate t path) ! ix cur)) = (SQLITE_OK, cur1, st1)"
    "on_path st1 t (path @ [ix cur]) cur1" "moves st cur st1 cur1" "ix cur1 = 0" "nSize (info cur1) = 0" "\<not> validNKey cur1" "\<not> validOvfl cur1"
    by (rule moveToChild_tree [OF p t c j])
  have sc: "same_content st st1" using r(3) by (simp add: moves_def)
  have f: "separators (locate t (path @ [ix cur])) \<noteq> []" using tree_at_full [OF t, of "path @ [ix cur]"] r(2) by (simp add: on_path_def)
  have lc: "left_child (sdb st) cur (ix cur) = root_pg (subtrees (locate t path) ! ix cur)"
    using on_path_child [OF p t j] i pg(2) by simp
  have "btreePrevious_valid st cur = moveToRightmost st1 cur1"
    using nl pg(1-3) r(1) lc by (simp add: btreePrevious_valid.simps)
  moreover have "before t (path @ [ix cur]) + length (keys (locate t (path @ [ix cur]))) = rank t path (Suc (ix cur))"
    using edge_Suc [OF j] by (simp add: rank_def)
  ultimately show ?thesis
    using moveToRightmost_tree [OF r(2) tree_at_same [OF sc t] same_contentD(4) [OF sc c] f] r(5) moves_trans [OF r(3)] by fastforce
qed

lemma btreePrevious_tree:
  assumes a: "on_path st t path cur" "is_leaf (locate t path)" "ix cur < length (separators (locate t path))"
    and nf: "nSize (info cur) = 0" "\<not> atLast cur"
    and t: "tree_at st t" and c: "calm st"
  shows "\<exists>rc cur' st'. btreePrevious_valid st cur = (rc, cur', st') \<and> same_content st st' \<and> skipNext cur' = skipNext cur \<and>
    (if 0 < rank t path (ix cur) then rc = SQLITE_OK \<and> at_entry st' t cur' (rank t path (ix cur) - 1)
     else rc = SQLITE_DONE \<and> eState cur' = CURSOR_INVALID \<and> opened st' t cur')"
proof (cases "ix cur = 0")
  case False
  note pg = on_path_page [OF a(1) t]
  let ?c = "cur\<lparr>ix := ix cur - 1\<rparr>"
  have r: "0 < rank t path (ix cur)" "rank t path (ix cur) - 1 = rank t path (ix cur - 1)" using False a(2) by (simp_all add: rank_leaf)
  have "prev_climb st cur = (True, cur, st)" using False by (subst prev_climb.simps) simp
  then have "btreePrevious_valid st cur = (SQLITE_OK, ?c, st)" using a(2) pg(1,3) by (simp add: btreePrevious_valid.simps)
  moreover have "at_entry st t ?c (rank t path (ix cur) - 1)" using a nf r by (auto simp: at_entry_def intro!: exI [of _ path])
  ultimately show ?thesis using r by simp
next
  case True
  note pg = on_path_page [OF a(1) t]
  obtain found cur1 st1 where k: "prev_climb st cur = (found, cur1, st1)" "moves st cur st1 cur1"
    "if found then \<exists>path'. on_path st1 t path' cur1 \<and> ix cur1 < length (subtrees (locate t path')) \<and>
         0 < ix cur1 \<and> rank t path' (ix cur1) = rank t path (ix cur) \<and> nSize (info cur1) = 0
       else rank t path (ix cur) = 0 \<and> eState cur1 = CURSOR_INVALID \<and> opened st1 t cur1"
    using prev_climb_tree [OF a(1) t nf(1)] True by blast
  have sc: "same_content st st1" and kp: "kept cur1 = kept cur" using k(2) by (simp_all add: moves_def)
  show ?thesis
  proof (cases found)
    case True
    then obtain path' where q: "on_path st1 t path' cur1" "ix cur1 < length (subtrees (locate t path'))" "0 < ix cur1"
      "rank t path' (ix cur1) = rank t path (ix cur)" using k(3) by auto
    have nl: "\<not> is_leaf (locate t path')" using q(2) not_leaf_child by blast
    let ?c = "cur1\<lparr>ix := ix cur1 - 1\<rparr>" let ?f = "(forget ?c)\<lparr>atLast := False\<rparr>"
    note t1 = tree_at_same [OF sc t] and pg1 = on_path_page [OF q(1) tree_at_same [OF sc t]]
    have pf: "on_path st1 t path' ?f" using q(1) by (rule on_path_cong) simp_all
    have i: "ix ?f < length (separators (locate t path'))" using q(2,3) nl by (simp add: length_subtrees)
    obtain cur2 st2 path2 where r: "btreePrevious_valid st1 ?f = (SQLITE_OK, cur2, st2)" "on_path st2 t path2 cur2" "moves st1 ?f st2 cur2"
      "is_leaf (locate t path2)" "ix cur2 < length (separators (locate t path2))" "Suc (rank t path2 (ix cur2)) = rank t path' (ix cur1)" "nSize (info cur2) = 0"
      using prev_interior [OF pf t1 same_contentD(4) [OF sc c] nl i] q(3) by auto
    have e: "btreePrevious_valid st cur = (SQLITE_OK, cur2, st2)"
      using True a(2) pg(1,3) k(1) pg1(1,4) nl r(1) by (subst btreePrevious_valid.simps) simp
    have k2: "skipNext cur2 = skipNext cur" "\<not> atLast cur2" using r(3) kp by (simp_all add: moves_def kept_def)
    have "at_entry st2 t cur2 (rank t path (ix cur) - 1)" unfolding at_entry_def using r q(4) k2 by (auto intro!: exI [of _ path2])
    then show ?thesis using e r(3,6) q(4) k2 same_content_trans [OF sc] by (auto simp: moves_def)
  next
    case False
    then show ?thesis using k a(2) pg(1,3) sc kp by (subst btreePrevious_valid.simps) (auto simp: kept_def)
  qed
qed

lemma sqlite3BtreePrevious_tree:
  assumes a: "at_entry st t cur n" and t: "tree_at st t" and c: "calm st"
  shows "\<exists>rc cur' st'. sqlite3BtreePrevious st cur = (rc, cur', st') \<and> same_content st st' \<and> opened st' t cur' \<and> skipNext cur' = skipNext cur \<and>
    (if 0 < n then rc = SQLITE_OK \<and> at_entry st' t cur' (n - 1)
     else rc = SQLITE_DONE \<and> eState cur' = CURSOR_INVALID)"
proof -
  obtain path where p: "on_path st t path cur" "is_leaf (locate t path)" "ix cur < length (separators (locate t path))" "n = rank t path (ix cur)"
    using a by (auto simp: at_entry_def)
  note pg = on_path_page [OF p(1) t]
  have v: "eState cur = CURSOR_VALID" using p(1) by (simp add: on_path_def)
  let ?f = "(forget cur)\<lparr>atLast := False\<rparr>"
  have pf: "on_path st t path ?f" using p(1) by (rule on_path_cong) simp_all
  have nx: "\<exists>rc cur' st'. btreePrevious_valid st ?f = (rc, cur', st') \<and> same_content st st' \<and> skipNext cur' = skipNext cur \<and>
    (if 0 < n then rc = SQLITE_OK \<and> at_entry st' t cur' (n - 1)
     else rc = SQLITE_DONE \<and> eState cur' = CURSOR_INVALID \<and> opened st' t cur')"
    using btreePrevious_tree [OF pf p(2) _ _ _ t c] p(3,4) by (auto split: if_splits)
  have "sqlite3BtreePrevious st cur = btreePrevious_valid st ?f"
  proof (cases "ix cur = 0")
    case True
    then show ?thesis using v by (simp add: sqlite3BtreePrevious_def btreePrevious_def Let_def)
  next
    case False
    then have "prev_climb st ?f = (True, ?f, st)" by (subst prev_climb.simps) simp
    then show ?thesis using v False p(2) pg(1,3) by (subst btreePrevious_valid.simps) (simp add: sqlite3BtreePrevious_def Let_def)
  qed
  then show ?thesis using nx by (auto intro: at_entry_opened split: if_splits)
qed

section \<open>Searching a key\<close>

lemma kvKeyCompareCell_key: "kvKeyCompareCell pBt P i k = kvKeyCompare (cell_key pBt P i) k"
  by (simp add: kvKeyCompareCell_def cell_key_def Let_def)

text \<open>
  The result of the binary search over the keys \<open>ks\<close>: \<open>c\<close> compares key number \<open>x\<close> with \<open>k\<close>, which is \<open>k\<close> or
  next to where it would be, and \<open>l\<close> is the place of the first key after \<open>k\<close>.
\<close>

definition found_at :: "bytes list \<Rightarrow> bytes \<Rightarrow> int \<times> int \<times> int \<Rightarrow> bool" where
  "found_at ks k = (\<lambda>(l, x, c). 0 \<le> x \<and> nat x < length ks \<and>
     (c = 0 \<longrightarrow> ks ! nat x = k) \<and>
     (c < 0 \<longrightarrow> key_less (ks ! nat x) k \<and> (\<forall>i. nat x < i \<and> i < length ks \<longrightarrow> key_less k (ks ! i)) \<and> l = x + 1) \<and>
     (c > 0 \<longrightarrow> key_less k (ks ! nat x) \<and> (\<forall>i < nat x. key_less (ks ! i) k) \<and> l = x))"

lemma kv_search_correct:
  assumes "\<forall>i < length ks. cell_key pBt P i = ks ! i"
    and "sorted_wrt key_less ks"
    and "0 \<le> lwr" "lwr \<le> idx" "idx \<le> upr" "upr < int (length ks)"
    and "\<forall>i < nat lwr. key_less (ks ! i) k" "\<forall>i. upr < int i \<and> i < length ks \<longrightarrow> key_less k (ks ! i)"
  shows "found_at ks k (kv_search pBt P k lwr upr idx)"
  using assms
proof (induction pBt P k lwr upr idx rule: kv_search.induct)
  case (1 pBt P k lwr upr idx)
  let ?x = "nat idx" and ?c = "kvKeyCompareCell pBt P (nat idx) k"
  have x: "?x < length ks" using "1.prems" by linarith
  have c: "?c = (if ks ! ?x = k then 0 else if key_less (ks ! ?x) k then -1 else 1)"
    using "1.prems"(1) x by (simp add: kvKeyCompareCell_key kvKeyCompare_spec)
  have s: "i < j \<Longrightarrow> j < length ks \<Longrightarrow> key_less (ks ! i) (ks ! j)" for i j
    using "1.prems"(2) by (simp add: sorted_wrt_iff_nth_less)
  consider (eq) "ks ! ?x = k" | (lt) "key_less (ks ! ?x) k" | (gt) "key_less k (ks ! ?x)"
    using key_less_linear by blast
  then show ?case
  proof cases
    case eq
    then show ?thesis using c x "1.prems"(3,4) by (subst kv_search.simps) (simp add: found_at_def)
  next
    case lt
    then have c1: "?c = -1" using c by auto
    have below: "\<forall>i < nat (idx + 1). key_less (ks ! i) k"
    proof (intro allI impI)
      fix i assume "i < nat (idx + 1)"
      then have "i = ?x \<or> i < ?x" using "1.prems"(3,4) by linarith
      then show "key_less (ks ! i) k" using s [of i ?x] x lt key_less_trans by blast
    qed
    show ?thesis
    proof (cases "idx + 1 > upr")
      case True
      then show ?thesis using c1 x lt "1.prems"(3-5,8) by (subst kv_search.simps) (auto simp: found_at_def)
    next
      case False
      then show ?thesis using "1.IH" [OF refl _ refl, of "idx + 1" upr] c1 below "1.prems"
        by (subst kv_search.simps) auto
    qed
  next
    case gt
    then have c1: "?c = 1" using c key_less_asym by auto
    have above: "\<forall>i. idx - 1 < int i \<and> i < length ks \<longrightarrow> key_less k (ks ! i)"
    proof (intro allI impI)
      fix i assume i: "idx - 1 < int i \<and> i < length ks"
      then have "i = ?x \<or> ?x < i" using "1.prems"(3,4) by linarith
      then show "key_less k (ks ! i)" using s [of ?x i] i gt key_less_trans by blast
    qed
    show ?thesis
    proof (cases "lwr > idx - 1")
      case True
      then have "lwr = idx" using "1.prems"(4) by simp
      then show ?thesis using True c1 x gt "1.prems"(3-5,7) by (subst kv_search.simps) (auto simp: found_at_def)
    next
      case False
      then show ?thesis using "1.IH" [OF refl _ refl, of lwr "idx - 1"] c1 above "1.prems"
        by (subst kv_search.simps) auto
    qed
  qed
qed

lemma found_at_split:
  assumes f: "found_at ks k (lw, x, c)" and s: "sorted_wrt key_less ks"
  defines "l \<equiv> if c = 0 then x else lw"
  shows "0 \<le> l" "nat l \<le> length ks" "i < nat l \<Longrightarrow> key_less (ks ! i) k" "nat l \<le> i \<Longrightarrow> i < length ks \<Longrightarrow> \<not> key_less (ks ! i) k"
proof -
  have s: "i < j \<Longrightarrow> j < length ks \<Longrightarrow> key_less (ks ! i) (ks ! j)" for i j
    using s by (simp add: sorted_wrt_iff_nth_less)
  have x: "0 \<le> x" "nat x < length ks" using f by (simp_all add: found_at_def)
  consider (z) "c = 0" "l = x" "ks ! nat x = k"
    | (n) "l = x + 1" "key_less (ks ! nat x) k" "\<And>i. nat x < i \<Longrightarrow> i < length ks \<Longrightarrow> key_less k (ks ! i)"
    | (p) "l = x" "key_less k (ks ! nat x)" "\<And>i. i < nat x \<Longrightarrow> key_less (ks ! i) k"
    using f by (cases c "0 :: int" rule: linorder_cases) (auto simp: found_at_def l_def)
  then have "0 \<le> l \<and> nat l \<le> length ks \<and> (\<forall>i < nat l. key_less (ks ! i) k) \<and> (\<forall>i. nat l \<le> i \<and> i < length ks \<longrightarrow> \<not> key_less (ks ! i) k)"
  proof cases
    case z
    have "\<not> key_less (ks ! i) k" if "nat x \<le> i" "i < length ks" for i
      using that s [of "nat x" i] z(3) key_less_asym by (cases "i = nat x") auto
    then show ?thesis using x z s [of _ "nat x"] by auto
  next
    case n
    have "key_less (ks ! i) k" if "i < nat (x + 1)" for i
    proof (cases "i = nat x")
      case False
      then have "i < nat x" using that x by linarith
      then show ?thesis using s [of i "nat x"] x n(2) key_less_trans by blast
    qed (use n(2) in simp)
    moreover have "\<not> key_less (ks ! i) k" if "nat (x + 1) \<le> i" "i < length ks" for i
      using that x n(3) [of i] key_less_asym [of k "ks ! i"] by linarith
    ultimately show ?thesis using x n(1) by auto
  next
    case p
    have "\<not> key_less (ks ! i) k" if "nat x \<le> i" "i < length ks" for i
    proof (cases "i = nat x")
      case False
      then show ?thesis using s [of "nat x" i] that p(2) key_less_asym key_less_trans by (metis le_neq_implies_less)
    qed (use p(2) key_less_asym in simp)
    then show ?thesis using x p by auto
  qed
  then show "0 \<le> l" "nat l \<le> length ks" "i < nat l \<Longrightarrow> key_less (ks ! i) k" "nat l \<le> i \<Longrightarrow> i < length ks \<Longrightarrow> \<not> key_less (ks ! i) k"
    by auto
qed

section \<open>Search trees\<close>

text \<open>
  The separators of a page are in order, a separator is not before the keys of the children to its left and
  before those of the children to its right.
\<close>

definition node_ordered :: "kv_tree \<Rightarrow> bool" where
  "node_ordered u \<longleftrightarrow> sorted_wrt key_less (separators u) \<and>
     (\<forall>i < length (separators u). \<forall>j < length (subtrees u). \<forall>k \<in> set (keys (subtrees u ! j)).
        if j \<le> i then \<not> key_less (separators u ! i) k else key_less (separators u ! i) k)"

lemma node_orderedD:
  assumes "node_ordered u" "i < length (separators u)" "j < length (subtrees u)" "k \<in> set (keys (subtrees u ! j))"
  shows "j \<le> i \<Longrightarrow> \<not> key_less (separators u ! i) k" "i < j \<Longrightarrow> key_less (separators u ! i) k"
proof -
  have "if j \<le> i then \<not> key_less (separators u ! i) k else key_less (separators u ! i) k"
    using assms unfolding node_ordered_def by blast
  then show "j \<le> i \<Longrightarrow> \<not> key_less (separators u ! i) k" "i < j \<Longrightarrow> key_less (separators u ! i) k" by simp_all
qed

definition ordered :: "kv_tree \<Rightarrow> bool" where
  "ordered t \<longleftrightarrow> (\<forall>u \<in> set (all_nodes t). node_ordered u)"

lemma ordered_node: "ordered t \<Longrightarrow> path_ok t path \<Longrightarrow> node_ordered (locate t path)"
  using path_nodes [of t path] by (force simp: ordered_def)

text \<open>What the search knows when it has come down a path.\<close>

definition framed :: "kv_tree \<Rightarrow> bytes \<Rightarrow> nat list \<Rightarrow> bool" where
  "framed t k path \<longleftrightarrow> (\<exists>xs ys. keys t = xs @ keys (locate t path) @ ys \<and> length xs = before t path \<and>
     (\<forall>x \<in> set xs. key_less x k) \<and> (\<forall>y \<in> set ys. key_less k y))"

lemma framed_child:
  assumes f: "framed t k path" and o: "node_ordered (locate t path)"
    and l: "\<forall>i < l. key_less (separators (locate t path) ! i) k"
      "\<forall>i. l \<le> i \<and> i < length (separators (locate t path)) \<longrightarrow> \<not> key_less (separators (locate t path) ! i) k"
      "l < length (subtrees (locate t path))"
  shows "framed t k (path @ [l])"
proof -
  let ?u = "locate t path"
  let ?A = "concat (map keys (take l (subtrees ?u)))" and ?B = "concat (map keys (drop (Suc l) (subtrees ?u)))"
  have nl: "\<not> is_leaf ?u" using l(3) not_leaf_child by blast
  obtain xs ys where x: "keys t = xs @ keys ?u @ ys" "length xs = before t path" "\<forall>x \<in> set xs. key_less x k" "\<forall>y \<in> set ys. key_less k y"
    using f by (auto simp: framed_def)
  have "key_less a k" if "a \<in> set ?A" for a
  proof -
    obtain j where j: "j < l" "j < length (subtrees ?u)" "a \<in> set (keys (subtrees ?u ! j))"
      using \<open>a \<in> set ?A\<close> by (auto simp: in_set_conv_nth [of _ "take l (subtrees ?u)"])
    then have "\<not> key_less (separators ?u ! j) a" "key_less (separators ?u ! j) k"
      using node_orderedD(1) [OF o, of j j a] l nl by (simp_all add: length_subtrees)
    then show ?thesis using key_less_linear key_less_trans by metis
  qed
  moreover have "key_less k b" if "b \<in> set ?B" for b
  proof -
    obtain i where "i < length (subtrees ?u) - Suc l" "b \<in> set (keys (subtrees ?u ! Suc (l + i)))"
      using \<open>b \<in> set ?B\<close> by (auto simp: in_set_conv_nth [of _ "drop (Suc l) (subtrees ?u)"])
    then obtain j where j: "l < j" "j < length (subtrees ?u)" "b \<in> set (keys (subtrees ?u ! j))"
      by (intro that [of "Suc (l + i)"]) auto
    then have "key_less (separators ?u ! l) b" "\<not> key_less (separators ?u ! l) k"
      using node_orderedD(2) [OF o, of l j b] l nl by (simp_all add: length_subtrees)
    then show ?thesis using key_less_linear key_less_trans by metis
  qed
  moreover have "length ?A = edge ?u l" using nl by (simp add: edge_def)
  ultimately show ?thesis unfolding framed_def using x edge_child [OF l(3)]
    by (intro exI [of _ "xs @ ?A"] exI [of _ "?B @ ys"]) auto
qed

text \<open>Where a search for \<open>k\<close> ends: at \<open>k\<close>, or at the last key before or the first key after it.\<close>

definition nearest :: "bytes list \<Rightarrow> bytes \<Rightarrow> nat \<Rightarrow> int \<Rightarrow> bool" where
  "nearest ks k n c \<longleftrightarrow> n < length ks \<and> (c = 0 \<longrightarrow> ks ! n = k) \<and>
     (c < 0 \<longrightarrow> key_less (ks ! n) k \<and> (\<forall>m. n < m \<and> m < length ks \<longrightarrow> key_less k (ks ! m))) \<and>
     (c > 0 \<longrightarrow> key_less k (ks ! n) \<and> (\<forall>m < n. key_less (ks ! m) k))"

lemma nearest_leaf:
  assumes f: "framed t k path" and l: "is_leaf (locate t path)" and r: "found_at (separators (locate t path)) k (lw, x, c)"
  shows "nearest (keys t) k (rank t path (nat x)) c"
proof -
  let ?ks = "separators (locate t path)"
  obtain xs ys where k: "keys t = xs @ ?ks @ ys" "length xs = before t path" "\<forall>x \<in> set xs. key_less x k" "\<forall>y \<in> set ys. key_less k y"
    using f keys_leaf [OF l] by (auto simp: framed_def)
  have n: "rank t path (nat x) = length xs + nat x" using l k(2) by (simp add: rank_leaf)
  have x: "nat x < length ?ks" using r by (simp add: found_at_def)
  have at: "keys t ! (length xs + nat x) = ?ks ! nat x" using k(1) x by (simp add: nth_append)
  have up: "key_less k (keys t ! m)" if c: "c < 0" and m: "length xs + nat x < m" "m < length (keys t)" for m
  proof (cases "m < length xs + length ?ks")
    case True
    then have "keys t ! m = ?ks ! (m - length xs)" "nat x < m - length xs" "m - length xs < length ?ks" using k(1) m by (auto simp: nth_append)
    then show ?thesis using r c by (simp add: found_at_def)
  next
    case False
    then have "keys t ! m = ys ! (m - length xs - length ?ks)" "m - length xs - length ?ks < length ys" using k(1) m by (auto simp: nth_append)
    then show ?thesis using k(4) by simp
  qed
  have down: "key_less (keys t ! m) k" if c: "c > 0" and m: "m < length xs + nat x" for m
  proof (cases "m < length xs")
    case True
    then show ?thesis using k(1,3) by (simp add: nth_append)
  next
    case False
    then have "keys t ! m = ?ks ! (m - length xs)" "m - length xs < nat x" using k(1) m x by (auto simp: nth_append)
    then show ?thesis using r c by (simp add: found_at_def)
  qed
  show ?thesis unfolding nearest_def n using at up down x r k(1) by (auto simp: found_at_def)
qed


section \<open>Moving to a key\<close>

lemma kv_moveto_loop_tree:
  assumes "on_path st t path cur" "tree_at st t" "calm st" "ordered t" "separators (locate t path) \<noteq> []" "framed t k path"
    "\<not> atLast cur" "nSize (info cur) = 0" "\<not> validOvfl cur"
  shows "\<exists>c cur' st' n. kv_moveto_loop k bias st cur = (SQLITE_OK, Some c, cur', st') \<and> same_content st st' \<and> at_entry st' t cur' n \<and>
    nearest (keys t) k n c \<and> skipNext cur' = skipNext cur \<and> nSize (info cur') = 0 \<and> \<not> validOvfl cur' \<and> \<not> atLast cur'"
  using assms
proof (induction "height (locate t path)" arbitrary: st path cur rule: less_induct)
  case less
  let ?u = "locate t path" and ?P = "cur_page (sdb st) cur"
  let ?upr = "int (nCell ?P) - 1"
  note pg = on_path_page [OF less.prems(1,2)]
  have ok: "path_ok t path" using less.prems(1) by (simp add: on_path_def)
  note o = ordered_node [OF less.prems(4) ok]
  obtain lw x c where r: "kv_search (bts (sdb st)) ?P k 0 ?upr (if bias then ?upr else ?upr div 2) = (lw, x, c)" by (metis prod_cases3)
  have n: "0 < length (separators ?u)" using less.prems(5) by simp
  have F: "found_at (separators ?u) k (lw, x, c)"
    unfolding r [symmetric]
    by (rule kv_search_correct) (use on_path_key [OF less.prems(1,2)] o n pg(8) in \<open>auto simp: node_ordered_def\<close>)
  have x: "0 \<le> x" "nat x < length (separators ?u)" "nat x mod 65536 = nat x" using F pg(2,10) by (simp_all add: found_at_def)
  show ?case
  proof (cases "is_leaf ?u")
    case True
    let ?v = "if c = 0 then True else validNKey cur"
    let ?c = "cur\<lparr>ix := nat x, validNKey := ?v, info := (info cur)\<lparr>nSize := 0\<rparr>\<rparr>"
    have "kv_moveto_loop k bias st cur = (SQLITE_OK, Some c, ?c, st)"
      using True pg(7) x by (subst kv_moveto_loop.simps) (simp add: r)
    moreover have "on_path st t path ?c" using less.prems(1) by (rule on_path_cong) simp_all
    then have "at_entry st t ?c (rank t path (nat x))" unfolding at_entry_def using True x less.prems(7) by (auto intro!: exI [of _ path])
    ultimately show ?thesis using nearest_leaf [OF less.prems(6) True F] less.prems(7,9) by (intro exI conjI) (assumption | simp)+
  next
    case False
    define l where "l = nat (if c = 0 then x else lw)"
    have l: "\<forall>i < l. key_less (separators ?u ! i) k" "\<forall>i. l \<le> i \<and> i < length (separators ?u) \<longrightarrow> \<not> key_less (separators ?u ! i) k"
      "l < length (subtrees ?u)" "0 \<le> (if c = 0 then x else lw)"
      using found_at_split [OF F] o False by (auto simp: l_def node_ordered_def length_subtrees less_Suc_eq_le split: if_splits)
    have lm: "l mod 65536 = l" using l(3) False pg(2,10) by (simp add: length_subtrees)
    let ?cur = "cur\<lparr>ix := l\<rparr>"
    have p: "on_path st t path ?cur" using less.prems(1) by simp
    obtain cur1 st1 where m: "moveToChild st ?cur (root_pg (subtrees ?u ! l)) = (SQLITE_OK, cur1, st1)"
      "on_path st1 t (path @ [l]) cur1" "moves st ?cur st1 cur1" "nSize (info cur1) = 0" "\<not> validOvfl cur1"
      by (rule moveToChild_tree [OF p less.prems(2,3)]) (use l(3) in simp_all)
    have sc: "same_content st st1" using m(3) by (simp add: moves_def)
    have k1: "\<not> atLast cur1" "skipNext cur1 = skipNext cur" using m(3) less.prems(7) by (simp_all add: moves_def kept_def)
    have ch: "(if int (nCell ?P) \<le> (if c = 0 then x else lw) then right_child (sdb st) cur else left_child (sdb st) cur l) = root_pg (subtrees ?u ! l)"
      using on_path_child [OF less.prems(1,2) l(3)] pg(2,8) l(4) by (auto simp: l_def split: if_splits)
    have e: "kv_moveto_loop k bias st cur = kv_moveto_loop k bias st1 cur1"
      using False pg(7) m(1) ch lm by (subst kv_moveto_loop.simps) (simp add: r l_def [symmetric] Let_def cong: if_cong)
    have f: "separators (locate t (path @ [l])) \<noteq> []" using tree_at_full [OF less.prems(2), of "path @ [l]"] m(2) by (simp add: on_path_def)
    have h: "height (locate t (path @ [l])) < height ?u" using l(3) by (simp add: height_subtree)
    show ?thesis
      using less.hyps [OF h m(2) tree_at_same [OF sc less.prems(2)] same_contentD(4) [OF sc less.prems(3)] less.prems(4) f
          framed_child [OF less.prems(6) o l(1-3)] k1(1) m(4,5)] same_content_trans [OF sc] k1(2)
      unfolding e by fastforce
  qed
qed

lemma at_entry_key:
  assumes "at_entry st t cur n" "tree_at st t"
  shows "cell_key (bts (sdb st)) (cur_page (sdb st) cur) (ix cur) = keys t ! n"
proof -
  obtain path where p: "on_path st t path cur" "is_leaf (locate t path)" "ix cur < length (separators (locate t path))" "n = rank t path (ix cur)"
    using assms by (auto simp: at_entry_def)
  then show ?thesis using on_path_key [OF p(1) assms(2) p(3)] rank_keys(2) [of t path "ix cur"] by (simp add: on_path_def)
qed

text \<open>A cursor between two calls: if it is valid, it is on an entry.\<close>

definition settled :: "bt_state \<Rightarrow> kv_tree \<Rightarrow> bt_cursor \<Rightarrow> bool" where
  "settled st t cur \<longleftrightarrow> opened st t cur \<and> (eState cur = CURSOR_VALID \<longrightarrow> (\<exists>n. at_entry st t cur n))"

lemma at_entry_settled: "at_entry st t cur n \<Longrightarrow> settled st t cur"
  using at_entry_opened by (auto simp: settled_def)

lemma sqlite3BtreeKvMoveto_tree:
  assumes o: "settled st t cur" and t: "tree_at st t" and c: "calm st" and s: "ordered t"
  shows "\<exists>res cur' st'. sqlite3BtreeKvMoveto st cur k bias = (SQLITE_OK, Some res, cur', st') \<and> same_content st st' \<and> settled st' t cur' \<and>
    skipNext cur' = skipNext cur \<and> (cur' = cur \<and> eState cur = CURSOR_VALID \<or> keys t = [] \<or> nSize (info cur') = 0 \<and> \<not> validOvfl cur' \<and> \<not> atLast cur') \<and>
    (if keys t = [] then res = -1 \<and> eState cur' = CURSOR_INVALID
     else \<exists>n. at_entry st' t cur' n \<and> nearest (keys t) k n res)"
proof (cases "eState cur = CURSOR_VALID \<and> validNKey cur \<and> skipNext cur = 0 \<and>
    cell_key (bts (sdb st)) (cur_page (sdb st) cur) (ix cur) = k")
  case True
  then obtain n where n: "at_entry st t cur n" using o by (auto simp: settled_def)
  have "sqlite3BtreeKvMoveto st cur k bias = (SQLITE_OK, Some 0, cur, st)"
    using True by (simp add: sqlite3BtreeKvMoveto_def cell_key_def btreeParseCell_def)
  then show ?thesis using n o at_entry_less [OF n] at_entry_key [OF n t] True by (auto simp: nearest_def)
next
  case False
  then have e: "sqlite3BtreeKvMoveto st cur k bias = (case moveToRoot st cur of (rc, cur, st) \<Rightarrow>
      if rc = SQLITE_EMPTY then (SQLITE_OK, Some (-1), cur, st) else if rc \<noteq> SQLITE_OK then (rc, None, cur, st)
      else kv_moveto_loop k bias st cur)"
    unfolding sqlite3BtreeKvMoveto_def cell_key_def btreeParseCell_def by (simp only: if_False)
  have op: "opened st t cur" using o by (simp add: settled_def)
  show ?thesis
  proof (cases "keys t = []")
    case True
    then show ?thesis using moveToRoot_tree [OF op t c] e by (auto simp: settled_def)
  next
    case False
    then obtain cur1 st1 path where r: "moveToRoot st cur = (SQLITE_OK, cur1, st1)" "on_path st1 t path cur1" "same_content st st1"
      "separators (locate t path) \<noteq> []" "before t path = 0" "keys (locate t path) = keys t" "nSize (info cur1) = 0" "\<not> atLast cur1" "skipNext cur1 = skipNext cur" "\<not> validOvfl cur1"
      using moveToRoot_tree [OF op t c] by auto
    have f: "framed t k path" using r(5,6) by (auto simp: framed_def)
    show ?thesis using kv_moveto_loop_tree [OF r(2) tree_at_same [OF r(3) t] same_contentD(4) [OF r(3) c] s r(4) f r(8,7,10), of bias]
      False e r(1,9) same_content_trans [OF r(3)] at_entry_settled by fastforce
  qed
qed

section \<open>Positions that survive a change of the tree\<close>

lemma sorted_wrt_concat:
  "\<forall>i < length xss. sorted_wrt P (xss ! i) \<Longrightarrow> \<forall>i j. i < j \<and> j < length xss \<longrightarrow> (\<forall>x \<in> set (xss ! i). \<forall>y \<in> set (xss ! j). P x y) \<Longrightarrow>
   sorted_wrt P (concat xss)"
proof (induction xss)
  case (Cons xs xss)
  have "P x y" if "x \<in> set xs" "ys \<in> set xss" "y \<in> set ys" for x ys y
  proof -
    obtain j where "j < length xss" "ys = xss ! j" using \<open>ys \<in> set xss\<close> by (auto simp: in_set_conv_nth)
    then show ?thesis using Cons.prems(2) [rule_format, of 0 "Suc j"] that by auto
  qed
  moreover have "sorted_wrt P (concat xss)"
  proof (rule Cons.IH)
    show "\<forall>i < length xss. sorted_wrt P (xss ! i)" using Cons.prems(1) by (auto dest: spec [of _ "Suc _"])
    show "\<forall>i j. i < j \<and> j < length xss \<longrightarrow> (\<forall>x \<in> set (xss ! i). \<forall>y \<in> set (xss ! j). P x y)"
      using Cons.prems(2) by (intro allI impI) (metis Suc_less_eq length_Cons nth_Cons_Suc)
  qed
  ultimately show ?case using Cons.prems(1) [rule_format, of 0] by (auto simp: sorted_wrt_append)
qed simp

lemma ordered_keys: "ordered t \<Longrightarrow> sorted_wrt key_less (keys t)"
proof (induction "height t" arbitrary: t rule: less_induct)
  case less
  have o: "node_ordered t" using less.prems by (simp add: ordered_def)
  show ?case
  proof (cases "is_leaf t")
    case True
    then show ?thesis using o by (simp add: keys_leaf node_ordered_def)
  next
    case False
    have "sorted_wrt key_less (keys u)" if "u \<in> set (subtrees t)" for u
      using less.hyps [OF height_subtree [OF that]] all_nodes_subtree [OF that] less.prems by (auto simp: ordered_def)
    moreover have "key_less x y" if "i < j" "j < length (subtrees t)" "x \<in> set (keys (subtrees t ! i))" "y \<in> set (keys (subtrees t ! j))" for i j x y
    proof -
      have "i < length (separators t)" using that False by (simp add: length_subtrees)
      then have "\<not> key_less (separators t ! i) x" "key_less (separators t ! i) y"
        using node_orderedD(1) [OF o, of i i x] node_orderedD(2) [OF o, of i j y] that by simp_all
      then show ?thesis using key_less_linear key_less_trans by metis
    qed
    ultimately show ?thesis unfolding keys_subtrees [OF False] by (intro sorted_wrt_concat) (auto simp: in_set_conv_nth)
  qed
qed

text \<open>The cursor has given up its pages and remembers the key \<open>k\<close>.\<close>

definition saved :: "pgno \<Rightarrow> bt_cursor \<Rightarrow> bytes \<Rightarrow> bool" where
  "saved root cur k \<longleftrightarrow> length (aiIdx cur) = 19 \<and> length (apPage cur) = 19 \<and> pgnoRoot cur = root \<and> eState cur = CURSOR_REQUIRESEEK \<and>
     iPage cur = -1 \<and> savedKey cur = Some k \<and> skipNext cur = 0"

lemma saveCursorPosition_tree:
  assumes a: "at_entry st t cur n" and t: "tree_at st t" and p: "\<not> pinned cur"
  shows "\<exists>rc cur' st'. saveCursorPosition st cur = (rc, cur', st') \<and>
    (if fst (next_alloc (heapAns (sdb st))) then rc = SQLITE_OK \<and> saved (root_pg t) cur' (keys t ! n)
     else rc = SQLITE_NOMEM)"
proof -
  have v: "eState cur = CURSOR_VALID" "iPage cur \<ge> 0" "length (aiIdx cur) = 19" "length (apPage cur) = 19" "pgnoRoot cur = root_pg t"
    using a by (auto simp: at_entry_def on_path_def)
  let ?c = "getCellInfo (sdb st) (cur\<lparr>skipNext := 0\<rparr>)"
  have i: "info ?c = btreeParseCell (bts (sdb st)) (cur_page (sdb st) cur) (ix cur)"
    using a by (auto simp: getCellInfo_def at_entry_def cur_page_def)
  have "info_key (info ?c) (findCell (cur_page (sdb st) cur) (ix cur)) = keys t ! n"
    using at_entry_key [OF a t] by (simp add: i cell_key_def btreeParseCell_def)
  moreover have "ix ?c = ix cur" "pCurPage ?c = pCurPage cur" "iPage ?c = iPage cur" "aiIdx ?c = aiIdx cur" "apPage ?c = apPage cur"
    "pgnoRoot ?c = pgnoRoot cur" "skipNext ?c = 0" by (simp_all add: getCellInfo_def)
  ultimately show ?thesis using p v
    by (auto simp: saveCursorPosition_def saveCursorKey_def btreeReleaseAllCursorPages_def saved_def cur_page_def Let_def split: prod.splits)
qed

lemma saved_opened: "saved (root_pg t) cur k \<Longrightarrow> opened st t (cur\<lparr>eState := CURSOR_INVALID\<rparr>)"
  by (simp add: saved_def opened_def)

lemma restore_tree:
  assumes s: "saved (root_pg t) cur k" and t: "tree_at st t" "calm st" "ordered t"
  shows "\<exists>cur' st'. restoreCursorPosition st cur = (SQLITE_OK, cur', st') \<and> same_content st st' \<and> opened st' t cur' \<and>
    (if keys t = [] then eState cur' = CURSOR_INVALID
     else \<exists>n. at_entry st' t (cur'\<lparr>eState := CURSOR_VALID\<rparr>) n \<and> nearest (keys t) k n (skipNext cur') \<and> nSize (info cur') = 0 \<and> \<not> validOvfl cur' \<and> \<not> atLast cur' \<and>
       eState cur' = (if skipNext cur' = 0 then CURSOR_VALID else CURSOR_SKIPNEXT))"
proof -
  let ?c = "cur\<lparr>eState := CURSOR_INVALID\<rparr>"
  have o: "settled st t ?c" using saved_opened [OF s] by (simp add: settled_def)
  obtain res cur1 st1 where r: "sqlite3BtreeKvMoveto st ?c k False = (SQLITE_OK, Some res, cur1, st1)" "same_content st st1" "settled st1 t cur1"
    "skipNext cur1 = 0" "keys t = [] \<or> nSize (info cur1) = 0 \<and> \<not> validOvfl cur1 \<and> \<not> atLast cur1" "if keys t = [] then res = -1 \<and> eState cur1 = CURSOR_INVALID else \<exists>n. at_entry st1 t cur1 n \<and> nearest (keys t) k n res"
    using sqlite3BtreeKvMoveto_tree [OF o t, of k False] s by (auto simp: saved_def)
  let ?sk = "if res = 0 then 0 else res"
  let ?e = "if res \<noteq> 0 \<and> eState cur1 = CURSOR_VALID then CURSOR_SKIPNEXT else eState cur1"
  let ?c2 = "cur1\<lparr>savedKey := None, skipNext := res, eState := ?e\<rparr>"
  have e: "restoreCursorPosition st cur = (SQLITE_OK, ?c2, st1)"
    using s r(1,4) by (auto simp: restoreCursorPosition_def btreeRestoreCursorPosition_def btreeMoveto_def saved_def Let_def)
  have op: "opened st1 t ?c2"
  proof -
    have "opened st1 t cur1" using r(3) by (simp add: settled_def)
    then show ?thesis unfolding opened_def
      using on_path_cong [of st1 t _ "cur1\<lparr>eState := CURSOR_VALID\<rparr>" st1 "?c2\<lparr>eState := CURSOR_VALID\<rparr>"] by auto
  qed
  show ?thesis
  proof (cases "keys t = []")
    case True
    then show ?thesis using e r(2,6) op by auto
  next
    case False
    then obtain n where n: "at_entry st1 t cur1 n" "nearest (keys t) k n res" using r(6) by auto
    then have v: "eState cur1 = CURSOR_VALID" by (auto simp: at_entry_def on_path_def)
    have "at_entry st1 t (?c2\<lparr>eState := CURSOR_VALID\<rparr>) n"
      using n(1) on_path_cong [of st1 t _ cur1 st1 "?c2\<lparr>eState := CURSOR_VALID\<rparr>"] v unfolding at_entry_def by (auto simp: cur_page_def)
    then show ?thesis using e r(2,5) op n(2) False v by (auto intro!: exI [of _ n])
  qed
qed


text \<open>The first key after \<open>k\<close>, and the last one before it.\<close>

definition first_after :: "bytes list \<Rightarrow> bytes \<Rightarrow> nat \<Rightarrow> bool" where
  "first_after ks k n \<longleftrightarrow> n < length ks \<and> key_less k (ks ! n) \<and> (\<forall>m < n. \<not> key_less k (ks ! m))"

definition last_before :: "bytes list \<Rightarrow> bytes \<Rightarrow> nat \<Rightarrow> bool" where
  "last_before ks k n \<longleftrightarrow> n < length ks \<and> key_less (ks ! n) k \<and> (\<forall>m. n < m \<and> m < length ks \<longrightarrow> \<not> key_less (ks ! m) k)"

lemma nearest_after:
  assumes s: "sorted_wrt key_less ks" and n: "nearest ks k n c"
  shows "c > 0 \<Longrightarrow> first_after ks k n" "c \<le> 0 \<Longrightarrow> Suc n < length ks \<Longrightarrow> first_after ks k (Suc n)"
    "c \<le> 0 \<Longrightarrow> \<not> Suc n < length ks \<Longrightarrow> \<not> (\<exists>m. first_after ks k m)"
proof -
  have o: "i < j \<Longrightarrow> j < length ks \<Longrightarrow> key_less (ks ! i) (ks ! j)" for i j using s by (simp add: sorted_wrt_iff_nth_less)
  show "c > 0 \<Longrightarrow> first_after ks k n" using n key_less_asym by (auto simp: nearest_def first_after_def)
  assume c: "c \<le> 0"
  have "\<not> key_less k (ks ! m)" if "m \<le> n" for m
  proof -
    have "ks ! n = k \<or> key_less (ks ! n) k" using n c by (cases "c = 0") (auto simp: nearest_def)
    moreover have "m = n \<or> key_less (ks ! m) (ks ! n)" using o [of m n] n that by (cases "m = n") (auto simp: nearest_def)
    ultimately show ?thesis by (metis key_less_asym key_less_trans key_less_irrefl)
  qed
  moreover have "Suc n < length ks \<Longrightarrow> key_less k (ks ! Suc n)"
    using n c o [of n "Suc n"] by (cases "c = 0") (auto simp: nearest_def)
  ultimately show "Suc n < length ks \<Longrightarrow> first_after ks k (Suc n)" "\<not> Suc n < length ks \<Longrightarrow> \<not> (\<exists>m. first_after ks k m)"
    by (auto simp: first_after_def)
qed

lemma nearest_before:
  assumes s: "sorted_wrt key_less ks" and n: "nearest ks k n c"
  shows "c < 0 \<Longrightarrow> last_before ks k n" "c \<ge> 0 \<Longrightarrow> 0 < n \<Longrightarrow> last_before ks k (n - 1)"
    "c \<ge> 0 \<Longrightarrow> n = 0 \<Longrightarrow> \<not> (\<exists>m. last_before ks k m)"
proof -
  have o: "i < j \<Longrightarrow> j < length ks \<Longrightarrow> key_less (ks ! i) (ks ! j)" for i j using s by (simp add: sorted_wrt_iff_nth_less)
  show "c < 0 \<Longrightarrow> last_before ks k n" using n key_less_asym by (auto simp: nearest_def last_before_def)
  assume c: "c \<ge> 0"
  have "\<not> key_less (ks ! m) k" if "n \<le> m" "m < length ks" for m
  proof -
    have "ks ! n = k \<or> key_less k (ks ! n)" using n c by (cases "c = 0") (auto simp: nearest_def)
    moreover have "m = n \<or> key_less (ks ! n) (ks ! m)" using o [of n m] that by (cases "m = n") auto
    ultimately show ?thesis by (metis key_less_asym key_less_trans key_less_irrefl)
  qed
  moreover have "0 < n \<Longrightarrow> key_less (ks ! (n - 1)) k"
    using n c o [of "n - 1" n] by (cases "c = 0") (auto simp: nearest_def)
  ultimately show "0 < n \<Longrightarrow> last_before ks k (n - 1)" "n = 0 \<Longrightarrow> \<not> (\<exists>m. last_before ks k m)"
    using n by (auto simp: last_before_def nearest_def)
qed

lemma saved_forget [simp]: "saved root (forget cur) k = saved root cur k"
  by (simp add: saved_def)

lemma at_entry_path:
  assumes "at_entry st t cur n"
  obtains path where "on_path st t path cur" "is_leaf (locate t path)" "ix cur < length (separators (locate t path))" "n = rank t path (ix cur)"
  using assms by (auto simp: at_entry_def)

lemma restored_next:
  assumes s: "saved (root_pg t) cur k" and t: "tree_at st t" "calm st" "ordered t"
  shows "\<exists>rc cur' st'. sqlite3BtreeNext st cur = (rc, cur', st') \<and> same_content st st' \<and> settled st' t cur' \<and>
    (rc = SQLITE_OK \<and> (\<exists>n. at_entry st' t cur' n \<and> first_after (keys t) k n) \<or>
     rc = SQLITE_DONE \<and> eState cur' = CURSOR_INVALID \<and> \<not> (\<exists>n. first_after (keys t) k n))"
proof -
  have s': "saved (root_pg t) (forget cur) k" using s by simp
  obtain cur1 st1 where r: "restoreCursorPosition st (forget cur) = (SQLITE_OK, cur1, st1)" "same_content st st1" "opened st1 t cur1"
    "if keys t = [] then eState cur1 = CURSOR_INVALID
     else \<exists>n. at_entry st1 t (cur1\<lparr>eState := CURSOR_VALID\<rparr>) n \<and> nearest (keys t) k n (skipNext cur1) \<and> nSize (info cur1) = 0 \<and> \<not> validOvfl cur1 \<and> \<not> atLast cur1 \<and>
       eState cur1 = (if skipNext cur1 = 0 then CURSOR_VALID else CURSOR_SKIPNEXT)"
    using restore_tree [OF s' t] by auto
  have e: "sqlite3BtreeNext st cur = (if eState cur1 = CURSOR_INVALID then (SQLITE_DONE, cur1, st1)
      else if eState cur1 = CURSOR_SKIPNEXT \<and> skipNext cur1 > 0 then (SQLITE_OK, cur1\<lparr>eState := CURSOR_VALID\<rparr>, st1)
      else btreeNext_valid st1 (if eState cur1 = CURSOR_SKIPNEXT then cur1\<lparr>eState := CURSOR_VALID\<rparr> else cur1))"
    using s r(1) by (auto simp: sqlite3BtreeNext_def btreeNext_def saved_def Let_def)
  show ?thesis
  proof (cases "keys t = []")
    case True
    then show ?thesis using e r(2-4) by (auto simp: settled_def first_after_def)
  next
    case False
    let ?c = "cur1\<lparr>eState := CURSOR_VALID\<rparr>"
    obtain n where n: "at_entry st1 t ?c n" "nearest (keys t) k n (skipNext cur1)" "nSize (info cur1) = 0"
      "eState cur1 = (if skipNext cur1 = 0 then CURSOR_VALID else CURSOR_SKIPNEXT)" using r(4) False by auto
    note near = nearest_after [OF ordered_keys [OF t(3)] n(2)]
    show ?thesis
    proof (cases "skipNext cur1 > 0")
      case True
      then show ?thesis using e n near(1) r(2) at_entry_settled [OF n(1)] by auto
    next
      case F: False
      have cc: "(if eState cur1 = CURSOR_SKIPNEXT then ?c else cur1) = ?c" using n(4) by (cases cur1) auto
      have e': "sqlite3BtreeNext st cur = btreeNext_valid st1 ?c" using e F n(4) unfolding cc by auto
      obtain path where p: "on_path st1 t path ?c" "is_leaf (locate t path)" "ix ?c < length (separators (locate t path))" "n = rank t path (ix ?c)"
        by (rule at_entry_path [OF n(1)])
      have al: "atLast ?c \<Longrightarrow> Suc (rank t path (ix ?c)) = length (keys t)" using n(1) p(4) by (simp add: at_entry_def)
      have ns: "nSize (info ?c) = 0" using n(3) by simp
      obtain rc cur2 st2 where b: "btreeNext_valid st1 ?c = (rc, cur2, st2)" "same_content st1 st2"
        "if Suc n < length (keys t) then rc = SQLITE_OK \<and> at_entry st2 t cur2 (Suc n)
         else rc = SQLITE_DONE \<and> eState cur2 = CURSOR_INVALID \<and> opened st2 t cur2"
        using btreeNext_tree [OF p(1-3) ns al tree_at_same [OF r(2) t(1)] same_contentD(4) [OF r(2) t(2)]] unfolding p(4) [symmetric] by blast
      show ?thesis
      proof (cases "Suc n < length (keys t)")
        case True
        then show ?thesis using e' b near(2) F same_content_trans [OF r(2) b(2)] at_entry_settled by auto
      next
        case False
        then show ?thesis using e' b near(3) F same_content_trans [OF r(2) b(2)] by (auto simp: settled_def)
      qed
    qed
  qed
qed

lemma restored_previous:
  assumes s: "saved (root_pg t) cur k" and t: "tree_at st t" "calm st" "ordered t"
  shows "\<exists>rc cur' st'. sqlite3BtreePrevious st cur = (rc, cur', st') \<and> same_content st st' \<and> settled st' t cur' \<and>
    (rc = SQLITE_OK \<and> (\<exists>n. at_entry st' t cur' n \<and> last_before (keys t) k n) \<or>
     rc = SQLITE_DONE \<and> eState cur' = CURSOR_INVALID \<and> \<not> (\<exists>n. last_before (keys t) k n))"
proof -
  let ?f = "(forget cur)\<lparr>atLast := False\<rparr>"
  have s': "saved (root_pg t) ?f k" using s by (simp add: saved_def)
  obtain cur1 st1 where r: "restoreCursorPosition st ?f = (SQLITE_OK, cur1, st1)" "same_content st st1" "opened st1 t cur1"
    "if keys t = [] then eState cur1 = CURSOR_INVALID
     else \<exists>n. at_entry st1 t (cur1\<lparr>eState := CURSOR_VALID\<rparr>) n \<and> nearest (keys t) k n (skipNext cur1) \<and> nSize (info cur1) = 0 \<and> \<not> validOvfl cur1 \<and> \<not> atLast cur1 \<and>
       eState cur1 = (if skipNext cur1 = 0 then CURSOR_VALID else CURSOR_SKIPNEXT)"
    using restore_tree [OF s' t] by auto
  have e: "sqlite3BtreePrevious st cur = (if eState cur1 = CURSOR_INVALID then (SQLITE_DONE, cur1, st1)
      else if eState cur1 = CURSOR_SKIPNEXT \<and> skipNext cur1 < 0 then (SQLITE_OK, cur1\<lparr>eState := CURSOR_VALID\<rparr>, st1)
      else btreePrevious_valid st1 (if eState cur1 = CURSOR_SKIPNEXT then cur1\<lparr>eState := CURSOR_VALID\<rparr> else cur1))"
    using s r(1) by (auto simp: sqlite3BtreePrevious_def btreePrevious_def saved_def Let_def)
  show ?thesis
  proof (cases "keys t = []")
    case True
    then show ?thesis using e r(2-4) by (auto simp: settled_def last_before_def)
  next
    case False
    let ?c = "cur1\<lparr>eState := CURSOR_VALID\<rparr>"
    obtain n where n: "at_entry st1 t ?c n" "nearest (keys t) k n (skipNext cur1)" "nSize (info cur1) = 0" "\<not> atLast cur1"
      "eState cur1 = (if skipNext cur1 = 0 then CURSOR_VALID else CURSOR_SKIPNEXT)" using r(4) False by auto
    note near = nearest_before [OF ordered_keys [OF t(3)] n(2)]
    show ?thesis
    proof (cases "skipNext cur1 < 0")
      case True
      then show ?thesis using e n near(1) r(2) at_entry_settled [OF n(1)] by auto
    next
      case F: False
      have cc: "(if eState cur1 = CURSOR_SKIPNEXT then ?c else cur1) = ?c" using n(5) by (cases cur1) auto
      have e': "sqlite3BtreePrevious st cur = btreePrevious_valid st1 ?c" using e F n(5) unfolding cc by auto
      obtain path where p: "on_path st1 t path ?c" "is_leaf (locate t path)" "ix ?c < length (separators (locate t path))" "n = rank t path (ix ?c)"
        by (rule at_entry_path [OF n(1)])
      have ns: "nSize (info ?c) = 0" "\<not> atLast ?c" using n(3,4) by simp_all
      obtain rc cur2 st2 where b: "btreePrevious_valid st1 ?c = (rc, cur2, st2)" "same_content st1 st2"
        "if 0 < n then rc = SQLITE_OK \<and> at_entry st2 t cur2 (n - 1)
         else rc = SQLITE_DONE \<and> eState cur2 = CURSOR_INVALID \<and> opened st2 t cur2"
        using btreePrevious_tree [OF p(1-3) ns tree_at_same [OF r(2) t(1)] same_contentD(4) [OF r(2) t(2)]] unfolding p(4) [symmetric] by blast
      show ?thesis
      proof (cases "0 < n")
        case True
        then show ?thesis using e' b near(2) F same_content_trans [OF r(2) b(2)] at_entry_settled by auto
      next
        case False
        then show ?thesis using e' b near(3) F same_content_trans [OF r(2) b(2)] by (auto simp: settled_def)
      qed
    qed
  qed
qed

end
