(* ===== verification/Api.thy ===== *)
theory Api
  imports CursorSteps
begin

text \<open>
  The read side of the public interface (\<open>src/src/btreelite_api.c\<close>): looking a key up, seeking, stepping through
  a tree in both directions and reading the current entry.

  A handle is the cursor it owns, or \<open>None\<close> for a null handle (or one without a cursor).  The codes
  \<open>BTREELITE_\<dots>\<close> have the values of the \<open>SQLITE_\<dots>\<close> codes of the same name.
\<close>

section \<open>Operations\<close>

type_synonym btreelite_cur = "bt_cursor option"

abbreviation BTREELITE_MAX_KEY :: int where "BTREELITE_MAX_KEY \<equiv> 255"

text \<open>A key argument is a pointer, \<open>None\<close> if it is null, and a length.\<close>

definition kvCheckKey :: "bytes option \<Rightarrow> int \<Rightarrow> rc" where
  "kvCheckKey k nK =
     (if nK < 0 \<or> nK > BTREELITE_MAX_KEY then SQLITE_TOOBIG
      else if nK > 0 \<and> k = None then SQLITE_ERROR else SQLITE_OK)"

definition arg_bytes :: "bytes option \<Rightarrow> int \<Rightarrow> bytes" where
  "arg_bytes k nK = (case k of None \<Rightarrow> [] | Some b \<Rightarrow> take (nat nK) b)"

text \<open>The callers set \<open>*pRes\<close> to 0 before the call.\<close>

definition kvMoveto :: "bt_state \<Rightarrow> bt_cursor \<Rightarrow> bytes option \<Rightarrow> int \<Rightarrow> rc \<times> int \<times> bt_cursor \<times> bt_state" where
  "kvMoveto st c k nK =
     (let rc = kvCheckKey k nK in
      if rc \<noteq> SQLITE_OK then (rc, 0, c, st)
      else case sqlite3BtreeKvMoveto st c (arg_bytes k nK) False of (rc, res, c, st) \<Rightarrow>
        (rc, case res of None \<Rightarrow> 0 | Some r \<Rightarrow> r, c, st))"

definition btreelite_get :: "bt_state \<Rightarrow> btreelite_cur \<Rightarrow> bytes option \<Rightarrow> int \<Rightarrow> rc \<times> btreelite_cur \<times> bt_state" where
  "btreelite_get st c k nK =
     (case c of
        None \<Rightarrow> (SQLITE_ERROR, c, st)
      | Some cur \<Rightarrow>
          (case kvMoveto st cur k nK of (rc, res, cur, st) \<Rightarrow>
             (if rc \<noteq> SQLITE_OK then rc else if res = 0 then SQLITE_OK else SQLITE_NOTFOUND, Some cur, st)))"

definition btreelite_seek :: "bt_state \<Rightarrow> btreelite_cur \<Rightarrow> bytes option \<Rightarrow> int \<Rightarrow> rc \<times> btreelite_cur \<times> bt_state" where
  "btreelite_seek st c k nK =
     (case c of
        None \<Rightarrow> (SQLITE_ERROR, c, st)
      | Some cur \<Rightarrow>
          (case kvMoveto st cur k nK of (rc, res, cur, st) \<Rightarrow>
             if rc \<noteq> SQLITE_OK then (rc, Some cur, st)
             else if res < 0 then
               case sqlite3BtreeNext st cur of (rc, cur, st) \<Rightarrow>
                 (if rc = SQLITE_DONE then SQLITE_OK else if rc \<noteq> SQLITE_OK then rc else SQLITE_OK, Some cur, st)
             else (SQLITE_OK, Some cur, st)))"

definition btreelite_eof :: "btreelite_cur \<Rightarrow> bool" where
  "btreelite_eof c = (case c of None \<Rightarrow> True | Some cur \<Rightarrow> sqlite3BtreeEof cur)"

definition btreelite_first :: "bt_state \<Rightarrow> btreelite_cur \<Rightarrow> rc \<times> int option \<times> btreelite_cur \<times> bt_state" where
  "btreelite_first st c =
     (case c of
        None \<Rightarrow> (SQLITE_ERROR, None, c, st)
      | Some cur \<Rightarrow> (case sqlite3BtreeFirst st cur of (rc, res, cur, st) \<Rightarrow> (rc, res, Some cur, st)))"

definition btreelite_last :: "bt_state \<Rightarrow> btreelite_cur \<Rightarrow> rc \<times> int option \<times> btreelite_cur \<times> bt_state" where
  "btreelite_last st c =
     (case c of
        None \<Rightarrow> (SQLITE_ERROR, None, c, st)
      | Some cur \<Rightarrow> (case sqlite3BtreeLast st cur of (rc, res, cur, st) \<Rightarrow> (rc, res, Some cur, st)))"

definition btreelite_next :: "bt_state \<Rightarrow> btreelite_cur \<Rightarrow> rc \<times> btreelite_cur \<times> bt_state" where
  "btreelite_next st c =
     (case c of
        None \<Rightarrow> (SQLITE_ERROR, c, st)
      | Some cur \<Rightarrow> (case sqlite3BtreeNext st cur of (rc, cur, st) \<Rightarrow> (rc, Some cur, st)))"

definition btreelite_prev :: "bt_state \<Rightarrow> btreelite_cur \<Rightarrow> rc \<times> btreelite_cur \<times> bt_state" where
  "btreelite_prev st c =
     (case c of
        None \<Rightarrow> (SQLITE_ERROR, c, st)
      | Some cur \<Rightarrow> (case sqlite3BtreePrevious st cur of (rc, cur, st) \<Rightarrow> (rc, Some cur, st)))"

text \<open>
  The length of the key and the bytes that are copied to the buffer of \<open>nMax\<close> bytes.  The cast of a negative
  \<open>nMax\<close> to \<open>u32\<close> is above the length of every key.
\<close>

definition btreelite_key :: "bt_state \<Rightarrow> btreelite_cur \<Rightarrow> int \<Rightarrow> rc \<times> nat \<times> bytes \<times> btreelite_cur" where
  "btreelite_key st c nMax =
     (case c of
        None \<Rightarrow> (SQLITE_ERROR, 0, [], c)
      | Some cur \<Rightarrow>
          if sqlite3BtreeEof cur then (SQLITE_ERROR, 0, [], c)
          else case sqlite3BtreeKvKey (sdb st) cur of (k, cur) \<Rightarrow>
            let nCopy = (if 0 \<le> nMax \<and> int (length k) > nMax then nat nMax else length k)
            in (SQLITE_OK, length k, take nCopy k, Some cur))"

definition btreelite_value_size :: "bt_state \<Rightarrow> btreelite_cur \<Rightarrow> rc \<times> nat \<times> btreelite_cur" where
  "btreelite_value_size st c =
     (case c of
        None \<Rightarrow> (SQLITE_ERROR, 0, c)
      | Some cur \<Rightarrow>
          if sqlite3BtreeEof cur then (SQLITE_ERROR, 0, c)
          else case sqlite3BtreeKvValueSize (sdb st) cur of (n, cur) \<Rightarrow> (SQLITE_OK, n, Some cur))"

definition btreelite_value_read ::
    "(pgno \<Rightarrow> bool) \<Rightarrow> (pgno \<Rightarrow> nat \<Rightarrow> rc \<times> bytes) \<Rightarrow> pgno \<Rightarrow> bt_state \<Rightarrow> btreelite_cur \<Rightarrow> nat \<Rightarrow> nat \<Rightarrow> bytes \<Rightarrow>
     rc \<times> bytes \<times> btreelite_cur \<times> bt_state" where
  "btreelite_value_read directOk osRead junk st c offset amt pBuf =
     (case c of
        None \<Rightarrow> (SQLITE_ERROR, pBuf, c, st)
      | Some cur \<Rightarrow>
          if sqlite3BtreeEof cur then (SQLITE_ERROR, pBuf, c, st)
          else case sqlite3BtreeKvValueRead directOk osRead junk (sdb st) cur offset amt pBuf of (rc, pBuf, cur, db) \<Rightarrow>
            (rc, pBuf, Some cur, st\<lparr>sdb := db\<rparr>))"

definition btreelite_value_fetch :: "bt_state \<Rightarrow> btreelite_cur \<Rightarrow> bytes option \<times> btreelite_cur" where
  "btreelite_value_fetch st c =
     (case c of
        None \<Rightarrow> (None, c)
      | Some cur \<Rightarrow>
          if sqlite3BtreeEof cur then (None, c)
          else case sqlite3BtreeKvValueFetch (sdb st) cur of (v, cur) \<Rightarrow> (Some v, Some cur))"

section \<open>Iteration\<close>

text \<open>
  The loop of a caller that steps a cursor until its end and collects the keys; \<open>None\<close> when a call fails or the fuel
  does not suffice.
\<close>

fun scan :: "('s \<Rightarrow> bool) \<Rightarrow> ('s \<Rightarrow> rc \<times> 'k \<times> 's) \<Rightarrow> ('s \<Rightarrow> rc \<times> 's) \<Rightarrow> nat \<Rightarrow> 's \<Rightarrow> ('k list \<times> 's) option" where
  "scan eof key step 0 s = (if eof s then Some ([], s) else None)"
| "scan eof key step (Suc n) s =
     (if eof s then Some ([], s)
      else case key s of (rc, k, s) \<Rightarrow>
        if rc \<noteq> SQLITE_OK then None
        else case step s of (rc, s) \<Rightarrow>
          if rc \<noteq> SQLITE_OK \<and> rc \<noteq> SQLITE_DONE then None
          else map_option (\<lambda>(ks, s). (k # ks, s)) (scan eof key step n s))"

text \<open>
  What a cursor promises to such a caller: \<open>ahead s ks\<close> says that \<open>ks\<close> are the keys from the current entry on.
\<close>

locale ordered_cursor =
  fixes ahead :: "'s \<Rightarrow> 'k list \<Rightarrow> bool"
    and eof :: "'s \<Rightarrow> bool"
    and key :: "'s \<Rightarrow> rc \<times> 'k \<times> 's"
    and step :: "'s \<Rightarrow> rc \<times> 's"
  assumes eof_ahead: "ahead s ks \<Longrightarrow> eof s \<longleftrightarrow> ks = []"
    and key_ahead: "ahead s (k # ks) \<Longrightarrow> \<exists>s'. key s = (SQLITE_OK, k, s') \<and> ahead s' (k # ks)"
    and step_ahead: "ahead s (k # ks) \<Longrightarrow> \<exists>rc s'. step s = (rc, s') \<and> (rc = SQLITE_OK \<or> rc = SQLITE_DONE) \<and> ahead s' ks"
begin

lemma scan_ahead: "ahead s ks \<Longrightarrow> length ks \<le> n \<Longrightarrow> \<exists>s'. scan eof key step n s = Some (ks, s') \<and> ahead s' []"
proof (induction ks arbitrary: s n)
  case Nil
  then show ?case using eof_ahead [of s "[]"] by (cases n) auto
next
  case (Cons k ks)
  obtain m where n: "n = Suc m" "length ks \<le> m" using Cons.prems(2) by (cases n) auto
  obtain s1 where s1: "key s = (SQLITE_OK, k, s1)" "ahead s1 (k # ks)" using key_ahead [OF Cons.prems(1)] by blast
  obtain rc s2 where s2: "step s1 = (rc, s2)" "rc = SQLITE_OK \<or> rc = SQLITE_DONE" "ahead s2 ks" using step_ahead [OF s1(2)] by blast
  obtain s' where "scan eof key step m s2 = Some (ks, s')" "ahead s' []" using Cons.IH [OF s2(3) n(2)] by blast
  moreover have "\<not> eof s" using eof_ahead [OF Cons.prems(1)] by simp
  ultimately show ?case using n(1) s1(1) s2(1,2) by auto
qed

end

text \<open>The two directions on a tree.\<close>

definition api_ahead :: "(nat \<Rightarrow> bytes list) \<Rightarrow> kv_tree \<Rightarrow> nat \<Rightarrow> bt_state \<times> btreelite_cur \<Rightarrow> bytes list \<Rightarrow> bool" where
  "api_ahead rest t nMax s ks \<longleftrightarrow>
     (case s of (st, c) \<Rightarrow> \<exists>cur. c = Some cur \<and> tree_at st t \<and> calm st \<and> settled st t cur \<and> (\<forall>k \<in> set (keys t). length k \<le> nMax) \<and>
        (if eState cur = CURSOR_VALID then \<exists>n. at_entry st t cur n \<and> ks = rest n else ks = []))"

definition from_entry :: "kv_tree \<Rightarrow> nat \<Rightarrow> bytes list" where
  "from_entry t n = drop n (keys t)"

definition down_from_entry :: "kv_tree \<Rightarrow> nat \<Rightarrow> bytes list" where
  "down_from_entry t n = rev (take (Suc n) (keys t))"

definition api_eof :: "bt_state \<times> btreelite_cur \<Rightarrow> bool" where
  "api_eof s = btreelite_eof (snd s)"

definition api_key :: "nat \<Rightarrow> bt_state \<times> btreelite_cur \<Rightarrow> rc \<times> bytes \<times> bt_state \<times> btreelite_cur" where
  "api_key nMax s = (case btreelite_key (fst s) (snd s) (int nMax) of (rc, n, k, c) \<Rightarrow> (rc, k, fst s, c))"

definition api_next :: "bt_state \<times> btreelite_cur \<Rightarrow> rc \<times> bt_state \<times> btreelite_cur" where
  "api_next s = (case btreelite_next (fst s) (snd s) of (rc, c, st) \<Rightarrow> (rc, st, c))"

definition api_prev :: "bt_state \<times> btreelite_cur \<Rightarrow> rc \<times> bt_state \<times> btreelite_cur" where
  "api_prev s = (case btreelite_prev (fst s) (snd s) of (rc, c, st) \<Rightarrow> (rc, st, c))"

lemma at_entry_valid: "at_entry st t cur n \<Longrightarrow> eState cur = CURSOR_VALID"
  by (auto simp: at_entry_def on_path_def)

lemma at_entry_info:
  assumes "at_entry st t cur n"
  shows "at_entry st t (getCellInfo (sdb st) cur) n"
proof -
  let ?c = "getCellInfo (sdb st) cur"
  have f: "iPage ?c = iPage cur" "aiIdx ?c = aiIdx cur" "apPage ?c = apPage cur" "pCurPage ?c = pCurPage cur" "curIntKey ?c = curIntKey cur"
    "eState ?c = eState cur" "pgnoRoot ?c = pgnoRoot cur" "ix ?c = ix cur" "atLast ?c = atLast cur" by (simp_all add: getCellInfo_def)
  have "on_path st t path ?c" if "on_path st t path cur" for path using that by (rule on_path_cong) (simp_all add: f)
  moreover have "info ?c = btreeParseCell (bts (sdb st)) (cur_page (sdb st) ?c) (ix ?c)"
    using assms by (auto simp: getCellInfo_def at_entry_def cur_page_def)
  ultimately show ?thesis using assms f unfolding at_entry_def by auto
qed

lemma key_at_entry:
  assumes a: "at_entry st t cur n" and t: "tree_at st t"
  shows "sqlite3BtreeKvKey (sdb st) cur = (keys t ! n, getCellInfo (sdb st) cur)"
proof -
  let ?c = "getCellInfo (sdb st) cur"
  have "info ?c = btreeParseCell (bts (sdb st)) (cur_page (sdb st) cur) (ix cur)" "cur_page (sdb st) ?c = cur_page (sdb st) cur" "ix ?c = ix cur"
    using a by (auto simp: getCellInfo_def at_entry_def cur_page_def)
  then show ?thesis using at_entry_key [OF a t] by (simp add: sqlite3BtreeKvKey_def Let_def cell_key_def btreeParseCell_def)
qed

lemma api_ahead_eof: "api_ahead rest t nMax s ks \<Longrightarrow> (\<And>n. n < length (keys t) \<Longrightarrow> rest n \<noteq> []) \<Longrightarrow> api_eof s \<longleftrightarrow> ks = []"
proof -
  assume a: "api_ahead rest t nMax s ks" and r: "\<And>n. n < length (keys t) \<Longrightarrow> rest n \<noteq> []"
  obtain st cur where s: "s = (st, Some cur)" "if eState cur = CURSOR_VALID then \<exists>n. at_entry st t cur n \<and> ks = rest n else ks = []"
    using a by (auto simp: api_ahead_def)
  then have "ks \<noteq> []" if "eState cur = CURSOR_VALID" using that r at_entry_less by (metis (mono_tags))
  then show ?thesis using s by (auto simp: api_eof_def btreelite_eof_def sqlite3BtreeEof_def split: if_splits)
qed

lemma api_ahead_key:
  assumes a: "api_ahead rest t nMax s (k # ks)" and r: "\<And>n. n < length (keys t) \<Longrightarrow> hd (rest n) = keys t ! n"
  shows "\<exists>s'. api_key nMax s = (SQLITE_OK, k, s') \<and> api_ahead rest t nMax s' (k # ks)"
proof -
  obtain st cur n where s: "s = (st, Some cur)" "tree_at st t" "calm st" "\<forall>k \<in> set (keys t). length k \<le> nMax"
    "at_entry st t cur n" "k # ks = rest n" using a by (auto simp: api_ahead_def split: if_splits)
  have n: "n < length (keys t)" using at_entry_less [OF s(5)] .
  have k: "keys t ! n = k" using r [OF n] s(6) [symmetric] by simp
  have l: "length k \<le> nMax" using s(4) n k nth_mem by blast
  have "api_key nMax s = (SQLITE_OK, k, st, Some (getCellInfo (sdb st) cur))"
    using s(1) k l at_entry_valid [OF s(5)] key_at_entry [OF s(5,2)] by (simp add: api_key_def btreelite_key_def sqlite3BtreeEof_def)
  moreover have "api_ahead rest t nMax (st, Some (getCellInfo (sdb st) cur)) (k # ks)"
    unfolding api_ahead_def using s at_entry_info [OF s(5)] at_entry_valid [OF at_entry_info [OF s(5)]] at_entry_settled by auto
  ultimately show ?thesis by blast
qed

interpretation fwd: ordered_cursor "api_ahead (from_entry t) t nMax" api_eof "api_key nMax" api_next for t nMax
proof
  fix s ks assume "api_ahead (from_entry t) t nMax s ks"
  then show "api_eof s \<longleftrightarrow> ks = []" by (rule api_ahead_eof) (simp add: from_entry_def)
next
  fix s k ks assume "api_ahead (from_entry t) t nMax s (k # ks)"
  then show "\<exists>s'. api_key nMax s = (SQLITE_OK, k, s') \<and> api_ahead (from_entry t) t nMax s' (k # ks)"
    by (rule api_ahead_key) (simp add: from_entry_def hd_drop_conv_nth)
next
  fix s k ks assume a: "api_ahead (from_entry t) t nMax s (k # ks)"
  then obtain st cur n where s: "s = (st, Some cur)" "tree_at st t" "calm st" "\<forall>k \<in> set (keys t). length k \<le> nMax"
    "at_entry st t cur n" "k # ks = drop n (keys t)" by (auto simp: api_ahead_def from_entry_def split: if_splits)
  have k: "ks = drop (Suc n) (keys t)" using s(6) by (metis drop_Suc list.sel(3) tl_drop)
  obtain rc cur' st' where r: "sqlite3BtreeNext st cur = (rc, cur', st')" "same_content st st'" "opened st' t cur'"
    "if Suc n < length (keys t) then rc = SQLITE_OK \<and> at_entry st' t cur' (Suc n) else rc = SQLITE_DONE \<and> eState cur' = CURSOR_INVALID"
    using sqlite3BtreeNext_tree [OF s(5,2,3)] by blast
  have "api_ahead (from_entry t) t nMax (st', Some cur') ks"
    unfolding api_ahead_def from_entry_def
    using s(4) k r(2-4) tree_at_same [OF r(2) s(2)] same_contentD(4) [OF r(2) s(3)] at_entry_valid at_entry_settled
    by (auto simp: settled_def split: if_splits)
  moreover have "api_next s = (rc, st', Some cur')" using s(1) r(1) by (simp add: api_next_def btreelite_next_def)
  ultimately show "\<exists>rc s'. api_next s = (rc, s') \<and> (rc = SQLITE_OK \<or> rc = SQLITE_DONE) \<and> api_ahead (from_entry t) t nMax s' ks"
    using r(4) by (auto split: if_splits)
qed

interpretation bwd: ordered_cursor "api_ahead (down_from_entry t) t nMax" api_eof "api_key nMax" api_prev for t nMax
proof
  fix s ks assume "api_ahead (down_from_entry t) t nMax s ks"
  then show "api_eof s \<longleftrightarrow> ks = []" by (rule api_ahead_eof) (auto simp: down_from_entry_def)
next
  fix s k ks assume "api_ahead (down_from_entry t) t nMax s (k # ks)"
  then show "\<exists>s'. api_key nMax s = (SQLITE_OK, k, s') \<and> api_ahead (down_from_entry t) t nMax s' (k # ks)"
    by (rule api_ahead_key) (simp add: down_from_entry_def take_Suc_conv_app_nth)
next
  fix s k ks assume a: "api_ahead (down_from_entry t) t nMax s (k # ks)"
  then obtain st cur n where s: "s = (st, Some cur)" "tree_at st t" "calm st" "\<forall>k \<in> set (keys t). length k \<le> nMax"
    "at_entry st t cur n" "k # ks = rev (take (Suc n) (keys t))" by (auto simp: api_ahead_def down_from_entry_def split: if_splits)
  have k: "ks = rev (take n (keys t))" using s(6) at_entry_less [OF s(5)] by (simp add: take_Suc_conv_app_nth)
  obtain rc cur' st' where r: "sqlite3BtreePrevious st cur = (rc, cur', st')" "same_content st st'" "opened st' t cur'"
    "if 0 < n then rc = SQLITE_OK \<and> at_entry st' t cur' (n - 1) else rc = SQLITE_DONE \<and> eState cur' = CURSOR_INVALID"
    using sqlite3BtreePrevious_tree [OF s(5,2,3)] by blast
  have "api_ahead (down_from_entry t) t nMax (st', Some cur') ks"
    unfolding api_ahead_def down_from_entry_def
    using s(4) k r(2-4) tree_at_same [OF r(2) s(2)] same_contentD(4) [OF r(2) s(3)] at_entry_valid at_entry_settled
    by (cases n) (auto simp: settled_def)
  moreover have "api_prev s = (rc, st', Some cur')" using s(1) r(1) by (simp add: api_prev_def btreelite_prev_def)
  ultimately show "\<exists>rc s'. api_prev s = (rc, s') \<and> (rc = SQLITE_OK \<or> rc = SQLITE_DONE) \<and> api_ahead (down_from_entry t) t nMax s' ks"
    using r(4) by (auto split: if_splits)
qed


section \<open>Lookup\<close>

lemma nearest_member:
  assumes s: "sorted_wrt key_less ks" and n: "nearest ks k n c"
  shows "k \<in> set ks \<longleftrightarrow> c = 0"
proof
  assume "c = 0"
  then show "k \<in> set ks" using n by (auto simp: nearest_def)
next
  assume "k \<in> set ks"
  then obtain m where m: "m < length ks" "ks ! m = k" by (auto simp: in_set_conv_nth)
  show "c = 0"
  proof (rule ccontr)
    assume "c \<noteq> 0"
    have o: "i < j \<Longrightarrow> j < length ks \<Longrightarrow> key_less (ks ! i) (ks ! j)" for i j using s by (simp add: sorted_wrt_iff_nth_less)
    have nl: "n < length ks" using n by (simp add: nearest_def)
    show False
    proof (cases "c < 0")
      case True
      then have f: "key_less (ks ! n) k" "n < m \<Longrightarrow> key_less k k" using n m by (auto simp: nearest_def)
      then have "m < n" using m by (metis key_less_irrefl linorder_neqE_nat)
      then show False using o [of m n] nl f(1) m(2) key_less_asym by blast
    next
      case False
      then have f: "key_less k (ks ! n)" "m < n \<Longrightarrow> key_less k k" using n m \<open>c \<noteq> 0\<close> by (auto simp: nearest_def)
      then have "n < m" using m by (metis key_less_irrefl linorder_neqE_nat)
      then show False using o [of n m] m f(1) key_less_asym by blast
    qed
  qed
qed

text \<open>The first key that is not before \<open>k\<close>.\<close>

definition first_from :: "bytes list \<Rightarrow> bytes \<Rightarrow> nat \<Rightarrow> bool" where
  "first_from ks k n \<longleftrightarrow> n < length ks \<and> \<not> key_less (ks ! n) k \<and> (\<forall>m < n. key_less (ks ! m) k)"

lemma first_from_filter:
  "sorted_wrt key_less ks \<Longrightarrow> first_from ks k n \<Longrightarrow> filter (\<lambda>x. \<not> key_less x k) ks = drop n ks"
proof -
  assume s: "sorted_wrt key_less ks" and f: "first_from ks k n"
  have "\<not> key_less x k" if "x \<in> set (drop n ks)" for x
  proof -
    obtain j where "j < length ks - n" "x = ks ! (n + j)" using \<open>x \<in> set (drop n ks)\<close> by (auto simp: in_set_conv_nth)
    then obtain i where i: "n \<le> i" "i < length ks" "x = ks ! i" by (intro that [of "n + j"]) auto
    then have "i = n \<or> key_less (ks ! n) x" using s by (cases "i = n") (auto simp: sorted_wrt_iff_nth_less)
    then show ?thesis using f i(3) key_less_trans by (auto simp: first_from_def)
  qed
  moreover have "key_less x k" if "x \<in> set (take n ks)" for x using that f by (auto simp: first_from_def in_set_conv_nth)
  ultimately have "filter (\<lambda>x. \<not> key_less x k) (take n ks @ drop n ks) = drop n ks"
    by (simp only: filter_append) (auto simp: filter_empty_conv filter_id_conv)
  then show ?thesis by simp
qed

lemma no_first_from_filter: "\<not> (\<exists>n. first_from ks k n) \<Longrightarrow> filter (\<lambda>x. \<not> key_less x k) ks = []"
proof (rule ccontr)
  assume n: "\<not> (\<exists>n. first_from ks k n)" and "filter (\<lambda>x. \<not> key_less x k) ks \<noteq> []"
  then obtain i where i: "i < length ks \<and> \<not> key_less (ks ! i) k" by (auto simp: filter_empty_conv in_set_conv_nth)
  then have "first_from ks k (LEAST i. i < length ks \<and> \<not> key_less (ks ! i) k)"
    using LeastI [of "\<lambda>i. i < length ks \<and> \<not> key_less (ks ! i) k", OF i] not_less_Least [of _ "\<lambda>i. i < length ks \<and> \<not> key_less (ks ! i) k"]
    unfolding first_from_def by (meson less_trans)
  then show False using n by blast
qed

lemma nearest_from:
  assumes s: "sorted_wrt key_less ks" and n: "nearest ks k n c"
  shows "c \<ge> 0 \<Longrightarrow> first_from ks k n" "c < 0 \<Longrightarrow> Suc n < length ks \<Longrightarrow> first_from ks k (Suc n)"
    "c < 0 \<Longrightarrow> \<not> Suc n < length ks \<Longrightarrow> \<not> (\<exists>m. first_from ks k m)"
proof -
  have o: "i < j \<Longrightarrow> j < length ks \<Longrightarrow> key_less (ks ! i) (ks ! j)" for i j using s by (simp add: sorted_wrt_iff_nth_less)
  show "c \<ge> 0 \<Longrightarrow> first_from ks k n"
    using n o key_less_asym by (cases "c = 0") (auto simp: nearest_def first_from_def)
  assume c: "c < 0"
  have b: "key_less (ks ! m) k" if "m \<le> n" for m
    using n c o [of m n] that key_less_trans [of "ks ! m" "ks ! n" k] by (cases "m = n") (auto simp: nearest_def)
  show "Suc n < length ks \<Longrightarrow> first_from ks k (Suc n)" using b n c key_less_asym by (auto simp: first_from_def nearest_def less_Suc_eq_le)
  show "\<not> Suc n < length ks \<Longrightarrow> \<not> (\<exists>m. first_from ks k m)" using b by (auto simp: first_from_def)
qed

text \<open>A key argument that is accepted.\<close>

lemma kvMoveto_key:
  assumes "int (length k) \<le> BTREELITE_MAX_KEY"
  shows "kvMoveto st cur (Some k) (int (length k)) =
    (case sqlite3BtreeKvMoveto st cur k False of (rc, res, c, st) \<Rightarrow> (rc, case res of None \<Rightarrow> 0 | Some r \<Rightarrow> r, c, st))"
  using assms by (simp add: kvMoveto_def kvCheckKey_def arg_bytes_def split: prod.splits)

lemma btreelite_seek_tree:
  assumes o: "settled st t cur" and t: "tree_at st t" "calm st" "ordered t" and k: "int (length k) \<le> BTREELITE_MAX_KEY"
  shows "\<exists>cur' st'. btreelite_seek st (Some cur) (Some k) (int (length k)) = (SQLITE_OK, Some cur', st') \<and> same_content st st' \<and> settled st' t cur' \<and>
    (if eState cur' = CURSOR_VALID then \<exists>n. at_entry st' t cur' n \<and> first_from (keys t) k n else \<not> (\<exists>n. first_from (keys t) k n))"
proof -
  obtain res cur1 st1 where m: "sqlite3BtreeKvMoveto st cur k False = (SQLITE_OK, Some res, cur1, st1)" "same_content st st1" "settled st1 t cur1"
    "if keys t = [] then res = -1 \<and> eState cur1 = CURSOR_INVALID else \<exists>n. at_entry st1 t cur1 n \<and> nearest (keys t) k n res"
    using sqlite3BtreeKvMoveto_tree [OF o t, of k False] by auto
  have e: "btreelite_seek st (Some cur) (Some k) (int (length k)) = (if res < 0 then
      case sqlite3BtreeNext st1 cur1 of (rc, cur, st) \<Rightarrow> (if rc = SQLITE_DONE then SQLITE_OK else if rc \<noteq> SQLITE_OK then rc else SQLITE_OK, Some cur, st)
      else (SQLITE_OK, Some cur1, st1))"
    by (simp add: btreelite_seek_def kvMoveto_key [OF k] m(1))
  show ?thesis
  proof (cases "keys t = []")
    case True
    then have i: "res = -1" "eState cur1 = CURSOR_INVALID" using m(4) by auto
    then have "sqlite3BtreeNext st1 cur1 = (SQLITE_DONE, forget cur1, st1)"
      by (simp add: sqlite3BtreeNext_def btreeNext_def restoreCursorPosition_def)
    moreover have "opened st1 t (forget cur1)"
    proof -
      have "opened st1 t cur1" using m(3) by (simp add: settled_def)
      then show ?thesis unfolding opened_def
        using on_path_cong [of st1 t _ "cur1\<lparr>eState := CURSOR_VALID\<rparr>" st1 "(forget cur1)\<lparr>eState := CURSOR_VALID\<rparr>"] by auto
    qed
    ultimately show ?thesis using e i m(2) True by (auto simp: settled_def first_from_def)
  next
    case False
    then obtain n where n: "at_entry st1 t cur1 n" "nearest (keys t) k n res" using m(4) by auto
    note f = nearest_from [OF ordered_keys [OF t(3)] n(2)]
    show ?thesis
    proof (cases "res < 0")
      case True
      obtain rc cur' st' where r: "sqlite3BtreeNext st1 cur1 = (rc, cur', st')" "same_content st1 st'" "opened st' t cur'"
        "if Suc n < length (keys t) then rc = SQLITE_OK \<and> at_entry st' t cur' (Suc n) else rc = SQLITE_DONE \<and> eState cur' = CURSOR_INVALID"
        using sqlite3BtreeNext_tree [OF n(1) tree_at_same [OF m(2) t(1)] same_contentD(4) [OF m(2) t(2)]] by blast
      show ?thesis
        using e True r f(2,3) same_content_trans [OF m(2) r(2)] at_entry_valid at_entry_settled
        by (cases "Suc n < length (keys t)") (auto simp: settled_def)
    next
      case F: False
      then show ?thesis using e n f(1) m(2,3) at_entry_valid [OF n(1)] by auto
    qed
  qed
qed

section \<open>A tree of three pages\<close>

text \<open>Page 2 is the root, with the separator 20 between the leaves 3 (keys 10 and 20) and 4 (key 30).\<close>

definition demo_root :: bytes where
  "demo_root = [5, 0, 0, 0, 1, 1, 244, 0, 0, 0, 0, 4, 1, 244] @ replicate 486 0 @ [0, 0, 0, 3, 1, 20] @ replicate 6 0"

definition demo_left :: bytes where
  "demo_left = [13, 0, 0, 0, 2, 1, 240, 0, 1, 240, 1, 248] @ replicate 484 0 @ [1, 1, 10, 99, 0, 0, 0, 0, 1, 1, 20, 98] @ replicate 4 0"

definition demo_right :: bytes where
  "demo_right = [13, 0, 0, 0, 1, 1, 248, 0, 1, 248] @ replicate 494 0 @ [1, 1, 30, 97] @ replicate 4 0"

definition demo_pages :: "pgno \<Rightarrow> bytes" where
  "demo_pages p = (if p = 2 then demo_root else if p = 3 then demo_left else demo_right)"

definition demo_tree_db :: btree_db where
  "demo_tree_db = \<lparr>bts = \<lparr>pageSize = 512, usableSize = 512, maxLeaf = 477, minLeaf = 39, nPage = 4,
       fastSecure = False, secureDelete = False, cellSizeCk = False\<rparr>,
     pg = demo_pages, pHasContent = None, refs = (\<lambda>_. 0), inCache = (\<lambda>_. False), pagerAns = [], heapAns = [True]\<rparr>"

definition demo_st :: bt_state where
  "demo_st = \<lparr>sdb = demo_tree_db, objs = (\<lambda>_. blank_page)\<rparr>"

definition demo_tree :: kv_tree where
  "demo_tree = Node 2 [(Leaf 3 [[10], [20]], [20])] (Leaf 4 [[30]])"

definition demo_handle :: bt_cursor where
  "demo_handle = demo_cursor\<lparr>eState := CURSOR_INVALID, iPage := -1, pgnoRoot := 2, aiIdx := replicate 19 0, apPage := replicate 19 blank_page\<rparr>"

lemma demo_bytes:
  "byte_at demo_root 0 = 5" "get2byte (drop 3 demo_root) = 1"
  "byte_at demo_left 0 = 13" "get2byte (drop 3 demo_left) = 2"
  "byte_at demo_right 0 = 13" "get2byte (drop 3 demo_right) = 1"
  by code_simp+

lemma demo_cells:
  "get2byte (drop 12 demo_root) = 500" "drop 500 demo_root = [0, 0, 0, 3, 1, 20, 0, 0, 0, 0, 0, 0]"
  "get2byte (drop 8 demo_left) = 496" "drop 496 demo_left = [1, 1, 10, 99, 0, 0, 0, 0, 1, 1, 20, 98, 0, 0, 0, 0]"
  "get2byte (drop 10 demo_left) = 504" "drop 504 demo_left = [1, 1, 20, 98, 0, 0, 0, 0]"
  "get2byte (drop 8 demo_right) = 504" "drop 504 demo_right = [1, 1, 30, 97, 0, 0, 0, 0]" "g4 demo_root 8 = 4"
  by code_simp+

definition demo_obj :: "pgno \<Rightarrow> bool \<Rightarrow> nat \<Rightarrow> bytes \<Rightarrow> mempage" where
  "demo_obj p lf n d = \<lparr>isInit = True, intKey = True, intKeyLeaf = lf, mpgno = p, leaf = lf, hdrOffset = 0,
     childPtrSize = (if lf then 0 else 4), nOverflow = 0, maxLocal = (if lf then 229 else 477), minLocal = 39,
     cellOffset = (if lf then 8 else 12), nFree = -1, nCell = n, maskPage = 511, aiOvfl = [], apOvfl = [], aData = d\<rparr>"

lemma demo_init:
  "btreeInitPage (bts demo_tree_db) (btreePageFromDbPage demo_tree_db 2 blank_page) = (SQLITE_OK, demo_obj 2 False 1 demo_root)"
  "btreeInitPage (bts demo_tree_db) (btreePageFromDbPage demo_tree_db 3 blank_page) = (SQLITE_OK, demo_obj 3 True 2 demo_left)"
  "btreeInitPage (bts demo_tree_db) (btreePageFromDbPage demo_tree_db 4 blank_page) = (SQLITE_OK, demo_obj 4 True 1 demo_right)"
  by (simp_all add: btreeInitPage_def btreePageFromDbPage_def demo_tree_db_def demo_pages_def blank_page_def demo_bytes decodeFlags_def
      MX_CELL_def sub16_def demo_obj_def)

lemma demo_the_page:
  "the_page demo_tree_db 2 = demo_obj 2 False 1 demo_root" "the_page demo_tree_db 3 = demo_obj 3 True 2 demo_left"
  "the_page demo_tree_db 4 = demo_obj 4 True 1 demo_right"
  by (simp_all add: the_page_def demo_init)

lemma demo_find:
  "findCell (demo_obj 2 False 1 demo_root) 0 = [0, 0, 0, 3, 1, 20, 0, 0, 0, 0, 0, 0]"
  "findCell (demo_obj 3 True 2 demo_left) 0 = [1, 1, 10, 99, 0, 0, 0, 0, 1, 1, 20, 98, 0, 0, 0, 0]"
  "findCell (demo_obj 3 True 2 demo_left) 1 = [1, 1, 20, 98, 0, 0, 0, 0]"
  "findCell (demo_obj 4 True 1 demo_right) 0 = [1, 1, 30, 97, 0, 0, 0, 0]"
  by (simp_all add: findCell_def findCell_ofst_def demo_obj_def demo_cells)

lemma demo_varint: "getVarint32 (1 # bs) = (1, 1)"
  by (simp add: getVarint32_def byte_at_def)

lemma demo_parse:
  "info_key (kvParseCellInterior pBt P [0, 0, 0, 3, 1, 20, 0, 0, 0, 0, 0, 0]) [0, 0, 0, 3, 1, 20, 0, 0, 0, 0, 0, 0] = [20]"
  "229 = maxLocal P \<Longrightarrow> info_key (kvParseCellLeaf pBt P [1, 1, 10, 99, 0, 0, 0, 0, 1, 1, 20, 98, 0, 0, 0, 0]) [1, 1, 10, 99, 0, 0, 0, 0, 1, 1, 20, 98, 0, 0, 0, 0] = [10]"
  "229 = maxLocal P \<Longrightarrow> info_key (kvParseCellLeaf pBt P [1, 1, 20, 98, 0, 0, 0, 0]) [1, 1, 20, 98, 0, 0, 0, 0] = [20]"
  "229 = maxLocal P \<Longrightarrow> info_key (kvParseCellLeaf pBt P [1, 1, 30, 97, 0, 0, 0, 0]) [1, 1, 30, 97, 0, 0, 0, 0] = [30]"
  by (simp_all add: kvParseCellInterior_def kvParseCellLeaf_def demo_varint info_key_def subbytes_def Let_def)

lemma demo_child: "g4 [0, 0, 0, 3, 1, 20, 0, 0, 0, 0, 0, 0] 0 = 3"
  by code_simp

lemma demo_pages_keys:
  "cell_key (bts demo_tree_db) (the_page demo_tree_db 2) 0 = [20]" "child_ptr (the_page demo_tree_db 2) 0 = 3" "child_ptr (the_page demo_tree_db 2) 1 = 4"
  "cell_key (bts demo_tree_db) (the_page demo_tree_db 3) 0 = [10]" "cell_key (bts demo_tree_db) (the_page demo_tree_db 3) 1 = [20]"
  "cell_key (bts demo_tree_db) (the_page demo_tree_db 4) 0 = [30]"
  using demo_cells(9) demo_parse demo_child demo_find unfolding demo_the_page cell_key_def child_ptr_def xParseCell_def
  by (simp_all add: demo_obj_def)

lemma demo_pages_shape:
  "leaf (the_page demo_tree_db 2) = False" "nCell (the_page demo_tree_db 2) = 1"
  "leaf (the_page demo_tree_db 3) = True" "nCell (the_page demo_tree_db 3) = 2"
  "leaf (the_page demo_tree_db 4) = True" "nCell (the_page demo_tree_db 4) = 1"
  by (simp_all add: demo_the_page demo_obj_def)

lemma demo_good: "p \<in> {2, 3, 4} \<Longrightarrow> good_page demo_st p"
  using demo_init by (auto simp: good_page_def demo_st_def blank_page_def btreePagecount_def demo_tree_db_def)

lemma demo_tree_at: "tree_at demo_st demo_tree"
proof -
  have two: "(\<forall>i < Suc (Suc 0). P i) \<longleftrightarrow> P 0 \<and> P 1" for P :: "nat \<Rightarrow> bool" by (auto simp: less_Suc_eq)
  have db: "sdb demo_st = demo_tree_db" by (simp add: demo_st_def)
  have "node_at demo_st (Leaf 3 [[10], [20]])" "node_at demo_st (Leaf 4 [[30]])" "node_at demo_st demo_tree"
    using demo_pages_keys demo_pages_shape demo_good by (simp_all add: node_at_def Let_def db demo_tree_def two)
  then show ?thesis by (auto simp: tree_at_def demo_tree_def)
qed

lemma demo_tree_facts: "ordered demo_tree" "calm demo_st" "settled demo_st demo_tree demo_handle" "keys demo_tree = [[10], [20], [30]]"
proof -
  have two: "(\<forall>i < Suc (Suc 0). P i) \<longleftrightarrow> P 0 \<and> P 1" for P :: "nat \<Rightarrow> bool" by (auto simp: less_Suc_eq)
  show "ordered demo_tree" by (simp add: ordered_def node_ordered_def demo_tree_def two)
  show "calm demo_st" by (simp add: calm_def demo_st_def demo_tree_db_def)
  show "settled demo_st demo_tree demo_handle" by (simp add: settled_def opened_def demo_handle_def demo_cursor_def demo_tree_def)
  show "keys demo_tree = [[10], [20], [30]]" by (simp add: demo_tree_def)
qed

section \<open>Properties\<close>

text \<open>
  C4: looking a key up.  In a well-formed search tree \<open>btreelite_get\<close> answers \<open>BTREELITE_OK\<close> exactly for the
  keys of the tree, and leaves the cursor on the entry; for any other key of at most 255 bytes it answers \<open>BTREELITE_NOTFOUND\<close>.
  A longer key is refused with \<open>BTREELITE_TOOBIG\<close> and the cursor does not move.
\<close>

theorem lookup_correct:
  assumes "settled st t cur" "tree_at st t" "calm st" "ordered t"
  shows "if length k > 255 then btreelite_get st (Some cur) (Some k) (int (length k)) = (SQLITE_TOOBIG, Some cur, st)
    else \<exists>cur' st'. btreelite_get st (Some cur) (Some k) (int (length k)) =
        (if k \<in> set (keys t) then SQLITE_OK else SQLITE_NOTFOUND, Some cur', st') \<and>
      same_content st st' \<and> settled st' t cur' \<and> (k \<in> set (keys t) \<longrightarrow> (\<exists>n. at_entry st' t cur' n \<and> keys t ! n = k))"
proof (cases "length k > 255")
  case True
  then show ?thesis by (simp add: btreelite_get_def kvMoveto_def kvCheckKey_def)
next
  case False
  then have l: "int (length k) \<le> BTREELITE_MAX_KEY" by simp
  obtain res cur1 st1 where m: "sqlite3BtreeKvMoveto st cur k False = (SQLITE_OK, Some res, cur1, st1)" "same_content st st1" "settled st1 t cur1"
    "if keys t = [] then res = -1 \<and> eState cur1 = CURSOR_INVALID else \<exists>n. at_entry st1 t cur1 n \<and> nearest (keys t) k n res"
    using sqlite3BtreeKvMoveto_tree [OF assms, of k False] by auto
  have e: "btreelite_get st (Some cur) (Some k) (int (length k)) = (if res = 0 then SQLITE_OK else SQLITE_NOTFOUND, Some cur1, st1)"
    by (simp add: btreelite_get_def kvMoveto_key [OF l] m(1))
  show ?thesis
  proof (cases "keys t = []")
    case True
    then show ?thesis using False e m by auto
  next
    case ne: False
    then obtain n where n: "at_entry st1 t cur1 n" "nearest (keys t) k n res" using m(4) by auto
    note mem = nearest_member [OF ordered_keys [OF assms(4)] n(2)]
    have "k \<in> set (keys t) \<Longrightarrow> keys t ! n = k" using n(2) mem by (simp add: nearest_def)
    then show ?thesis using False e m(2,3) n(1) mem by auto
  qed
qed

theorem lookup_correct_witness:
  "settled demo_st demo_tree demo_handle \<and> tree_at demo_st demo_tree \<and> calm demo_st \<and> ordered demo_tree \<and>
   fst (btreelite_get demo_st (Some demo_handle) (Some [30]) 1) = SQLITE_OK \<and>
   fst (btreelite_get demo_st (Some demo_handle) (Some [25]) 1) = SQLITE_NOTFOUND"
  using lookup_correct [OF demo_tree_facts(3) demo_tree_at demo_tree_facts(2,1), of "[30]"]
    lookup_correct [OF demo_tree_facts(3) demo_tree_at demo_tree_facts(2,1), of "[25]"] demo_tree_at demo_tree_facts
  by auto

text \<open>
  C5: iteration is complete and in order.  From \<open>btreelite_first\<close>, \<open>btreelite_next\<close> visits all keys of the tree in
  ascending order, from \<open>btreelite_last\<close>, \<open>btreelite_prev\<close> visits them in descending order, and from \<open>btreelite_seek\<close>,
  \<open>btreelite_next\<close> visits exactly the keys that are not before the given one.  Each loop ends after one round per key.
\<close>

theorem iteration_complete:
  assumes "settled st t cur" "tree_at st t" "calm st" "ordered t" "\<forall>k \<in> set (keys t). length k \<le> nMax" "length k \<le> 255"
  shows "(\<exists>res c st' s. btreelite_first st (Some cur) = (SQLITE_OK, res, c, st') \<and>
       scan api_eof (api_key nMax) api_next (length (keys t)) (st', c) = Some (keys t, s)) \<and>
    (\<exists>res c st' s. btreelite_last st (Some cur) = (SQLITE_OK, res, c, st') \<and>
       scan api_eof (api_key nMax) api_prev (length (keys t)) (st', c) = Some (rev (keys t), s)) \<and>
    (\<exists>c st' s. btreelite_seek st (Some cur) (Some k) (int (length k)) = (SQLITE_OK, c, st') \<and>
       scan api_eof (api_key nMax) api_next (length (keys t)) (st', c) = Some (filter (\<lambda>x. \<not> key_less x k) (keys t), s))"
proof (intro conjI)
  have o: "opened st t cur" and v: "eState cur = CURSOR_VALID \<Longrightarrow> atLast cur \<Longrightarrow> \<exists>n. at_entry st t cur n"
    using assms(1) by (auto simp: settled_def)
  obtain cur1 st1 where f: "same_content st st1" "opened st1 t cur1"
    "if keys t = [] then sqlite3BtreeFirst st cur = (SQLITE_OK, Some 1, cur1, st1) \<and> eState cur1 = CURSOR_INVALID
     else sqlite3BtreeFirst st cur = (SQLITE_OK, Some 0, cur1, st1) \<and> at_entry st1 t cur1 0"
    using sqlite3BtreeFirst_tree [OF o assms(2,3)] by (cases "keys t = []") auto
  have "api_ahead (from_entry t) t nMax (st1, Some cur1) (keys t)"
    unfolding api_ahead_def using f assms(5) tree_at_same [OF f(1) assms(2)] same_contentD(4) [OF f(1) assms(3)] at_entry_valid at_entry_settled
    by (cases "keys t = []") (auto simp: settled_def from_entry_def)
  then show "\<exists>res c st' s. btreelite_first st (Some cur) = (SQLITE_OK, res, c, st') \<and>
       scan api_eof (api_key nMax) api_next (length (keys t)) (st', c) = Some (keys t, s)"
    using fwd.scan_ahead f(3) by (fastforce simp: btreelite_first_def split: if_splits)
next
  have o: "opened st t cur" and v: "eState cur = CURSOR_VALID \<Longrightarrow> atLast cur \<Longrightarrow> \<exists>n. at_entry st t cur n"
    using assms(1) by (auto simp: settled_def)
  obtain cur1 st1 where f: "same_content st st1" "opened st1 t cur1"
    "if keys t = [] then sqlite3BtreeLast st cur = (SQLITE_OK, Some 1, cur1, st1) \<and> eState cur1 = CURSOR_INVALID
     else sqlite3BtreeLast st cur = (SQLITE_OK, Some 0, cur1, st1) \<and> at_entry st1 t cur1 (length (keys t) - 1)"
    using sqlite3BtreeLast_tree [OF o assms(2,3) v] by blast
  have "api_ahead (down_from_entry t) t nMax (st1, Some cur1) (rev (keys t))"
    unfolding api_ahead_def using f assms(5) tree_at_same [OF f(1) assms(2)] same_contentD(4) [OF f(1) assms(3)] at_entry_valid at_entry_settled
    by (cases "keys t = []") (auto simp: settled_def down_from_entry_def)
  from bwd.scan_ahead [OF this, of "length (keys t)"] show "\<exists>res c st' s. btreelite_last st (Some cur) = (SQLITE_OK, res, c, st') \<and>
       scan api_eof (api_key nMax) api_prev (length (keys t)) (st', c) = Some (rev (keys t), s)"
    using f(3) by (fastforce simp: btreelite_last_def split: if_splits)
next
  have l: "int (length k) \<le> BTREELITE_MAX_KEY" using assms(6) by simp
  let ?ks = "filter (\<lambda>x. \<not> key_less x k) (keys t)"
  obtain cur1 st1 where f: "btreelite_seek st (Some cur) (Some k) (int (length k)) = (SQLITE_OK, Some cur1, st1)" "same_content st st1" "settled st1 t cur1"
    "if eState cur1 = CURSOR_VALID then \<exists>n. at_entry st1 t cur1 n \<and> first_from (keys t) k n else \<not> (\<exists>n. first_from (keys t) k n)"
    using btreelite_seek_tree [OF assms(1-4) l] by blast
  have "api_ahead (from_entry t) t nMax (st1, Some cur1) ?ks"
    unfolding api_ahead_def using f assms(5) tree_at_same [OF f(2) assms(2)] same_contentD(4) [OF f(2) assms(3)]
      first_from_filter [OF ordered_keys [OF assms(4)]] no_first_from_filter [of "keys t" k]
    by (auto simp: from_entry_def split: if_splits)
  from fwd.scan_ahead [OF this, of "length (keys t)"]
  show "\<exists>c st' s. btreelite_seek st (Some cur) (Some k) (int (length k)) = (SQLITE_OK, c, st') \<and>
       scan api_eof (api_key nMax) api_next (length (keys t)) (st', c) = Some (?ks, s)"
    using f(1) by auto
qed

theorem iteration_complete_witness:
  "settled demo_st demo_tree demo_handle \<and> tree_at demo_st demo_tree \<and> calm demo_st \<and> ordered demo_tree \<and>
   (\<exists>c st' s. btreelite_seek demo_st (Some demo_handle) (Some [15]) 1 = (SQLITE_OK, c, st') \<and>
      scan api_eof (api_key 1) api_next (length (keys demo_tree)) (st', c) = Some ([[20], [30]], s))"
  using iteration_complete [OF demo_tree_facts(3) demo_tree_at demo_tree_facts(2,1), of 1 "[15]"] demo_tree_at demo_tree_facts
  by (simp del: scan.simps)

text \<open>
  C6: a cursor keeps its place while the tree changes.  When its position is saved at the key \<open>k\<close> and the tree
  is then replaced by any other well-formed tree at the same root, \<open>sqlite3BtreeNext\<close> moves it to the first key after \<open>k\<close> and
  \<open>sqlite3BtreePrevious\<close> to the last key before \<open>k\<close> in the new tree, whether \<open>k\<close> is still there or not; they report
  the end of the tree when there is no such key.
\<close>

theorem cursor_survives_change:
  assumes "at_entry st t cur n" "tree_at st t" "saveCursorPosition st cur = (SQLITE_OK, cur1, st1)"
    and "tree_at st2 t2" "calm st2" "ordered t2" "root_pg t2 = root_pg t"
  shows "(\<exists>rc cur2 st3. sqlite3BtreeNext st2 cur1 = (rc, cur2, st3) \<and>
      (rc = SQLITE_OK \<and> (\<exists>m. at_entry st3 t2 cur2 m \<and> first_after (keys t2) (keys t ! n) m) \<or>
       rc = SQLITE_DONE \<and> sqlite3BtreeEof cur2 \<and> \<not> (\<exists>m. first_after (keys t2) (keys t ! n) m))) \<and>
    (\<exists>rc cur2 st3. sqlite3BtreePrevious st2 cur1 = (rc, cur2, st3) \<and>
      (rc = SQLITE_OK \<and> (\<exists>m. at_entry st3 t2 cur2 m \<and> last_before (keys t2) (keys t ! n) m) \<or>
       rc = SQLITE_DONE \<and> sqlite3BtreeEof cur2 \<and> \<not> (\<exists>m. last_before (keys t2) (keys t ! n) m)))"
proof -
  have "\<not> pinned cur" using assms(3) by (auto simp: saveCursorPosition_def)
  then have "saved (root_pg t2) cur1 (keys t ! n)"
    using saveCursorPosition_tree [OF assms(1,2)] assms(3,7) by (auto split: if_splits)
  from restored_next [OF this assms(4-6)] restored_previous [OF this assms(4-6)] show ?thesis
    by (fastforce simp: sqlite3BtreeEof_def)
qed


text \<open>The tree after a change: page 2 is now a leaf with the key 30 only.\<close>

definition demo_changed :: bt_state where
  "demo_changed = \<lparr>sdb = demo_tree_db\<lparr>pg := (\<lambda>_. demo_right)\<rparr>, objs = (\<lambda>_. blank_page)\<rparr>"

lemma demo_changed_tree: "tree_at demo_changed (Leaf 2 [[30]])" "calm demo_changed" "ordered (Leaf 2 [[30]])"
proof -
  have i: "btreeInitPage (bts demo_tree_db) (btreePageFromDbPage (sdb demo_changed) 2 blank_page) = (SQLITE_OK, demo_obj 2 True 1 demo_right)"
    by (simp add: btreeInitPage_def btreePageFromDbPage_def demo_tree_db_def demo_changed_def blank_page_def demo_bytes decodeFlags_def
        MX_CELL_def sub16_def demo_obj_def)
  have b: "bts (sdb demo_changed) = bts demo_tree_db" "sdb demo_changed = demo_tree_db\<lparr>pg := (\<lambda>_. demo_right)\<rparr>" by (simp_all add: demo_changed_def)
  have p: "the_page (sdb demo_changed) 2 = demo_obj 2 True 1 demo_right" using i b by (simp add: the_page_def)
  have "good_page demo_changed 2" using i by (simp add: good_page_def b(1) btreePagecount_def) (simp add: demo_changed_def demo_tree_db_def blank_page_def)
  moreover have "findCell (demo_obj 2 True 1 demo_right) 0 = [1, 1, 30, 97, 0, 0, 0, 0]"
    by (simp add: findCell_def findCell_ofst_def demo_obj_def demo_cells)
  moreover have "maxLocal (demo_obj 2 True 1 demo_right) = 229" by (simp add: demo_obj_def)
  ultimately have "node_at demo_changed (Leaf 2 [[30]])"
    using demo_parse(4) by (simp add: node_at_def Let_def p cell_key_def xParseCell_def) (simp add: demo_obj_def)
  then show "tree_at demo_changed (Leaf 2 [[30]])" by (simp add: tree_at_def)
qed (simp_all add: calm_def demo_changed_def demo_tree_db_def ordered_def node_ordered_def)

lemma demo_first:
  "\<exists>cur st. sqlite3BtreeFirst demo_st demo_handle = (SQLITE_OK, Some 0, cur, st) \<and> at_entry st demo_tree cur 0 \<and> tree_at st demo_tree \<and> heapAns (sdb st) = [True] \<and>
     pinned cur = pinned demo_handle"
proof -
  have o: "opened demo_st demo_tree demo_handle" using demo_tree_facts(3) by (simp add: settled_def)
  obtain cur st where s: "same_content demo_st st" "sqlite3BtreeFirst demo_st demo_handle = (SQLITE_OK, Some 0, cur, st)" "at_entry st demo_tree cur 0" "pinned cur = pinned demo_handle"
    using sqlite3BtreeFirst_tree [OF o demo_tree_at demo_tree_facts(2)] demo_tree_facts(4) by auto
  have "heapAns (sdb st) = [True]" using same_contentD(6) [OF s(1)] by (simp add: demo_st_def demo_tree_db_def)
  then show ?thesis using s tree_at_same [OF s(1) demo_tree_at] by blast
qed

theorem cursor_survives_change_witness:
  "\<exists>cur st cur1 st1 rc cur2 st3. sqlite3BtreeFirst demo_st demo_handle = (SQLITE_OK, Some 0, cur, st) \<and>
     saveCursorPosition st cur = (SQLITE_OK, cur1, st1) \<and>
     sqlite3BtreeNext demo_changed cur1 = (rc, cur2, st3) \<and> rc = SQLITE_OK \<and> at_entry st3 (Leaf 2 [[30]]) cur2 0"
proof -
  obtain cur st where a: "sqlite3BtreeFirst demo_st demo_handle = (SQLITE_OK, Some 0, cur, st)" "at_entry st demo_tree cur 0" "tree_at st demo_tree"
    "heapAns (sdb st) = [True]" "pinned cur = pinned demo_handle" using demo_first by blast
  have "\<not> pinned cur" using a(5) by (simp add: demo_handle_def demo_cursor_def)
  then obtain cur1 st1 where s: "saveCursorPosition st cur = (SQLITE_OK, cur1, st1)"
    using saveCursorPosition_tree [OF a(2,3)] a(4) by (auto split: if_splits)
  have r: "root_pg (Leaf 2 [[30]]) = root_pg demo_tree" by (simp add: demo_tree_def)
  have f: "first_after (keys (Leaf 2 [[30]])) (keys demo_tree ! 0) 0" by (simp add: first_after_def demo_tree_facts(4))
  from cursor_survives_change [OF a(2,3) s demo_changed_tree r] obtain rc cur2 st3 m where
    n: "sqlite3BtreeNext demo_changed cur1 = (rc, cur2, st3)" "rc = SQLITE_OK" "at_entry st3 (Leaf 2 [[30]]) cur2 m"
    using f by blast
  have "m = 0" using at_entry_less [OF n(3)] by simp
  then show ?thesis using a(1) s n by blast
qed

end
