(* ===== verification/CursorBounds.thy ===== *)
theory CursorBounds
  imports Api
begin

text \<open>
  What holds of a cursor on any database, sound or corrupt (\<open>src/src/btree.c\<close>): its stack stays within its arrays
  and a successful move ends on an existing cell.
\<close>

section \<open>Bounds on any database\<close>

text \<open>
  What holds of a cursor whatever the database contains: its stack is within the two arrays, and the pages it
  holds are pages of byte-string keys.
\<close>

definition holding :: "bt_cursor \<Rightarrow> bool" where
  "holding cur \<longleftrightarrow> 0 \<le> iPage cur \<and> curIntKey cur \<and> intKey (pCurPage cur) \<and> (\<forall>d < nat (iPage cur). intKey (apPage cur ! d))"

definition in_bounds :: "bt_cursor \<Rightarrow> bool" where
  "in_bounds cur \<longleftrightarrow> length (aiIdx cur) = 19 \<and> length (apPage cur) = 19 \<and> -1 \<le> iPage cur \<and> iPage cur < BTCURSOR_MAX_DEPTH \<and>
     (0 < iPage cur \<or> eState cur = CURSOR_VALID \<or> eState cur = CURSOR_SKIPNEXT \<longrightarrow> holding cur) \<and>
     (iPage cur = 0 \<longrightarrow> curIntKey cur = intKey (pCurPage cur)) \<and> (eState cur = CURSOR_FAULT \<longrightarrow> faultCode cur \<noteq> SQLITE_OK)"

text \<open>
  The cursor is on a cell of a leaf; the index kept for each page of the stack is that of a cell or of the right
  child.
\<close>

definition on_cell :: "bt_cursor \<Rightarrow> bool" where
  "on_cell cur \<longleftrightarrow> leaf (pCurPage cur) \<and> ix cur < nCell (pCurPage cur)"

definition stack_ok :: "bt_cursor \<Rightarrow> bool" where
  "stack_ok cur \<longleftrightarrow> (\<forall>d < nat (iPage cur). aiIdx cur ! d \<le> nCell (apPage cur ! d))"

lemma stack_ok_upd [simp]:
  "stack_ok (forget cur) = stack_ok cur" "stack_ok (cur\<lparr>ix := i\<rparr>) = stack_ok cur" "stack_ok (cur\<lparr>eState := e\<rparr>) = stack_ok cur"
  "stack_ok (cur\<lparr>atLast := b\<rparr>) = stack_ok cur" "stack_ok (cur\<lparr>info := x\<rparr>) = stack_ok cur" "stack_ok (cur\<lparr>validNKey := b\<rparr>) = stack_ok cur"
  "stack_ok (cur\<lparr>savedKey := y\<rparr>) = stack_ok cur" "stack_ok (cur\<lparr>skipNext := j\<rparr>) = stack_ok cur" "stack_ok (cur\<lparr>validOvfl := b\<rparr>) = stack_ok cur"
  by (simp_all add: stack_ok_def)

lemma on_cell_upd [simp]:
  "on_cell (forget cur) = on_cell cur" "on_cell (cur\<lparr>eState := e\<rparr>) = on_cell cur" "on_cell (cur\<lparr>atLast := b\<rparr>) = on_cell cur"
  "on_cell (cur\<lparr>info := x\<rparr>) = on_cell cur" "on_cell (cur\<lparr>validNKey := b\<rparr>) = on_cell cur" "on_cell (cur\<lparr>validOvfl := b\<rparr>) = on_cell cur"
  "on_cell (cur\<lparr>savedKey := y\<rparr>) = on_cell cur" "on_cell (cur\<lparr>skipNext := j\<rparr>) = on_cell cur"
  by (simp_all add: on_cell_def)

lemma holding_upd [simp]:
  "holding (forget cur) = holding cur" "holding (cur\<lparr>ix := i\<rparr>) = holding cur" "holding (cur\<lparr>eState := e\<rparr>) = holding cur"
  "holding (cur\<lparr>atLast := b\<rparr>) = holding cur" "holding (cur\<lparr>info := x\<rparr>) = holding cur" "holding (cur\<lparr>validNKey := b\<rparr>) = holding cur"
  by (simp_all add: holding_def)

lemma in_bounds_upd [simp]:
  "in_bounds (forget cur) = in_bounds cur" "in_bounds (cur\<lparr>ix := i\<rparr>) = in_bounds cur"
  "in_bounds (cur\<lparr>atLast := b\<rparr>) = in_bounds cur" "in_bounds (cur\<lparr>info := x\<rparr>) = in_bounds cur" "in_bounds (cur\<lparr>validNKey := b\<rparr>) = in_bounds cur"
  by (simp_all add: in_bounds_def)

definition pushed :: "bt_cursor \<Rightarrow> bt_cursor" where
  "pushed cur = (forget cur)\<lparr>aiIdx := (aiIdx cur)[nat (iPage cur) := ix cur], apPage := (apPage cur)[nat (iPage cur) := pCurPage cur],
     ix := 0, iPage := iPage cur + 1\<rparr>"

lemma moveToChild_result:
  assumes "moveToChild st cur p = (rc, cur', st')"
  obtains (full) "rc = SQLITE_CORRUPT" "cur' = cur"
    | (fail) "rc \<noteq> SQLITE_OK" "iPage cur < BTCURSOR_MAX_DEPTH - 1"
        "cur' = (pushed cur)\<lparr>iPage := iPage cur, pCurPage := apPage (pushed cur) ! nat (iPage cur)\<rparr>"
    | (child) q where "rc = SQLITE_OK" "iPage cur < BTCURSOR_MAX_DEPTH - 1" "cur' = (pushed cur)\<lparr>pCurPage := q\<rparr>" "0 < nCell q" "intKey q = curIntKey cur"
proof (cases "iPage cur \<ge> BTCURSOR_MAX_DEPTH - 1")
  case True
  then show thesis using assms full by (simp add: moveToChild_def)
next
  case False
  obtain r q s where g: "getAndInitPage st p = (r, q, s)" by (metis prod_cases3)
  define bad where "bad = (r = SQLITE_OK \<and> (nCell q < 1 \<or> intKey q \<noteq> curIntKey cur))"
  let ?popped = "(pushed cur)\<lparr>iPage := iPage cur, pCurPage := apPage (pushed cur) ! nat (iPage cur)\<rparr>"
  have e: "moveToChild st cur p = (if bad then (SQLITE_CORRUPT, ?popped, s\<lparr>sdb := releasePage (sdb s) p\<rparr>)
     else if r \<noteq> SQLITE_OK then (r, ?popped, s) else (SQLITE_OK, (pushed cur)\<lparr>pCurPage := q\<rparr>, s))"
    using False unfolding moveToChild_def g pushed_def bad_def Let_def by simp
  show thesis
  proof (cases "bad \<or> r \<noteq> SQLITE_OK")
    case True
    then have "rc \<noteq> SQLITE_OK" "cur' = ?popped" using e assms by (cases bad; simp)+
    then show thesis using False by (intro fail) simp_all
  next
    case F: False
    then have "rc = SQLITE_OK" "cur' = (pushed cur)\<lparr>pCurPage := q\<rparr>" using e assms by simp_all
    then show thesis using F False by (intro child [of q]) (simp_all add: bad_def)
  qed
qed

lemma pushed_simps [simp]:
  "length (aiIdx (pushed cur)) = length (aiIdx cur)" "length (apPage (pushed cur)) = length (apPage cur)" "eState (pushed cur) = eState cur"
  "curIntKey (pushed cur) = curIntKey cur" "iPage (pushed cur) = iPage cur + 1" "ix (pushed cur) = 0" "faultCode (pushed cur) = faultCode cur"
  by (simp_all add: pushed_def)

lemma moveToChild_bounds:
  assumes m: "moveToChild st cur p = (rc, cur', st')" and b: "in_bounds cur" and h: "holding cur"
  shows "in_bounds cur'" "holding cur'" "eState cur' = eState cur" "rc = SQLITE_OK \<Longrightarrow> ix cur' = 0 \<and> 0 < nCell (pCurPage cur')"
proof -
  have n: "0 \<le> iPage cur" "length (apPage cur) = 19" using b h by (simp_all add: in_bounds_def holding_def)
  have st: "intKey (apPage (pushed cur) ! d)" if "d < nat (iPage cur) \<or> d = nat (iPage cur) \<and> iPage cur < 19" for d
    using that h n by (auto simp: pushed_def holding_def nth_list_update)
  have "in_bounds cur' \<and> holding cur' \<and> eState cur' = eState cur \<and> (rc = SQLITE_OK \<longrightarrow> ix cur' = 0 \<and> 0 < nCell (pCurPage cur'))"
    using m
  proof (cases rule: moveToChild_result)
    case full
    then show ?thesis using b h by simp
  next
    case fail
    then have "holding cur'" using st h by (simp add: holding_def)
    then show ?thesis using fail b by (auto simp: in_bounds_def holding_def)
  next
    case (child q)
    have "intKey (apPage (pushed cur) ! d)" if "d < nat (iPage cur + 1)" for d
      using st [of d] that child(2) n(1) by (cases "d = nat (iPage cur)") auto
    then have "holding cur'" using child h n by (simp add: holding_def)
    then show ?thesis using child b n by (simp add: in_bounds_def)
  qed
  then show "in_bounds cur'" "holding cur'" "eState cur' = eState cur" "rc = SQLITE_OK \<Longrightarrow> ix cur' = 0 \<and> 0 < nCell (pCurPage cur')" by simp_all
qed

lemma moveToChild_stack:
  assumes m: "moveToChild st cur p = (rc, cur', st')" and b: "in_bounds cur" and h: "0 \<le> iPage cur"
    and s: "stack_ok cur" "ix cur \<le> nCell (pCurPage cur)"
  shows "stack_ok cur'"
  using m
proof (cases rule: moveToChild_result)
  case full
  then show ?thesis using s by simp
next
  case fail
  then show ?thesis using s by (simp add: stack_ok_def pushed_def)
next
  case (child q)
  have "aiIdx (pushed cur) ! d \<le> nCell (apPage (pushed cur) ! d)" if "d < nat (iPage cur + 1)" for d
    using that s b h child(2) by (cases "d = nat (iPage cur)") (auto simp: stack_ok_def pushed_def in_bounds_def)
  then show ?thesis using child by (simp add: stack_ok_def)
qed

lemma holding_iPage: "holding cur \<Longrightarrow> 0 \<le> iPage cur"
  by (simp add: holding_def)

lemma moveToLeftmost_bounds:
  assumes "moveToLeftmost st cur = (rc, cur', st')" "in_bounds cur" "holding cur" "ix cur < nCell (pCurPage cur)"
  shows "in_bounds cur' \<and> holding cur' \<and> eState cur' = eState cur \<and> (rc = SQLITE_OK \<longrightarrow> on_cell cur') \<and> (stack_ok cur \<longrightarrow> stack_ok cur')"
  using assms
proof (induction st cur rule: moveToLeftmost.induct)
  case (1 st cur)
  show ?case
  proof (cases "leaf (pCurPage cur)")
    case True
    then show ?thesis using "1.prems" by (subst (asm) moveToLeftmost.simps) (auto simp: on_cell_def)
  next
    case False
    obtain r c s where m: "moveToChild st cur (left_child (sdb st) cur (ix cur)) = (r, c, s)" by (metis prod_cases3)
    note b = moveToChild_bounds [OF m "1.prems"(2,3)] and s = moveToChild_stack [OF m "1.prems"(2) holding_iPage [OF "1.prems"(3)]]
    show ?thesis
    proof (cases "r = SQLITE_OK")
      case True
      then have "moveToLeftmost s c = (rc, cur', st')" using "1.prems"(1) False m by (subst (asm) moveToLeftmost.simps) simp
      then show ?thesis using "1.IH" [OF False m [symmetric] refl] True b s "1.prems"(4) by auto
    next
      case F: False
      then show ?thesis using "1.prems"(1,4) False m b s by (subst (asm) moveToLeftmost.simps) simp
    qed
  qed
qed

lemma moveToRightmost_bounds:
  assumes "moveToRightmost st cur = (rc, cur', st')" "in_bounds cur" "holding cur" "0 < nCell (pCurPage cur)"
  shows "in_bounds cur' \<and> holding cur' \<and> eState cur' = eState cur \<and> (rc = SQLITE_OK \<longrightarrow> on_cell cur') \<and> (stack_ok cur \<longrightarrow> stack_ok cur')"
  using assms
proof (induction st cur rule: moveToRightmost.induct)
  case (1 st cur)
  have "sub16 n 1 < n" if "0 < n" for n
  proof -
    have "(n + 65536 - 1) mod 65536 = (n - 1 + 65536) mod 65536" using that by simp
    also have "\<dots> = (n - 1) mod 65536" by simp
    also have "\<dots> \<le> n - 1" by simp
    finally show ?thesis using that by (simp add: sub16_def)
  qed
  note sub = this
  show ?case
  proof (cases "leaf (pCurPage cur)")
    case True
    then show ?thesis using "1.prems" sub by (subst (asm) moveToRightmost.simps) (auto simp: on_cell_def)
  next
    case False
    let ?c = "cur\<lparr>ix := nCell (pCurPage cur)\<rparr>"
    obtain r c s where m: "moveToChild st ?c (right_child (sdb st) cur) = (r, c, s)" by (metis prod_cases3)
    note b = moveToChild_bounds [OF m] and t = moveToChild_stack [OF m]
    show ?thesis
    proof (cases "r = SQLITE_OK")
      case True
      then have "moveToRightmost s c = (rc, cur', st')" using "1.prems"(1) False m by (subst (asm) moveToRightmost.simps) simp
      then show ?thesis using "1.IH" [OF False m [symmetric] refl] True b t holding_iPage "1.prems" by auto
    next
      case F: False
      then show ?thesis using "1.prems" False m b t holding_iPage [of cur] by (subst (asm) moveToRightmost.simps) simp
    qed
  qed
qed

text \<open>
  The code \<open>SQLITE_EMPTY\<close> is how \<open>moveToRoot\<close> reports an empty tree; a pager does not fail with it.
\<close>

abbreviation plain_pager :: "bt_state \<Rightarrow> bool" where
  "plain_pager st \<equiv> SQLITE_EMPTY \<notin> set (pagerAns (sdb st))"

lemma getAndInitPage_plain:
  assumes "getAndInitPage st p = (rc, q, st')" "plain_pager st"
  shows "rc \<noteq> SQLITE_EMPTY \<and> plain_pager st'"
proof -
  have c: "cellsize_loop b P f l is = SQLITE_OK \<or> cellsize_loop b P f l is = SQLITE_CORRUPT" for b P f l "is"
    by (induction b P f l "is" rule: cellsize_loop.induct) (auto simp: Let_def)
  have i: "fst (btreeInitPage b P) = SQLITE_OK \<or> fst (btreeInitPage b P) = SQLITE_CORRUPT" for b P
    using c by (auto simp: btreeInitPage_def btreeCellSizeCheck_def Let_def split: prod.splits)
  have g: "btreeGetPage db p False = (r, db') \<Longrightarrow> SQLITE_EMPTY \<notin> set (pagerAns db) \<Longrightarrow> r \<noteq> SQLITE_EMPTY \<and> SQLITE_EMPTY \<notin> set (pagerAns db')" for db r db'
    by (cases "pagerAns db") (auto simp: btreeGetPage_def pager_rc_def refPage_def Let_def split: if_splits)
  have n: "fst (btreeInitPage b P) \<noteq> SQLITE_EMPTY" for b P using i [of b P] by auto
  then have n': "btreeInitPage b P = (r, q) \<Longrightarrow> r \<noteq> SQLITE_EMPTY" for b P r q by (metis fst_conv)
  show ?thesis
    using assms by (auto simp: getAndInitPage_def releasePage_def Let_def split: if_splits prod.splits dest!: g dest: n')
qed

lemma moveToChild_plain:
  assumes "moveToChild st cur p = (rc, cur', st')" "plain_pager st"
  shows "rc \<noteq> SQLITE_EMPTY"
proof -
  obtain r q s where g: "getAndInitPage st p = (r, q, s)" by (metis prod_cases3)
  show ?thesis using assms(1) g getAndInitPage_plain [OF g assms(2)] by (auto simp: moveToChild_def Let_def split: if_splits)
qed

definition active :: "bt_cursor \<Rightarrow> bool" where
  "active cur \<longleftrightarrow> eState cur = CURSOR_VALID \<or> eState cur = CURSOR_SKIPNEXT"

lemma root_ready_bounds:
  assumes "root_ready st cur = (rc, cur', st')" "in_bounds cur" "holding cur"
  shows "in_bounds cur' \<and> (rc = SQLITE_OK \<longrightarrow> holding cur' \<and> eState cur' = CURSOR_VALID \<and> ix cur' = 0 \<and> 0 < nCell (pCurPage cur')) \<and>
    (iPage cur = 0 \<longrightarrow> stack_ok cur') \<and> (rc = SQLITE_EMPTY \<and> plain_pager st \<longrightarrow> \<not> active cur')"
proof -
  let ?c = "(forget cur)\<lparr>ix := 0, atLast := False, eState := CURSOR_VALID\<rparr>"
  have c: "in_bounds ?c" "holding ?c" using assms(2,3) by (simp_all add: in_bounds_def)
  show ?thesis
  proof (cases "nCell (pCurPage cur) = 0 \<and> \<not> leaf (pCurPage cur) \<and> mpgno (pCurPage cur) = 1")
    case True
    then have "moveToChild st ?c (right_child (sdb st) ((forget cur)\<lparr>ix := 0, atLast := False\<rparr>)) = (rc, cur', st')"
      using assms(1) by (simp add: root_ready_def Let_def)
    then show ?thesis using moveToChild_bounds [OF _ c] moveToChild_stack [OF _ c(1)] moveToChild_plain assms(3) holding_iPage [OF assms(3)]
      by (fastforce simp: stack_ok_def)
  next
    case False
    then show ?thesis using assms c by (auto simp: root_ready_def Let_def in_bounds_def active_def stack_ok_def split: if_splits)
  qed
qed

lemma moveToRoot_bounds:
  assumes "moveToRoot st cur = (rc, cur', st')" "in_bounds cur"
  shows "in_bounds cur' \<and> (rc = SQLITE_OK \<longrightarrow> holding cur' \<and> eState cur' = CURSOR_VALID \<and> ix cur' = 0 \<and> 0 < nCell (pCurPage cur') \<and> stack_ok cur') \<and>
    (rc = SQLITE_EMPTY \<and> plain_pager st \<longrightarrow> \<not> active cur')"
proof -
  have rel: "pagerAns (fold (\<lambda>i db. releasePage db (f i)) xs db) = pagerAns db" for f xs and db :: btree_db
    by (induction xs arbitrary: db) (simp_all add: releasePage_def)
  have rel0: "pagerAns (releasePage db p) = pagerAns db" for db p by (simp add: releasePage_def)
  have root: "root_check st1 cur1 = (rc, cur', st') \<Longrightarrow> in_bounds cur1 \<Longrightarrow> iPage cur1 = 0 \<Longrightarrow> curIntKey cur1 \<or> \<not> intKey (pCurPage cur1) \<Longrightarrow>
      plain_pager st \<longrightarrow> plain_pager st1 \<Longrightarrow> ?thesis"
    for st1 cur1 using root_ready_bounds [of st1 cur1 rc cur' st'] by (auto simp: root_check_def holding_def split: if_splits)
  have "-1 \<le> iPage cur" using assms(2) by (simp add: in_bounds_def)
  then consider (neg) "iPage cur = -1" | (zero) "iPage cur = 0" | (pos) "0 < iPage cur" by linarith
  then show ?thesis
  proof cases
    case pos
    let ?c = "cur\<lparr>iPage := 0, pCurPage := apPage cur ! 0\<rparr>"
    have "in_bounds ?c" "holding ?c" using assms(2) pos by (auto simp: in_bounds_def holding_def)
    moreover define db where "db = fold (\<lambda>i db. releasePage db (mpgno (apPage cur ! i))) (rev [1..<nat (iPage cur)]) (releasePage (sdb st) (mpgno (pCurPage cur)))"
    ultimately have "root_ready (st\<lparr>sdb := db\<rparr>) ?c = (rc, cur', st')" "in_bounds ?c" "holding ?c" "pagerAns db = pagerAns (sdb st)"
      using assms(1) pos rel [of "\<lambda>i. mpgno (apPage cur ! i)"] rel0 by (simp_all add: moveToRoot_def)
    then show ?thesis using root_ready_bounds [of "st\<lparr>sdb := db\<rparr>" ?c rc cur' st'] by simp
  next
    case zero
    then show ?thesis using assms root [of st cur] by (simp add: moveToRoot_def in_bounds_def)
  next
    case neg
    then have b: "eState cur \<noteq> CURSOR_VALID" "eState cur \<noteq> CURSOR_SKIPNEXT" using assms(2) by (auto simp: in_bounds_def holding_def)
    let ?c = "if eState cur = CURSOR_REQUIRESEEK then sqlite3BtreeClearCursor cur else cur"
    have c: "iPage ?c = -1" "in_bounds ?c" "eState ?c \<noteq> CURSOR_VALID" "eState ?c \<noteq> CURSOR_SKIPNEXT"
      "pgnoRoot ?c = pgnoRoot cur" "in_bounds (?c\<lparr>eState := CURSOR_INVALID\<rparr>)" "in_bounds (cur\<lparr>eState := CURSOR_INVALID\<rparr>)"
      using neg b assms(2) by (auto simp: in_bounds_def sqlite3BtreeClearCursor_def)
    obtain r q s where g: "getAndInitPage st (pgnoRoot cur) = (r, q, s)" by (metis prod_cases3)
    let ?d = "?c\<lparr>pCurPage := q, iPage := 0, curIntKey := intKey q\<rparr>"
    have d: "in_bounds ?d" using c by (simp add: in_bounds_def)
    show ?thesis
    proof (cases "pgnoRoot cur \<noteq> 0 \<and> eState cur \<noteq> CURSOR_FAULT \<and> r = SQLITE_OK")
      case True
      then have "root_check s ?d = (rc, cur', st')" using assms(1) neg g c(5) by (auto simp: moveToRoot_def Let_def)
      then show ?thesis using root [of s ?d] d getAndInitPage_plain [OF g] by simp
    next
      case False
      then show ?thesis using assms neg g c by (auto simp: moveToRoot_def in_bounds_def active_def Let_def split: if_splits)
    qed
  qed
qed

text \<open>
  A cursor is on an entry when it is valid, on a cell, with its stack in order.  It is placed when that is so or
  it is not in use; a cursor to be restored may be in state \<open>CURSOR_SKIPNEXT\<close>.
\<close>

definition on_entry :: "bt_cursor \<Rightarrow> bool" where
  "on_entry cur \<longleftrightarrow> eState cur = CURSOR_VALID \<and> on_cell cur \<and> stack_ok cur"

definition placed :: "bt_cursor \<Rightarrow> bool" where
  "placed cur \<longleftrightarrow> (active cur \<longrightarrow> on_cell cur \<and> stack_ok cur)"

lemma on_entry_placed: "on_entry cur \<Longrightarrow> placed cur"
  by (simp add: on_entry_def placed_def)

lemma not_active_placed: "\<not> active cur \<Longrightarrow> placed cur"
  by (simp add: placed_def)

lemma sqlite3BtreeFirst_bounds:
  assumes "sqlite3BtreeFirst st cur = (rc, res, cur', st')" "in_bounds cur"
  shows "in_bounds cur' \<and> (rc = SQLITE_OK \<longrightarrow> res = Some 0 \<and> on_entry cur' \<or> res = Some 1 \<and> (plain_pager st \<longrightarrow> \<not> active cur'))"
proof -
  obtain r c s where m: "moveToRoot st cur = (r, c, s)" by (metis prod_cases3)
  note b = moveToRoot_bounds [OF m assms(2)]
  obtain r1 c1 s1 where l: "moveToLeftmost s c = (r1, c1, s1)" by (metis prod_cases3)
  have e: "(rc, res, cur', st') = (if r = SQLITE_OK then (r1, Some 0, c1, s1) else if r = SQLITE_EMPTY then (SQLITE_OK, Some 1, c, s) else (r, None, c, s))"
    unfolding assms(1) [symmetric] by (simp add: sqlite3BtreeFirst_def m l)
  show ?thesis using e b moveToLeftmost_bounds [OF l] by (cases "r = SQLITE_OK"; cases "r = SQLITE_EMPTY") (simp_all add: on_entry_def)
qed

lemma sqlite3BtreeLast_bounds:
  assumes "sqlite3BtreeLast st cur = (rc, res, cur', st')" "in_bounds cur"
  shows "in_bounds cur' \<and> (rc = SQLITE_OK \<longrightarrow> res = Some 0 \<and> (on_entry cur' \<or> cur' = cur \<and> eState cur = CURSOR_VALID) \<or>
     res = Some 1 \<and> (plain_pager st \<longrightarrow> \<not> active cur'))"
proof -
  obtain r c s where m: "moveToRoot st cur = (r, c, s)" by (metis prod_cases3)
  note b = moveToRoot_bounds [OF m assms(2)]
  obtain r1 c1 s1 where l: "moveToRightmost s c = (r1, c1, s1)" by (metis prod_cases3)
  have e: "(rc, res, cur', st') = (if eState cur = CURSOR_VALID \<and> atLast cur then (SQLITE_OK, Some 0, cur, st)
      else if r = SQLITE_OK then (r1, Some 0, c1\<lparr>atLast := (r1 = SQLITE_OK)\<rparr>, s1) else if r = SQLITE_EMPTY then (SQLITE_OK, Some 1, c, s) else (r, None, c, s))"
    unfolding assms(1) [symmetric] by (simp add: sqlite3BtreeLast_def btreeLast_def m l)
  show ?thesis
  proof (cases "eState cur = CURSOR_VALID \<and> atLast cur")
    case True
    then show ?thesis using e assms(2) by simp
  next
    case False
    then have e: "(rc, res, cur', st') = (if r = SQLITE_OK then (r1, Some 0, c1\<lparr>atLast := (r1 = SQLITE_OK)\<rparr>, s1) else if r = SQLITE_EMPTY then (SQLITE_OK, Some 1, c, s) else (r, None, c, s))"
      using e by (simp only: if_False)
    show ?thesis using e b moveToRightmost_bounds [OF l] by (cases "r = SQLITE_OK"; cases "r = SQLITE_EMPTY") (simp_all add: on_entry_def)
  qed
qed

lemma kv_search_bounds:
  "lwr \<le> idx \<Longrightarrow> idx \<le> upr \<Longrightarrow> kv_search pBt P k lwr upr idx = (l, x, c) \<Longrightarrow>
   lwr \<le> x \<and> x \<le> upr \<and> lwr \<le> l \<and> l \<le> upr + 1"
proof (induction pBt P k lwr upr idx rule: kv_search.induct)
  case (1 pBt P k lwr upr idx)
  let ?c = "kvKeyCompareCell pBt P (nat idx) k"
  show ?case
  proof (cases "?c = 0")
    case True
    then show ?thesis using "1.prems" by (subst (asm) kv_search.simps) simp
  next
    case False
    define a b where "a = (if ?c < 0 then idx + 1 else lwr)" and "b = (if ?c < 0 then upr else idx - 1)"
    have ab: "(if ?c < 0 then (idx + 1, upr) else (lwr, idx - 1)) = (a, b)" by (simp add: a_def b_def)
    have e: "kv_search pBt P k lwr upr idx = (if a > b then (a, idx, ?c) else kv_search pBt P k a b ((a + b) div 2))"
      using False by (subst kv_search.simps) (simp add: ab)
    have "lwr \<le> a" "b \<le> upr" "a \<le> upr + 1" using "1.prems" by (auto simp: a_def b_def)
    moreover have "\<not> b < a \<Longrightarrow> kv_search pBt P k a b ((a + b) div 2) = (l, x, c) \<Longrightarrow> a \<le> x \<and> x \<le> b \<and> a \<le> l \<and> l \<le> b + 1"
      using "1.IH" [OF refl False ab [symmetric] refl] by simp
    ultimately show ?thesis using "1.prems" e by (auto split: if_splits)
  qed
qed

lemma kv_moveto_loop_bounds:
  assumes "kv_moveto_loop k b st cur = (rc, res, cur', st')" "in_bounds cur" "holding cur" "0 < nCell (pCurPage cur)" "stack_ok cur"
  shows "in_bounds cur' \<and> holding cur' \<and> eState cur' = eState cur \<and> (rc = SQLITE_OK \<longrightarrow> on_cell cur') \<and> stack_ok cur'"
  using assms
proof (induction k b st cur rule: kv_moveto_loop.induct)
  case (1 k b st cur)
  let ?P = "cur_page (sdb st) cur" let ?upr = "int (nCell ?P) - 1"
  obtain lw x c where r: "kv_search (bts (sdb st)) ?P k 0 ?upr (if b then ?upr else ?upr div 2) = (lw, x, c)" by (metis prod_cases3)
  have n: "0 < nCell ?P" "nCell ?P = nCell (pCurPage cur)" "leaf ?P = leaf (pCurPage cur)" using "1.prems"(4) by (simp_all add: cur_page_def)
  have "0 \<le> (if b then ?upr else ?upr div 2)" "(if b then ?upr else ?upr div 2) \<le> ?upr" using n(1) by (simp_all, linarith?)
  then have x: "0 \<le> x" "x \<le> ?upr" "0 \<le> lw" "lw \<le> int (nCell ?P)" using kv_search_bounds [OF _ _ r] by simp_all
  have ix: "nat x mod 65536 < nCell (pCurPage cur)"
    using x n(2) mod_less_eq_dividend [of "nat x" 65536] by linarith
  show ?case
  proof (cases "leaf ?P")
    case True
    then have "pCurPage cur' = pCurPage cur \<and> ix cur' = nat x mod 65536 \<and> in_bounds cur' \<and> holding cur' \<and> eState cur' = eState cur \<and>
       stack_ok cur'"
      using "1.prems" by (subst (asm) kv_moveto_loop.simps) (auto simp: r split: if_splits)
    then show ?thesis using True n(3) ix by (simp add: on_cell_def)
  next
    case False
    define l where "l = (if c = 0 then x else lw)"
    let ?c = "cur\<lparr>ix := nat l mod 65536\<rparr>"
    define p where "p = (if l \<ge> int (nCell ?P) then right_child (sdb st) cur else left_child (sdb st) cur (nat l))"
    obtain r1 c1 s1 where m: "moveToChild st ?c p = (r1, c1, s1)" by (metis prod_cases3)
    have e: "kv_moveto_loop k b st cur = (if r1 \<noteq> SQLITE_OK then (r1, None, c1\<lparr>info := (info c1)\<lparr>nSize := 0\<rparr>\<rparr>, s1) else kv_moveto_loop k b s1 c1)"
      using False m unfolding p_def
      by (subst kv_moveto_loop.simps) (cases "int (nCell ?P) \<le> l"; simp add: r l_def [symmetric] Let_def)
    have l: "0 \<le> l" "l \<le> int (nCell ?P)" using x by (simp_all add: l_def)
    have lix: "ix ?c \<le> nCell (pCurPage ?c)" using l n(2) mod_less_eq_dividend [of "nat l" 65536] by simp
    have mb: "in_bounds c1" "holding c1" "eState c1 = eState cur" "r1 = SQLITE_OK \<Longrightarrow> 0 < nCell (pCurPage c1)" "stack_ok c1"
      using moveToChild_bounds [OF m] moveToChild_stack [OF m _ _ _ lix] "1.prems"(2,3,5) holding_iPage [of cur] by simp_all
    show ?thesis
    proof (cases "r1 = SQLITE_OK")
      case True
      have "kv_moveto_loop k b s1 c1 = (rc, res, cur', st')" using e True "1.prems"(1) by simp
      then show ?thesis using "1.IH" [OF refl refl refl r [symmetric] refl False l_def p_def m [symmetric] refl] True mb "1.prems" by auto
    next
      case F: False
      then show ?thesis using e mb "1.prems" by auto
    qed
  qed
qed

lemma sqlite3BtreeKvMoveto_bounds:
  assumes "sqlite3BtreeKvMoveto st cur k b = (rc, res, cur', st')" "in_bounds cur"
  shows "in_bounds cur' \<and> (rc = SQLITE_OK \<longrightarrow> cur' = cur \<and> eState cur = CURSOR_VALID \<or> on_entry cur' \<or>
     res = Some (-1) \<and> (plain_pager st \<longrightarrow> \<not> active cur'))"
proof -
  obtain r c s where m: "moveToRoot st cur = (r, c, s)" by (metis prod_cases3)
  note bd = moveToRoot_bounds [OF m assms(2)]
  show ?thesis
    using assms m bd kv_moveto_loop_bounds [of k b s c rc res cur' st'] by (auto simp: sqlite3BtreeKvMoveto_def on_entry_def split: if_splits)
qed

lemma moveToParent_bounds:
  assumes "moveToParent st cur = (cur', st')" "in_bounds cur" "holding cur" "0 < iPage cur"
  shows "in_bounds cur' \<and> holding cur' \<and> eState cur' = eState cur \<and>
    (stack_ok cur \<longrightarrow> stack_ok cur' \<and> ix cur' \<le> nCell (pCurPage cur'))"
proof -
  have "nat (iPage cur - 1) < nat (iPage cur)" using assms(4) by simp
  then show ?thesis using assms by (auto simp: moveToParent_def in_bounds_def holding_def stack_ok_def Let_def)
qed

lemma next_climb_bounds:
  assumes "next_climb st cur = (found, cur', st')" "in_bounds cur" "holding cur"
  shows "in_bounds cur' \<and> holding cur' \<and> (if found then eState cur' = eState cur \<and> ix cur' < nCell (pCurPage cur') \<and> (stack_ok cur \<longrightarrow> stack_ok cur')
    else eState cur' = CURSOR_INVALID)"
  using assms
proof (induction st cur rule: next_climb.induct)
  case (1 st cur)
  show ?case
  proof (cases "iPage cur \<le> 0")
    case True
    then show ?thesis using "1.prems" by (subst (asm) next_climb.simps) (auto simp: in_bounds_def)
  next
    case False
    obtain c s where m: "moveToParent st cur = (c, s)" by (metis prod.exhaust)
    note b = moveToParent_bounds [OF m "1.prems"(2,3)]
    have e: "next_climb st cur = (if ix c \<ge> nCell (pCurPage c) then next_climb s c else (True, c, s))"
      using False m by (subst next_climb.simps) simp
    show ?thesis using "1.IH" [OF False m [symmetric]] e b False "1.prems"(1) by (auto split: if_splits)
  qed
qed

lemma next_valid_bounds:
  "sqlite3BtreeNext_valid st cur = (rc, cur', st') \<Longrightarrow> in_bounds cur \<Longrightarrow> holding cur \<Longrightarrow> eState cur = CURSOR_VALID \<Longrightarrow>
   in_bounds cur' \<and> (rc = SQLITE_OK \<longrightarrow> eState cur' = CURSOR_VALID \<and> on_cell cur' \<and>
     (stack_ok cur \<and> ix cur < nCell (pCurPage cur) \<longrightarrow> stack_ok cur'))"
  "btreeNext_valid st cur = (rc, cur', st') \<Longrightarrow> in_bounds cur \<Longrightarrow> holding cur \<Longrightarrow> eState cur = CURSOR_VALID \<Longrightarrow>
   in_bounds cur' \<and> (rc = SQLITE_OK \<longrightarrow> eState cur' = CURSOR_VALID \<and> on_cell cur' \<and>
     (stack_ok cur \<and> ix cur < nCell (pCurPage cur) \<longrightarrow> stack_ok cur'))"
proof (induction st cur and st cur rule: sqlite3BtreeNext_valid_btreeNext_valid.induct)
  case (1 st cur)
  let ?f = "forget cur" let ?i = "(ix ?f + 1) mod 65536"
  have e: "sqlite3BtreeNext_valid st cur = (if ?i \<ge> nCell (pCurPage ?f) then btreeNext_valid st ?f
      else if leaf (pCurPage ?f) then (SQLITE_OK, ?f\<lparr>ix := ?i\<rparr>, st) else moveToLeftmost st (?f\<lparr>ix := ?i\<rparr>))"
    by (subst sqlite3BtreeNext_valid.simps) (simp add: Let_def)
  show ?case
    using "1.IH" [OF refl refl] "1.prems" e moveToLeftmost_bounds [of st "?f\<lparr>ix := ?i\<rparr>" rc cur' st']
    by (auto simp: on_cell_def split: if_splits)
next
  case (2 st cur)
  let ?i = "(ix cur + 1) mod 65536" let ?c = "cur\<lparr>ix := ?i\<rparr>"
  obtain r1 c1 s1 where m: "moveToChild st ?c (right_child (sdb st) ?c) = (r1, c1, s1)" by (metis prod_cases3)
  obtain f c2 s2 where n: "next_climb st ?c = (f, c2, s2)" by (metis prod_cases3)
  have e: "btreeNext_valid st cur = (if \<not> isInit (pCurPage cur) then (SQLITE_CORRUPT, ?c, st)
      else if ?i \<ge> nCell (pCurPage cur) then
        if \<not> leaf (pCurPage cur) then (if r1 \<noteq> SQLITE_OK then (r1, c1, s1) else moveToLeftmost s1 c1)
        else if \<not> f then (SQLITE_DONE, c2, s2) else if intKey (pCurPage c2) then sqlite3BtreeNext_valid s2 c2 else (SQLITE_OK, c2, s2)
      else if leaf (pCurPage cur) then (SQLITE_OK, ?c, st) else moveToLeftmost st ?c)"
    using m n by (subst btreeNext_valid.simps) (simp add: Let_def)
  have b: "in_bounds ?c" "holding ?c" using "2.prems" by simp_all
  note mb = moveToChild_bounds [OF m b] and nb = next_climb_bounds [OF n b]
  have lx: "ix cur < nCell (pCurPage cur) \<Longrightarrow> ix ?c \<le> nCell (pCurPage ?c)"
    using mod_less_eq_dividend [of "ix cur + 1" 65536] by simp
  have ms: "stack_ok cur \<and> ix cur < nCell (pCurPage cur) \<longrightarrow> stack_ok c1"
    using moveToChild_stack [OF m b(1) _ _ lx] holding_iPage [OF b(2)] by simp
  have k: "intKey (pCurPage c2)" using nb by (simp add: holding_def)
  show ?case
  proof (cases "isInit (pCurPage cur) \<and> ?i \<ge> nCell (pCurPage cur) \<and> leaf (pCurPage cur) \<and> f")
    case True
    then have s: "sqlite3BtreeNext_valid s2 c2 = (rc, cur', st')" using e k "2.prems"(1) by simp
    show ?thesis
      using "2.IH" [OF refl refl refl _ _ _ n [symmetric] refl _ _ s] True k nb "2.prems"(4) by simp
  next
    case False
    then show ?thesis
      using "2.prems" e mb nb ms moveToLeftmost_bounds [of s1 c1 rc cur' st'] moveToLeftmost_bounds [of st ?c rc cur' st']
      by (auto simp: on_cell_def split: if_splits)
  qed
qed



lemma moveToRoot_state:
  assumes "moveToRoot st cur = (rc, cur', st')" "eState cur = CURSOR_INVALID" "in_bounds cur"
  shows "eState cur' = CURSOR_VALID \<or> eState cur' = CURSOR_INVALID"
proof -
  have c: "moveToChild s c p = (r, c', s') \<Longrightarrow> eState c' = eState c" for s c p r c' s'
    by (auto simp: moveToChild_def Let_def split: if_splits prod.splits)
  have r: "root_ready s c = (r, c', s') \<Longrightarrow> eState c' = CURSOR_VALID \<or> eState c' = CURSOR_INVALID \<or> eState c' = eState c" for s c r c' s'
    by (auto simp: root_ready_def Let_def dest: c split: if_splits)
  show ?thesis using assms(1,2) by (auto simp: moveToRoot_def root_check_def Let_def dest!: r split: if_splits prod.splits)
qed

lemma sqlite3BtreeKvMoveto_state:
  assumes "sqlite3BtreeKvMoveto st cur k b = (rc, res, cur', st')" "in_bounds cur" "eState cur = CURSOR_INVALID"
  shows "eState cur' = CURSOR_VALID \<or> eState cur' = CURSOR_INVALID"
proof -
  obtain r c s where m: "moveToRoot st cur = (r, c, s)" by (metis prod_cases3)
  show ?thesis
    using assms m moveToRoot_state [OF m assms(3,2)] moveToRoot_bounds [OF m assms(2)] kv_moveto_loop_bounds [of k b s c rc res cur' st']
    by (auto simp: sqlite3BtreeKvMoveto_def split: if_splits)
qed

lemma in_bounds_plain [simp]:
  "in_bounds (cur\<lparr>savedKey := x\<rparr>) = in_bounds cur" "in_bounds (cur\<lparr>skipNext := i\<rparr>) = in_bounds cur"
  "in_bounds (cur\<lparr>validOvfl := b\<rparr>) = in_bounds cur"
  by (simp_all add: in_bounds_def holding_def)

lemma in_bounds_state:
  "in_bounds cur \<Longrightarrow> eState cur = CURSOR_VALID \<or> eState cur = CURSOR_SKIPNEXT \<or> e = CURSOR_INVALID \<or> e = CURSOR_REQUIRESEEK \<Longrightarrow> e \<noteq> CURSOR_FAULT \<Longrightarrow>
   in_bounds (cur\<lparr>eState := e\<rparr>)"
  by (auto simp: in_bounds_def)

lemma restore_bounds:
  assumes "restoreCursorPosition st cur = (rc, cur', st')" "in_bounds cur"
  shows "in_bounds cur' \<and> (rc = SQLITE_OK \<longrightarrow> eState cur' \<noteq> CURSOR_REQUIRESEEK \<and> eState cur' \<noteq> CURSOR_FAULT \<and>
    (plain_pager st \<and> placed cur \<longrightarrow> placed cur'))"
proof (cases "eState cur = CURSOR_REQUIRESEEK")
  case True
  let ?c = "cur\<lparr>eState := CURSOR_INVALID\<rparr>"
  obtain r res c s where m: "sqlite3BtreeKvMoveto st ?c (the (savedKey cur)) False = (r, res, c, s)" by (metis prod_cases4)
  have b: "in_bounds ?c" using assms(2) by (rule in_bounds_state) simp_all
  note mb = sqlite3BtreeKvMoveto_bounds [OF m b] and ms = sqlite3BtreeKvMoveto_state [OF m b]
  have v: "in_bounds (c\<lparr>savedKey := x, skipNext := i, eState := CURSOR_SKIPNEXT\<rparr>)" if "eState c = CURSOR_VALID" for x i
    using in_bounds_state [of "c\<lparr>savedKey := x, skipNext := i\<rparr>" CURSOR_SKIPNEXT] mb that by simp
  have v': "in_bounds (c\<lparr>savedKey := x, eState := CURSOR_SKIPNEXT\<rparr>)" if "eState c = CURSOR_VALID" for x
    using in_bounds_state [of "c\<lparr>savedKey := x\<rparr>" CURSOR_SKIPNEXT] mb that by simp
  show ?thesis
    using assms(1) True m mb ms v v'
    by (auto simp: restoreCursorPosition_def btreeRestoreCursorPosition_def btreeMoveto_def placed_def active_def on_entry_def Let_def split: if_splits)
next
  case False
  then show ?thesis using assms by (auto simp: restoreCursorPosition_def btreeRestoreCursorPosition_def in_bounds_def split: if_splits)
qed

lemma in_bounds_holding: "in_bounds cur \<Longrightarrow> eState cur = CURSOR_VALID \<or> eState cur = CURSOR_SKIPNEXT \<Longrightarrow> holding cur"
  by (auto simp: in_bounds_def)

lemma sqlite3BtreeNext_bounds:
  assumes "sqlite3BtreeNext st cur = (rc, cur', st')" "in_bounds cur"
  shows "in_bounds cur' \<and> (rc = SQLITE_OK \<and> plain_pager st \<and> placed cur \<longrightarrow> on_entry cur')"
proof (cases "eState cur = CURSOR_VALID")
  case True
  then show ?thesis using assms next_valid_bounds(1) [of st cur rc cur' st'] in_bounds_holding
    by (simp add: sqlite3BtreeNext_def placed_def active_def on_entry_def) (auto simp: on_cell_def)
next
  case False
  obtain r c s where m: "restoreCursorPosition st (forget cur) = (r, c, s)" by (metis prod_cases3)
  have b: "in_bounds (forget cur)" "placed (forget cur) = placed cur" using assms(2) by (simp_all add: placed_def active_def)
  note rb = restore_bounds [OF m b(1), unfolded b(2)]
  let ?v = "c\<lparr>eState := CURSOR_VALID\<rparr>"
  have e: "(rc, cur', st') = (if r \<noteq> SQLITE_OK then (r, c, s) else if eState c = CURSOR_INVALID then (SQLITE_DONE, c, s)
      else if eState c = CURSOR_SKIPNEXT then (if skipNext c > 0 then (SQLITE_OK, ?v, s) else btreeNext_valid s ?v) else btreeNext_valid s c)"
    unfolding assms(1) [symmetric] using False by (simp add: sqlite3BtreeNext_def btreeNext_def m)
  have v: "in_bounds ?v" if "eState c = CURSOR_SKIPNEXT" using in_bounds_state [of c CURSOR_VALID] rb that by simp
  show ?thesis
  proof (cases "r = SQLITE_OK \<and> eState c \<noteq> CURSOR_INVALID")
    case True
    then consider "eState c = CURSOR_SKIPNEXT" | "eState c = CURSOR_VALID" using rb by (cases "eState c") auto
    then show ?thesis
      using True e False rb v next_valid_bounds(2) [of s ?v rc cur' st'] next_valid_bounds(2) [of s c rc cur' st'] in_bounds_holding [of c] in_bounds_holding [of ?v]
      by cases (auto simp: placed_def active_def on_entry_def on_cell_def split: if_splits)
  next
    case F: False
    then show ?thesis using e rb by (auto split: if_splits)
  qed
qed

lemma prev_climb_bounds:
  assumes "prev_climb st cur = (found, cur', st')" "in_bounds cur" "holding cur"
  shows "in_bounds cur' \<and> holding cur' \<and> (if found then eState cur' = eState cur \<and> ix cur' \<noteq> 0 \<and>
       (stack_ok cur \<and> ix cur \<le> nCell (pCurPage cur) \<longrightarrow> stack_ok cur' \<and> ix cur' \<le> nCell (pCurPage cur'))
    else eState cur' = CURSOR_INVALID)"
  using assms
proof (induction st cur rule: prev_climb.induct)
  case (1 st cur)
  show ?case
  proof (cases "ix cur = 0 \<and> \<not> iPage cur \<le> 0")
    case True
    obtain c s where m: "moveToParent st cur = (c, s)" by (metis prod.exhaust)
    note b = moveToParent_bounds [OF m "1.prems"(2,3)]
    have e: "prev_climb st cur = prev_climb s c" using True m by (subst prev_climb.simps) simp
    show ?thesis using "1.IH" [OF _ _ m [symmetric]] e b True "1.prems"(1) by auto
  next
    case False
    then show ?thesis using "1.prems" by (subst (asm) prev_climb.simps) (auto simp: in_bounds_def split: if_splits)
  qed
qed

lemma prev_valid_bounds:
  assumes "btreePrevious_valid st cur = (rc, cur', st')" "in_bounds cur" "eState cur = CURSOR_VALID"
  shows "in_bounds cur' \<and> (rc = SQLITE_OK \<and> stack_ok cur \<and> ix cur \<le> nCell (pCurPage cur) \<longrightarrow> on_entry cur')"
  using assms
proof (induction st cur rule: btreePrevious_valid.induct)
  case (1 st cur)
  obtain r1 c1 s1 where m: "moveToChild st cur (left_child (sdb st) cur (ix cur)) = (r1, c1, s1)" by (metis prod_cases3)
  obtain f c2 s2 where n: "prev_climb st cur = (f, c2, s2)" by (metis prod_cases3)
  have h: "holding cur" using in_bounds_holding "1.prems" by simp
  note mb = moveToChild_bounds [OF m "1.prems"(2) h] and ms = moveToChild_stack [OF m "1.prems"(2) holding_iPage [OF h]] and nb = prev_climb_bounds [OF n "1.prems"(2) h]
  let ?c = "c2\<lparr>ix := ix c2 - 1\<rparr>"
  have e: "btreePrevious_valid st cur = (if \<not> isInit (pCurPage cur) then (SQLITE_CORRUPT, cur, st)
     else if \<not> leaf (pCurPage cur) then (if r1 \<noteq> SQLITE_OK then (r1, c1, s1) else moveToRightmost s1 c1)
     else if \<not> f then (SQLITE_DONE, c2, s2)
     else if intKey (pCurPage ?c) \<and> \<not> leaf (pCurPage ?c) then btreePrevious_valid s2 ((forget ?c)\<lparr>atLast := False\<rparr>) else (SQLITE_OK, ?c, s2))"
    using m n by (subst btreePrevious_valid.simps) (simp add: Let_def)
  show ?case
  proof (cases "isInit (pCurPage cur) \<and> leaf (pCurPage cur) \<and> f \<and> intKey (pCurPage ?c) \<and> \<not> leaf (pCurPage ?c)")
    case True
    then have "btreePrevious_valid s2 ((forget ?c)\<lparr>atLast := False\<rparr>) = (rc, cur', st')" using e "1.prems"(1) by simp
    then show ?thesis using "1.IH" [OF _ _ n [symmetric] refl] True nb "1.prems"(3) by auto
  next
    case False
    then show ?thesis using e "1.prems" h mb ms nb moveToRightmost_bounds [of s1 c1 rc cur' st']
      by (auto simp: on_entry_def on_cell_def holding_def split: if_splits)
  qed
qed

lemma sqlite3BtreePrevious_bounds:
  assumes "sqlite3BtreePrevious st cur = (rc, cur', st')" "in_bounds cur"
  shows "in_bounds cur' \<and> (rc = SQLITE_OK \<and> plain_pager st \<and> placed cur \<longrightarrow> on_entry cur')"
proof -
  let ?f = "(forget cur)\<lparr>atLast := False\<rparr>"
  have b: "in_bounds ?f" using assms(2) by simp
  have f: "placed ?f = placed cur" by (simp add: placed_def active_def)
  obtain r c s where m: "restoreCursorPosition st ?f = (r, c, s)" by (metis prod_cases3)
  note rb = restore_bounds [OF m b, unfolded f]
  let ?v = "c\<lparr>eState := CURSOR_VALID\<rparr>"
  have v: "in_bounds ?v" if "eState c = CURSOR_SKIPNEXT" using in_bounds_state [of c CURSOR_VALID] rb that by simp
  show ?thesis
  proof (cases "eState cur = CURSOR_VALID")
    case True
    then show ?thesis using assms(1) b prev_valid_bounds [of st ?f rc cur' st']
      by (auto simp: sqlite3BtreePrevious_def btreePrevious_def placed_def active_def on_entry_def on_cell_def Let_def split: if_splits)
  next
    case False
    then have e: "(rc, cur', st') = (if r \<noteq> SQLITE_OK then (r, c, s) else if eState c = CURSOR_INVALID then (SQLITE_DONE, c, s)
      else if eState c = CURSOR_SKIPNEXT then (if skipNext c < 0 then (SQLITE_OK, ?v, s) else btreePrevious_valid s ?v) else btreePrevious_valid s c)"
      unfolding assms(1) [symmetric] by (simp add: sqlite3BtreePrevious_def btreePrevious_def m)
    show ?thesis
      using e rb v prev_valid_bounds [of s ?v rc cur' st'] prev_valid_bounds [of s c rc cur' st']
      by (cases "eState c") (auto simp: placed_def active_def on_entry_def on_cell_def split: if_splits)
  qed
qed

lemma saveCursorPosition_bounds:
  assumes "saveCursorPosition st cur = (rc, cur', st')" "in_bounds cur" "active cur"
  shows "in_bounds cur' \<and> (placed cur \<longrightarrow> placed cur')"
proof -
  have g: "in_bounds (getCellInfo db c) = in_bounds c" "iPage (getCellInfo db c) = iPage c" "placed (getCellInfo db c) = placed c" for db c
    by (simp_all add: getCellInfo_def placed_def active_def)
  have p: "placed (cur\<lparr>eState := CURSOR_VALID\<rparr>) = placed cur" "placed (c\<lparr>skipNext := j\<rparr>) = placed c" "placed (c\<lparr>savedKey := y\<rparr>) = placed c"
    "placed (c\<lparr>validNKey := v, validOvfl := w, atLast := a\<rparr>) = placed c" "placed (c\<lparr>iPage := i, eState := CURSOR_REQUIRESEEK\<rparr>)" for c j y v w a i
    using assms(3) by (simp_all add: placed_def active_def)
  have h: "0 \<le> iPage cur" using in_bounds_holding assms(2,3) by (auto simp: holding_def active_def)
  have s: "in_bounds (cur\<lparr>eState := CURSOR_VALID\<rparr>)" using in_bounds_state [OF assms(2)] assms(3) by (auto simp: active_def)
  have n: "in_bounds c \<Longrightarrow> in_bounds (c\<lparr>iPage := -1, eState := CURSOR_REQUIRESEEK\<rparr>)" for c by (simp add: in_bounds_def)
  show ?thesis
    using assms s h by (auto simp: saveCursorPosition_def saveCursorKey_def btreeReleaseAllCursorPages_def g n p Let_def split: if_splits prod.splits)
qed

section \<open>Any use of a cursor\<close>

text \<open>
  The cursors that can arise when a cursor is opened, moved, saved and restored in any way, each time on a database
  with any content.  The flag tells whether the position can be relied on: since the cursor was opened, or last
  went to the first entry, no move failed; a cursor that is not in use can always be relied on.
\<close>

definition sound_move :: "bool \<Rightarrow> bt_state \<Rightarrow> rc \<Rightarrow> bt_cursor \<Rightarrow> bool" where
  "sound_move ok st rc cur \<longleftrightarrow> \<not> active cur \<or> ok \<and> rc = SQLITE_OK \<and> plain_pager st"

inductive cursor_use :: "bool \<Rightarrow> bt_cursor \<Rightarrow> bool" where
  use_open: "btreeCursor st tmp cs iTable wrFlag (sqlite3BtreeCursorZero cur) = (SQLITE_OK, c # cs', tmp', st') \<Longrightarrow>
    length (aiIdx cur) = 19 \<Longrightarrow> length (apPage cur) = 19 \<Longrightarrow> cursor_use True c"
| use_first: "cursor_use ok cur \<Longrightarrow> sqlite3BtreeFirst st cur = (rc, res, cur', st') \<Longrightarrow> cursor_use (sound_move True st rc cur') cur'"
| use_last: "cursor_use ok cur \<Longrightarrow> sqlite3BtreeLast st cur = (rc, res, cur', st') \<Longrightarrow> cursor_use (sound_move ok st rc cur') cur'"
| use_moveto: "cursor_use ok cur \<Longrightarrow> sqlite3BtreeKvMoveto st cur k biasRight = (rc, res, cur', st') \<Longrightarrow>
    cursor_use (sound_move ok st rc cur') cur'"
| use_next: "cursor_use ok cur \<Longrightarrow> sqlite3BtreeNext st cur = (rc, cur', st') \<Longrightarrow> cursor_use (sound_move ok st rc cur') cur'"
| use_previous: "cursor_use ok cur \<Longrightarrow> sqlite3BtreePrevious st cur = (rc, cur', st') \<Longrightarrow> cursor_use (sound_move ok st rc cur') cur'"
| use_save: "cursor_use ok cur \<Longrightarrow> active cur \<Longrightarrow> saveCursorPosition st cur = (rc, cur', st') \<Longrightarrow> cursor_use ok cur'"
| use_release: "cursor_use ok cur \<Longrightarrow> \<not> active cur \<Longrightarrow> btreeReleaseAllCursorPages st cur = (cur', st') \<Longrightarrow> cursor_use ok cur'"
| use_restore: "cursor_use ok cur \<Longrightarrow> sqlite3BtreeCursorRestore st cur = (rc, moved, cur', st') \<Longrightarrow>
    cursor_use (sound_move ok st rc cur') cur'"
| use_info: "cursor_use ok cur \<Longrightarrow> cursor_use ok (getCellInfo db cur)"

lemma sound_move_placed:
  assumes "sound_move ok st rc cur'" "ok \<Longrightarrow> rc = SQLITE_OK \<Longrightarrow> plain_pager st \<Longrightarrow> placed cur'"
  shows "placed cur'"
  using assms by (auto simp: sound_move_def not_active_placed)

lemma btreeCursor_bounds:
  assumes "btreeCursor st tmp cs iTable wrFlag (sqlite3BtreeCursorZero cur) = (SQLITE_OK, c # cs', tmp', st')"
    "length (aiIdx cur) = 19" "length (apPage cur) = 19"
  shows "in_bounds c \<and> placed c"
  using assms by (auto simp: btreeCursor_def allocateTempSpace_def in_bounds_def sqlite3BtreeCursorZero_def placed_def active_def Let_def
    split: if_splits prod.splits)

lemma cursor_use_bounds: "cursor_use ok cur \<Longrightarrow> in_bounds cur \<and> (ok \<longrightarrow> placed cur)"
proof (induction rule: cursor_use.induct)
  case (use_open st tmp cs iTable wrFlag cur c cs' tmp' st')
  then show ?case using btreeCursor_bounds by simp
next
  case (use_first ok cur st rc res cur' st')
  then show ?case
    using sqlite3BtreeFirst_bounds [of st cur rc res cur' st'] sound_move_placed [of True st rc cur'] on_entry_placed [of cur'] not_active_placed [of cur'] by blast
next
  case (use_last ok cur st rc res cur' st')
  then show ?case
    using sqlite3BtreeLast_bounds [of st cur rc res cur' st'] sound_move_placed [of ok st rc cur'] on_entry_placed [of cur'] not_active_placed [of cur'] by blast
next
  case (use_moveto ok cur st k biasRight rc res cur' st')
  then show ?case
    using sqlite3BtreeKvMoveto_bounds [of st cur k biasRight rc res cur' st'] sound_move_placed [of ok st rc cur'] on_entry_placed [of cur'] not_active_placed [of cur']
    by blast
next
  case (use_next ok cur st rc cur' st')
  then show ?case using sqlite3BtreeNext_bounds [of st cur rc cur' st'] sound_move_placed [of ok st rc cur'] on_entry_placed [of cur'] by blast
next
  case (use_previous ok cur st rc cur' st')
  then show ?case using sqlite3BtreePrevious_bounds [of st cur rc cur' st'] sound_move_placed [of ok st rc cur'] on_entry_placed [of cur'] by blast
next
  case (use_save ok cur st rc cur' st')
  then show ?case using saveCursorPosition_bounds by blast
next
  case (use_release ok cur st cur' st')
  then have "in_bounds cur'" "\<not> active cur'"
    by (auto simp: btreeReleaseAllCursorPages_def in_bounds_def holding_def active_def Let_def split: if_splits)
  then show ?case by (simp add: not_active_placed)
next
  case (use_restore ok cur st rc moved cur' st')
  obtain r c s where m: "restoreCursorPosition st cur = (r, c, s)" by (metis prod_cases3)
  have "cur' = c" "rc = r" using use_restore.hyps(2) m by (auto simp: sqlite3BtreeCursorRestore_def split: if_splits)
  then show ?case using restore_bounds [OF m] use_restore.IH sound_move_placed [of ok st rc cur'] by blast
next
  case (use_info ok cur db)
  then show ?case by (simp add: getCellInfo_def placed_def active_def)
qed

text \<open>
  C23: whatever the pages of the database contain, and however the cursor is used, its stack stays within
  the arrays \<open>aiIdx\<close> and \<open>apPage\<close> of \<open>BTCURSOR_MAX_DEPTH - 1\<close> entries.  While no move failed, a cursor in state
  \<open>CURSOR_VALID\<close> or \<open>CURSOR_SKIPNEXT\<close> is on an existing cell of a leaf page and every index on its stack is that of a cell or of
  the right child; every move that succeeds (to the first, last, next or previous entry, or to a key with any
  outcome of the comparison) leaves the cursor valid and in that position, but for a search in an empty tree,
  which leaves it out of use.  A move to the first entry does so even after a failure.
\<close>

theorem cursor_bounds:
  assumes "cursor_use ok cur"
  shows "-1 \<le> iPage cur \<and> iPage cur \<le> BTCURSOR_MAX_DEPTH - 1 \<and> length (aiIdx cur) = 19 \<and> length (apPage cur) = 19 \<and>
    (ok \<and> active cur \<longrightarrow> leaf (pCurPage cur) \<and> ix cur < nCell (pCurPage cur) \<and>
       (\<forall>d < nat (iPage cur). aiIdx cur ! d \<le> nCell (apPage cur ! d))) \<and>
    (\<forall>st cur' st'. sqlite3BtreeFirst st cur = (SQLITE_OK, Some 0, cur', st') \<longrightarrow> on_entry cur') \<and>
    (ok \<longrightarrow>
       (\<forall>st cur' st'. sqlite3BtreeLast st cur = (SQLITE_OK, Some 0, cur', st') \<longrightarrow> on_entry cur') \<and>
       (\<forall>st k bias res cur' st'. plain_pager st \<and> sqlite3BtreeKvMoveto st cur k bias = (SQLITE_OK, res, cur', st') \<longrightarrow>
          on_entry cur' \<or> res = Some (-1) \<and> \<not> active cur') \<and>
       (\<forall>st cur' st'. plain_pager st \<and> sqlite3BtreeNext st cur = (SQLITE_OK, cur', st') \<longrightarrow> on_entry cur') \<and>
       (\<forall>st cur' st'. plain_pager st \<and> sqlite3BtreePrevious st cur = (SQLITE_OK, cur', st') \<longrightarrow> on_entry cur'))"
proof -
  have b: "in_bounds cur" and p: "ok \<Longrightarrow> placed cur" using cursor_use_bounds [OF assms] by simp_all
  have v: "on_entry cur" if "ok" "eState cur = CURSOR_VALID" using p that by (simp add: placed_def active_def on_entry_def)
  have "on_entry cur'" if "sqlite3BtreeFirst st cur = (SQLITE_OK, Some 0, cur', st')" for st cur' st'
    using sqlite3BtreeFirst_bounds [OF that b] by simp
  moreover have "on_entry cur'" if "ok" "sqlite3BtreeLast st cur = (SQLITE_OK, Some 0, cur', st')" for st cur' st'
    using sqlite3BtreeLast_bounds [OF that(2) b] v that(1) by auto
  moreover have "on_entry cur' \<or> res = Some (-1) \<and> \<not> active cur'"
    if "ok" "plain_pager st" "sqlite3BtreeKvMoveto st cur k bias = (SQLITE_OK, res, cur', st')" for st k bias res cur' st'
    using sqlite3BtreeKvMoveto_bounds [OF that(3) b] v that(1,2) by auto
  moreover have "on_entry cur'" if "ok" "plain_pager st" "sqlite3BtreeNext st cur = (SQLITE_OK, cur', st')" for st cur' st'
    using sqlite3BtreeNext_bounds [OF that(3) b] p that(1,2) by simp
  moreover have "on_entry cur'" if "ok" "plain_pager st" "sqlite3BtreePrevious st cur = (SQLITE_OK, cur', st')" for st cur' st'
    using sqlite3BtreePrevious_bounds [OF that(3) b] p that(1,2) by simp
  moreover have "-1 \<le> iPage cur \<and> iPage cur \<le> BTCURSOR_MAX_DEPTH - 1 \<and> length (aiIdx cur) = 19 \<and> length (apPage cur) = 19"
    using b by (simp add: in_bounds_def)
  moreover have "leaf (pCurPage cur) \<and> ix cur < nCell (pCurPage cur) \<and> (\<forall>d < nat (iPage cur). aiIdx cur ! d \<le> nCell (apPage cur ! d))"
    if "ok" "active cur" using p that by (simp add: placed_def on_cell_def stack_ok_def)
  ultimately show ?thesis by blast
qed

theorem cursor_bounds_witness:
  "\<exists>c st1 tmp. btreeCursor demo_st True [] 2 False (sqlite3BtreeCursorZero demo_handle) = (SQLITE_OK, [c], tmp, st1) \<and> cursor_use True c \<and>
     iPage c \<le> 19 \<and> (\<exists>cur' st'. sqlite3BtreeFirst demo_st c = (SQLITE_OK, Some 0, cur', st') \<and> on_entry cur')"
proof -
  let ?z = "sqlite3BtreeCursorZero demo_handle"
  define c where "c = ?z\<lparr>pgnoRoot := 2, iPage := -1, validNKey := False, validOvfl := False, atLast := False, pinned := False,
    multiple := False, eState := CURSOR_INVALID, writeFlag := False\<rparr>"
  have o: "btreeCursor demo_st True [] 2 False ?z = (SQLITE_OK, [c], True, demo_st)" by (simp add: btreeCursor_def c_def)
  have u: "cursor_use True c" by (rule use_open [OF o]) (simp_all add: demo_handle_def)
  have "opened demo_st demo_tree c" by (simp add: opened_def c_def sqlite3BtreeCursorZero_def demo_handle_def demo_tree_def)
  then obtain cur' st' where "sqlite3BtreeFirst demo_st c = (SQLITE_OK, Some 0, cur', st')"
    using sqlite3BtreeFirst_tree [OF _ demo_tree_at demo_tree_facts(2)] demo_tree_facts(4) by force
  then show ?thesis using o u cursor_bounds [OF u] by auto
qed

end
