(* ===== verification/UnixFile.thy ===== *)
theory UnixFile
  imports Prelude
begin

text \<open>
  File I/O of the Unix VFS (\<open>src/src/os_unix.c\<close>: \<open>unixRead\<close>, \<open>unixWrite\<close>, \<open>unixTruncate\<close>,
  \<open>unixFileSize\<close>).  The file is the byte string the kernel keeps; a memory mapping shows the same
  bytes.  What the kernel does with each call is an input: a list of answers, consumed one per
  system call; a call after the end of the list transfers as much as it can.
\<close>

section \<open>Files and system calls\<close>

datatype io_errno = E_INTR | E_RANGE | E_IO | E_NXIO | E_NOSPC | E_OTHER

text \<open>\<open>Transfer k\<close>: at most \<open>k\<close> bytes are transferred.\<close>

datatype sys_answer = Transfer nat | Fail io_errno

record unix_file =
  contents :: bytes
  mmapSize :: nat
  szChunk :: nat
  lastErrno :: "io_errno option"

text \<open>
  Writing at an offset; a gap after the end of the file is filled with zeros, and a write of no bytes
  does nothing.
\<close>

definition file_write :: "bytes \<Rightarrow> nat \<Rightarrow> bytes \<Rightarrow> bytes" where
  "file_write c off bs =
     (if bs = [] then c else take off c @ replicate (off - length c) 0 @ bs @ drop (off + length bs) c)"

definition file_resize :: "bytes \<Rightarrow> nat \<Rightarrow> bytes" where
  "file_resize c n = take n c @ replicate (n - length c) 0"

section \<open>Reading\<close>

text \<open>
  The loop of \<open>seekAndRead\<close>: \<open>got + prior\<close> (or -1), the bytes put into the buffer, the error
  number and the remaining answers.  \<open>pread\<close> transfers at least one byte unless the offset is at the
  end of the file.
\<close>

definition pread :: "bytes \<Rightarrow> nat \<Rightarrow> nat \<Rightarrow> nat \<Rightarrow> bytes" where
  "pread c offset cnt k = subbytes c offset (min (max 1 k) cnt)"

function seekAndRead ::
    "bytes \<Rightarrow> nat \<Rightarrow> nat \<Rightarrow> bytes \<Rightarrow> sys_answer list \<Rightarrow> int \<times> bytes \<times> io_errno option \<times> sys_answer list" where
  "seekAndRead c offset cnt prior (Fail e # al) =
     (if e = E_INTR then seekAndRead c offset cnt prior al else (-1, prior, Some e, al))"
| "seekAndRead c offset cnt prior (Transfer k # al) =
     (let pBuf = pread c offset cnt k; got = length pBuf
      in if got = cnt \<or> got = 0 then (int (length (prior @ pBuf)), prior @ pBuf, None, al)
         else seekAndRead c (offset + got) (cnt - got) (prior @ pBuf) al)"
| "seekAndRead c offset cnt prior [] =
     (let pBuf = pread c offset cnt cnt; got = length pBuf
      in if got = cnt \<or> got = 0 then (int (length (prior @ pBuf)), prior @ pBuf, None, [])
         else seekAndRead c (offset + got) (cnt - got) (prior @ pBuf) [])"
  by pat_completeness auto
termination
  by (relation "measure (\<lambda>(c, offset, cnt, prior, al). length al + cnt)") (auto simp: pread_def)

declare seekAndRead.simps [simp del]

text \<open>The result of a read: the code, the buffer and the file (whose last error changes).\<close>

definition unixRead :: "unix_file \<Rightarrow> nat \<Rightarrow> nat \<Rightarrow> sys_answer list \<Rightarrow> rc \<times> bytes \<times> unix_file \<times> sys_answer list" where
  "unixRead pFile amt offset al =
     (if offset < mmapSize pFile \<and> offset + amt \<le> mmapSize pFile then
        (SQLITE_OK, subbytes (contents pFile) offset amt, pFile, al)
      else
        let nCopy = (if offset < mmapSize pFile then mmapSize pFile - offset else 0);
            front = subbytes (contents pFile) offset nCopy
        in case seekAndRead (contents pFile) (offset + nCopy) (amt - nCopy) [] al of
             (got, buf, err, al) \<Rightarrow>
               if got = int (amt - nCopy) then (SQLITE_OK, front @ buf, pFile, al)
               else if got < 0 then
                 (if err \<in> {Some E_RANGE, Some E_IO, Some E_NXIO} then SQLITE_IOERR_CORRUPTFS else SQLITE_IOERR_READ,
                  front @ buf, pFile\<lparr>lastErrno := err\<rparr>, al)
               else (SQLITE_IOERR_SHORT_READ, front @ buf @ replicate (amt - nCopy - nat got) 0, pFile\<lparr>lastErrno := None\<rparr>, al))"

section \<open>Writing\<close>

text \<open>\<open>pwrite\<close>, repeated while it is interrupted; the buffer length is reduced to 17 bits.\<close>

fun seekAndWriteFd :: "bytes \<Rightarrow> nat \<Rightarrow> bytes \<Rightarrow> sys_answer list \<Rightarrow> int \<times> bytes \<times> io_errno option \<times> sys_answer list" where
  "seekAndWriteFd c iOff buf [] =
     (let n = length buf mod 131072 in (int n, file_write c iOff (take n buf), None, []))"
| "seekAndWriteFd c iOff buf (Fail e # al) =
     (if e = E_INTR then seekAndWriteFd c iOff buf al else (-1, c, Some e, al))"
| "seekAndWriteFd c iOff buf (Transfer k # al) =
     (let n = min k (length buf mod 131072) in (int n, file_write c iOff (take n buf), None, al))"

definition seekAndWrite :: "unix_file \<Rightarrow> nat \<Rightarrow> bytes \<Rightarrow> sys_answer list \<Rightarrow> int \<times> unix_file \<times> sys_answer list" where
  "seekAndWrite pFile offset buf al =
     (case seekAndWriteFd (contents pFile) offset buf al of (wrote, c, err, al) \<Rightarrow>
        (wrote, pFile\<lparr>contents := c, lastErrno := (if wrote < 0 then err else lastErrno pFile)\<rparr>, al))"

text \<open>The loop of \<open>unixWrite\<close>, with its final value of \<open>wrote\<close> and what is left of the buffer.\<close>

function unixWrite_loop :: "unix_file \<Rightarrow> bytes \<Rightarrow> nat \<Rightarrow> sys_answer list \<Rightarrow> int \<times> bytes \<times> unix_file \<times> sys_answer list" where
  "unixWrite_loop pFile buf offset al =
     (case seekAndWrite pFile offset buf al of (wrote, pFile, al) \<Rightarrow>
        if wrote < int (length buf) \<and> wrote > 0
        then unixWrite_loop pFile (drop (nat wrote) buf) (offset + nat wrote) al
        else (wrote, buf, pFile, al))"
  by pat_completeness auto
termination
  by (relation "measure (\<lambda>(pFile, buf, offset, al). length buf)") auto

declare unixWrite_loop.simps [simp del]

definition unixWrite :: "unix_file \<Rightarrow> bytes \<Rightarrow> nat \<Rightarrow> sys_answer list \<Rightarrow> rc \<times> unix_file \<times> sys_answer list" where
  "unixWrite pFile buf offset al =
     (case unixWrite_loop pFile buf offset al of (wrote, left, pFile, al) \<Rightarrow>
        if int (length left) > wrote then
          if wrote < 0 \<and> lastErrno pFile \<noteq> Some E_NOSPC then (SQLITE_IOERR_WRITE, pFile, al)
          else (SQLITE_FULL, pFile\<lparr>lastErrno := None\<rparr>, al)
        else (SQLITE_OK, pFile, al))"

section \<open>Size\<close>

text \<open>\<open>ftruncate\<close>, repeated while it is interrupted; \<open>Transfer\<close> stands for success.\<close>

fun robust_ftruncate :: "bytes \<Rightarrow> nat \<Rightarrow> sys_answer list \<Rightarrow> io_errno option \<times> bytes \<times> sys_answer list" where
  "robust_ftruncate c sz [] = (None, file_resize c sz, [])"
| "robust_ftruncate c sz (Fail e # al) = (if e = E_INTR then robust_ftruncate c sz al else (Some e, c, al))"
| "robust_ftruncate c sz (Transfer k # al) = (None, file_resize c sz, al)"

definition unixTruncate :: "unix_file \<Rightarrow> nat \<Rightarrow> sys_answer list \<Rightarrow> rc \<times> unix_file \<times> sys_answer list" where
  "unixTruncate pFile nByte al =
     (let nByte = (if szChunk pFile > 0
                   then (nByte + szChunk pFile - 1) div szChunk pFile * szChunk pFile else nByte)
      in case robust_ftruncate (contents pFile) nByte al of (err, c, al) \<Rightarrow>
           if err \<noteq> None then (SQLITE_IOERR_TRUNCATE, pFile\<lparr>lastErrno := err\<rparr>, al)
           else (SQLITE_OK, pFile\<lparr>contents := c, mmapSize := min (mmapSize pFile) nByte\<rparr>, al))"

text \<open>\<open>err\<close> is the answer of \<open>fstat\<close>.\<close>

definition unixFileSize :: "unix_file \<Rightarrow> io_errno option \<Rightarrow> rc \<times> nat \<times> unix_file" where
  "unixFileSize pFile err =
     (if err \<noteq> None then (SQLITE_IOERR_FSTAT, 0, pFile\<lparr>lastErrno := err\<rparr>)
      else (SQLITE_OK, if length (contents pFile) = 1 then 0 else length (contents pFile), pFile))"


section \<open>Facts\<close>

lemma file_write_append: "off = length c \<Longrightarrow> file_write c off bs = c @ bs"
  by (simp add: file_write_def)

lemma file_write_inside: "off + length bs \<le> length c \<Longrightarrow> file_write c off bs = blit c off bs"
  by (auto simp: file_write_def blit_def)

lemma file_write_split:
  "file_write (file_write c off bs) (off + length bs) cs = file_write c off (bs @ cs)"
proof -
  define a where "a = take off c @ replicate (off - length c) 0"
  have a: "length a = off" by (simp add: a_def)
  have w: "file_write c off x = a @ x @ drop (off + length x) c" if "x \<noteq> []" for x using that by (simp add: file_write_def a_def)
  have "file_write (a @ bs @ drop (off + length bs) c) (off + length bs) cs =
      a @ bs @ cs @ drop (length cs) (drop (off + length bs) c)" if "cs \<noteq> []"
    using a that by (simp add: file_write_def)
  then show ?thesis
    using w by (cases "bs = []"; cases "cs = []") (simp_all add: file_write_def [of _ _ "[]"] add.commute add.left_commute)
qed

lemma file_write_take: "off \<le> length c \<Longrightarrow> take off (file_write c off bs) = take off c"
  by (simp add: file_write_def)

lemma file_write_Nil [simp]: "file_write c off [] = c"
  by (simp add: file_write_def)

lemma length_file_write: "length c \<le> length (file_write c off bs)" "bs \<noteq> [] \<Longrightarrow> off + length bs \<le> length (file_write c off bs)"
  by (auto simp: file_write_def)

lemma file_read_write: "subbytes (file_write c off bs) off (length bs) = bs"
  by (simp add: file_write_def subbytes_def)

lemma pread_end: "length (pread c offset cnt k) = cnt \<or> length (pread c offset cnt k) = 0 \<Longrightarrow> pread c offset cnt k = subbytes c offset cnt"
  by (cases "cnt = 0"; cases "length c \<le> offset") (auto simp: pread_def subbytes_def min_def split: if_splits)

lemma pread_more:
  "pread c offset cnt k @ subbytes c (offset + length (pread c offset cnt k)) (cnt - length (pread c offset cnt k)) =
     subbytes c offset cnt"
proof -
  let ?n = "length (pread c offset cnt k)"
  have t: "take m xs = take (length (take m xs)) xs" for m and xs :: bytes by (simp add: min_def)
  have "?n \<le> cnt" "pread c offset cnt k = take ?n (drop offset c)"
    unfolding pread_def subbytes_def by (simp, rule t)
  then show ?thesis
    using take_add [of ?n "cnt - ?n" "drop offset c"] by (simp add: subbytes_def add.commute)
qed

lemma seekAndRead_bytes:
  "seekAndRead c offset cnt prior al = (got, buf, err, al') \<Longrightarrow>
     (err = None \<and> buf = prior @ subbytes c offset cnt \<and> got = int (length buf)) \<or> (err \<noteq> None \<and> got = -1)"
proof (induction c offset cnt prior al arbitrary: got buf err al' rule: seekAndRead.induct)
  case (1 c offset cnt prior e al)
  then show ?case by (cases "e = E_INTR") (auto simp: seekAndRead.simps)
next
  case (2 c offset cnt prior k al)
  let ?b = "pread c offset cnt k"
  show ?case
  proof (cases "length ?b = cnt \<or> length ?b = 0")
    case True
    then have "got = int (length (prior @ ?b))" "buf = prior @ ?b" "err = None"
      using 2(2) by (auto simp: seekAndRead.simps Let_def)
    then show ?thesis unfolding pread_end [OF True] by blast
  next
    case False
    then have "seekAndRead c (offset + length ?b) (cnt - length ?b) (prior @ ?b) al = (got, buf, err, al')"
      using 2(2) by (simp add: seekAndRead.simps Let_def)
    from 2(1) [OF refl refl False this] show ?thesis by (simp only: append_assoc pread_more)
  qed
next
  case (3 c offset cnt prior)
  let ?b = "pread c offset cnt cnt"
  show ?case
  proof (cases "length ?b = cnt \<or> length ?b = 0")
    case True
    then have "got = int (length (prior @ ?b))" "buf = prior @ ?b" "err = None"
      using 3(2) by (auto simp: seekAndRead.simps Let_def)
    then show ?thesis unfolding pread_end [OF True] by blast
  next
    case False
    then have "seekAndRead c (offset + length ?b) (cnt - length ?b) (prior @ ?b) [] = (got, buf, err, al')"
      using 3(2) by (simp add: seekAndRead.simps Let_def)
    from 3(1) [OF refl refl False this] show ?thesis by (simp only: append_assoc pread_more)
  qed
qed

text \<open>A read fails with the error of the first call that was not interrupted but failed.\<close>

definition failed_with :: "sys_answer list \<Rightarrow> io_errno \<Rightarrow> sys_answer list \<Rightarrow> bool" where
  "failed_with al e al' \<longleftrightarrow> e \<noteq> E_INTR \<and> (\<exists>pre. al = pre @ Fail e # al' \<and> (\<forall>x. Fail x \<in> set pre \<longrightarrow> x = E_INTR))"

lemma failed_with_Cons: "failed_with al e al' \<Longrightarrow> (\<And>x. a = Fail x \<Longrightarrow> x = E_INTR) \<Longrightarrow> failed_with (a # al) e al'"
  unfolding failed_with_def by (metis append_Cons set_ConsD)

lemma seekAndRead_error: "seekAndRead c offset cnt prior al = (got, buf, Some e, al') \<Longrightarrow> failed_with al e al'"
proof (induction c offset cnt prior al rule: seekAndRead.induct)
  case (1 c offset cnt prior e' al)
  then show ?case
  proof (cases "e' = E_INTR")
    case True
    then have "failed_with al e al'" using 1 by (simp add: seekAndRead.simps)
    then show ?thesis by (rule failed_with_Cons) (use True in simp)
  next
    case False
    then show ?thesis using 1(2) by (auto simp: seekAndRead.simps failed_with_def intro!: exI [of _ "[]"])
  qed
next
  case (2 c offset cnt prior k al)
  then show ?case by (auto simp: seekAndRead.simps Let_def split: if_splits intro: failed_with_Cons)
next
  case (3 c offset cnt prior)
  then show ?case by (auto simp: seekAndRead.simps Let_def split: if_splits)
qed

lemma unixRead_error:
  assumes "unixRead f amt offset al = (r, buf, f', al')" "r \<in> {SQLITE_IOERR_READ, SQLITE_IOERR_CORRUPTFS}"
  shows "\<exists>e. failed_with al e al' \<and> lastErrno f' = Some e \<and>
    r = (if e \<in> {E_RANGE, E_IO, E_NXIO} then SQLITE_IOERR_CORRUPTFS else SQLITE_IOERR_READ)"
proof -
  define n where "n = (if offset < mmapSize f then mmapSize f - offset else 0)"
  obtain got b err al1 where s: "seekAndRead (contents f) (offset + n) (amt - n) [] al = (got, b, err, al1)" by (metis prod_cases4)
  have "al' = al1 \<and> got < 0 \<and> lastErrno f' = err \<and>
      r = (if err \<in> {Some E_RANGE, Some E_IO, Some E_NXIO} then SQLITE_IOERR_CORRUPTFS else SQLITE_IOERR_READ)"
    using assms s unfolding unixRead_def Let_def n_def by (auto split: if_splits)
  moreover obtain e where "err = Some e" using seekAndRead_bytes [OF s] calculation by auto
  ultimately show ?thesis using seekAndRead_error [of "contents f" "offset + n" "amt - n" "[]" al got b e al1] s by auto
qed

text \<open>The mapping never extends past the end of the file.\<close>

definition file_ok :: "unix_file \<Rightarrow> bool" where
  "file_ok f \<longleftrightarrow> mmapSize f \<le> length (contents f)"

lemma unixRead_result:
  assumes "file_ok f" "0 < amt" "unixRead f amt offset al = (r, buf, f', al')"
  shows "contents f' = contents f" "file_ok f'"
    "r = SQLITE_OK \<Longrightarrow> offset + amt \<le> length (contents f) \<and> buf = subbytes (contents f) offset amt"
    "r = SQLITE_IOERR_SHORT_READ \<Longrightarrow> length (contents f) < offset + amt \<and>
       buf = subbytes (contents f) offset amt @ replicate (amt - (length (contents f) - offset)) 0"
    "r \<in> {SQLITE_OK, SQLITE_IOERR_SHORT_READ, SQLITE_IOERR_READ, SQLITE_IOERR_CORRUPTFS}"
proof -
  let ?c = "contents f" and ?m = "mmapSize f"
  define n where "n = (if offset < ?m then ?m - offset else 0)"
  have all: "contents f' = ?c \<and> file_ok f' \<and>
    (r = SQLITE_OK \<longrightarrow> offset + amt \<le> length ?c \<and> buf = subbytes ?c offset amt) \<and>
    (r = SQLITE_IOERR_SHORT_READ \<longrightarrow> length ?c < offset + amt \<and>
       buf = subbytes ?c offset amt @ replicate (amt - (length ?c - offset)) 0) \<and>
    r \<in> {SQLITE_OK, SQLITE_IOERR_SHORT_READ, SQLITE_IOERR_READ, SQLITE_IOERR_CORRUPTFS}"
  proof (cases "offset < ?m \<and> offset + amt \<le> ?m")
    case True
    then show ?thesis using assms by (auto simp: unixRead_def file_ok_def)
  next
    case False
    then have n: "n < amt" "offset + n \<le> max offset (length ?c)" using assms(1,2) by (auto simp: n_def file_ok_def split: if_splits)
    obtain got b err al1 where s: "seekAndRead ?c (offset + n) (amt - n) [] al = (got, b, err, al1)"
      by (metis prod_cases4)
    have j: "subbytes ?c offset n @ subbytes ?c (offset + n) (amt - n) = subbytes ?c offset amt"
      using n take_add [of n "amt - n" "drop offset ?c"] by (simp add: subbytes_def add.commute)
    have fits: "length (subbytes ?c (offset + n) (amt - n)) = amt - n \<longleftrightarrow> offset + amt \<le> length ?c"
      using n by auto
    have zeros: "amt - n - length (subbytes ?c (offset + n) (amt - n)) = amt - (length ?c - offset)" if "length ?c < offset + amt"
      using that n assms(1) by (auto simp: n_def file_ok_def split: if_splits)
    have u: "unixRead f amt offset al = (if got = int (amt - n) then (SQLITE_OK, subbytes ?c offset n @ b, f, al1)
        else if got < 0 then
          (if err \<in> {Some E_RANGE, Some E_IO, Some E_NXIO} then SQLITE_IOERR_CORRUPTFS else SQLITE_IOERR_READ,
           subbytes ?c offset n @ b, f\<lparr>lastErrno := err\<rparr>, al1)
        else (SQLITE_IOERR_SHORT_READ, subbytes ?c offset n @ b @ replicate (amt - n - nat got) 0, f\<lparr>lastErrno := None\<rparr>, al1))"
      unfolding unixRead_def Let_def n_def [symmetric] s using False by auto
    from seekAndRead_bytes [OF s] show ?thesis
    proof
      assume b: "err = None \<and> b = [] @ subbytes ?c (offset + n) (amt - n) \<and> got = int (length b)"
      show ?thesis
      proof (cases "offset + amt \<le> length ?c")
        case True
        then show ?thesis using assms(1,3) u b fits j by auto
      next
        case short: False
        then show ?thesis using assms(1,3) u b fits j zeros by (auto simp: file_ok_def simp del: length_subbytes)
      qed
    next
      assume "err \<noteq> None \<and> got = -1"
      then show ?thesis using assms(1,3) u by (auto simp: file_ok_def split: if_splits)
    qed
  qed
  show "contents f' = ?c" "file_ok f'"
    "r = SQLITE_OK \<Longrightarrow> offset + amt \<le> length ?c \<and> buf = subbytes ?c offset amt"
    "r = SQLITE_IOERR_SHORT_READ \<Longrightarrow> length ?c < offset + amt \<and>
       buf = subbytes ?c offset amt @ replicate (amt - (length ?c - offset)) 0"
    "r \<in> {SQLITE_OK, SQLITE_IOERR_SHORT_READ, SQLITE_IOERR_READ, SQLITE_IOERR_CORRUPTFS}"
    using all by blast+
qed


lemma seekAndWriteFd_result:
  assumes "length buf < 131072" "seekAndWriteFd c off buf al = (wrote, c', err, al')"
  shows "c' = file_write c off (take (nat wrote) buf) \<and> wrote \<le> int (length buf)"
  using assms by (induction c off buf al rule: seekAndWriteFd.induct) (auto simp: Let_def min_def split: if_splits)

lemma unixWrite_loop_result:
  "buf \<noteq> [] \<Longrightarrow> length buf < 131072 \<Longrightarrow> unixWrite_loop f buf off al = (wrote, left, f', al') \<Longrightarrow>
     \<exists>m\<le>length buf. contents f' = file_write (contents f) off (take m buf) \<and> mmapSize f' = mmapSize f \<and>
       (if wrote < int (length left) then m < length buf else m = length buf)"
proof (induction f buf off al arbitrary: wrote left f' al' rule: unixWrite_loop.induct)
  case (1 f buf off al)
  obtain w f1 al1 where s: "seekAndWrite f off buf al = (w, f1, al1)" by (metis prod_cases3)
  then obtain c err where q: "seekAndWriteFd (contents f) off buf al = (w, c, err, al1)" "contents f1 = c" "mmapSize f1 = mmapSize f"
    by (auto simp: seekAndWrite_def split: prod.splits)
  have c: "contents f1 = file_write (contents f) off (take (nat w) buf)" "w \<le> int (length buf)"
    using seekAndWriteFd_result [OF 1(3) q(1)] q(2) by auto
  show ?case
  proof (cases "w < int (length buf) \<and> w > 0")
    case True
    then have l: "unixWrite_loop f1 (drop (nat w) buf) (off + nat w) al1 = (wrote, left, f', al')"
      using 1(4) s by (simp add: unixWrite_loop.simps [of f])
    have "drop (nat w) buf \<noteq> []" "length (drop (nat w) buf) < 131072" using True 1(3) by auto
    from 1(1) [OF s [symmetric] refl True this l] obtain m where m: "m \<le> length buf - nat w"
      "contents f' = file_write (contents f1) (off + nat w) (take m (drop (nat w) buf))" "mmapSize f' = mmapSize f1"
      "if wrote < int (length left) then m < length buf - nat w else m = length buf - nat w"
      unfolding length_drop by blast
    have "contents f' = file_write (contents f) off (take (nat w + m) buf)"
      using m(2) c(1) True file_write_split [of "contents f" off "take (nat w) buf" "take m (drop (nat w) buf)"]
      by (simp add: take_add min_def split: if_splits)
    then show ?thesis
      using m True q(3) by (intro exI [of _ "nat w + m"]) (auto split: if_splits)
  next
    case False
    then have e: "wrote = w" "left = buf" "f' = f1" using 1(4) s by (auto simp: unixWrite_loop.simps [of f])
    show ?thesis
      using False c e q(3) 1(2) by (intro exI [of _ "nat w"]) auto
  qed
qed

lemma unixWrite_result:
  assumes "file_ok f" "buf \<noteq> []" "length buf < 131072" "unixWrite f buf off al = (r, f', al')"
  shows "file_ok f'" "r = SQLITE_OK \<Longrightarrow> contents f' = file_write (contents f) off buf"
    "r \<noteq> SQLITE_OK \<Longrightarrow> r \<in> {SQLITE_IOERR_WRITE, SQLITE_FULL} \<and>
       (\<exists>m<length buf. contents f' = file_write (contents f) off (take m buf))"
proof -
  obtain wrote left f1 al1 where l: "unixWrite_loop f buf off al = (wrote, left, f1, al1)" by (metis prod_cases4)
  obtain m where m: "m \<le> length buf" "contents f1 = file_write (contents f) off (take m buf)" "mmapSize f1 = mmapSize f"
    "if wrote < int (length left) then m < length buf else m = length buf"
    using unixWrite_loop_result [OF assms(2,3) l] by blast
  have f': "contents f' = contents f1" "mmapSize f' = mmapSize f1"
    using assms(4) l by (auto simp: unixWrite_def split: if_splits)
  show "file_ok f'" using assms(1) f' m(2,3) length_file_write(1) [of "contents f" off "take m buf"] by (simp add: file_ok_def)
  show "r = SQLITE_OK \<Longrightarrow> contents f' = file_write (contents f) off buf"
    using assms(4) l m f' by (auto simp: unixWrite_def split: if_splits)
  show "r \<in> {SQLITE_IOERR_WRITE, SQLITE_FULL} \<and> (\<exists>m<length buf. contents f' = file_write (contents f) off (take m buf))"
    if "r \<noteq> SQLITE_OK"
    using that assms(4) l m f' by (auto simp: unixWrite_def split: if_splits)
qed

text \<open>A kernel that makes progress on every call that is not interrupted.\<close>

definition progress :: "sys_answer list \<Rightarrow> bool" where
  "progress al \<longleftrightarrow> (\<forall>a\<in>set al. case a of Transfer k \<Rightarrow> k \<noteq> 0 | Fail e \<Rightarrow> e = E_INTR)"

lemma seekAndWriteFd_progress:
  "progress al \<Longrightarrow> buf \<noteq> [] \<Longrightarrow> length buf < 131072 \<Longrightarrow>
     \<exists>n c' al'. seekAndWriteFd c off buf al = (int n, c', None, al') \<and> 0 < n \<and> progress al'"
proof (induction c off buf al rule: seekAndWriteFd.induct)
  case (3 c off buf k al)
  then show ?case by (auto simp: progress_def Let_def intro!: exI [of _ "min k (length buf)"])
qed (auto simp: progress_def Let_def)

lemma unixWrite_loop_progress:
  "progress al \<Longrightarrow> buf \<noteq> [] \<Longrightarrow> length buf < 131072 \<Longrightarrow>
     \<exists>wrote left f' al'. unixWrite_loop f buf off al = (wrote, left, f', al') \<and> int (length left) \<le> wrote"
proof (induction f buf off al rule: unixWrite_loop.induct)
  case (1 f buf off al)
  obtain n c al1 where s: "seekAndWriteFd (contents f) off buf al = (int n, c, None, al1)" "0 < n" "progress al1"
    using seekAndWriteFd_progress [OF 1(2-4)] by blast
  let ?f = "f\<lparr>contents := c, lastErrno := lastErrno f\<rparr>"
  have w: "seekAndWrite f off buf al = (int n, ?f, al1)" using s by (simp add: seekAndWrite_def)
  show ?case
  proof (cases "n < length buf")
    case True
    then have "\<exists>wrote left f' al'. unixWrite_loop ?f (drop (nat (int n)) buf) (off + nat (int n)) al1 = (wrote, left, f', al') \<and> int (length left) \<le> wrote"
      using 1(1) [OF w [symmetric] refl] s 1(4) by auto
    then show ?thesis using True s w by (simp add: unixWrite_loop.simps [of f])
  next
    case False
    then show ?thesis using s w by (auto simp: unixWrite_loop.simps [of f])
  qed
qed

lemma unixWrite_progress:
  assumes "progress al" "buf \<noteq> []" "length buf < 131072"
  shows "\<exists>f' al'. unixWrite f buf off al = (SQLITE_OK, f', al')"
  using unixWrite_loop_progress [OF assms, of f off] by (force simp: unixWrite_def)


section \<open>The contract of a file\<close>

text \<open>What the upper layers rely on when they read and write a file through the VFS.\<close>

locale vfs_file =
  fixes inv :: "'f \<Rightarrow> bool" and fbytes :: "'f \<Rightarrow> bytes"
    and fread :: "'f \<Rightarrow> nat \<Rightarrow> nat \<Rightarrow> rc \<times> bytes \<times> 'f" and fwrite :: "'f \<Rightarrow> bytes \<Rightarrow> nat \<Rightarrow> rc \<times> 'f"
  assumes write_inv: "inv f \<Longrightarrow> b \<noteq> [] \<Longrightarrow> length b < 131072 \<Longrightarrow> fwrite f b off = (r, f') \<Longrightarrow> inv f'"
    and write_ok: "inv f \<Longrightarrow> b \<noteq> [] \<Longrightarrow> length b < 131072 \<Longrightarrow> fwrite f b off = (SQLITE_OK, f') \<Longrightarrow>
      fbytes f' = file_write (fbytes f) off b"
    and write_keeps: "inv f \<Longrightarrow> b \<noteq> [] \<Longrightarrow> length b < 131072 \<Longrightarrow> off \<le> length (fbytes f) \<Longrightarrow> fwrite f b off = (r, f') \<Longrightarrow>
      take off (fbytes f') = take off (fbytes f)"
    and read_inv: "inv f \<Longrightarrow> 0 < n \<Longrightarrow> fread f n off = (r, b, f') \<Longrightarrow> inv f' \<and> fbytes f' = fbytes f"
    and read_ok: "inv f \<Longrightarrow> 0 < n \<Longrightarrow> fread f n off = (SQLITE_OK, b, f') \<Longrightarrow>
      off + n \<le> length (fbytes f) \<and> b = subbytes (fbytes f) off n"
begin

lemma append_ok:
  "inv f \<Longrightarrow> b \<noteq> [] \<Longrightarrow> length b < 131072 \<Longrightarrow> off = length (fbytes f) \<Longrightarrow> fwrite f b off = (SQLITE_OK, f') \<Longrightarrow>
     inv f' \<and> fbytes f' = fbytes f @ b"
  using write_inv write_ok by (simp add: file_write_append)

lemma read_back:
  assumes "inv f" "b \<noteq> []" "length b < 131072" "fwrite f b off = (SQLITE_OK, f1)" "fread f1 (length b) off = (SQLITE_OK, b', f2)"
  shows "b' = b"
  using assms write_inv [OF assms(1-4)] write_ok [OF assms(1-4)] read_ok [OF _ _ assms(5)] by (simp add: file_read_write)

end

text \<open>The Unix file with the answers of the kernel as its state.\<close>

definition unix_inv :: "unix_file \<times> sys_answer list \<Rightarrow> bool" where
  "unix_inv s = file_ok (fst s)"

definition unix_bytes :: "unix_file \<times> sys_answer list \<Rightarrow> bytes" where
  "unix_bytes s = contents (fst s)"

definition unix_read :: "unix_file \<times> sys_answer list \<Rightarrow> nat \<Rightarrow> nat \<Rightarrow> rc \<times> bytes \<times> unix_file \<times> sys_answer list" where
  "unix_read s amt off = (case s of (f, al) \<Rightarrow> unixRead f amt off al)"

definition unix_write :: "unix_file \<times> sys_answer list \<Rightarrow> bytes \<Rightarrow> nat \<Rightarrow> rc \<times> unix_file \<times> sys_answer list" where
  "unix_write s b off = (case s of (f, al) \<Rightarrow> unixWrite f b off al)"

interpretation unix: vfs_file unix_inv unix_bytes unix_read unix_write
proof
  fix s :: "unix_file \<times> sys_answer list" and b :: bytes and off :: nat and r s'
  assume a: "unix_inv s" "b \<noteq> []" "length b < 131072"
  { assume "unix_write s b off = (r, s')"
    then show "unix_inv s'" using a unixWrite_result(1) by (cases s; cases s') (auto simp: unix_inv_def unix_write_def) }
  { assume "unix_write s b off = (SQLITE_OK, s')"
    then show "unix_bytes s' = file_write (unix_bytes s) off b"
      using a unixWrite_result(2) by (cases s; cases s') (auto simp: unix_inv_def unix_bytes_def unix_write_def) }
  { assume w: "off \<le> length (unix_bytes s)" "unix_write s b off = (r, s')"
    then have "unixWrite (fst s) b off (snd s) = (r, fst s', snd s')" by (simp add: unix_write_def split_def)
    then obtain m where "unix_bytes s' = file_write (unix_bytes s) off (take m b)"
      using a unixWrite_result(2,3) [of "fst s" b off "snd s" r "fst s'" "snd s'"]
      by (cases "r = SQLITE_OK") (auto simp: unix_inv_def unix_bytes_def intro: that [of "length b"])
    then show "take off (unix_bytes s') = take off (unix_bytes s)" using w(1) by (simp add: file_write_take) }
next
  fix s :: "unix_file \<times> sys_answer list" and b and n off :: nat and r s'
  assume a: "unix_inv s" "0 < n"
  { assume "unix_read s n off = (r, b, s')"
    then show "unix_inv s' \<and> unix_bytes s' = unix_bytes s"
      using a unixRead_result(1,2) by (cases s; cases s') (auto simp: unix_inv_def unix_bytes_def unix_read_def) }
  { assume "unix_read s n off = (SQLITE_OK, b, s')"
    then have "unixRead (fst s) n off (snd s) = (SQLITE_OK, b, fst s', snd s')" by (simp add: unix_read_def split_def)
    from unixRead_result(3) [OF _ a(2) this refl] a(1)
    show "off + n \<le> length (unix_bytes s) \<and> b = subbytes (unix_bytes s) off n"
      by (simp add: unix_inv_def unix_bytes_def) }
qed

section \<open>Properties\<close>

text \<open>
  C16: A read of the Unix VFS leaves the file as it is and ends in one of three ways.  SQLITE_OK: the request lies
  in the file and the buffer has the requested bytes, also when the kernel transfers them piecemeal, interrupts
  calls or part of them is memory mapped.  A short read: the request passes the end of the file, and the rest of
  the buffer is zero.  An error: a call failed for another reason than an interrupt, none before it did, and
  the result code tells the errors of a damaged file system from the others.
\<close>

theorem unixRead_correct:
  assumes "mmapSize f \<le> length (contents f)" "0 < amt" "unixRead f amt offset al = (r, buf, f', al')"
  shows "contents f' = contents f \<and>
   (r = SQLITE_OK \<and> offset + amt \<le> length (contents f) \<and> buf = subbytes (contents f) offset amt \<or>
    r = SQLITE_IOERR_SHORT_READ \<and> length (contents f) < offset + amt \<and>
      buf = subbytes (contents f) offset amt @ replicate (amt - (length (contents f) - offset)) 0 \<or>
    (\<exists>pre e. al = pre @ Fail e # al' \<and> e \<noteq> E_INTR \<and> (\<forall>x. Fail x \<in> set pre \<longrightarrow> x = E_INTR) \<and> lastErrno f' = Some e \<and>
       r = (if e \<in> {E_RANGE, E_IO, E_NXIO} then SQLITE_IOERR_CORRUPTFS else SQLITE_IOERR_READ)))"
proof -
  have ok: "file_ok f" using assms(1) by (simp add: file_ok_def)
  note u = unixRead_result [OF ok assms(2,3)]
  show ?thesis
  proof (cases "r \<in> {SQLITE_IOERR_READ, SQLITE_IOERR_CORRUPTFS}")
    case True
    then show ?thesis using u(1) unixRead_error [OF assms(3)] unfolding failed_with_def by blast
  next
    case False
    then show ?thesis using u(1,3-5) by auto
  qed
qed

theorem unixRead_correct_witness:
  "fst (unixRead \<lparr>contents = [1, 2, 3, 4], mmapSize = 1, szChunk = 0, lastErrno = None\<rparr> 4 0 [Fail E_INTR, Transfer 2])
     = SQLITE_OK \<and>
   fst (snd (unixRead \<lparr>contents = [1, 2, 3, 4], mmapSize = 1, szChunk = 0, lastErrno = None\<rparr> 4 0 [Fail E_INTR, Transfer 2]))
     = [1, 2, 3, 4]"
proof -
  let ?f = "\<lparr>contents = [1, 2, 3, 4], mmapSize = 1, szChunk = 0, lastErrno = None\<rparr>"
  have "unixRead ?f 4 0 [Fail E_INTR, Transfer 2] = (SQLITE_OK, [1, 2, 3, 4], ?f, [])"
    by (simp add: unixRead_def seekAndRead.simps pread_def subbytes_def Let_def)
  then show ?thesis using unixRead_correct [of ?f 4 0 "[Fail E_INTR, Transfer 2]"] by simp
qed

text \<open>
  C17: A write of the Unix VFS returns; it returns SQLITE_OK only after every byte was written at its
  place, and otherwise, with a write or disk-full error, a proper prefix of the buffer was written.
  When the kernel makes progress on every call that is not interrupted, the write succeeds.
\<close>

theorem unixWrite_correct:
  assumes "mmapSize f \<le> length (contents f)" "buf \<noteq> []" "length buf < 131072"
  shows "\<exists>r f' al'. unixWrite f buf offset al = (r, f', al') \<and>
    (r = SQLITE_OK \<and> contents f' = file_write (contents f) offset buf \<or>
     r \<in> {SQLITE_IOERR_WRITE, SQLITE_FULL} \<and>
       (\<exists>m<length buf. contents f' = file_write (contents f) offset (take m buf))) \<and>
    (progress al \<longrightarrow> r = SQLITE_OK)"
proof -
  obtain r f' al' where w: "unixWrite f buf offset al = (r, f', al')" by (metis prod_cases3)
  then show ?thesis
    using unixWrite_result(2,3) [of f buf offset al r f' al'] unixWrite_progress [of al buf f offset] assms
    by (cases "r = SQLITE_OK") (auto simp: file_ok_def)
qed

theorem unixWrite_correct_witness:
  "\<exists>f' al'. unixWrite \<lparr>contents = [1, 2], mmapSize = 0, szChunk = 0, lastErrno = None\<rparr> [7, 8, 9] 1
      [Transfer 1, Fail E_INTR, Transfer 9] = (SQLITE_OK, f', al') \<and> contents f' = [1, 7, 8, 9]"
  using unixWrite_correct [of "\<lparr>contents = [1, 2], mmapSize = 0, szChunk = 0, lastErrno = None\<rparr>" "[7, 8, 9]" 1
      "[Transfer 1, Fail E_INTR, Transfer 9]"]
  by (auto simp: progress_def file_write_def)

end
