(* ===== verification/Wal.thy ===== *)
theory Wal
  imports Varint UnixFile
begin

text \<open>
  The write-ahead log (\<open>src/src/wal.c\<close>).  A transaction appends page images to the log file as frames; the
  wal-index, in memory shared by all connections, tells which frame holds the last version of a page.  This
  theory has the state of a connection and the operations on the wal-index: its hash tables, mapping and locking
  it, searching it and rolling back.  The log file is in \<open>WalLog\<close>.

  The answers of the shared-memory methods of the VFS (whether a region can be mapped, whether a lock is
  obtained) and of memory allocation are inputs, consumed one per call.
\<close>

section \<open>State\<close>

abbreviation HASHTABLE_NPAGE :: nat where "HASHTABLE_NPAGE \<equiv> 4096"
abbreviation HASHTABLE_HASH_1 :: nat where "HASHTABLE_HASH_1 \<equiv> 383"
abbreviation HASHTABLE_NSLOT :: nat where "HASHTABLE_NSLOT \<equiv> 8192"
abbreviation HASHTABLE_NPAGE_ONE :: nat where "HASHTABLE_NPAGE_ONE \<equiv> 4062"
abbreviation WAL_HDRSIZE :: nat where "WAL_HDRSIZE \<equiv> 32"
abbreviation WAL_FRAME_HDRSIZE :: nat where "WAL_FRAME_HDRSIZE \<equiv> 24"
abbreviation WAL_MAX_VERSION :: u32 where "WAL_MAX_VERSION \<equiv> 3007000"
abbreviation WALINDEX_MAX_VERSION :: u32 where "WALINDEX_MAX_VERSION \<equiv> 3007000"
abbreviation WAL_MAGIC :: u32 where "WAL_MAGIC \<equiv> 0x377f0682"
abbreviation READMARK_NOT_USED :: nat where "READMARK_NOT_USED \<equiv> 0xffffffff"
abbreviation WAL_NREADER :: nat where "WAL_NREADER \<equiv> 5"

text \<open>The salt is copied as memory, and is kept as its eight bytes.\<close>

record wal_hdr =
  iVersion :: u32
  unusedHdr :: u32
  iChange :: u32
  isInitHdr :: u8
  bigEndCksum :: u8
  hSzPage :: nat
  mxFrame :: nat
  hNPage :: nat
  aFrameCksum :: "u32 \<times> u32"
  aSalt :: bytes
  aCksum :: "u32 \<times> u32"

record ckpt_info =
  nBackfill :: nat
  aReadMark :: "nat list"
  nBackfillAttempted :: nat

text \<open>A page of the wal-index after its header: page numbers by frame, and the hash table.\<close>

record wi_page =
  aPgno :: "nat \<Rightarrow> pgno"
  aHash :: "nat \<Rightarrow> nat"

text \<open>The wal-index: two copies of the header, the checkpoint data, and the pages.\<close>

record wal_shm =
  hdrCopy0 :: wal_hdr
  hdrCopy1 :: wal_hdr
  ckptInfo :: ckpt_info
  shmPage :: "nat \<Rightarrow> wi_page"

datatype exclusive_mode = WAL_NORMAL_MODE | WAL_EXCLUSIVE_MODE | WAL_HEAPMEMORY_MODE

text \<open>
  A connection.  \<open>mapped i\<close> says that \<open>apWiData[i]\<close> is not null; \<open>bigEndian\<close> is \<open>SQLITE_BIGENDIAN\<close>; a
  negative \<open>readLock\<close> means no lock.  \<open>mapAns\<close> has the result of the next calls of \<open>sqlite3OsShmMap\<close> and
  whether the pointer they return is not null, \<open>lockAns\<close> the results of \<open>sqlite3OsShmLock\<close>, \<open>statAns\<close> those
  of \<open>fstat\<close>, \<open>syncAns\<close> those of \<open>sqlite3OsSync\<close>, \<open>randAns\<close> the next random bytes; \<open>sectorSize\<close> is the
  result of \<open>sqlite3SectorSize\<close>.
\<close>

record wal =
  bigEndian :: bool
  walFd :: unix_file
  dbFd :: unix_file
  shm :: wal_shm
  nWiData :: nat
  mapped :: "nat \<Rightarrow> bool"
  wSzPage :: nat
  readLock :: int
  exclusiveMode :: exclusive_mode
  writeLock :: nat
  ckptLock :: nat
  readOnly :: nat
  truncateOnCommit :: bool
  bShmUnreliable :: bool
  hdr :: wal_hdr
  minFrame :: nat
  iReCksum :: nat
  nCkpt :: u32
  mxWalSize :: int
  iCallback :: nat
  syncHeader :: bool
  padToSectorBoundary :: bool
  sectorSize :: nat
  mapAns :: "(rc \<times> bool) list"
  lockAns :: "rc list"
  heapAns :: heap_answers
  sysAns :: "sys_answer list"
  statAns :: "io_errno option list"
  syncAns :: "rc list"
  randAns :: bytes

definition zero_page :: wi_page where
  "zero_page = \<lparr>aPgno = (\<lambda>_. 0), aHash = (\<lambda>_. 0)\<rparr>"

definition put_page :: "wal \<Rightarrow> nat \<Rightarrow> wi_page \<Rightarrow> wal" where
  "put_page w i p = w\<lparr>shm := shm w\<lparr>shmPage := (shmPage (shm w))(i := p)\<rparr>\<rparr>"

abbreviation wi :: "wal \<Rightarrow> nat \<Rightarrow> wi_page" where
  "wi w \<equiv> shmPage (shm w)"

section \<open>Pages of the wal-index\<close>

definition zero_hdr :: wal_hdr where
  "zero_hdr = \<lparr>iVersion = 0, unusedHdr = 0, iChange = 0, isInitHdr = 0, bigEndCksum = 0, hSzPage = 0, mxFrame = 0,
     hNPage = 0, aFrameCksum = (0, 0), aSalt = replicate 8 0, aCksum = (0, 0)\<rparr>"

definition next_map :: "wal \<Rightarrow> rc \<times> bool \<times> wal" where
  "next_map w = (case mapAns w of [] \<Rightarrow> (SQLITE_OK, True, w) | (r, p) # as \<Rightarrow> (r, p, w\<lparr>mapAns := as\<rparr>))"

text \<open>A page of heap memory is zero; that includes the header of the wal-index on page 0.\<close>

definition heap_page :: "wal \<Rightarrow> nat \<Rightarrow> wal" where
  "heap_page w i =
     (let w = put_page w i zero_page
      in if i = 0 then w\<lparr>shm := shm w\<lparr>hdrCopy0 := zero_hdr, hdrCopy1 := zero_hdr,
           ckptInfo := \<lparr>nBackfill = 0, aReadMark = replicate WAL_NREADER 0, nBackfillAttempted = 0\<rparr>\<rparr>\<rparr> else w)"

text \<open>The result code, whether the page pointer is not null, and the connection.\<close>

definition map_page :: "wal \<Rightarrow> nat \<Rightarrow> rc \<times> bool \<times> wal" where
  "map_page w iPage =
     (if exclusiveMode w = WAL_HEAPMEMORY_MODE then
        let (b, al) = next_alloc (heapAns w); w = w\<lparr>heapAns := al\<rparr>
        in if b then (SQLITE_OK, True, (heap_page w iPage)\<lparr>mapped := (mapped w)(iPage := True)\<rparr>)
           else (SQLITE_NOMEM, False, w)
      else
        let (r, p, w) = next_map w; w = w\<lparr>mapped := (mapped w)(iPage := p)\<rparr>
        in if r \<noteq> SQLITE_OK \<and> rc_code r mod 256 = rc_code SQLITE_READONLY
           then (if r = SQLITE_READONLY then SQLITE_OK else r, p, w\<lparr>readOnly := readOnly w OR 2\<rparr>)
           else (r, p, w))"

definition walIndexPageRealloc :: "wal \<Rightarrow> nat \<Rightarrow> rc \<times> bool \<times> wal" where
  "walIndexPageRealloc w iPage =
     (if nWiData w \<le> iPage then
        let (b, al) = next_alloc (heapAns w); w = w\<lparr>heapAns := al\<rparr>
        in if \<not> b then (SQLITE_NOMEM, False, w)
           else map_page (w\<lparr>mapped := (\<lambda>i. i < nWiData w \<and> mapped w i), nWiData := iPage + 1\<rparr>) iPage
      else map_page w iPage)"

definition walIndexPage :: "wal \<Rightarrow> nat \<Rightarrow> rc \<times> bool \<times> wal" where
  "walIndexPage w iPage =
     (if nWiData w \<le> iPage \<or> \<not> mapped w iPage then walIndexPageRealloc w iPage else (SQLITE_OK, True, w))"

section \<open>The hash tables\<close>

text \<open>Products of page numbers are taken in 32-bit unsigned arithmetic.\<close>

definition walHash :: "pgno \<Rightarrow> nat" where
  "walHash iPage = (iPage * HASHTABLE_HASH_1) mod 2 ^ 32 mod HASHTABLE_NSLOT"

definition walNextHash :: "nat \<Rightarrow> nat" where
  "walNextHash iPriorHash = (iPriorHash + 1) mod HASHTABLE_NSLOT"

text \<open>The location of a hash table: its wal-index page, and the frame number before its first frame.\<close>

record wal_hash_loc =
  locPage :: nat
  iZero :: nat

definition table_zero :: "nat \<Rightarrow> nat" where
  "table_zero iHash = (if iHash = 0 then 0 else HASHTABLE_NPAGE_ONE + (iHash - 1) * HASHTABLE_NPAGE)"

definition walHashGet :: "wal \<Rightarrow> nat \<Rightarrow> rc \<times> wal_hash_loc \<times> wal" where
  "walHashGet w iHash =
     (case walIndexPage w iHash of (rc, p, w) \<Rightarrow>
        (if \<not> p \<and> rc = SQLITE_OK then SQLITE_ERROR else rc, \<lparr>locPage = iHash, iZero = table_zero iHash\<rparr>, w))"

text \<open>The number of page-number entries of a table: the space before its hash table.\<close>

definition table_size :: "nat \<Rightarrow> nat" where
  "table_size iHash = (if iHash = 0 then HASHTABLE_NPAGE_ONE else HASHTABLE_NPAGE)"

text \<open>\<open>iFrame+HASHTABLE_NPAGE\<close> is 32-bit arithmetic, the rest is 64-bit.\<close>

definition walFramePage :: "nat \<Rightarrow> nat" where
  "walFramePage iFrame =
     (((iFrame + HASHTABLE_NPAGE) mod 2 ^ 32 + 2 ^ 64 - HASHTABLE_NPAGE_ONE - 1) mod 2 ^ 64) div HASHTABLE_NPAGE"

definition walFramePgno :: "wal \<Rightarrow> nat \<Rightarrow> pgno" where
  "walFramePgno w iFrame =
     (let iHash = walFramePage iFrame
      in if iHash = 0 then aPgno (wi w 0) (iFrame - 1)
         else aPgno (wi w iHash) ((iFrame - 1 - HASHTABLE_NPAGE_ONE) mod HASHTABLE_NPAGE))"

text \<open>Frames after \<open>iLimit\<close> leave the table \<open>p\<close> with \<open>n\<close> page-number entries.\<close>

definition cleanup_page :: "nat \<Rightarrow> nat \<Rightarrow> wi_page \<Rightarrow> wi_page" where
  "cleanup_page n iLimit p =
     \<lparr>aPgno = (\<lambda>i. if iLimit \<le> i \<and> i < n then 0 else aPgno p i),
      aHash = (\<lambda>i. if i < HASHTABLE_NSLOT \<and> aHash p i > iLimit then 0 else aHash p i)\<rparr>"

definition walCleanupHash :: "wal \<Rightarrow> wal" where
  "walCleanupHash w =
     (if mxFrame (hdr w) = 0 then w
      else case walHashGet w (walFramePage (mxFrame (hdr w))) of (rc, sLoc, w) \<Rightarrow>
        if rc \<noteq> SQLITE_OK then w
        else put_page w (locPage sLoc)
               (cleanup_page (table_size (locPage sLoc)) (mxFrame (hdr w) - iZero sLoc) (wi w (locPage sLoc))))"

text \<open>The search for an empty slot, which gives up after \<open>nCollide\<close> collisions.\<close>

fun find_slot :: "(nat \<Rightarrow> nat) \<Rightarrow> nat \<Rightarrow> nat \<Rightarrow> nat option" where
  "find_slot h iKey 0 = (if h iKey = 0 then Some iKey else None)"
| "find_slot h iKey (Suc nCollide) = (if h iKey = 0 then Some iKey else find_slot h (walNextHash iKey) nCollide)"

text \<open>Zeroing the page-number array and the hash table.\<close>

definition clear_page :: "nat \<Rightarrow> wi_page \<Rightarrow> wi_page" where
  "clear_page n p =
     \<lparr>aPgno = (\<lambda>i. if i < n then 0 else aPgno p i), aHash = (\<lambda>i. if i < HASHTABLE_NSLOT then 0 else aHash p i)\<rparr>"

definition walIndexAppend :: "wal \<Rightarrow> nat \<Rightarrow> pgno \<Rightarrow> rc \<times> wal" where
  "walIndexAppend w iFrame iPage =
     (case walHashGet w (walFramePage iFrame) of (rc, sLoc, w) \<Rightarrow>
        if rc \<noteq> SQLITE_OK then (rc, w)
        else
          let t = locPage sLoc;
              idx = iFrame - iZero sLoc;
              w = (if idx = 1 then put_page w t (clear_page (table_size t) (wi w t)) else w);
              w = (if aPgno (wi w t) (idx - 1) \<noteq> 0 then walCleanupHash w else w)
          in case find_slot (aHash (wi w t)) (walHash iPage) idx of
               None \<Rightarrow> (SQLITE_CORRUPT, w)
             | Some iKey \<Rightarrow>
                 (SQLITE_OK, put_page w t
                    \<lparr>aPgno = (aPgno (wi w t))((idx - 1) mod HASHTABLE_NPAGE := iPage),
                     aHash = (aHash (wi w t))(iKey := idx mod 2 ^ 16)\<rparr>))"

section \<open>Searching\<close>

text \<open>
  The walk along the collision chain of one table: \<open>None\<close> after too many collisions, or the last
  matching frame, which is \<open>iRead\<close> if there is none.
\<close>

fun find_chain :: "wi_page \<Rightarrow> nat \<Rightarrow> nat \<Rightarrow> nat \<Rightarrow> pgno \<Rightarrow> nat \<Rightarrow> nat \<Rightarrow> nat \<Rightarrow> nat option" where
  "find_chain p zero iLast minF pgno iRead iKey nCollide =
     (let iH = aHash p iKey
      in if iH = 0 then Some iRead
         else
           let iFrame = (iH + zero) mod 2 ^ 32;
               iRead = (if iFrame \<le> iLast \<and> iFrame \<ge> minF \<and> aPgno p ((iH - 1) mod HASHTABLE_NPAGE) = pgno
                        then iFrame else iRead)
           in case nCollide of 0 \<Rightarrow> None
              | Suc n \<Rightarrow> find_chain p zero iLast minF pgno iRead (walNextHash iKey) n)"

declare find_chain.simps [simp del]

text \<open>The loop over the tables, from \<open>iHash\<close> down to \<open>iMinHash\<close>.\<close>

fun find_tables :: "wal \<Rightarrow> pgno \<Rightarrow> nat \<Rightarrow> nat \<Rightarrow> rc \<times> nat \<times> wal" where
  "find_tables w pgno iMinHash iHash =
     (if iHash < iMinHash then (SQLITE_OK, 0, w)
      else case walHashGet w iHash of (rc, sLoc, w) \<Rightarrow>
        if rc \<noteq> SQLITE_OK then (rc, 0, w)
        else case find_chain (wi w (locPage sLoc)) (iZero sLoc) (mxFrame (hdr w)) (minFrame w) pgno 0 (walHash pgno) HASHTABLE_NSLOT of
               None \<Rightarrow> (SQLITE_CORRUPT, 0, w)
             | Some iRead \<Rightarrow>
                 if iRead \<noteq> 0 then (SQLITE_OK, iRead, w)
                 else case iHash of 0 \<Rightarrow> (SQLITE_OK, 0, w) | Suc i \<Rightarrow> find_tables w pgno iMinHash i)"

declare find_tables.simps [simp del]

definition walFindFrame :: "wal \<Rightarrow> pgno \<Rightarrow> rc \<times> nat \<times> wal" where
  "walFindFrame w pgno =
     (if mxFrame (hdr w) = 0 \<or> readLock w = 0 \<and> \<not> bShmUnreliable w then (SQLITE_OK, 0, w)
      else find_tables w pgno (walFramePage (minFrame w)) (walFramePage (mxFrame (hdr w))))"

end
