(* ===== verification/WalIndex.thy ===== *)
theory WalIndex
  imports Wal
begin

text \<open>
  The wal-index as a map from pages to frames (\<open>src/src/wal.c\<close>: \<open>walIndexAppend\<close>, \<open>walCleanupHash\<close>,
  \<open>walFindFrame\<close>).  \<open>table_ok\<close> is the invariant of one hash table, \<open>index_ok log\<close> says that the
  wal-index holds the page numbers \<open>log\<close> of the frames of the log.  A search gives the last frame of a page
  within the limits of the reader; adding frames and removing the last ones keep the invariant.
\<close>

section \<open>Frames and tables\<close>

lemma walFramePage_eq: "iFrame + 4096 < 2 ^ 32 \<Longrightarrow> walFramePage iFrame = (iFrame + 33) div 4096"
proof -
  assume a: "iFrame + 4096 < 2 ^ 32"
  have "((iFrame + 4096) mod 2 ^ 32 + 2 ^ 64 - 4062 - 1) mod 2 ^ 64 = (iFrame + 33 + 2 ^ 64) mod 2 ^ 64" using a by simp
  also have "\<dots> = iFrame + 33" unfolding mod_add_self2 using a by (intro mod_less) simp
  finally show ?thesis by (simp add: walFramePage_def)
qed

lemma table_zero_eq: "table_zero t = t * 4096 - 34"
  by (cases t) (auto simp: table_zero_def)

lemma table_end: "table_zero t + table_size t = table_zero (Suc t)"
  by (cases t) (auto simp: table_zero_def table_size_def)

lemma table_zero_mono: "s \<le> t \<Longrightarrow> table_zero s \<le> table_zero t"
  by (auto simp: table_zero_eq intro: diff_le_mono)

lemma table_size_bound: "0 < table_size t \<and> table_size t \<le> 4096"
  by (auto simp: table_size_def)

lemma walFramePage_iff:
  assumes "0 < f" "f + 4096 < 2 ^ 32"
  shows "walFramePage f = t \<longleftrightarrow> table_zero t < f \<and> f \<le> table_zero (Suc t)"
proof -
  have "(f + 33) div 4096 = t \<longleftrightarrow> t * 4096 \<le> f + 33 \<and> f + 33 < Suc t * 4096"
    by (metis add.commute div_nat_eqI dividend_less_div_times dividend_less_times_div mult.commute times_div_less_eq_dividend mult_Suc zero_less_numeral)
  then show ?thesis using assms by (auto simp: walFramePage_eq table_zero_eq)
qed

section \<open>One hash table\<close>

definition slot :: "nat \<Rightarrow> nat \<Rightarrow> nat" where
  "slot k d = (k + d) mod HASHTABLE_NSLOT"

lemma slot_less [simp]: "slot k d < 8192"
  by (simp add: slot_def)

lemma walHash_less [simp]: "walHash p < 8192"
  by (simp add: walHash_def)

lemma slot_0 [simp]: "k < 8192 \<Longrightarrow> slot k 0 = k"
  by (simp add: slot_def)

lemma slot_next: "slot (walNextHash k) d = slot k (Suc d)"
  by (simp add: slot_def walNextHash_def mod_simps)

lemma walNextHash_less [simp]: "walNextHash k < 8192"
  by (simp add: walNextHash_def)

lemma slot_inj: "slot k d = slot k e \<Longrightarrow> d < 8192 \<Longrightarrow> e < 8192 \<Longrightarrow> d = e"
proof (induction d e rule: linorder_wlog)
  case (le d e)
  then have "(k + e) mod 8192 = (k + d) mod 8192" by (simp add: slot_def)
  then have "8192 dvd (k + e) - (k + d)" by (subst (asm) mod_eq_dvd_iff_nat) (use le in simp_all)
  then show ?case using le by (auto dest: dvd_imp_le)
qed simp

definition table_ok :: "nat \<Rightarrow> pgno list \<Rightarrow> wi_page \<Rightarrow> bool" where
  "table_ok cap ps p \<longleftrightarrow> length ps \<le> cap \<and> cap \<le> HASHTABLE_NPAGE \<and>
     (\<forall>j<length ps. aPgno p j = ps ! j \<and> ps ! j \<noteq> 0) \<and> (\<forall>j. length ps \<le> j \<and> j < cap \<longrightarrow> aPgno p j = 0) \<and>
     (\<forall>k<HASHTABLE_NSLOT. aHash p k \<le> length ps) \<and> inj_on (aHash p) {k. k < HASHTABLE_NSLOT \<and> aHash p k \<noteq> 0} \<and>
     (\<forall>j<length ps. \<exists>d<HASHTABLE_NSLOT. aHash p (slot (walHash (ps ! j)) d) = Suc j \<and>
        (\<forall>e<d. aHash p (slot (walHash (ps ! j)) e) \<in> {1..j}))"

lemma table_entry: "table_ok cap ps p \<Longrightarrow> j < length ps \<Longrightarrow> aPgno p j \<noteq> 0"
  by (auto simp: table_ok_def)

text \<open>At most one slot per entry is in use, so every chain ends.\<close>

lemma chain_ends:
  assumes ok: "table_ok cap ps p"
  obtains D where "D \<le> length ps" "aHash p (slot k D) = 0" "\<forall>d<D. aHash p (slot k d) \<noteq> 0"
proof -
  have "\<exists>D\<le>length ps. aHash p (slot k D) = 0"
  proof (rule ccontr)
    assume *: "\<not> (\<exists>D\<le>length ps. aHash p (slot k D) = 0)"
    have "inj_on (\<lambda>d. aHash p (slot k d)) {..length ps}"
    proof (rule inj_onI)
      fix d e assume de: "d \<in> {..length ps}" "e \<in> {..length ps}" "aHash p (slot k d) = aHash p (slot k e)"
      have "slot k d = slot k e" using ok de * unfolding table_ok_def inj_on_def by auto
      then show "d = e" using ok de by (auto simp: table_ok_def intro: slot_inj)
    qed
    moreover have "(\<lambda>d. aHash p (slot k d)) ` {..length ps} \<subseteq> {1..length ps}"
      using ok * by (auto simp: table_ok_def Suc_le_eq)
    ultimately have "card {..length ps} \<le> card {1..length ps}" by (metis card_inj_on_le finite_atLeastAtMost)
    then show False by simp
  qed
  then have "\<exists>D. D \<le> length ps \<and> aHash p (slot k D) = 0" by blast
  then obtain D where "D \<le> length ps \<and> aHash p (slot k D) = 0" "\<forall>d<D. \<not> (d \<le> length ps \<and> aHash p (slot k d) = 0)"
    unfolding exists_least_iff [of "\<lambda>D. D \<le> length ps \<and> aHash p (slot k D) = 0"] by blast
  then show ?thesis using that [of D] by auto
qed

lemma find_slot_chain:
  assumes "k < 8192" "h (slot k D) = 0" "\<forall>d<D. h (slot k d) \<noteq> 0" "D \<le> n"
  shows "find_slot h k n = Some (slot k D)"
  using assms
proof (induction n arbitrary: k D)
  case 0
  then show ?case by simp
next
  case (Suc n)
  show ?case
  proof (cases D)
    case 0
    then show ?thesis using Suc.prems by simp
  next
    case D: (Suc D')
    have "h k \<noteq> 0" using Suc.prems D by (metis slot_0 zero_less_Suc)
    moreover have "find_slot h (walNextHash k) n = Some (slot (walNextHash k) D')"
      by (rule Suc.IH) (use Suc.prems D in \<open>auto simp: slot_next\<close>)
    ultimately show ?thesis by (simp add: D slot_next)
  qed
qed

section \<open>Adding and removing entries\<close>

lemma table_append:
  assumes ok: "table_ok cap ps p" and room: "length ps < cap" and q: "q \<noteq> 0" and n: "n = length ps"
  shows "\<exists>k. find_slot (aHash p) (walHash q) (Suc n) = Some k \<and>
     table_ok cap (ps @ [q]) \<lparr>aPgno = (aPgno p)(n := q), aHash = (aHash p)(k := Suc n)\<rparr>"
proof -
  obtain D where D: "D \<le> n" "aHash p (slot (walHash q) D) = 0" "\<forall>d<D. aHash p (slot (walHash q) d) \<noteq> 0"
    using chain_ends [OF ok] n by metis
  let ?k = "slot (walHash q) D"
  let ?p = "\<lparr>aPgno = (aPgno p)(n := q), aHash = (aHash p)(?k := Suc n)\<rparr>"
  have small: "aHash p k \<le> n" if "k < 8192" for k using ok that n by (auto simp: table_ok_def)
  have f: "find_slot (aHash p) (walHash q) (Suc n) = Some ?k" using D by (intro find_slot_chain) auto
  have chains: "\<exists>d<8192. aHash ?p (slot (walHash ((ps @ [q]) ! j)) d) = Suc j \<and>
      (\<forall>e<d. aHash ?p (slot (walHash ((ps @ [q]) ! j)) e) \<in> {1..j})" if j: "j < length (ps @ [q])" for j
  proof (cases "j = n")
    case True
    have "D < 8192" using D room ok n by (auto simp: table_ok_def)
    moreover have "aHash p (slot (walHash q) e) \<in> {1..n}" if "e < D" for e using D small that by (auto simp: Suc_le_eq)
    moreover have "slot (walHash q) e \<noteq> ?k" if "e < D" for e using D that by metis
    ultimately show ?thesis using True n by (auto simp: nth_append intro!: exI [of _ D])
  next
    case False
    then have j': "j < length ps" using j n by simp
    then obtain d where d: "d < 8192" "aHash p (slot (walHash (ps ! j)) d) = Suc j" "\<forall>e<d. aHash p (slot (walHash (ps ! j)) e) \<in> {1..j}"
      using ok unfolding table_ok_def by blast
    have "slot (walHash (ps ! j)) e \<noteq> ?k" if "e \<le> d" for e
      using d D that by (cases "e = d") (metis nat.distinct(1), metis atLeastAtMost_iff le_neq_implies_less not_one_le_zero)
    then show ?thesis using d j' n by (auto simp: nth_append intro!: exI [of _ d])
  qed
  have inj: "inj_on (aHash ?p) {k. k < 8192 \<and> aHash ?p k \<noteq> 0}"
  proof (rule inj_onI)
    fix a b assume ab: "a \<in> {k. k < 8192 \<and> aHash ?p k \<noteq> 0}" "b \<in> {k. k < 8192 \<and> aHash ?p k \<noteq> 0}" "aHash ?p a = aHash ?p b"
    have "aHash p a \<noteq> Suc n" "aHash p b \<noteq> Suc n" using ab small [of a] small [of b] by auto
    then show "a = b" using ab ok by (auto simp: table_ok_def inj_on_def split: if_splits)
  qed
  have "table_ok cap (ps @ [q]) ?p"
    unfolding table_ok_def using ok room q n small inj chains
    by (auto simp: table_ok_def nth_append less_Suc_eq le_Suc_eq)
  then show ?thesis using f by blast
qed

lemma table_cleanup:
  assumes ok: "table_ok cap ps p" and l: "l \<le> length ps"
  shows "table_ok cap (take l ps) (cleanup_page cap l p)"
proof -
  have keep: "aHash (cleanup_page cap l p) k = aHash p k" if "aHash p k \<le> l" for k using that by (auto simp: cleanup_page_def)
  have chains: "\<exists>d<8192. aHash (cleanup_page cap l p) (slot (walHash (take l ps ! j)) d) = Suc j \<and>
      (\<forall>e<d. aHash (cleanup_page cap l p) (slot (walHash (take l ps ! j)) e) \<in> {1..j})" if j: "j < length (take l ps)" for j
  proof -
    obtain d where d: "d < 8192" "aHash p (slot (walHash (ps ! j)) d) = Suc j" "\<forall>e<d. aHash p (slot (walHash (ps ! j)) e) \<in> {1..j}"
      using ok j unfolding table_ok_def by (metis length_take min_less_iff_conj)
    then show ?thesis using j by (intro exI [of _ d]) (auto simp: keep)
  qed
  have inj: "inj_on (aHash (cleanup_page cap l p)) {k. k < 8192 \<and> aHash (cleanup_page cap l p) k \<noteq> 0}"
    using ok by (auto simp: table_ok_def inj_on_def cleanup_page_def split: if_splits)
  show ?thesis unfolding table_ok_def using ok l inj chains
    by (auto simp: table_ok_def cleanup_page_def)
qed

lemma table_clear: "cap \<le> 4096 \<Longrightarrow> table_ok cap [] (clear_page cap p)"
  by (auto simp: table_ok_def clear_page_def)

section \<open>Searching a table\<close>

text \<open>The test of the loop in \<open>walFindFrame\<close>, for a slot with value \<open>iH\<close>.\<close>

definition hit :: "wi_page \<Rightarrow> nat \<Rightarrow> nat \<Rightarrow> nat \<Rightarrow> pgno \<Rightarrow> nat \<Rightarrow> bool" where
  "hit p zero iLast minF q iH \<longleftrightarrow>
     (iH + zero) mod 2 ^ 32 \<le> iLast \<and> minF \<le> (iH + zero) mod 2 ^ 32 \<and> aPgno p ((iH - 1) mod HASHTABLE_NPAGE) = q"

lemma find_chain_step:
  "find_chain p zero iLast minF q iRead k (Suc n) =
     (if aHash p k = 0 then Some iRead
      else find_chain p zero iLast minF q (if hit p zero iLast minF q (aHash p k) then (aHash p k + zero) mod 2 ^ 32 else iRead)
             (walNextHash k) n)"
  by (subst find_chain.simps) (simp add: Let_def hit_def)

lemma find_chain_end: "aHash p k = 0 \<Longrightarrow> find_chain p zero iLast minF q iRead k n = Some iRead"
  by (subst find_chain.simps) simp

text \<open>The last hit before the end of the chain is returned.\<close>

definition last_hit :: "(nat \<Rightarrow> bool) \<Rightarrow> (nat \<Rightarrow> nat) \<Rightarrow> nat \<Rightarrow> nat \<Rightarrow> nat \<Rightarrow> bool" where
  "last_hit P v D i r \<longleftrightarrow> r = i \<and> (\<forall>d<D. \<not> P d) \<or> (\<exists>d<D. P d \<and> r = v d \<and> (\<forall>e<D. d < e \<longrightarrow> \<not> P e))"

lemma last_hit_0: "last_hit P v 0 i i"
  by (simp add: last_hit_def)

lemma last_hit_cong:
  assumes "last_hit P v D i r" "\<And>d. d < D \<Longrightarrow> P d = P' d"
  shows "last_hit P' v D i r"
  using assms unfolding last_hit_def by metis

lemma last_hit_Suc:
  assumes "last_hit (\<lambda>d. P (Suc d)) (\<lambda>d. v (Suc d)) D (if P 0 then v 0 else i) r"
  shows "last_hit P v (Suc D) i r"
  using assms unfolding last_hit_def
proof
  assume "r = (if P 0 then v 0 else i) \<and> (\<forall>d<D. \<not> P (Suc d))"
  then show "r = i \<and> (\<forall>d<Suc D. \<not> P d) \<or> (\<exists>d<Suc D. P d \<and> r = v d \<and> (\<forall>e<Suc D. d < e \<longrightarrow> \<not> P e))"
    by (cases "P 0") (auto simp: less_Suc_eq_0_disj)
next
  assume "\<exists>d<D. P (Suc d) \<and> r = v (Suc d) \<and> (\<forall>e<D. d < e \<longrightarrow> \<not> P (Suc e))"
  then obtain d where "d < D" "P (Suc d)" "r = v (Suc d)" "\<forall>e<D. d < e \<longrightarrow> \<not> P (Suc e)" by blast
  then show "r = i \<and> (\<forall>d<Suc D. \<not> P d) \<or> (\<exists>d<Suc D. P d \<and> r = v d \<and> (\<forall>e<Suc D. d < e \<longrightarrow> \<not> P e))"
    by (intro disjI2 exI [of _ "Suc d"]) (auto simp: less_Suc_eq_0_disj)
qed

lemma find_chain_last:
  assumes "k < 8192" "aHash p (slot k D) = 0" "\<forall>d<D. aHash p (slot k d) \<noteq> 0" "D \<le> n"
  shows "\<exists>r. find_chain p zero iLast minF q iRead k n = Some r \<and>
     last_hit (\<lambda>d. hit p zero iLast minF q (aHash p (slot k d))) (\<lambda>d. (aHash p (slot k d) + zero) mod 2 ^ 32) D iRead r"
  using assms
proof (induction D arbitrary: n k iRead)
  case 0
  then show ?case by (simp add: find_chain_end last_hit_0)
next
  case (Suc D)
  obtain m where n: "n = Suc m" using Suc.prems(4) by (cases n) auto
  have k: "slot k 0 = k" using Suc.prems(1) by simp
  have kn: "aHash p k \<noteq> 0" using Suc.prems(3) k by (metis zero_less_Suc)
  let ?i = "if hit p zero iLast minF q (aHash p k) then (aHash p k + zero) mod 2 ^ 32 else iRead"
  have step: "find_chain p zero iLast minF q iRead k n = find_chain p zero iLast minF q ?i (walNextHash k) m"
    unfolding n find_chain_step using kn by (rule if_not_P)
  have ih: "\<exists>r. find_chain p zero iLast minF q ?i (walNextHash k) m = Some r \<and>
     last_hit (\<lambda>d. hit p zero iLast minF q (aHash p (slot (walNextHash k) d)))
       (\<lambda>d. (aHash p (slot (walNextHash k) d) + zero) mod 2 ^ 32) D ?i r"
  proof (rule Suc.IH)
    show "\<forall>d<D. aHash p (slot (walNextHash k) d) \<noteq> 0" using Suc.prems(3) by (simp only: slot_next) (metis Suc_less_eq)
  qed (use Suc.prems n in \<open>simp_all only: slot_next walNextHash_less Suc_le_mono\<close>)
  show ?case unfolding step using ih by (elim exE conjE) (intro exI conjI, assumption, rule last_hit_Suc, simp only: slot_next k)
qed

lemma table_search:
  assumes ok: "table_ok cap ps p" and z: "zero + 4096 < 2 ^ 32"
  shows "\<exists>r. find_chain p zero iLast minF q 0 (walHash q) 8192 = Some r \<and>
     last_hit (\<lambda>j. ps ! j = q \<and> minF \<le> zero + Suc j \<and> zero + Suc j \<le> iLast) (\<lambda>j. zero + Suc j) (length ps) 0 r"
proof -
  obtain D where D: "D \<le> length ps" "aHash p (slot (walHash q) D) = 0" "\<forall>d<D. aHash p (slot (walHash q) d) \<noteq> 0"
    using chain_ends [OF ok] by metis
  define s where "s d = aHash p (slot (walHash q) d)" for d
  define m where "m j \<longleftrightarrow> ps ! j = q \<and> minF \<le> zero + Suc j \<and> zero + Suc j \<le> iLast" for j
  have len: "length ps \<le> 4096" and bound: "\<And>d. s d \<le> length ps" using ok by (auto simp: table_ok_def s_def)
  have nz: "0 < s d" if "d < D" for d using D(3) that by (simp add: s_def)
  have D8: "D \<le> 8192" using D(1) len by linarith
  have v: "(s d + zero) mod 2 ^ 32 = zero + s d" for d
    using bound [of d] len z by (subst mod_less) auto
  have hit: "hit p zero iLast minF q (s d) \<longleftrightarrow> m (s d - 1)" if "d < D" for d
  proof -
    have j: "s d - 1 < length ps" using nz [OF that] bound [of d] by linarith
    have "aPgno p ((s d - 1) mod 4096) = ps ! (s d - 1)" using j len ok by (simp add: table_ok_def)
    then show ?thesis unfolding hit_def v m_def using nz [OF that] by auto
  qed
  have place: "\<exists>d<D. s d = Suc j \<and> (\<forall>e<d. s e \<le> j)" if j: "j < length ps" "ps ! j = q" for j
  proof -
    have "\<forall>j<length ps. \<exists>d<8192. aHash p (slot (walHash (ps ! j)) d) = Suc j \<and> (\<forall>e<d. aHash p (slot (walHash (ps ! j)) e) \<in> {1..j})"
      using ok by (simp add: table_ok_def)
    then obtain d where d: "s d = Suc j" "\<forall>e<d. s e \<in> {1..j}" using j by (auto simp: s_def)
    have "d \<noteq> D" using d(1) D(2) by (auto simp: s_def)
    moreover have "\<not> D < d" using d(2) D(2) by (auto simp: s_def)
    ultimately show ?thesis using d by (intro exI [of _ d]) auto
  qed
  have uniq: "d = e" if "d < D" "e < D" "s d = s e" for d e
  proof -
    have "inj_on (aHash p) {k. k < 8192 \<and> aHash p k \<noteq> 0}" using ok by (simp add: table_ok_def)
    then have "slot (walHash q) d = slot (walHash q) e" by (rule inj_onD) (use that nz in \<open>auto simp: s_def\<close>)
    then show ?thesis by (rule slot_inj) (use that D8 in linarith)+
  qed
  have "\<exists>r. find_chain p zero iLast minF q 0 (walHash q) 8192 = Some r \<and>
      last_hit (\<lambda>d. hit p zero iLast minF q (s d)) (\<lambda>d. (s d + zero) mod 2 ^ 32) D 0 r"
    unfolding s_def using D(2,3) D8 by (intro find_chain_last) simp_all
  then obtain r where r: "find_chain p zero iLast minF q 0 (walHash q) 8192 = Some r"
    "last_hit (\<lambda>d. hit p zero iLast minF q (s d)) (\<lambda>d. (s d + zero) mod 2 ^ 32) D 0 r" by blast
  from r(2) [unfolded last_hit_def] have "last_hit m (\<lambda>j. zero + Suc j) (length ps) 0 r"
  proof
    assume no: "r = 0 \<and> (\<forall>d<D. \<not> hit p zero iLast minF q (s d))"
    have "\<not> m j" if j: "j < length ps" for j
    proof
      assume "m j"
      then obtain d where "d < D" "s d = Suc j" using place [OF j] by (auto simp: m_def)
      then show False using no hit [of d] \<open>m j\<close> by (metis diff_Suc_1)
    qed
    then show ?thesis using no by (simp add: last_hit_def)
  next
    assume "\<exists>d<D. hit p zero iLast minF q (s d) \<and> r = (s d + zero) mod 2 ^ 32 \<and> (\<forall>e<D. d < e \<longrightarrow> \<not> hit p zero iLast minF q (s e))"
    then obtain d where d: "d < D" "hit p zero iLast minF q (s d)" "r = zero + s d" "\<forall>e<D. d < e \<longrightarrow> \<not> hit p zero iLast minF q (s e)"
      unfolding v by blast
    obtain j where j: "s d = Suc j" using nz [OF d(1)] by (cases "s d") auto
    have m: "m j" "j < length ps" using hit [OF d(1)] d(2) j bound [of d] by auto
    have "\<not> m i" if i: "i < length ps" "j < i" for i
    proof
      assume mi: "m i"
      obtain e where e: "e < D" "s e = Suc i" "\<forall>x<e. s x \<le> i" using place [OF i(1)] mi by (auto simp: m_def)
      have "hit p zero iLast minF q (s e)" using hit [OF e(1)] e(2) mi by simp
      then have "e \<le> d" using d(4) e(1) by auto
      moreover obtain d' where d': "d' < D" "s d' = Suc j" "\<forall>x<d'. s x \<le> j" using place m by (auto simp: m_def)
      moreover have "d' = d" using uniq d'(1,2) d(1) j by metis
      moreover have "e \<noteq> d" using e(2) j i(2) by auto
      ultimately have "s e \<le> j" by auto
      then show False using e(2) i(2) by simp
    qed
    then show ?thesis using m d(3) j unfolding last_hit_def by (intro disjI2 exI [of _ j]) auto
  qed
  then show ?thesis using r(1) unfolding m_def by blast
qed

section \<open>The whole index\<close>

text \<open>The last frame up to \<open>hi\<close>, and not before \<open>lo\<close>, that holds page \<open>q\<close>; 0 if there is none.\<close>

fun last_frame :: "pgno list \<Rightarrow> nat \<Rightarrow> nat \<Rightarrow> pgno \<Rightarrow> nat" where
  "last_frame log lo 0 q = 0"
| "last_frame log lo (Suc f) q = (if lo \<le> Suc f \<and> log ! f = q then Suc f else last_frame log lo f q)"

lemma last_frame_hit: "last_frame log lo hi q = r \<longleftrightarrow> last_hit (\<lambda>j. log ! j = q \<and> lo \<le> Suc j) Suc hi 0 r"
proof (induction hi)
  case 0
  then show ?case by (auto simp: last_hit_def)
next
  case (Suc hi)
  show ?case
  proof (cases "lo \<le> Suc hi \<and> log ! hi = q")
    case True
    then show ?thesis by (auto simp: last_hit_def less_Suc_eq)
  next
    case False
    then have "last_hit (\<lambda>j. log ! j = q \<and> lo \<le> Suc j) Suc (Suc hi) 0 r \<longleftrightarrow> last_hit (\<lambda>j. log ! j = q \<and> lo \<le> Suc j) Suc hi 0 r"
      unfolding last_hit_def less_Suc_eq by blast
    then show ?thesis using Suc False by auto
  qed
qed

lemma last_frame_below: "hi < lo \<Longrightarrow> last_frame log lo hi q = 0"
  by (induction hi) auto

lemma last_frame_bounds: "last_frame log lo hi q \<le> hi"
  by (induction hi) auto

lemma last_frame_found: "last_frame log lo hi q \<noteq> 0 \<Longrightarrow> lo \<le> last_frame log lo hi q \<and> log ! (last_frame log lo hi q - 1) = q"
  by (induction hi) (auto split: if_splits)

lemma last_frame_cong: "(\<And>j. j < hi \<Longrightarrow> log ! j = log' ! j) \<Longrightarrow> last_frame log lo hi q = last_frame log' lo hi q"
  by (induction hi) auto

text \<open>A search in two parts: the frames after \<open>z\<close>, then the others.\<close>

lemma last_frame_split:
  assumes r: "last_hit (\<lambda>j. log ! (z + j) = q \<and> lo \<le> z + Suc j \<and> z + Suc j \<le> hi) (\<lambda>j. z + Suc j) n 0 r"
    and z: "z \<le> hi" "hi \<le> z + n"
  shows "last_frame log lo hi q = (if r = 0 then last_frame log lo z q else r)"
proof -
  from r [unfolded last_hit_def] show ?thesis
  proof
    assume no: "r = 0 \<and> (\<forall>d<n. \<not> (log ! (z + d) = q \<and> lo \<le> z + Suc d \<and> z + Suc d \<le> hi))"
    have none: "\<not> (log ! j = q \<and> lo \<le> Suc j)" if "z \<le> j" "j < hi" for j
    proof -
      have "j - z < n" "z + (j - z) = j" using that z by linarith+
      then have "\<not> (log ! j = q \<and> lo \<le> Suc j \<and> Suc j \<le> hi)" using no by (metis add_Suc_right)
      then show ?thesis using that by simp
    qed
    have eq: "last_frame log lo h q = last_frame log lo z q" if "z \<le> h" "h \<le> hi" for h
      using that
    proof (induction h rule: dec_induct)
      case (step h)
      then have "\<not> (lo \<le> Suc h \<and> log ! h = q)" using none [of h] by auto
      then have "last_frame log lo (Suc h) q = last_frame log lo h q" by (simp only: last_frame.simps if_False)
      then show ?case using step by simp
    qed simp
    show ?thesis using no [THEN conjunct1] eq [OF z(1) order_refl] by simp
  next
    assume "\<exists>d<n. (log ! (z + d) = q \<and> lo \<le> z + Suc d \<and> z + Suc d \<le> hi) \<and> r = z + Suc d \<and>
      (\<forall>e<n. d < e \<longrightarrow> \<not> (log ! (z + e) = q \<and> lo \<le> z + Suc e \<and> z + Suc e \<le> hi))"
    then obtain d where d: "d < n" "log ! (z + d) = q" "lo \<le> z + Suc d" "z + Suc d \<le> hi" "r = z + Suc d"
      "\<forall>e<n. d < e \<longrightarrow> \<not> (log ! (z + e) = q \<and> lo \<le> z + Suc e \<and> z + Suc e \<le> hi)" by blast
    have none: "\<not> (log ! j = q \<and> lo \<le> Suc j)" if "z + d < j" "j < hi" for j
    proof -
      have "j - z < n" "d < j - z" "z + (j - z) = j" using that z by linarith+
      then have "\<not> (log ! j = q \<and> lo \<le> Suc j \<and> Suc j \<le> hi)" using d(6) by (metis add_Suc_right)
      then show ?thesis using that by simp
    qed
    have "last_hit (\<lambda>j. log ! j = q \<and> lo \<le> Suc j) Suc hi 0 r"
      unfolding last_hit_def using d none by (intro disjI2 exI [of _ "z + d"]) auto
    then show ?thesis using d by (simp add: last_frame_hit)
  qed
qed

text \<open>
  The wal-index holds the page numbers \<open>log\<close> of the frames from 1 on; \<open>table_part\<close> is the part in one table.
  Tables that no frame of \<open>log\<close> belongs to have arbitrary content.
\<close>

definition table_part :: "nat \<Rightarrow> pgno list \<Rightarrow> pgno list" where
  "table_part t log = take (table_size t) (drop (table_zero t) log)"

definition index_ok :: "pgno list \<Rightarrow> wal_shm \<Rightarrow> bool" where
  "index_ok log s \<longleftrightarrow> length log + 8192 < 2 ^ 32 \<and>
     (\<forall>t. table_zero t < length log \<longrightarrow> table_ok (table_size t) (table_part t log) (shmPage s t))"

text \<open>The tables of the first \<open>n\<close> frames are mapped.\<close>

definition mapped_to :: "nat \<Rightarrow> wal \<Rightarrow> bool" where
  "mapped_to n w \<longleftrightarrow> (\<forall>t. table_zero t < n \<longrightarrow> t < nWiData w \<and> mapped w t)"

lemma mapped_to_mono: "mapped_to n w \<Longrightarrow> m \<le> n \<Longrightarrow> mapped_to m w"
  by (auto simp: mapped_to_def)

lemma mapped_toD:
  assumes "mapped_to n w" "0 < n" "n + 4096 < 2 ^ 32" "t \<le> walFramePage n"
  shows "t < nWiData w" "mapped w t"
proof -
  have "table_zero t < n" using assms table_zero_mono [OF assms(4)] walFramePage_iff [OF assms(2,3), of "walFramePage n"] by simp
  then show "t < nWiData w" "mapped w t" using assms(1) by (auto simp: mapped_to_def)
qed

lemma walHashGet_mapped: "t < nWiData w \<Longrightarrow> mapped w t \<Longrightarrow> walHashGet w t = (SQLITE_OK, \<lparr>locPage = t, iZero = table_zero t\<rparr>, w)"
  by (simp add: walHashGet_def walIndexPage_def)

lemma table_part_nth: "j < length (table_part t log) \<Longrightarrow> table_part t log ! j = log ! (table_zero t + j)"
  by (auto simp: table_part_def)

lemma length_table_part: "length (table_part t log) = min (table_size t) (length log - table_zero t)"
  by (simp add: table_part_def)

lemma find_table_ok:
  assumes ok: "index_ok log s" and t: "table_zero t < h" "h \<le> table_zero (Suc t)" "h \<le> length log"
    and last: "h = iLast \<or> h = table_zero (Suc t) \<and> h \<le> iLast"
  shows "\<exists>r. find_chain (shmPage s t) (table_zero t) iLast minF q 0 (walHash q) 8192 = Some r \<and>
     last_frame log minF h q = (if r = 0 then last_frame log minF (table_zero t) q else r)"
proof -
  let ?ps = "table_part t log"
  have tok: "table_ok (table_size t) ?ps (shmPage s t)" and z: "table_zero t + 4096 < 2 ^ 32"
    using ok t by (auto simp: index_ok_def)
  have n: "h \<le> table_zero t + length ?ps" using t table_end [of t] by (auto simp: length_table_part)
  have top: "table_zero t + length ?ps \<le> table_zero (Suc t)" using table_end [of t] by (simp add: length_table_part)
  obtain r where r: "find_chain (shmPage s t) (table_zero t) iLast minF q 0 (walHash q) 8192 = Some r"
    "last_hit (\<lambda>j. ?ps ! j = q \<and> minF \<le> table_zero t + Suc j \<and> table_zero t + Suc j \<le> iLast) (\<lambda>j. table_zero t + Suc j) (length ?ps) 0 r"
    using table_search [OF tok z] by blast
  have "last_hit (\<lambda>j. log ! (table_zero t + j) = q \<and> minF \<le> table_zero t + Suc j \<and> table_zero t + Suc j \<le> h)
      (\<lambda>j. table_zero t + Suc j) (length ?ps) 0 r"
  proof (rule last_hit_cong [OF r(2)])
    fix j assume j: "j < length ?ps"
    have "table_zero t + Suc j \<le> iLast \<longleftrightarrow> table_zero t + Suc j \<le> h" using last j top by linarith
    then show "(?ps ! j = q \<and> minF \<le> table_zero t + Suc j \<and> table_zero t + Suc j \<le> iLast) =
      (log ! (table_zero t + j) = q \<and> minF \<le> table_zero t + Suc j \<and> table_zero t + Suc j \<le> h)"
      using j by (simp add: table_part_nth)
  qed
  then show ?thesis using last_frame_split [of log "table_zero t" q minF h "length ?ps" r] t n r(1) by auto
qed

lemma find_tables_ok:
  assumes ok: "index_ok log (shm w)" and m: "\<And>s. s \<le> t \<Longrightarrow> s < nWiData w \<and> mapped w s"
    and t: "table_zero t < h" "h \<le> table_zero (Suc t)"
    and h: "h \<le> length log" "h = mxFrame (hdr w) \<or> h = table_zero (Suc t) \<and> h \<le> mxFrame (hdr w)"
    and lo: "minFrame w + 4096 < 2 ^ 32"
  shows "find_tables w q (walFramePage (minFrame w)) t = (SQLITE_OK, last_frame log (minFrame w) h q, w)"
  using m t h
proof (induction t arbitrary: h)
  case (0 h)
  obtain r where r: "find_chain (wi w 0) 0 (mxFrame (hdr w)) (minFrame w) q 0 (walHash q) 8192 = Some r"
     "last_frame log (minFrame w) h q = (if r = 0 then last_frame log (minFrame w) 0 q else r)"
    using find_table_ok [OF ok, of 0 h "mxFrame (hdr w)" "minFrame w" q] 0 by (auto simp: table_zero_def)
  show ?case
  proof (cases "0 < walFramePage (minFrame w)")
    case True
    then have "h < minFrame w" using lo 0(3) by (simp add: walFramePage_eq table_zero_def)
    then show ?thesis using True by (subst find_tables.simps) (simp add: last_frame_below)
  next
    case False
    then show ?thesis using r 0(1) [of 0] by (subst find_tables.simps) (simp add: walHashGet_mapped table_zero_def)
  qed
next
  case (Suc t h)
  show ?case
  proof (cases "Suc t < walFramePage (minFrame w)")
    case True
    then have "h < minFrame w" using lo Suc.prems(3) by (simp add: walFramePage_eq table_zero_eq)
    then show ?thesis using True by (subst find_tables.simps) (simp add: last_frame_below)
  next
    case False
    obtain r where r: "find_chain (wi w (Suc t)) (table_zero (Suc t)) (mxFrame (hdr w)) (minFrame w) q 0 (walHash q) 8192 = Some r"
       "last_frame log (minFrame w) h q = (if r = 0 then last_frame log (minFrame w) (table_zero (Suc t)) q else r)"
      using find_table_ok [OF ok, of "Suc t" h "mxFrame (hdr w)" "minFrame w" q] Suc.prems by auto
    have "find_tables w q (walFramePage (minFrame w)) t = (SQLITE_OK, last_frame log (minFrame w) (table_zero (Suc t)) q, w)"
    proof (rule Suc.IH)
      show "table_zero t < table_zero (Suc t)" by (simp add: table_zero_def)
    qed (use Suc.prems in auto)
    then show ?thesis using r False Suc.prems(1) [of "Suc t"] by (subst find_tables.simps) (simp add: walHashGet_mapped)
  qed
qed

lemma walFindFrame_ok:
  assumes "index_ok log (shm w)" "mapped_to (mxFrame (hdr w)) w" "mxFrame (hdr w) \<le> length log" "minFrame w + 4096 < 2 ^ 32"
    "readLock w \<noteq> 0 \<or> bShmUnreliable w"
  shows "walFindFrame w q = (SQLITE_OK, last_frame log (minFrame w) (mxFrame (hdr w)) q, w)"
proof (cases "mxFrame (hdr w) = 0")
  case True
  then show ?thesis by (simp add: walFindFrame_def)
next
  case False
  have b: "mxFrame (hdr w) + 4096 < 2 ^ 32" using assms(1,3) by (simp add: index_ok_def)
  have t: "table_zero (walFramePage (mxFrame (hdr w))) < mxFrame (hdr w) \<and> mxFrame (hdr w) \<le> table_zero (Suc (walFramePage (mxFrame (hdr w))))"
    using walFramePage_iff [OF _ b, of "walFramePage (mxFrame (hdr w))"] False by simp
  have "find_tables w q (walFramePage (minFrame w)) (walFramePage (mxFrame (hdr w))) =
      (SQLITE_OK, last_frame log (minFrame w) (mxFrame (hdr w)) q, w)"
    by (rule find_tables_ok) (use assms t b False mapped_toD [OF assms(2) _ b] in auto)
  then show ?thesis using False assms(5) by (auto simp: walFindFrame_def)
qed

section \<open>Adding and removing frames\<close>

lemma table_part_take_same:
  assumes "K \<le> length log" "table_zero (Suc t) \<le> K"
  shows "table_part t (take K log @ xs) = table_part t log"
proof -
  have "table_zero t + table_size t \<le> K" using assms(2) by (simp only: table_end)
  then show ?thesis using assms(1) by (intro nth_equalityI) (simp_all add: table_part_def nth_append)
qed

lemma table_part_take_here:
  assumes "table_zero t < K" "K \<le> table_zero (Suc t)" "K \<le> length log"
  shows "table_part t (take K log) = take (K - table_zero t) (table_part t log)"
  using assms table_end [of t] by (simp add: table_part_def drop_take min_def)

lemma table_part_snoc:
  assumes "table_zero t \<le> length log" "length log < table_zero (Suc t)"
  shows "table_part t (log @ [q]) = table_part t log @ [q]"
  using assms table_end [of t] by (simp add: table_part_def)

lemma index_cleanup_page:
  assumes ok: "index_ok log s" and K: "0 < K" "K \<le> length log"
  shows "index_ok (take K log) (s\<lparr>shmPage := (shmPage s)(walFramePage K :=
    cleanup_page (table_size (walFramePage K)) (K - table_zero (walFramePage K)) (shmPage s (walFramePage K)))\<rparr>)"
proof -
  let ?t = "walFramePage K"
  have b: "K + 4096 < 2 ^ 32" using ok K by (simp add: index_ok_def)
  have t: "table_zero ?t < K" "K \<le> table_zero (Suc ?t)" using walFramePage_iff [OF K(1) b, of ?t] by auto
  have here: "table_ok (table_size ?t) (table_part ?t (take K log)) (cleanup_page (table_size ?t) (K - table_zero ?t) (shmPage s ?t))"
    unfolding table_part_take_here [OF t K(2)] using ok t K table_end [of ?t]
    by (intro table_cleanup) (auto simp: index_ok_def length_table_part)
  have other: "table_ok (table_size u) (table_part u (take K log)) (shmPage s u)" if u: "table_zero u < K" "u \<noteq> ?t" for u
  proof -
    have "u < ?t" using u t table_zero_mono [of "Suc ?t" u] by (cases "u < ?t") auto
    then have "table_part u (take K log) = table_part u log"
      using table_part_take_same [of K log u "[]"] table_zero_mono [of "Suc u" ?t] t K by simp
    then show ?thesis using ok u K by (simp add: index_ok_def)
  qed
  show ?thesis using here other ok K by (auto simp: index_ok_def)
qed

text \<open>The connection with the wal-index \<open>s\<close>.\<close>

lemma put_page_shm: "put_page w t p = w\<lparr>shm := (shm w)\<lparr>shmPage := (shmPage (shm w))(t := p)\<rparr>\<rparr>"
  by (simp add: put_page_def)

definition same_headers :: "wal_shm \<Rightarrow> wal_shm \<Rightarrow> bool" where
  "same_headers s s' \<longleftrightarrow> hdrCopy0 s = hdrCopy0 s' \<and> hdrCopy1 s = hdrCopy1 s' \<and> ckptInfo s = ckptInfo s'"

lemma same_headers_upd [simp]: "same_headers s (s\<lparr>shmPage := f\<rparr>)" "same_headers s s"
  by (simp_all add: same_headers_def)

lemma same_headers_trans: "same_headers s s' \<Longrightarrow> same_headers s' s'' \<Longrightarrow> same_headers s s''"
  by (simp add: same_headers_def)

lemma walCleanupHash_ok:
  assumes ok: "index_ok log (shm w)" and K: "mxFrame (hdr w) \<le> length log" and m: "mapped_to (mxFrame (hdr w)) w"
  shows "\<exists>s'. walCleanupHash w = w\<lparr>shm := s'\<rparr> \<and> index_ok (take (mxFrame (hdr w)) log) s' \<and> same_headers (shm w) s'"
proof (cases "mxFrame (hdr w) = 0")
  case True
  then show ?thesis by (intro exI [of _ "shm w"]) (simp add: walCleanupHash_def index_ok_def)
next
  case False
  let ?t = "walFramePage (mxFrame (hdr w))"
  have "walHashGet w ?t = (SQLITE_OK, \<lparr>locPage = ?t, iZero = table_zero ?t\<rparr>, w)"
    using mapped_toD [OF m] False ok K by (intro walHashGet_mapped) (simp_all add: index_ok_def)
  then have "walCleanupHash w = put_page w ?t (cleanup_page (table_size ?t) (mxFrame (hdr w) - table_zero ?t) (wi w ?t))"
    using False by (simp add: walCleanupHash_def)
  then show ?thesis using index_cleanup_page [OF ok _ K] False by (simp only: put_page_shm) (metis same_headers_upd(1) neq0_conv)
qed

lemma index_append_page:
  assumes ok: "index_ok log s" and b: "length log + 8193 < 2 ^ 32" and q: "q \<noteq> 0"
    and t: "t = walFramePage (Suc (length log))"
    and p: "if length log = table_zero t then p = clear_page (table_size t) p0 else p = shmPage s t"
  shows "\<exists>k. find_slot (aHash p) (walHash q) (Suc (length log) - table_zero t) = Some k \<and>
    index_ok (log @ [q]) (s\<lparr>shmPage := (shmPage s)(t :=
      \<lparr>aPgno = (aPgno p)((length log - table_zero t) mod HASHTABLE_NPAGE := q),
       aHash = (aHash p)(k := (Suc (length log) - table_zero t) mod 2 ^ 16)\<rparr>)\<rparr>)"
proof -
  have z: "table_zero t \<le> length log" "length log < table_zero (Suc t)"
    using walFramePage_iff [of "Suc (length log)" t] b t by auto
  let ?n = "length log - table_zero t"
  have n: "?n < table_size t" "?n < 4096" using z table_end [of t] table_size_bound [of t] by linarith+
  have room: "length (table_part t log) < table_size t"
    using z table_end [of t] by (simp only: length_table_part min_less_iff_disj) linarith
  have len: "length (table_part t log) = ?n" using z table_end [of t] by (simp add: length_table_part)
  have pok: "table_ok (table_size t) (table_part t log) p"
  proof (cases "length log = table_zero t")
    case True
    then show ?thesis using p table_size_bound [of t] by (simp add: table_part_def table_clear)
  next
    case False
    then show ?thesis using p ok z by (auto simp: index_ok_def)
  qed
  obtain k where k: "find_slot (aHash p) (walHash q) (Suc ?n) = Some k"
      "table_ok (table_size t) (table_part t log @ [q]) \<lparr>aPgno = (aPgno p)(?n := q), aHash = (aHash p)(k := Suc ?n)\<rparr>"
    using table_append [OF pok room q len [symmetric]] by blast
  have e: "Suc (length log) - table_zero t = Suc ?n" using z by simp
  have other: "table_ok (table_size u) (table_part u (log @ [q])) (shmPage s u)" if u: "table_zero u < Suc (length log)" "u \<noteq> t" for u
  proof -
    have "u < t" using u z table_zero_mono [of "Suc t" u] by (cases "u < t") auto
    then have "table_part u (log @ [q]) = table_part u log" and "table_zero u < length log"
      using table_part_take_same [of "length log" log u "[q]"] table_zero_mono [of "Suc u" t] table_end [of u] table_size_bound [of u] z by auto
    then show ?thesis using ok by (simp add: index_ok_def)
  qed
  show ?thesis unfolding e using k other b n(2) table_part_snoc [OF z, of q] by (auto simp: index_ok_def)
qed

lemma walIndexAppend_ok:
  assumes ok: "index_ok log (shm w)" and K: "K \<le> length log" "K = length log \<or> K = mxFrame (hdr w)"
    and b: "K + 8193 < 2 ^ 32" and q: "q \<noteq> 0" and m: "mapped_to (Suc K) w"
  shows "\<exists>s'. walIndexAppend w (Suc K) q = (SQLITE_OK, w\<lparr>shm := s'\<rparr>) \<and> index_ok (take K log @ [q]) s' \<and> same_headers (shm w) s'"
proof -
  let ?t = "walFramePage (Suc K)" let ?z = "table_zero ?t"
  have z: "?z \<le> K" "K < table_zero (Suc ?t)" using walFramePage_iff [of "Suc K" ?t] b by auto
  have get: "walHashGet w ?t = (SQLITE_OK, \<lparr>locPage = ?t, iZero = ?z\<rparr>, w)"
    using mapped_toD [OF m] b by (intro walHashGet_mapped) simp_all
  define w1 where "w1 = (if Suc K - ?z = 1 then put_page w ?t (clear_page (table_size ?t) (wi w ?t)) else w)"
  define w2 where "w2 = (if aPgno (wi w1 ?t) (K - ?z) \<noteq> 0 then walCleanupHash w1 else w1)"
  have idx: "Suc K - ?z - 1 = K - ?z" using z by simp
  have app: "walIndexAppend w (Suc K) q =
     (case find_slot (aHash (wi w2 ?t)) (walHash q) (Suc K - ?z) of None \<Rightarrow> (SQLITE_CORRUPT, w2)
      | Some iKey \<Rightarrow> (SQLITE_OK, put_page w2 ?t \<lparr>aPgno = (aPgno (wi w2 ?t))((K - ?z) mod 4096 := q),
          aHash = (aHash (wi w2 ?t))(iKey := (Suc K - ?z) mod 2 ^ 16)\<rparr>))"
    by (simp only: walIndexAppend_def get prod.case Let_def wal_hash_loc.select_convs if_False simp_thms idx w2_def w1_def)
  have "\<exists>s2. w2 = w\<lparr>shm := s2\<rparr> \<and> index_ok (take K log) s2 \<and> same_headers (shm w) s2 \<and>
     (if K = ?z then wi w2 ?t = clear_page (table_size ?t) (wi w ?t) else True)"
  proof (cases "K = ?z")
    case True
    have c: "w1 = put_page w ?t (clear_page (table_size ?t) (wi w ?t))" using True by (simp add: w1_def)
    then have "w2 = w1" using table_size_bound [of ?t] True by (simp add: w2_def put_page_def clear_page_def)
    moreover have "index_ok (take K log) (shm w1)"
    proof -
      have "table_ok (table_size u) (table_part u (take K log)) (shmPage (shm w1) u)" if u: "table_zero u < K" for u
      proof -
        have ut: "u < ?t" using u True table_zero_mono [of ?t u] by (cases "u < ?t") auto
        then have "table_part u (take K log) = table_part u log"
          using table_part_take_same [OF K(1), of u "[]"] table_zero_mono [of "Suc u" ?t] True by simp
        then show ?thesis using ok u K(1) ut by (simp add: c put_page_def index_ok_def)
      qed
      then show ?thesis using ok K(1) by (simp add: index_ok_def)
    qed
    ultimately show ?thesis using True c by (intro exI [of _ "shm w1"]) (simp add: put_page_def)
  next
    case False
    have w1: "w1 = w" using False z by (simp add: w1_def)
    show ?thesis
    proof (cases "K = length log")
      case True
      have "table_ok (table_size ?t) (table_part ?t log) (wi w ?t)" using ok False z True by (simp add: index_ok_def)
      then have "aPgno (wi w ?t) (K - ?z) = 0"
        using True z table_end [of ?t] by (simp add: table_ok_def length_table_part)
      then show ?thesis using w1 True ok False by (intro exI [of _ "shm w"]) (simp add: w2_def)
    next
      case less: False
      then have mx: "K = mxFrame (hdr w)" "K < length log" using K by auto
      have same: "walFramePage K = ?t" using walFramePage_iff [of K ?t] False z b by auto
      have "table_ok (table_size ?t) (table_part ?t log) (wi w ?t)" using ok False z mx by (simp add: index_ok_def)
      then have "aPgno (wi w ?t) (K - ?z) \<noteq> 0"
        by (rule table_entry) (use mx z table_end [of ?t] in \<open>simp only: length_table_part min_less_iff_conj, linarith\<close>)
      moreover obtain s' where "walCleanupHash w = w\<lparr>shm := s'\<rparr>" "index_ok (take K log) s'" "same_headers (shm w) s'"
        using walCleanupHash_ok [OF ok _ mapped_to_mono [OF m]] mx by auto
      ultimately show ?thesis using False w1 by (intro exI [of _ s']) (simp add: w2_def)
    qed
  qed
  then obtain s2 where s2: "w2 = w\<lparr>shm := s2\<rparr>" "index_ok (take K log) s2" "same_headers (shm w) s2"
    "K = ?z \<Longrightarrow> wi w2 ?t = clear_page (table_size ?t) (wi w ?t)" by (auto split: if_splits)
  have len: "length (take K log) = K" using K by simp
  have page: "if length (take K log) = ?z then wi w2 ?t = clear_page (table_size ?t) (wi w ?t) else wi w2 ?t = shmPage s2 ?t"
    using s2(1,4) len by simp
  obtain k where k: "find_slot (aHash (wi w2 ?t)) (walHash q) (Suc K - ?z) = Some k"
    "index_ok (take K log @ [q]) (s2\<lparr>shmPage := (shmPage s2)(?t := \<lparr>aPgno = (aPgno (wi w2 ?t))((K - ?z) mod 4096 := q),
          aHash = (aHash (wi w2 ?t))(k := (Suc K - ?z) mod 2 ^ 16)\<rparr>)\<rparr>)"
    using index_append_page [OF s2(2) _ q _ page, unfolded len, OF b refl] by blast
  have "walIndexAppend w (Suc K) q = (SQLITE_OK, w\<lparr>shm := s2\<lparr>shmPage := (shmPage s2)(?t :=
      \<lparr>aPgno = (aPgno (wi w2 ?t))((K - ?z) mod 4096 := q), aHash = (aHash (wi w2 ?t))(k := (Suc K - ?z) mod 2 ^ 16)\<rparr>)\<rparr>\<rparr>)"
    unfolding app k(1) option.case put_page_shm by (simp add: s2(1))
  then show ?thesis using k(2) s2(3) same_headers_trans same_headers_upd(1) by blast
qed

end
