(* ===== verification/WalLog.thy ===== *)
theory WalLog
  imports Wal
begin

text \<open>
  The log file of \<open>src/src/wal.c\<close>: checksums, encoding and decoding frames, the header of the wal-index, writing
  frames and recovering the wal-index from the log.
\<close>

section \<open>Calls of the operating system layer\<close>

definition os_read :: "wal \<Rightarrow> nat \<Rightarrow> nat \<Rightarrow> rc \<times> bytes \<times> wal" where
  "os_read w amt off = (case unixRead (walFd w) amt off (sysAns w) of (rc, buf, f, al) \<Rightarrow> (rc, buf, w\<lparr>walFd := f, sysAns := al\<rparr>))"

definition os_write :: "wal \<Rightarrow> bytes \<Rightarrow> nat \<Rightarrow> rc \<times> wal" where
  "os_write w buf off = (case unixWrite (walFd w) buf off (sysAns w) of (rc, f, al) \<Rightarrow> (rc, w\<lparr>walFd := f, sysAns := al\<rparr>))"

definition os_truncate :: "wal \<Rightarrow> nat \<Rightarrow> rc \<times> wal" where
  "os_truncate w n = (case unixTruncate (walFd w) n (sysAns w) of (rc, f, al) \<Rightarrow> (rc, w\<lparr>walFd := f, sysAns := al\<rparr>))"

definition os_size :: "wal \<Rightarrow> rc \<times> nat \<times> wal" where
  "os_size w =
     (let (e, w) = (case statAns w of [] \<Rightarrow> (None, w) | a # as \<Rightarrow> (a, w\<lparr>statAns := as\<rparr>))
      in case unixFileSize (walFd w) e of (rc, n, f) \<Rightarrow> (rc, n, w\<lparr>walFd := f\<rparr>))"

definition os_sync :: "wal \<Rightarrow> rc \<times> wal" where
  "os_sync w = (case syncAns w of [] \<Rightarrow> (SQLITE_OK, w) | r # rs \<Rightarrow> (r, w\<lparr>syncAns := rs\<rparr>))"

definition os_randomness :: "nat \<Rightarrow> wal \<Rightarrow> bytes \<times> wal" where
  "os_randomness n w = (take n (randAns w @ replicate n 0), w\<lparr>randAns := drop n (randAns w)\<rparr>)"

text \<open>Locks are no-ops in the exclusive modes; releasing a lock has no result.\<close>

definition shm_lock :: "wal \<Rightarrow> rc \<times> wal" where
  "shm_lock w = (case lockAns w of [] \<Rightarrow> (SQLITE_OK, w) | r # rs \<Rightarrow> (r, w\<lparr>lockAns := rs\<rparr>))"

definition walLockShared :: "wal \<Rightarrow> nat \<Rightarrow> rc \<times> wal" where
  "walLockShared w lockIdx = (if exclusiveMode w \<noteq> WAL_NORMAL_MODE then (SQLITE_OK, w) else shm_lock w)"

definition walLockExclusive :: "wal \<Rightarrow> nat \<Rightarrow> nat \<Rightarrow> rc \<times> wal" where
  "walLockExclusive w lockIdx n = (if exclusiveMode w \<noteq> WAL_NORMAL_MODE then (SQLITE_OK, w) else shm_lock w)"

abbreviation WAL_READ_LOCK :: "nat \<Rightarrow> nat" where "WAL_READ_LOCK i \<equiv> 3 + i"

section \<open>Checksums\<close>

text \<open>The 32-bit words of a buffer in the byte order of the machine.\<close>

definition load32 :: "bool \<Rightarrow> bytes \<Rightarrow> u32" where
  "load32 be a = sqlite3Get4byte (if be then take 4 a else rev (take 4 a))"

fun words32 :: "bool \<Rightarrow> bytes \<Rightarrow> nat \<Rightarrow> u32 list" where
  "words32 be a 0 = []"
| "words32 be a (Suc n) = load32 be a # words32 be (drop 4 a) n"

definition BYTESWAP32 :: "u32 \<Rightarrow> u32" where
  "BYTESWAP32 x =
     push_bit 24 (x AND 0x000000FF) + push_bit 8 (x AND 0x0000FF00) +
     drop_bit 8 (x AND 0x00FF0000) + drop_bit 24 (x AND 0xFF000000)"

text \<open>The three loops; each reads from \<open>aData\<close> before it compares with the end.\<close>

function cksum_swap :: "u32 list \<Rightarrow> u32 \<Rightarrow> u32 \<Rightarrow> u32 \<times> u32" where
  "cksum_swap aData s1 s2 =
     (let s1 = s1 + (BYTESWAP32 (aData ! 0) + s2);
          s2 = s2 + (BYTESWAP32 (aData ! 1) + s1)
      in if 2 < length aData then cksum_swap (drop 2 aData) s1 s2 else (s1, s2))"
  by pat_completeness auto
termination
  by (relation "measure (\<lambda>(aData, s1, s2). length aData)") auto

function cksum_pairs :: "u32 list \<Rightarrow> u32 \<Rightarrow> u32 \<Rightarrow> u32 \<times> u32" where
  "cksum_pairs aData s1 s2 =
     (let s1 = s1 + (aData ! 0 + s2);
          s2 = s2 + (aData ! 1 + s1)
      in if 2 < length aData then cksum_pairs (drop 2 aData) s1 s2 else (s1, s2))"
  by pat_completeness auto
termination
  by (relation "measure (\<lambda>(aData, s1, s2). length aData)") auto

function cksum_unrolled :: "u32 list \<Rightarrow> u32 \<Rightarrow> u32 \<Rightarrow> u32 \<times> u32" where
  "cksum_unrolled aData s1 s2 =
     (let s1 = s1 + (aData ! 0 + s2); s2 = s2 + (aData ! 1 + s1);
          s1 = s1 + (aData ! 2 + s2); s2 = s2 + (aData ! 3 + s1);
          s1 = s1 + (aData ! 4 + s2); s2 = s2 + (aData ! 5 + s1);
          s1 = s1 + (aData ! 6 + s2); s2 = s2 + (aData ! 7 + s1);
          s1 = s1 + (aData ! 8 + s2); s2 = s2 + (aData ! 9 + s1);
          s1 = s1 + (aData ! 10 + s2); s2 = s2 + (aData ! 11 + s1);
          s1 = s1 + (aData ! 12 + s2); s2 = s2 + (aData ! 13 + s1);
          s1 = s1 + (aData ! 14 + s2); s2 = s2 + (aData ! 15 + s1)
      in if 16 < length aData then cksum_unrolled (drop 16 aData) s1 s2 else (s1, s2))"
  by pat_completeness auto
termination
  by (relation "measure (\<lambda>(aData, s1, s2). length aData)") auto

declare cksum_swap.simps [simp del] cksum_pairs.simps [simp del] cksum_unrolled.simps [simp del]

definition walChecksumBytes :: "bool \<Rightarrow> bool \<Rightarrow> bytes \<Rightarrow> nat \<Rightarrow> (u32 \<times> u32) option \<Rightarrow> u32 \<times> u32" where
  "walChecksumBytes be nativeCksum a nByte aIn =
     (let (s1, s2) = (case aIn of Some c \<Rightarrow> c | None \<Rightarrow> (0, 0));
          aData = words32 be a (nByte div 4)
      in if \<not> nativeCksum then cksum_swap aData s1 s2
         else if nByte mod 64 = 0 then cksum_unrolled aData s1 s2
         else cksum_pairs aData s1 s2)"

section \<open>The header of the wal-index\<close>

definition native4 :: "bool \<Rightarrow> u32 \<Rightarrow> bytes" where
  "native4 be v = (if be then sqlite3Put4byte v else rev (sqlite3Put4byte v))"

text \<open>The memory of a \<open>WalIndexHdr\<close> before its last field.\<close>

definition hdr_bytes :: "bool \<Rightarrow> wal_hdr \<Rightarrow> bytes" where
  "hdr_bytes be h =
     native4 be (iVersion h) @ native4 be (unusedHdr h) @ native4 be (iChange h) @ [isInitHdr h, bigEndCksum h] @
     (if be then put2byte (hSzPage h) else rev (put2byte (hSzPage h))) @
     native4 be (of_nat (mxFrame h)) @ native4 be (of_nat (hNPage h)) @
     native4 be (fst (aFrameCksum h)) @ native4 be (snd (aFrameCksum h)) @ aSalt h"

definition walIndexWriteHdr :: "wal \<Rightarrow> wal" where
  "walIndexWriteHdr w =
     (let h = (hdr w)\<lparr>isInitHdr := 1, iVersion := WALINDEX_MAX_VERSION\<rparr>;
          h = h\<lparr>aCksum := walChecksumBytes (bigEndian w) True (hdr_bytes (bigEndian w) h) 40 None\<rparr>;
          w = w\<lparr>hdr := h\<rparr>;
          w = w\<lparr>shm := (shm w)\<lparr>hdrCopy1 := h\<rparr>\<rparr>
      in w\<lparr>shm := (shm w)\<lparr>hdrCopy0 := h\<rparr>\<rparr>)"

definition page_size_of :: "nat \<Rightarrow> nat" where
  "page_size_of sz = (sz AND 0xfe00) + push_bit 16 (sz AND 1)"

definition walPagesize :: "wal \<Rightarrow> nat" where
  "walPagesize w = page_size_of (hSzPage (hdr w))"

text \<open>The result (true if there is a problem), whether the cached header changed, and the connection.\<close>

definition walIndexTryHdr :: "wal \<Rightarrow> bool \<times> bool \<times> wal" where
  "walIndexTryHdr w =
     (let h1 = hdrCopy0 (shm w); h2 = hdrCopy1 (shm w)
      in if h1 \<noteq> h2 then (True, False, w)
         else if isInitHdr h1 = 0 then (True, False, w)
         else if walChecksumBytes (bigEndian w) True (hdr_bytes (bigEndian w) h1) 40 None \<noteq> aCksum h1 then (True, False, w)
         else if hdr w \<noteq> h1 then (False, True, w\<lparr>hdr := h1, wSzPage := page_size_of (hSzPage h1)\<rparr>)
         else (False, False, w))"

section \<open>Frames\<close>

definition walFrameOffset :: "nat \<Rightarrow> nat \<Rightarrow> nat" where
  "walFrameOffset iFrame szPage = WAL_HDRSIZE + (iFrame - 1) * (szPage + WAL_FRAME_HDRSIZE)"

text \<open>Whether the checksums of the log are in the byte order of the machine.\<close>

definition native_cksum :: "wal \<Rightarrow> bool" where
  "native_cksum w \<longleftrightarrow> bigEndCksum (hdr w) = (if bigEndian w then 1 else 0)"

definition set_cksum :: "wal \<Rightarrow> u32 \<times> u32 \<Rightarrow> wal" where
  "set_cksum w c = w\<lparr>hdr := (hdr w)\<lparr>aFrameCksum := c\<rparr>\<rparr>"

definition walEncodeFrame :: "wal \<Rightarrow> pgno \<Rightarrow> nat \<Rightarrow> bytes \<Rightarrow> bytes \<times> wal" where
  "walEncodeFrame w iPage nTruncate aData =
     (let aFrame = sqlite3Put4byte (of_nat iPage) @ sqlite3Put4byte (of_nat nTruncate)
      in if iReCksum w = 0 then
           let c = walChecksumBytes (bigEndian w) (native_cksum w) aFrame 8 (Some (aFrameCksum (hdr w)));
               c = walChecksumBytes (bigEndian w) (native_cksum w) aData (wSzPage w) (Some c)
           in (aFrame @ aSalt (hdr w) @ sqlite3Put4byte (fst c) @ sqlite3Put4byte (snd c), set_cksum w c)
         else (aFrame @ replicate 16 0, w))"

text \<open>The page number and the size of the database, or \<open>None\<close> for a frame that is not valid.\<close>

definition walDecodeFrame :: "wal \<Rightarrow> bytes \<Rightarrow> bytes \<Rightarrow> (pgno \<times> nat) option \<times> wal" where
  "walDecodeFrame w aData aFrame =
     (if aSalt (hdr w) \<noteq> subbytes aFrame 8 8 then (None, w)
      else
        let pgno = unat (sqlite3Get4byte aFrame)
        in if pgno = 0 then (None, w)
           else if wSzPage w = 0 then (None, w)
           else
             let c = walChecksumBytes (bigEndian w) (native_cksum w) aFrame 8 (Some (aFrameCksum (hdr w)));
                 c = walChecksumBytes (bigEndian w) (native_cksum w) aData (wSzPage w) (Some c);
                 w = set_cksum w c
             in if fst c \<noteq> sqlite3Get4byte (drop 16 aFrame) \<or> snd c \<noteq> sqlite3Get4byte (drop 20 aFrame) then (None, w)
                else (Some (pgno, unat (sqlite3Get4byte (drop 4 aFrame))), w))"

section \<open>Writing frames\<close>

record wal_writer =
  iSyncPoint :: nat
  syncFlags :: nat
  szPageW :: nat

definition walWriteToLog :: "wal_writer \<Rightarrow> wal \<Rightarrow> bytes \<Rightarrow> nat \<Rightarrow> rc \<times> wal" where
  "walWriteToLog p w pContent iOffset =
     (if iOffset < iSyncPoint p \<and> iSyncPoint p \<le> iOffset + length pContent then
        let iFirstAmt = iSyncPoint p - iOffset
        in case os_write w (take iFirstAmt pContent) iOffset of (rc, w) \<Rightarrow>
             if rc \<noteq> SQLITE_OK then (rc, w)
             else case os_sync w of (rc, w) \<Rightarrow>
               if length pContent = iFirstAmt \<or> rc \<noteq> SQLITE_OK then (rc, w)
               else os_write w (drop iFirstAmt pContent) (iOffset + iFirstAmt)
      else os_write w pContent iOffset)"

definition walWriteOneFrame :: "wal_writer \<Rightarrow> wal \<Rightarrow> pgno \<times> bytes \<Rightarrow> nat \<Rightarrow> nat \<Rightarrow> rc \<times> wal" where
  "walWriteOneFrame p w pPage nTruncate iOffset =
     (case walEncodeFrame w (fst pPage) nTruncate (snd pPage) of (aFrame, w) \<Rightarrow>
        case walWriteToLog p w aFrame iOffset of (rc, w) \<Rightarrow>
          if rc \<noteq> SQLITE_OK then (rc, w)
          else walWriteToLog p w (take (szPageW p) (snd pPage)) (iOffset + WAL_FRAME_HDRSIZE))"

text \<open>The loop of \<open>walRewriteChecksums\<close> over the frames from \<open>iRead\<close> on, \<open>n\<close> of them.\<close>

fun rewrite_loop :: "wal \<Rightarrow> nat \<Rightarrow> nat \<Rightarrow> nat \<Rightarrow> rc \<times> wal" where
  "rewrite_loop w szPage iRead 0 = (SQLITE_OK, w)"
| "rewrite_loop w szPage iRead (Suc n) =
     (let iOff = walFrameOffset iRead szPage
      in case os_read w (szPage + WAL_FRAME_HDRSIZE) iOff of (rc, aBuf, w) \<Rightarrow>
           if rc \<noteq> SQLITE_OK then (rc, w)
           else case walEncodeFrame w (unat (sqlite3Get4byte aBuf)) (unat (sqlite3Get4byte (drop 4 aBuf))) (drop WAL_FRAME_HDRSIZE aBuf) of
             (aFrame, w) \<Rightarrow> case os_write w aFrame iOff of (rc, w) \<Rightarrow>
               if rc \<noteq> SQLITE_OK then (rc, w) else rewrite_loop w szPage (Suc iRead) n)"

definition walRewriteChecksums :: "wal \<Rightarrow> nat \<Rightarrow> rc \<times> wal" where
  "walRewriteChecksums w iLast =
     (let szPage = wSzPage w; (b, al) = next_alloc (heapAns w); w = w\<lparr>heapAns := al\<rparr>
      in if \<not> b then (SQLITE_NOMEM, w)
         else
           let iCksumOff = (if iReCksum w = 1 then 24 else walFrameOffset (iReCksum w - 1) szPage + 16)
           in case os_read w 8 iCksumOff of (rc, aBuf, w) \<Rightarrow>
                let w = set_cksum w (sqlite3Get4byte aBuf, sqlite3Get4byte (drop 4 aBuf));
                    iRead = iReCksum w;
                    w = w\<lparr>iReCksum := 0\<rparr>
                in if rc \<noteq> SQLITE_OK then (rc, w) else rewrite_loop w szPage iRead (Suc iLast - iRead))"


text \<open>
  The loop of \<open>walFrames\<close> over the dirty pages: the code, the last frame number, the next offset, the last page
  that was appended, and for every page whether it was appended (\<open>PGHDR_WAL_APPEND\<close>) or replaced an earlier
  frame of the same transaction.
\<close>

fun write_frames ::
    "wal_writer \<Rightarrow> wal \<Rightarrow> nat \<Rightarrow> bool \<Rightarrow> nat \<Rightarrow> nat \<Rightarrow> nat \<Rightarrow> (pgno \<times> bytes) option \<Rightarrow> (pgno \<times> bytes) list \<Rightarrow>
     rc \<times> nat \<times> nat \<times> (pgno \<times> bytes) option \<times> bool list \<times> wal" where
  "write_frames p w iFirst isCommit nTruncate iFrame iOffset pLast [] = (SQLITE_OK, iFrame, iOffset, pLast, [], w)"
| "write_frames p w iFirst isCommit nTruncate iFrame iOffset pLast (pg # pList) =
     (let (iWrite, w) =
        (if iFirst \<noteq> 0 \<and> (pList \<noteq> [] \<or> \<not> isCommit)
         then case walFindFrame w (fst pg) of (rc, iWrite, w) \<Rightarrow> (iWrite, w) else (0, w))
      in if iFirst \<noteq> 0 \<and> (pList \<noteq> [] \<or> \<not> isCommit) \<and> iWrite \<ge> iFirst then
           let w = (if iReCksum w = 0 \<or> iWrite < iReCksum w then w\<lparr>iReCksum := iWrite\<rparr> else w)
           in case os_write w (take (szPageW p) (snd pg)) (walFrameOffset iWrite (szPageW p) + WAL_FRAME_HDRSIZE) of (rc, w) \<Rightarrow>
                if rc \<noteq> SQLITE_OK then (rc, iFrame, iOffset, pLast, [], w)
                else case write_frames p w iFirst isCommit nTruncate iFrame iOffset pLast pList of
                  (rc, iFrame, iOffset, pLast, fl, w) \<Rightarrow> (rc, iFrame, iOffset, pLast, False # fl, w)
         else
           let iFrame = iFrame + 1; nDbSize = (if isCommit \<and> pList = [] then nTruncate else 0)
           in case walWriteOneFrame p w pg nDbSize iOffset of (rc, w) \<Rightarrow>
                if rc \<noteq> SQLITE_OK then (rc, iFrame, iOffset, pLast, [], w)
                else case write_frames p w iFirst isCommit nTruncate iFrame (iOffset + szPageW p + WAL_FRAME_HDRSIZE) (Some pg) pList of
                  (rc, iFrame, iOffset, pLast, fl, w) \<Rightarrow> (rc, iFrame, iOffset, pLast, True # fl, w))"

text \<open>Copies of the last frame up to the next sector boundary: the code, the number of copies, the next offset.\<close>

function pad_frames :: "wal_writer \<Rightarrow> wal \<Rightarrow> pgno \<times> bytes \<Rightarrow> nat \<Rightarrow> nat \<Rightarrow> nat \<Rightarrow> rc \<times> nat \<times> nat \<times> wal" where
  "pad_frames p w pLast nTruncate nExtra iOffset =
     (if iOffset < iSyncPoint p then
        case walWriteOneFrame p w pLast nTruncate iOffset of (rc, w) \<Rightarrow>
          if rc \<noteq> SQLITE_OK then (rc, nExtra, iOffset, w)
          else pad_frames p w pLast nTruncate (nExtra + 1) (iOffset + szPageW p + WAL_FRAME_HDRSIZE)
      else (SQLITE_OK, nExtra, iOffset, w))"
  by pat_completeness auto
termination
  by (relation "measure (\<lambda>(p, w, pLast, nTruncate, nExtra, iOffset). iSyncPoint p - iOffset)") auto

declare pad_frames.simps [simp del]

fun index_frames :: "wal \<Rightarrow> nat \<Rightarrow> pgno list \<Rightarrow> rc \<times> nat \<times> wal" where
  "index_frames w iFrame [] = (SQLITE_OK, iFrame, w)"
| "index_frames w iFrame (q # qs) =
     (case walIndexAppend w (iFrame + 1) q of (rc, w) \<Rightarrow>
        if rc \<noteq> SQLITE_OK then (rc, iFrame + 1, w) else index_frames w (iFrame + 1) qs)"

text \<open>An error of \<open>walLimitSize\<close> is only logged.\<close>

definition walLimitSize :: "wal \<Rightarrow> nat \<Rightarrow> wal" where
  "walLimitSize w nMax =
     (case os_size w of (rx, sz, w) \<Rightarrow> if rx = SQLITE_OK \<and> sz > nMax then snd (os_truncate w nMax) else w)"

text \<open>The block of \<open>walFrames\<close> that writes the header of the log.\<close>

definition write_wal_header :: "wal \<Rightarrow> nat \<Rightarrow> rc \<times> wal" where
  "write_wal_header w szPage =
     (let (salt, w) = (if nCkpt w = 0 then os_randomness 8 w else (aSalt (hdr w), w));
          w = w\<lparr>hdr := (hdr w)\<lparr>aSalt := salt\<rparr>\<rparr>;
          aWalHdr = sqlite3Put4byte (WAL_MAGIC OR (if bigEndian w then 1 else 0)) @ sqlite3Put4byte WAL_MAX_VERSION @
                    sqlite3Put4byte (of_nat szPage) @ sqlite3Put4byte (nCkpt w) @ salt;
          c = walChecksumBytes (bigEndian w) True aWalHdr 24 None;
          w = w\<lparr>wSzPage := szPage, truncateOnCommit := True,
                 hdr := (hdr w)\<lparr>bigEndCksum := (if bigEndian w then 1 else 0), aFrameCksum := c\<rparr>\<rparr>
      in case os_write w (aWalHdr @ sqlite3Put4byte (fst c) @ sqlite3Put4byte (snd c)) 0 of (rc, w) \<Rightarrow>
           if rc \<noteq> SQLITE_OK then (rc, w) else if syncHeader w then os_sync w else (SQLITE_OK, w))"

text \<open>
  The next code of \<open>walFrames\<close>, for a log that is not restarted: \<open>pList\<close> has the page numbers and images of the
  dirty pages.
\<close>

definition walFrames_index :: "wal \<Rightarrow> nat \<Rightarrow> pgno list \<Rightarrow> nat \<Rightarrow> bool \<Rightarrow> rc \<times> wal" where
  "walFrames_index w szPage pgs nTruncate isCommit =
     (case index_frames w (mxFrame (hdr w)) pgs of (rc, iFrame, w) \<Rightarrow>
        if rc \<noteq> SQLITE_OK then (rc, w)
        else
          let w = w\<lparr>hdr := (hdr w)\<lparr>hSzPage := ((szPage AND 0xff00) OR drop_bit 16 szPage) mod 2 ^ 16, mxFrame := iFrame\<rparr>\<rparr>
          in if isCommit then
               (SQLITE_OK, (walIndexWriteHdr (w\<lparr>hdr := (hdr w)\<lparr>iChange := iChange (hdr w) + 1, hNPage := nTruncate\<rparr>\<rparr>))\<lparr>iCallback := iFrame\<rparr>)
             else (SQLITE_OK, w))"

text \<open>
  Padding and syncing at the end of a transaction: the code, whether \<open>walFrames\<close> returns at once with it (a
  failed write of a padding frame), and the number of padding frames.  A commit always appends its last page,
  so that \<open>pLast\<close> is a page.
\<close>

definition walFrames_sync :: "wal_writer \<Rightarrow> wal \<Rightarrow> nat \<Rightarrow> (pgno \<times> bytes) option \<Rightarrow> nat \<Rightarrow> rc \<times> bool \<times> nat \<times> wal" where
  "walFrames_sync p w nTruncate pLast iOffset =
     (let sp = (iOffset + sectorSize w - 1) div sectorSize w * sectorSize w;
          (rc, nExtra, off, w') = (if padToSectorBoundary w
             then pad_frames (p\<lparr>iSyncPoint := sp\<rparr>) w (the pLast) nTruncate 0 iOffset else (SQLITE_OK, 0, iOffset, w))
      in if rc \<noteq> SQLITE_OK then (rc, True, nExtra, w')
         else if \<not> padToSectorBoundary w \<or> sp = iOffset
              then case os_sync w' of (rc, w') \<Rightarrow> (rc, False, nExtra, w') else (SQLITE_OK, False, nExtra, w'))"

definition walFrames_tail ::
    "wal_writer \<Rightarrow> wal \<Rightarrow> (pgno \<times> bytes) list \<Rightarrow> bool list \<Rightarrow> (pgno \<times> bytes) option \<Rightarrow> nat \<Rightarrow> bool \<Rightarrow> nat \<Rightarrow> nat \<Rightarrow> rc \<times> wal" where
  "walFrames_tail p w pList fl pLast nTruncate isCommit iFrame iOffset =
     (case (if isCommit \<and> syncFlags p mod 4 \<noteq> 0 then walFrames_sync p w nTruncate pLast iOffset else (SQLITE_OK, False, 0, w)) of
        (rc, failed, nExtra, w) \<Rightarrow>
          if failed then (rc, w)
          else
            let w = (if isCommit \<and> truncateOnCommit w \<and> mxWalSize w \<ge> 0
                     then (walLimitSize w (max (nat (mxWalSize w)) (walFrameOffset (iFrame + nExtra + 1) (szPageW p))))\<lparr>truncateOnCommit := False\<rparr>
                     else w)
            in if rc \<noteq> SQLITE_OK then (rc, w)
               else walFrames_index w (szPageW p)
                      (map (fst \<circ> fst) (filter snd (zip pList fl)) @ replicate nExtra (fst (the pLast))) nTruncate isCommit)"

section \<open>Restarting the log\<close>

definition walRestartHdr :: "wal \<Rightarrow> bytes \<Rightarrow> wal" where
  "walRestartHdr w salt1 =
     (let w = w\<lparr>nCkpt := nCkpt w + 1,
               hdr := (hdr w)\<lparr>mxFrame := 0, aSalt := sqlite3Put4byte (1 + sqlite3Get4byte (aSalt (hdr w))) @ salt1\<rparr>\<rparr>;
          w = walIndexWriteHdr w
      in w\<lparr>shm := (shm w)\<lparr>ckptInfo := \<lparr>nBackfill = 0,
            aReadMark = [aReadMark (ckptInfo (shm w)) ! 0, 0, READMARK_NOT_USED, READMARK_NOT_USED, READMARK_NOT_USED],
            nBackfillAttempted = 0\<rparr>\<rparr>\<rparr>)"

text \<open>The largest read mark that does not exceed \<open>mx\<close>, and its index, among the marks from index \<open>i\<close> on.\<close>

fun best_mark :: "nat \<Rightarrow> nat \<Rightarrow> nat \<Rightarrow> nat \<Rightarrow> nat list \<Rightarrow> nat \<times> nat" where
  "best_mark mx mxReadMark mxI i [] = (mxReadMark, mxI)"
| "best_mark mx mxReadMark mxI i (m # ms) =
     (if mxReadMark \<le> m \<and> m \<le> mx then best_mark mx m i (i + 1) ms else best_mark mx mxReadMark mxI (i + 1) ms)"

definition set_mark :: "wal \<Rightarrow> nat \<Rightarrow> nat \<Rightarrow> wal" where
  "set_mark w i m = w\<lparr>shm := (shm w)\<lparr>ckptInfo := (ckptInfo (shm w))\<lparr>aReadMark := (aReadMark (ckptInfo (shm w)))[i := m]\<rparr>\<rparr>\<rparr>"

text \<open>The first mark from \<open>i\<close> on whose exclusive lock is free, \<open>n\<close> marks being left; 0 if all are busy.\<close>

fun claim_mark :: "wal \<Rightarrow> nat \<Rightarrow> nat \<Rightarrow> nat \<Rightarrow> rc \<times> nat \<times> wal" where
  "claim_mark w mx i 0 = (SQLITE_BUSY, 0, w)"
| "claim_mark w mx i (Suc n) =
     (case walLockExclusive w (WAL_READ_LOCK i) 1 of (rc, w) \<Rightarrow>
        if rc = SQLITE_OK then (SQLITE_OK, i, set_mark w i mx)
        else if rc \<noteq> SQLITE_BUSY then (rc, 0, w) else claim_mark w mx (i + 1) n)"

text \<open>
  The part of \<open>walTryBeginRead\<close> that obtains a read lock on the log; \<open>None\<close> stands for \<open>WAL_RETRY\<close>.
\<close>

definition lock_snapshot :: "wal \<Rightarrow> rc option \<times> wal" where
  "lock_snapshot w =
     (let mx = mxFrame (hdr w);
          (mxReadMark, mxI) = best_mark mx 0 0 1 (drop 1 (aReadMark (ckptInfo (shm w))));
          (rc, mxReadMark, mxI, w) =
            (if readOnly w AND 2 = 0 \<and> (mxReadMark < mx \<or> mxI = 0) then
               case claim_mark w mx 1 (WAL_NREADER - 1) of (rc, i, w) \<Rightarrow>
                 if i \<noteq> 0 then (SQLITE_OK, mx, i, w) else (rc, mxReadMark, mxI, w)
             else (SQLITE_OK, mxReadMark, mxI, w))
      in if rc \<noteq> SQLITE_OK \<and> rc \<noteq> SQLITE_BUSY then (Some rc, w)
         else if mxI = 0 then (if rc = SQLITE_BUSY then None else Some SQLITE_READONLY_CANTINIT, w)
         else case walLockShared w (WAL_READ_LOCK mxI) of (rc, w) \<Rightarrow>
           if rc \<noteq> SQLITE_OK then (if rc_code rc mod 256 = rc_code SQLITE_BUSY then None else Some rc, w)
           else
             let w = w\<lparr>minFrame := nBackfill (ckptInfo (shm w)) + 1\<rparr>
             in if aReadMark (ckptInfo (shm w)) ! mxI \<noteq> mxReadMark \<or> hdrCopy0 (shm w) \<noteq> hdr w then (None, w)
                else (Some SQLITE_OK, w\<lparr>readLock := int mxI\<rparr>))"

text \<open>The calls of \<open>walTryBeginRead\<close> with \<open>useWal\<close> in \<open>walRestartLog\<close>; the counter ends them after 100 retries.\<close>

function begin_use_wal :: "wal \<Rightarrow> nat \<Rightarrow> rc \<times> wal" where
  "begin_use_wal w cnt =
     (let cnt = cnt + 1
      in if cnt > 100 then (SQLITE_PROTOCOL, w)
         else case lock_snapshot w of (Some rc, w) \<Rightarrow> (rc, w) | (None, w) \<Rightarrow> begin_use_wal w cnt)"
  by pat_completeness auto
termination
  by (relation "measure (\<lambda>(w, cnt). 101 - cnt)") auto

declare begin_use_wal.simps [simp del]

definition walRestartLog :: "wal \<Rightarrow> rc \<times> wal" where
  "walRestartLog w =
     (if readLock w = 0 then
        let (rc, w) =
          (if nBackfill (ckptInfo (shm w)) > 0 then
             let (salt1, w) = os_randomness 4 w
             in case walLockExclusive w (WAL_READ_LOCK 1) (WAL_NREADER - 1) of (rc, w) \<Rightarrow>
                  if rc = SQLITE_OK then (SQLITE_OK, walRestartHdr w salt1) else (rc, w)
           else (SQLITE_OK, w))
        in if rc \<noteq> SQLITE_OK \<and> rc \<noteq> SQLITE_BUSY then (rc, w) else begin_use_wal (w\<lparr>readLock := -1\<rparr>) 0
      else (SQLITE_OK, w))"

definition walFrames :: "wal \<Rightarrow> nat \<Rightarrow> (pgno \<times> bytes) list \<Rightarrow> nat \<Rightarrow> bool \<Rightarrow> nat \<Rightarrow> rc \<times> wal" where
  "walFrames w szPage pList nTruncate isCommit sync_flags =
     (let iFirst = (if hdr w \<noteq> hdrCopy0 (shm w) then mxFrame (hdrCopy0 (shm w)) + 1 else 0)
      in case walRestartLog w of (rc, w) \<Rightarrow>
        if rc \<noteq> SQLITE_OK then (rc, w)
        else case (if mxFrame (hdr w) = 0 then write_wal_header w szPage else (SQLITE_OK, w)) of (rc, w) \<Rightarrow>
          if rc \<noteq> SQLITE_OK then (rc, w)
          else if wSzPage w \<noteq> szPage then (SQLITE_CORRUPT, w)
          else
            let p = \<lparr>iSyncPoint = 0, syncFlags = sync_flags, szPageW = szPage\<rparr>; iFrame = mxFrame (hdr w)
            in case write_frames p w iFirst isCommit nTruncate iFrame (walFrameOffset (iFrame + 1) szPage) None pList of
                 (rc, iFrame, iOffset, pLast, fl, w) \<Rightarrow>
                   if rc \<noteq> SQLITE_OK then (rc, w)
                   else case (if isCommit \<and> iReCksum w \<noteq> 0 then walRewriteChecksums w iFrame else (SQLITE_OK, w)) of (rc, w) \<Rightarrow>
                     if rc \<noteq> SQLITE_OK then (rc, w)
                     else walFrames_tail p w pList fl pLast nTruncate isCommit iFrame iOffset)"

section \<open>Rolling back\<close>

text \<open>The calls of \<open>xUndo\<close> for \<open>n\<close> frames from \<open>iFrame\<close> on.\<close>

fun undo_frames :: "wal \<Rightarrow> (pgno \<Rightarrow> rc) \<Rightarrow> nat \<Rightarrow> nat \<Rightarrow> rc" where
  "undo_frames w xUndo iFrame 0 = SQLITE_OK"
| "undo_frames w xUndo iFrame (Suc n) =
     (let rc = xUndo (walFramePgno w iFrame) in if rc \<noteq> SQLITE_OK then rc else undo_frames w xUndo (iFrame + 1) n)"

definition sqlite3WalUndo :: "wal \<Rightarrow> (pgno \<Rightarrow> rc) \<Rightarrow> rc \<times> wal" where
  "sqlite3WalUndo w xUndo =
     (if writeLock w \<noteq> 0 then
        let iMax = mxFrame (hdr w);
            w = w\<lparr>hdr := hdrCopy0 (shm w)\<rparr>;
            rc = undo_frames w xUndo (mxFrame (hdr w) + 1) (iMax - mxFrame (hdr w));
            w = (if iMax \<noteq> mxFrame (hdr w) then walCleanupHash w else w)
        in (rc, w\<lparr>iReCksum := 0\<rparr>)
      else (SQLITE_OK, w))"

record wal_savepoint =
  spFrame :: nat
  spCksum :: "u32 \<times> u32"
  spCkpt :: u32

definition sqlite3WalSavepoint :: "wal \<Rightarrow> wal_savepoint" where
  "sqlite3WalSavepoint w = \<lparr>spFrame = mxFrame (hdr w), spCksum = aFrameCksum (hdr w), spCkpt = nCkpt w\<rparr>"

definition sqlite3WalSavepointUndo :: "wal \<Rightarrow> wal_savepoint \<Rightarrow> wal_savepoint \<times> wal" where
  "sqlite3WalSavepointUndo w sp =
     (let sp = (if spCkpt sp \<noteq> nCkpt w then sp\<lparr>spFrame := 0, spCkpt := nCkpt w\<rparr> else sp)
      in if spFrame sp < mxFrame (hdr w) then
           let w = w\<lparr>hdr := (hdr w)\<lparr>mxFrame := spFrame sp, aFrameCksum := spCksum sp\<rparr>\<rparr>;
               w = walCleanupHash w
           in (sp, if iReCksum w > mxFrame (hdr w) then w\<lparr>iReCksum := 0\<rparr> else w)
         else (sp, w))"

section \<open>Reading and recovery\<close>

definition sqlite3WalReadFrame :: "wal \<Rightarrow> nat \<Rightarrow> nat \<Rightarrow> rc \<times> bytes \<times> wal" where
  "sqlite3WalReadFrame w iRead nOut =
     (let sz = page_size_of (hSzPage (hdr w))
      in os_read w (min nOut sz) (walFrameOffset iRead sz + WAL_FRAME_HDRSIZE))"

text \<open>
  The loop over the frames of one table, \<open>n\<close> of them from \<open>iFrame\<close> on: the code, whether the loop was left early,
  the checksum of the last commit frame, and the connection.
\<close>

fun recover_frames :: "wal \<Rightarrow> nat \<Rightarrow> nat \<Rightarrow> nat \<Rightarrow> u32 \<times> u32 \<Rightarrow> rc \<times> bool \<times> (u32 \<times> u32) \<times> wal" where
  "recover_frames w szPage iFrame 0 ck = (SQLITE_OK, False, ck, w)"
| "recover_frames w szPage iFrame (Suc n) ck =
     (case os_read w (szPage + WAL_FRAME_HDRSIZE) (walFrameOffset iFrame szPage) of (rc, aFrame, w) \<Rightarrow>
        if rc \<noteq> SQLITE_OK then (rc, True, ck, w)
        else case walDecodeFrame w (drop WAL_FRAME_HDRSIZE aFrame) aFrame of
          (None, w) \<Rightarrow> (SQLITE_OK, True, ck, w)
        | (Some (pgno, nTruncate), w) \<Rightarrow>
            (case walIndexAppend w iFrame pgno of (rc, w) \<Rightarrow>
               if rc \<noteq> SQLITE_OK then (rc, True, ck, w)
               else if nTruncate \<noteq> 0 then
                 recover_frames (w\<lparr>hdr := (hdr w)\<lparr>mxFrame := iFrame, hNPage := nTruncate,
                     hSzPage := ((szPage AND 0xff00) OR drop_bit 16 szPage) mod 2 ^ 16\<rparr>\<rparr>)
                   szPage (iFrame + 1) n (aFrameCksum (hdr w))
               else recover_frames w szPage (iFrame + 1) n ck))"

text \<open>
  The loop over the tables, \<open>n\<close> of them from \<open>iPg\<close> on.  Each table is built in the buffer \<open>aPrivate\<close> and
  then copied to the wal-index.
\<close>

fun recover_tables :: "wal \<Rightarrow> nat \<Rightarrow> nat \<Rightarrow> nat \<Rightarrow> nat \<Rightarrow> wi_page \<Rightarrow> u32 \<times> u32 \<Rightarrow> rc \<times> (u32 \<times> u32) \<times> wal" where
  "recover_tables w szPage iLastFrame iPg 0 aPrivate ck = (SQLITE_OK, ck, w)"
| "recover_tables w szPage iLastFrame iPg (Suc n) aPrivate ck =
     (let iLast = min iLastFrame (HASHTABLE_NPAGE_ONE + iPg * HASHTABLE_NPAGE);
          iFirst = 1 + (if iPg = 0 then 0 else HASHTABLE_NPAGE_ONE + (iPg - 1) * HASHTABLE_NPAGE)
      in case walIndexPage w iPg of (rc, p, w) \<Rightarrow>
        if \<not> p then (rc, ck, w)
        else case recover_frames (put_page w iPg aPrivate) szPage iFirst (iLast + 1 - iFirst) ck of
          (rc, early, ck, w) \<Rightarrow>
            if early then (rc, ck, w) else recover_tables w szPage iLastFrame (iPg + 1) n (wi w iPg) ck)"

text \<open>Reading the log file: the code, the checksum of the last commit frame, and the connection.\<close>

definition recover_log :: "wal \<Rightarrow> nat \<Rightarrow> wi_page \<Rightarrow> rc \<times> (u32 \<times> u32) \<times> wal" where
  "recover_log w nSize aPrivate =
     (case os_read w WAL_HDRSIZE 0 of (rc, aBuf, w) \<Rightarrow>
        if rc \<noteq> SQLITE_OK then (rc, (0, 0), w)
        else
          let magic = sqlite3Get4byte aBuf; szPage = unat (sqlite3Get4byte (drop 8 aBuf))
          in if magic AND 0xFFFFFFFE \<noteq> WAL_MAGIC \<or> szPage AND (szPage - 1) \<noteq> 0 \<or> szPage > 65536 \<or> szPage < 512
             then (SQLITE_OK, (0, 0), w)
             else
               let w = w\<lparr>wSzPage := szPage, nCkpt := sqlite3Get4byte (drop 12 aBuf),
                     hdr := (hdr w)\<lparr>bigEndCksum := ucast (magic AND 1), aSalt := subbytes aBuf 16 8\<rparr>\<rparr>;
                   w = set_cksum w (walChecksumBytes (bigEndian w) (native_cksum w) aBuf 24 None)
               in if fst (aFrameCksum (hdr w)) \<noteq> sqlite3Get4byte (drop 24 aBuf) \<or>
                     snd (aFrameCksum (hdr w)) \<noteq> sqlite3Get4byte (drop 28 aBuf) then (SQLITE_OK, (0, 0), w)
                  else if sqlite3Get4byte (drop 4 aBuf) \<noteq> WAL_MAX_VERSION then (SQLITE_CANTOPEN, (0, 0), w)
                  else
                    let (b, al) = next_alloc (heapAns w); w = w\<lparr>heapAns := al\<rparr>
                    in if \<not> b then (SQLITE_NOMEM, (0, 0), w)
                       else
                         let iLastFrame = (nSize - WAL_HDRSIZE) div (szPage + WAL_FRAME_HDRSIZE) mod 2 ^ 32
                         in recover_tables w szPage iLastFrame 0 (walFramePage iLastFrame + 1) aPrivate (0, 0))"

text \<open>The read marks from \<open>i\<close> on, \<open>n\<close> of them.\<close>

fun recover_marks :: "wal \<Rightarrow> nat \<Rightarrow> nat \<Rightarrow> rc \<Rightarrow> rc \<times> wal" where
  "recover_marks w i 0 rc = (rc, w)"
| "recover_marks w i (Suc n) rc =
     (case walLockExclusive w (WAL_READ_LOCK i) 1 of (rc, w) \<Rightarrow>
        if rc = SQLITE_OK then
          recover_marks (set_mark w i (if i = 1 \<and> mxFrame (hdr w) \<noteq> 0 then mxFrame (hdr w) else READMARK_NOT_USED)) (i + 1) n rc
        else if rc \<noteq> SQLITE_BUSY then (rc, w) else recover_marks w (i + 1) n rc)"

text \<open>\<open>aPrivate\<close> is the initial content of the buffer the tables are built in.\<close>

definition walIndexRecover :: "wal \<Rightarrow> wi_page \<Rightarrow> rc \<times> wal" where
  "walIndexRecover w aPrivate =
     (let iLock = 1 + ckptLock w
      in case walLockExclusive w iLock (WAL_READ_LOCK 0 - iLock) of (rc, w) \<Rightarrow>
        if rc \<noteq> SQLITE_OK then (rc, w)
        else
          let w = w\<lparr>hdr := zero_hdr\<rparr>
          in case os_size w of (rc, nSize, w) \<Rightarrow>
            if rc \<noteq> SQLITE_OK then (rc, w)
            else case (if nSize > WAL_HDRSIZE then recover_log w nSize aPrivate else (SQLITE_OK, (0, 0), w)) of (rc, ck, w) \<Rightarrow>
              if rc \<noteq> SQLITE_OK then (rc, w)
              else
                let w = walIndexWriteHdr (set_cksum w ck);
                    w = w\<lparr>shm := (shm w)\<lparr>ckptInfo := (ckptInfo (shm w))\<lparr>nBackfill := 0,
                          nBackfillAttempted := mxFrame (hdr w), aReadMark := (aReadMark (ckptInfo (shm w)))[0 := 0]\<rparr>\<rparr>\<rparr>
                in recover_marks w 1 (WAL_NREADER - 1) SQLITE_OK)"

end
