(* ===== verification/WalTxn.thy ===== *)
theory WalTxn
  imports WalIndex WalLog
begin

text \<open>
  Transactions on the wal-index (\<open>src/src/wal.c\<close>: the end of \<open>walFrames\<close>, \<open>sqlite3WalUndo\<close>,
  \<open>sqlite3WalSavepoint\<close>, \<open>sqlite3WalSavepointUndo\<close>).  The operations of a writer refine operations on the
  sequence of frames, and readers keep the snapshot they started with.
\<close>

section \<open>A writer and its readers\<close>

text \<open>
  What a write transaction does to the wal-index: the end of \<open>walFrames\<close> for the appended pages, with or without
  a commit, rollback, and the calls of \<open>sqlite3WalSavepoint\<close> and \<open>sqlite3WalSavepointUndo\<close>.  The savepoints that
  are open form a stack; a rollback to one closes those that were opened after it, and the end of the
  transaction closes all.
\<close>

datatype writer_op = Append nat "pgno list" nat bool | Undo | Savepoint | SavepointUndo nat

fun writer_step :: "wal \<times> wal_savepoint list \<Rightarrow> writer_op \<Rightarrow> rc \<times> wal \<times> wal_savepoint list" where
  "writer_step (w, sps) (Append szPage pgs nTruncate isCommit) =
     (case walFrames_index w szPage pgs nTruncate isCommit of (rc, w) \<Rightarrow> (rc, w, if isCommit then [] else sps))"
| "writer_step (w, sps) Undo = (case sqlite3WalUndo w (\<lambda>_. SQLITE_OK) of (rc, w) \<Rightarrow> (rc, w, []))"
| "writer_step (w, sps) Savepoint = (SQLITE_OK, w, sqlite3WalSavepoint w # sps)"
| "writer_step (w, sps) (SavepointUndo k) =
     (case sqlite3WalSavepointUndo w (sps ! k) of (sp, w) \<Rightarrow> (SQLITE_OK, w, sp # drop (Suc k) sps))"

fun writer_run :: "wal \<times> wal_savepoint list \<Rightarrow> writer_op list \<Rightarrow> rc \<times> wal \<times> wal_savepoint list" where
  "writer_run s [] = (SQLITE_OK, s)"
| "writer_run s (c # cs) = (case writer_step s c of (rc, s') \<Rightarrow> if rc \<noteq> SQLITE_OK then (rc, s') else writer_run s' cs)"

text \<open>The same on the sequence of frames: the committed ones, all of them, and the lengths at the open savepoints.\<close>

fun spec_step :: "pgno list \<times> pgno list \<times> nat list \<Rightarrow> writer_op \<Rightarrow> pgno list \<times> pgno list \<times> nat list" where
  "spec_step (com, cur, sps) (Append szPage pgs nTruncate isCommit) =
     (if isCommit then (cur @ pgs, cur @ pgs, []) else (com, cur @ pgs, sps))"
| "spec_step (com, cur, sps) Undo = (com, com, [])"
| "spec_step (com, cur, sps) Savepoint = (com, cur, length cur # sps)"
| "spec_step (com, cur, sps) (SavepointUndo k) = (com, take (sps ! k) cur, drop k sps)"

definition op_ok :: "nat list \<Rightarrow> writer_op \<Rightarrow> bool" where
  "op_ok sps c = (case c of Append szPage pgs nTruncate isCommit \<Rightarrow> 0 \<notin> set pgs | SavepointUndo k \<Rightarrow> k < length sps | _ \<Rightarrow> True)"

fun ops_ok :: "nat \<Rightarrow> pgno list \<times> pgno list \<times> nat list \<Rightarrow> writer_op list \<Rightarrow> bool" where
  "ops_ok n s [] = True"
| "ops_ok n s (c # cs) = (op_ok (snd (snd s)) c \<and> length (fst (snd (spec_step s c))) \<le> n \<and> ops_ok n (spec_step s c) cs)"

text \<open>The relation between a writer and the frames: \<open>n\<close> bounds the frames that have a table.\<close>

definition writer_rel :: "nat \<Rightarrow> pgno list \<times> pgno list \<times> nat list \<Rightarrow> wal \<times> wal_savepoint list \<Rightarrow> bool" where
  "writer_rel n = (\<lambda>(com, cur, ls) (w, sps).
     (\<exists>log. index_ok log (shm w) \<and> length cur \<le> length log \<and> take (length cur) log = cur) \<and>
     mxFrame (hdr w) = length cur \<and> mxFrame (hdrCopy0 (shm w)) = length com \<and> length com \<le> length cur \<and> take (length com) cur = com \<and>
     mapped_to n w \<and> n + 8193 < 2 ^ 32 \<and> length cur \<le> n \<and> writeLock w \<noteq> 0 \<and>
     map spFrame sps = ls \<and> (\<forall>sp\<in>set sps. spCkpt sp = nCkpt w) \<and> sorted_wrt (\<ge>) ls \<and>
     (\<forall>l\<in>set ls. length com \<le> l \<and> l \<le> length cur))"

lemma mapped_to_upd [simp]:
  "mapped_to n (w\<lparr>shm := s\<rparr>) = mapped_to n w" "mapped_to n (w\<lparr>hdr := h\<rparr>) = mapped_to n w"
  by (simp_all add: mapped_to_def)

lemma index_frames_ok:
  assumes "index_ok log (shm w)" "K \<le> length log" "K = length log \<or> K = mxFrame (hdr w)" "0 \<notin> set qs"
    "K + length qs + 8193 < 2 ^ 32" "mapped_to (K + length qs) w"
  shows "\<exists>s'. index_frames w K qs = (SQLITE_OK, K + length qs, w\<lparr>shm := s'\<rparr>) \<and> same_headers (shm w) s' \<and>
    (\<exists>log'. index_ok log' s' \<and> K + length qs \<le> length log' \<and> take (K + length qs) log' = take K log @ qs)"
  using assms
proof (induction qs arbitrary: log w K)
  case Nil
  then show ?case by (intro exI [of _ "shm w"]) auto
next
  case (Cons q qs)
  have m: "mapped_to (Suc K) w" using Cons.prems(6) by (rule mapped_to_mono) simp
  obtain s1 where s1: "walIndexAppend w (Suc K) q = (SQLITE_OK, w\<lparr>shm := s1\<rparr>)" "index_ok (take K log @ [q]) s1" "same_headers (shm w) s1"
    using walIndexAppend_ok [OF Cons.prems(1-3) _ _ m, of q] Cons.prems(4,5) by auto
  have len: "length (take K log @ [q]) = Suc K" using Cons.prems(2) by simp
  obtain s' where s': "index_frames (w\<lparr>shm := s1\<rparr>) (Suc K) qs = (SQLITE_OK, Suc K + length qs, (w\<lparr>shm := s1\<rparr>)\<lparr>shm := s'\<rparr>)"
     "same_headers s1 s'" "\<exists>log'. index_ok log' s' \<and> Suc K + length qs \<le> length log' \<and>
        take (Suc K + length qs) log' = take (Suc K) (take K log @ [q]) @ qs"
    using Cons.IH [of "take K log @ [q]" "w\<lparr>shm := s1\<rparr>" "Suc K"] Cons.prems s1(2) len by auto
  have "take (Suc K) (take K log @ [q]) @ qs = take K log @ q # qs" using len by simp
  then show ?case using s1 s' same_headers_trans by (intro exI [of _ s']) auto
qed

lemma walIndexWriteHdr_eq:
  "\<exists>h. walIndexWriteHdr w = w\<lparr>hdr := h, shm := (shm w)\<lparr>hdrCopy1 := h, hdrCopy0 := h\<rparr>\<rparr> \<and> mxFrame h = mxFrame (hdr w) \<and>
    hNPage h = hNPage (hdr w) \<and> hSzPage h = hSzPage (hdr w) \<and> aSalt h = aSalt (hdr w) \<and> aFrameCksum h = aFrameCksum (hdr w) \<and>
    bigEndCksum h = bigEndCksum (hdr w)"
proof -
  let ?h = "(hdr w)\<lparr>isInitHdr := 1, iVersion := WALINDEX_MAX_VERSION\<rparr>"
  let ?g = "?h\<lparr>aCksum := walChecksumBytes (bigEndian w) True (hdr_bytes (bigEndian w) ?h) 40 None\<rparr>"
  have "walIndexWriteHdr w = w\<lparr>hdr := ?g, shm := (shm w)\<lparr>hdrCopy1 := ?g, hdrCopy0 := ?g\<rparr>\<rparr>"
    by (simp add: walIndexWriteHdr_def Let_def)
  then show ?thesis by (intro exI [of _ ?g]) simp
qed

lemma index_ok_pages: "shmPage s = shmPage s' \<Longrightarrow> index_ok log s = index_ok log s'"
  by (simp add: index_ok_def)

lemma writer_append:
  assumes rel: "writer_rel n (com, cur, ls) (w, sps)" and c: "0 \<notin> set pgs" "length (cur @ pgs) \<le> n"
  shows "\<exists>w'. walFrames_index w szPage pgs nTruncate isCommit = (SQLITE_OK, w') \<and>
    writer_rel n (if isCommit then (cur @ pgs, cur @ pgs, []) else (com, cur @ pgs, ls)) (w', if isCommit then [] else sps)"
proof -
  obtain log where log: "index_ok log (shm w)" "length cur \<le> length log" "take (length cur) log = cur"
    using rel by (auto simp: writer_rel_def)
  have mx: "mxFrame (hdr w) = length cur" using rel by (simp add: writer_rel_def)
  obtain s' log' where s': "index_frames w (length cur) pgs = (SQLITE_OK, length cur + length pgs, w\<lparr>shm := s'\<rparr>)"
     "same_headers (shm w) s'" "index_ok log' s'" "length (cur @ pgs) \<le> length log'" "take (length (cur @ pgs)) log' = cur @ pgs"
    using index_frames_ok [OF log(1,2), of pgs] mx log(3) c rel by (auto simp: writer_rel_def intro: mapped_to_mono)
  let ?w1 = "w\<lparr>shm := s', hdr := (hdr w)\<lparr>hSzPage := ((szPage AND 0xff00) OR drop_bit 16 szPage) mod 2 ^ 16, mxFrame := length cur + length pgs\<rparr>\<rparr>"
  show ?thesis
  proof (cases isCommit)
    case False
    then have "walFrames_index w szPage pgs nTruncate isCommit = (SQLITE_OK, ?w1)"
      by (simp add: walFrames_index_def mx s'(1))
    moreover have "writer_rel n (com, cur @ pgs, ls) (?w1, sps)"
      using rel s' c unfolding writer_rel_def by (auto simp: same_headers_def)
    ultimately show ?thesis using False by auto
  next
    case True
    let ?w2 = "?w1\<lparr>hdr := (hdr ?w1)\<lparr>iChange := iChange (hdr ?w1) + 1, hNPage := nTruncate\<rparr>\<rparr>"
    obtain h where h: "walIndexWriteHdr ?w2 = ?w2\<lparr>hdr := h, shm := s'\<lparr>hdrCopy1 := h, hdrCopy0 := h\<rparr>\<rparr>" "mxFrame h = length cur + length pgs"
      using walIndexWriteHdr_eq [of ?w2] by auto
    let ?w' = "?w2\<lparr>hdr := h, shm := s'\<lparr>hdrCopy1 := h, hdrCopy0 := h\<rparr>, iCallback := length cur + length pgs\<rparr>"
    have "walFrames_index w szPage pgs nTruncate isCommit = (SQLITE_OK, ?w')"
      using True h(1) by (simp add: walFrames_index_def mx s'(1))
    moreover have "writer_rel n (cur @ pgs, cur @ pgs, []) (?w', [])"
      using rel s' c h(2) index_ok_pages [of s' "s'\<lparr>hdrCopy1 := h, hdrCopy0 := h\<rparr>"] unfolding writer_rel_def by (auto simp: mapped_to_def)
    ultimately show ?thesis using True by auto
  qed
qed

lemma writer_undo:
  assumes rel: "writer_rel n (com, cur, ls) (w, sps)"
  shows "\<exists>w'. sqlite3WalUndo w (\<lambda>_. SQLITE_OK) = (SQLITE_OK, w') \<and> writer_rel n (com, com, []) (w', [])"
proof -
  obtain log where log: "index_ok log (shm w)" "length cur \<le> length log" "take (length cur) log = cur"
    using rel by (auto simp: writer_rel_def)
  let ?w1 = "w\<lparr>hdr := hdrCopy0 (shm w)\<rparr>"
  have ok: "index_ok log (shm ?w1)" "mxFrame (hdr ?w1) = length com" "length com \<le> length cur" "mapped_to n ?w1" "take (length com) cur = com" "length cur \<le> n"
    using rel log by (auto simp: writer_rel_def)
  have com: "take (length com) log = com" using log(3) ok(3,5) by (metis min.absorb1 take_take)
  have calls: "undo_frames u (\<lambda>_. SQLITE_OK) i k = SQLITE_OK" for u i k by (induction k arbitrary: i) auto
  obtain s' where s': "walCleanupHash ?w1 = ?w1\<lparr>shm := s'\<rparr>" "index_ok com s'" "same_headers (shm w) s'"
    using walCleanupHash_ok [OF ok(1)] ok log com mapped_to_mono [OF ok(4), of "length com"] by auto
  define w' where "w' = (if length cur \<noteq> length com then ?w1\<lparr>shm := s'\<rparr> else ?w1)\<lparr>iReCksum := 0\<rparr>"
  have run: "sqlite3WalUndo w (\<lambda>_. SQLITE_OK) = (SQLITE_OK, w')"
    using rel s'(1) ok(2) by (simp add: sqlite3WalUndo_def Let_def calls w'_def writer_rel_def)
  have "\<exists>log. index_ok log (shm w') \<and> length com \<le> length log \<and> take (length com) log = com"
  proof (cases "length cur = length com")
    case True
    then have "shm w' = shm w" by (simp add: w'_def)
    then show ?thesis using log com ok(3) by (metis le_trans)
  next
    case False
    then have "shm w' = s'" by (simp add: w'_def)
    then show ?thesis using s'(2) by (intro exI [of _ com]) simp
  qed
  moreover have "hdrCopy0 (shm w') = hdrCopy0 (shm w)" "hdr w' = hdrCopy0 (shm w)" "mapped_to n w'" "writeLock w' = writeLock w"
    using s'(3) ok(4) by (auto simp: w'_def same_headers_def mapped_to_def)
  ultimately have "writer_rel n (com, com, []) (w', [])" using rel ok by (simp add: writer_rel_def)
  then show ?thesis using run by blast
qed

lemma writer_savepoint_undo:
  assumes rel: "writer_rel n (com, cur, ls) (w, sps)" and k: "k < length ls"
  shows "\<exists>w'. sqlite3WalSavepointUndo w (sps ! k) = (sps ! k, w') \<and> writer_rel n (com, take (ls ! k) cur, drop k ls) (w', drop k sps)"
proof -
  obtain log where log: "index_ok log (shm w)" "length cur \<le> length log" "take (length cur) log = cur"
    using rel by (auto simp: writer_rel_def)
  have facts: "mxFrame (hdr w) = length cur" "map spFrame sps = ls" "\<forall>sp\<in>set sps. spCkpt sp = nCkpt w" "sorted_wrt (\<ge>) ls"
     "\<forall>l\<in>set ls. length com \<le> l \<and> l \<le> length cur" "mapped_to n w" "length cur \<le> n" "take (length com) cur = com"
    using rel by (simp_all add: writer_rel_def)
  have len: "length sps = length ls" using facts(2) by auto
  have sp: "spFrame (sps ! k) = ls ! k" "spCkpt (sps ! k) = nCkpt w" using facts k len by (metis nth_map, metis nth_mem)
  have l: "length com \<le> ls ! k" "ls ! k \<le> length cur" using facts(5) k by auto
  have below: "\<forall>x\<in>set (drop k ls). length com \<le> x \<and> x \<le> ls ! k"
  proof
    fix x assume "x \<in> set (drop k ls)"
    then obtain i where i: "k \<le> i" "i < length ls" "x = ls ! i" 
      by (auto simp: in_set_conv_nth) (metis add.commute le_add1 less_diff_conv)
    then show "length com \<le> x \<and> x \<le> ls ! k"
      using facts(4,5) by (cases "i = k") (auto simp: sorted_wrt_iff_nth_less)
  qed
  have rest: "map spFrame (drop k sps) = drop k ls" "\<forall>sp\<in>set (drop k sps). spCkpt sp = nCkpt w" "sorted_wrt (\<ge>) (drop k ls)"
    using facts by (auto simp: drop_map dest: in_set_dropD intro: sorted_wrt_drop)
  have com: "take (length com) (take (ls ! k) cur) = com" using l facts(8) by (simp add: min_def)
  show ?thesis
  proof (cases "ls ! k < length cur")
    case False
    then have "ls ! k = length cur" using l by simp
    moreover have "sqlite3WalSavepointUndo w (sps ! k) = (sps ! k, w)" using sp facts(1) False by (simp add: sqlite3WalSavepointUndo_def)
    ultimately show ?thesis using rel rest below unfolding writer_rel_def by auto
  next
    case True
    let ?w1 = "w\<lparr>hdr := (hdr w)\<lparr>mxFrame := ls ! k, aFrameCksum := spCksum (sps ! k)\<rparr>\<rparr>"
    have m: "mapped_to (mxFrame (hdr ?w1)) ?w1" using facts(6,7) l by (auto intro: mapped_to_mono)
    obtain s' where s': "walCleanupHash ?w1 = ?w1\<lparr>shm := s'\<rparr>" "index_ok (take (ls ! k) log) s'" "same_headers (shm w) s'"
      using walCleanupHash_ok [of log ?w1, OF _ _ m] log l by auto
    define w' where "w' = (if iReCksum w > ls ! k then ?w1\<lparr>shm := s', iReCksum := 0\<rparr> else ?w1\<lparr>shm := s'\<rparr>)"
    have run: "sqlite3WalSavepointUndo w (sps ! k) = (sps ! k, w')"
      using sp facts(1) True s'(1) by (simp add: sqlite3WalSavepointUndo_def Let_def w'_def)
    have t: "take (ls ! k) log = take (ls ! k) cur" using log(3) l by (metis min.absorb1 take_take)
    have w': "hdrCopy0 (shm w') = hdrCopy0 (shm w)" "mxFrame (hdr w') = ls ! k" "mapped_to n w'" "writeLock w' = writeLock w" "shm w' = s'" "nCkpt w' = nCkpt w"
      using s'(3) facts(6) by (auto simp: w'_def same_headers_def mapped_to_def)
    have "\<exists>log. index_ok log (shm w') \<and> length (take (ls ! k) cur) \<le> length log \<and> take (length (take (ls ! k) cur)) log = take (ls ! k) cur"
      using s'(2) t w'(5) l by (intro exI [of _ "take (ls ! k) cur"]) auto
    then have "writer_rel n (com, take (ls ! k) cur, drop k ls) (w', drop k sps)"
      using rel rest below w' com l unfolding writer_rel_def by simp
    then show ?thesis using run by blast
  qed
qed

lemma writer_step_ok:
  assumes rel: "writer_rel n s u" and c: "op_ok (snd (snd s)) c" "length (fst (snd (spec_step s c))) \<le> n"
  shows "\<exists>u'. writer_step u c = (SQLITE_OK, u') \<and> writer_rel n (spec_step s c) u'"
proof -
  obtain com cur ls where s: "s = (com, cur, ls)" by (cases s)
  obtain w sps where u: "u = (w, sps)" by (cases u)
  note rel = rel [unfolded s u] and c = c [unfolded s, simplified]
  show ?thesis unfolding s u
  proof (cases c)
    case (Append szPage pgs nTruncate isCommit)
    then have "0 \<notin> set pgs" "length (cur @ pgs) \<le> n" using c by (auto simp: op_ok_def split: if_splits)
    then obtain w' where "walFrames_index w szPage pgs nTruncate isCommit = (SQLITE_OK, w')"
      "writer_rel n (if isCommit then (cur @ pgs, cur @ pgs, []) else (com, cur @ pgs, ls)) (w', if isCommit then [] else sps)"
      using writer_append [OF rel] by blast
    then show "\<exists>u'. writer_step (w, sps) c = (SQLITE_OK, u') \<and> writer_rel n (spec_step (com, cur, ls) c) u'" using Append by simp
  next
    case Undo
    then show "\<exists>u'. writer_step (w, sps) c = (SQLITE_OK, u') \<and> writer_rel n (spec_step (com, cur, ls) c) u'" using writer_undo [OF rel] by auto
  next
    case Savepoint
    have "writer_rel n (com, cur, length cur # ls) (w, sqlite3WalSavepoint w # sps)"
      using rel by (auto simp: writer_rel_def sqlite3WalSavepoint_def)
    then show "\<exists>u'. writer_step (w, sps) c = (SQLITE_OK, u') \<and> writer_rel n (spec_step (com, cur, ls) c) u'" using Savepoint by auto
  next
    case (SavepointUndo k)
    have k: "k < length ls" "length sps = length ls" using c SavepointUndo rel by (auto simp: op_ok_def writer_rel_def)
    obtain w' where "sqlite3WalSavepointUndo w (sps ! k) = (sps ! k, w')" "writer_rel n (com, take (ls ! k) cur, drop k ls) (w', drop k sps)"
      using writer_savepoint_undo [OF rel k(1)] by blast
    then show "\<exists>u'. writer_step (w, sps) c = (SQLITE_OK, u') \<and> writer_rel n (spec_step (com, cur, ls) c) u'"
      using SavepointUndo k by (simp add: Cons_nth_drop_Suc)
  qed
qed

lemma writer_run_ok:
  "writer_rel n s u \<Longrightarrow> ops_ok n s cs \<Longrightarrow> \<exists>u'. writer_run u cs = (SQLITE_OK, u') \<and> writer_rel n (foldl spec_step s cs) u'"
proof (induction cs arbitrary: s u)
  case (Cons c cs)
  then obtain u1 where "writer_step u c = (SQLITE_OK, u1)" "writer_rel n (spec_step s c) u1"
    using writer_step_ok [of n s u c] by auto
  then show ?case using Cons by auto
qed simp

lemma spec_extends:
  assumes "writer_rel n s u" "ops_ok n s cs" "length com \<le> length (fst s)" "take (length com) (fst s) = com"
  shows "length com \<le> length (fst (foldl spec_step s cs)) \<and> take (length com) (fst (foldl spec_step s cs)) = com"
  using assms
proof (induction cs arbitrary: s u)
  case (Cons c cs)
  obtain com1 cur ls where s: "s = (com1, cur, ls)" by (cases s)
  have cur: "length com1 \<le> length cur" "take (length com1) cur = com1" using Cons.prems(1) s by (cases u; simp add: writer_rel_def)+
  obtain u1 where u1: "writer_rel n (spec_step s c) u1" using writer_step_ok [OF Cons.prems(1), of c] Cons.prems(2) by auto
  have "take (length com) cur = com" using cur Cons.prems(3,4) s by (metis fst_conv min.absorb1 take_take)
  then have "length com \<le> length (fst (spec_step s c)) \<and> take (length com) (fst (spec_step s c)) = com"
    using cur Cons.prems(3,4) s by (cases c) auto
  then show ?case using Cons.IH [OF u1] Cons.prems(2) by auto
qed simp

text \<open>A connection that reads from the log, within the frames up to its own limit.\<close>

definition reads_log :: "wal \<Rightarrow> bool" where
  "reads_log r \<longleftrightarrow> mapped_to (mxFrame (hdr r)) r \<and> minFrame r + 4096 < 2 ^ 32 \<and> (readLock r \<noteq> 0 \<or> bShmUnreliable r)"

lemma reader_finds:
  assumes "writer_rel n (com, cur, ls) (w, sps)" "reads_log r" "shm r = shm w" "mxFrame (hdr r) \<le> length cur"
  shows "walFindFrame r q = (SQLITE_OK, last_frame cur (minFrame r) (mxFrame (hdr r)) q, r)"
proof -
  obtain log where log: "index_ok log (shm r)" "length cur \<le> length log" "take (length cur) log = cur"
    using assms(1,3) by (auto simp: writer_rel_def)
  have "walFindFrame r q = (SQLITE_OK, last_frame log (minFrame r) (mxFrame (hdr r)) q, r)"
    using assms log by (intro walFindFrame_ok) (auto simp: reads_log_def)
  moreover have "last_frame log (minFrame r) (mxFrame (hdr r)) q = last_frame cur (minFrame r) (mxFrame (hdr r)) q"
    by (rule last_frame_cong) (use log(3) assms(4) in \<open>metis nth_take order_less_le_trans\<close>)
  ultimately show ?thesis by simp
qed

text \<open>
  C8: Whatever a writer does to the wal-index (appending frames, committing, rolling back the transaction or a
  savepoint), every call succeeds, the header in shared memory gives exactly the committed frames, and a search
  gives for every page the last frame that holds it among the frames the connection may see.  A reader whose
  snapshot was taken before the writer began finds the same frames as before.
\<close>

theorem wal_snapshot:
  assumes "writer_rel n (com, com, []) (w, [])" "ops_ok n (com, com, []) cs"
  shows "\<exists>w' sps com' cur' ls. writer_run (w, []) cs = (SQLITE_OK, w', sps) \<and> foldl spec_step (com, com, []) cs = (com', cur', ls) \<and>
    mxFrame (hdrCopy0 (shm w')) = length com' \<and> mxFrame (hdr w') = length cur' \<and>
    (\<forall>r q. reads_log r \<and> shm r = shm w' \<and> mxFrame (hdr r) \<le> length cur' \<longrightarrow>
       walFindFrame r q = (SQLITE_OK, last_frame cur' (minFrame r) (mxFrame (hdr r)) q, r)) \<and>
    (\<forall>r q. reads_log r \<and> shm r = shm w' \<and> mxFrame (hdr r) \<le> length com \<longrightarrow>
       fst (snd (walFindFrame r q)) = fst (snd (walFindFrame (r\<lparr>shm := shm w\<rparr>) q)) \<and>
       fst (snd (walFindFrame r q)) = last_frame com (minFrame r) (mxFrame (hdr r)) q)"
proof -
  obtain w' sps where run: "writer_run (w, []) cs = (SQLITE_OK, w', sps)" "writer_rel n (foldl spec_step (com, com, []) cs) (w', sps)"
    using writer_run_ok [OF assms] by (metis prod.collapse)
  obtain com' cur' ls where f: "foldl spec_step (com, com, []) cs = (com', cur', ls)" by (metis prod_cases3)
  note rel = run(2) [unfolded f]
  have com': "length com \<le> length com'" "take (length com) com' = com" using spec_extends [OF assms, of com] f by auto
  have cur': "length com' \<le> length cur'" "take (length com') cur' = com'" using rel by (simp_all add: writer_rel_def)
  have ext: "length com \<le> length cur'" "take (length com) cur' = com" using com' cur' by (auto, metis min.absorb1 take_take)
  have old: "fst (snd (walFindFrame r q)) = fst (snd (walFindFrame (r\<lparr>shm := shm w\<rparr>) q)) \<and>
      fst (snd (walFindFrame r q)) = last_frame com (minFrame r) (mxFrame (hdr r)) q"
    if r: "reads_log r" "shm r = shm w'" "mxFrame (hdr r) \<le> length com" for r q
  proof -
    have a: "walFindFrame r q = (SQLITE_OK, last_frame cur' (minFrame r) (mxFrame (hdr r)) q, r)"
      using reader_finds [OF rel r(1,2)] r(3) ext by simp
    have b: "walFindFrame (r\<lparr>shm := shm w\<rparr>) q = (SQLITE_OK, last_frame com (minFrame r) (mxFrame (hdr r)) q, r\<lparr>shm := shm w\<rparr>)"
      using reader_finds [OF assms(1), of "r\<lparr>shm := shm w\<rparr>"] r by (simp add: reads_log_def mapped_to_def)
    have "last_frame cur' (minFrame r) (mxFrame (hdr r)) q = last_frame com (minFrame r) (mxFrame (hdr r)) q"
      by (rule last_frame_cong) (use ext(2) r(3) in \<open>metis nth_take order_less_le_trans\<close>)
    then show ?thesis using a b by simp
  qed
  have m: "mxFrame (hdrCopy0 (shm w')) = length com'" "mxFrame (hdr w') = length cur'" using rel by (simp_all add: writer_rel_def)
  show ?thesis
    by (rule exI [of _ w'], rule exI [of _ sps], rule exI [of _ com'], rule exI [of _ cur'], rule exI [of _ ls],
        intro conjI allI impI run(1) f m) (use reader_finds [OF rel] old in blast)+
qed

section \<open>An example\<close>

definition demo_wal :: wal where
  "demo_wal = \<lparr>bigEndian = False, walFd = \<lparr>contents = [], mmapSize = 0, szChunk = 0, lastErrno = None\<rparr>,
     dbFd = \<lparr>contents = [], mmapSize = 0, szChunk = 0, lastErrno = None\<rparr>,
     shm = \<lparr>hdrCopy0 = zero_hdr, hdrCopy1 = zero_hdr,
            ckptInfo = \<lparr>nBackfill = 0, aReadMark = [0, 0, READMARK_NOT_USED, READMARK_NOT_USED, READMARK_NOT_USED], nBackfillAttempted = 0\<rparr>,
            shmPage = (\<lambda>_. zero_page)\<rparr>,
     nWiData = 1, mapped = (\<lambda>i. i = 0), wSzPage = 512, readLock = 1, exclusiveMode = WAL_NORMAL_MODE, writeLock = 1, ckptLock = 0,
     readOnly = 0, truncateOnCommit = False, bShmUnreliable = False, hdr = zero_hdr, minFrame = 1, iReCksum = 0, nCkpt = 0,
     mxWalSize = -1, iCallback = 0, syncHeader = False, padToSectorBoundary = False, sectorSize = 512,
     mapAns = [], lockAns = [], heapAns = [], sysAns = [], statAns = [], syncAns = [], randAns = []\<rparr>"

lemma demo_wal_mapped: "n \<le> 4062 \<Longrightarrow> mapped_to n (demo_wal\<lparr>shm := s, hdr := h\<rparr>)"
  by (auto simp: mapped_to_def demo_wal_def table_zero_def split: if_splits)

lemma demo_wal_writer: "writer_rel 4000 ([], [], []) (demo_wal, [])"
proof -
  have "mapped_to 4000 demo_wal" by (auto simp: mapped_to_def demo_wal_def table_zero_def split: if_splits)
  moreover have "index_ok [] (shm demo_wal)" by (simp add: index_ok_def)
  ultimately show ?thesis by (auto simp: writer_rel_def demo_wal_def zero_hdr_def)
qed

lemma demo_wal_sel [simp]: "shm (demo_wal\<lparr>shm := s, hdr := h\<rparr>) = s" "hdr (demo_wal\<lparr>shm := s, hdr := h\<rparr>) = h" "minFrame (demo_wal\<lparr>shm := s, hdr := h\<rparr>) = 1"
  by (simp_all add: demo_wal_def)

text \<open>Two transactions; the savepoint of the second is rolled back, and page 2 is found in frames 1 and 3.\<close>

theorem wal_snapshot_witness:
  "\<exists>w' sps. writer_run (demo_wal, []) [Append 512 [2, 3] 3 True, Append 512 [2] 0 False, Savepoint, Append 512 [3, 2] 0 False, SavepointUndo 0] =
      (SQLITE_OK, w', sps) \<and> mxFrame (hdrCopy0 (shm w')) = 2 \<and> mxFrame (hdr w') = 3 \<and>
    walFindFrame (demo_wal\<lparr>shm := shm w', hdr := hdrCopy0 (shm w')\<rparr>) 2 = (SQLITE_OK, 1, demo_wal\<lparr>shm := shm w', hdr := hdrCopy0 (shm w')\<rparr>) \<and>
    walFindFrame (demo_wal\<lparr>shm := shm w', hdr := hdr w'\<rparr>) 2 = (SQLITE_OK, 3, demo_wal\<lparr>shm := shm w', hdr := hdr w'\<rparr>) \<and>
    walFindFrame (demo_wal\<lparr>shm := shm w', hdr := hdr w'\<rparr>) 3 = (SQLITE_OK, 2, demo_wal\<lparr>shm := shm w', hdr := hdr w'\<rparr>)"
proof -
  let ?cs = "[Append 512 [2, 3] 3 True, Append 512 [2] 0 False, Savepoint, Append 512 [3, 2] 0 False, SavepointUndo 0]"
  have "ops_ok 4000 ([], [], []) ?cs" by (simp add: op_ok_def)
  from wal_snapshot [OF demo_wal_writer this] obtain w' sps where w': "writer_run (demo_wal, []) ?cs = (SQLITE_OK, w', sps)"
    "mxFrame (hdrCopy0 (shm w')) = 2" "mxFrame (hdr w') = 3"
    "\<And>r q. reads_log r \<Longrightarrow> shm r = shm w' \<Longrightarrow> mxFrame (hdr r) \<le> 3 \<Longrightarrow>
       walFindFrame r q = (SQLITE_OK, last_frame [2, 3, 2] (minFrame r) (mxFrame (hdr r)) q, r)"
    by auto
  have r: "reads_log (demo_wal\<lparr>shm := s, hdr := h\<rparr>)" if "mxFrame h \<le> 3" for s h
    using demo_wal_mapped [where n = "mxFrame h" and s = s and h = h] that by (simp add: reads_log_def demo_wal_def)
  have find: "walFindFrame (demo_wal\<lparr>shm := shm w', hdr := h\<rparr>) q =
      (SQLITE_OK, last_frame [2, 3, 2] 1 (mxFrame h) q, demo_wal\<lparr>shm := shm w', hdr := h\<rparr>)" if "mxFrame h \<le> 3" for h q
    using w'(4) [OF r [OF that], of "shm w'"] that by simp
  have "last_frame [2, 3, 2] 1 2 2 = 1" "last_frame [2, 3, 2] 1 3 2 = 3" "last_frame [2, 3, 2] 1 3 3 = 2"
    by (simp_all add: eval_nat_numeral)
  then show ?thesis using w'(1-3) find [of "hdrCopy0 (shm w')"] find [of "hdr w'"] by simp
qed

end
