(* ===== verification/WalRecover.thy ===== *)
theory WalRecover
  imports WalTxn
begin

text \<open>
  The format of the log file and recovery (\<open>src/src/wal.c\<close>: \<open>walChecksumBytes\<close>, \<open>walEncodeFrame\<close>,
  \<open>walDecodeFrame\<close>, \<open>walIndexRecover\<close>).  The three checksum loops compute one sum over the words of the log in
  its own byte order; a frame that was written is decoded, and recovery stops at the first frame that does not
  decode and keeps what was committed before it.
\<close>

lemma get4_bits:
  "sqlite3Get4byte (a # b # c # d # r) = push_bit 24 (ucast a) OR push_bit 16 (ucast b) OR push_bit 8 (ucast c) OR ucast d"
  by (simp add: sqlite3Get4byte_def byte_at_Cons or.assoc)

lemma add_or: "x AND y = 0 \<Longrightarrow> x + y = x OR (y :: u32)"
  by (rule disjunctive_add_eq_or)

lemma BYTESWAP32_or:
  "BYTESWAP32 x = ((push_bit 24 (x AND 0xFF) OR push_bit 8 (x AND 0xFF00)) OR drop_bit 8 (x AND 0xFF0000)) OR drop_bit 24 (x AND 0xFF000000)"
proof -
  have 1: "push_bit 24 (x AND 0xFF) AND push_bit 8 (x AND 0xFF00) = 0" by (rule u32_eqI) (simp add: bitblast_simps)
  have 2: "(push_bit 24 (x AND 0xFF) OR push_bit 8 (x AND 0xFF00)) AND drop_bit 8 (x AND 0xFF0000) = 0"
    by (rule u32_eqI) (simp add: bitblast_simps)
  have 3: "((push_bit 24 (x AND 0xFF) OR push_bit 8 (x AND 0xFF00)) OR drop_bit 8 (x AND 0xFF0000)) AND drop_bit 24 (x AND 0xFF000000) = 0"
    by (rule u32_eqI) (simp add: bitblast_simps)
  show ?thesis unfolding BYTESWAP32_def add_or [OF 1] add_or [OF 2] add_or [OF 3] ..
qed

lemma swap4: "BYTESWAP32 (sqlite3Get4byte (a # b # c # d # r)) = sqlite3Get4byte (d # c # b # a # r')"
  unfolding BYTESWAP32_or get4_bits by (rule u32_eqI) (simp add: bitblast_simps)

lemma list_4:
  assumes "4 \<le> length a"
  obtains b0 b1 b2 b3 r where "a = b0 # b1 # b2 # b3 # r"
  using assms by (auto simp: eval_nat_numeral Suc_le_length_iff)

lemma load32_swap: "4 \<le> length a \<Longrightarrow> BYTESWAP32 (load32 be a) = load32 (\<not> be) a"
  by (erule list_4) (auto simp: load32_def swap4 [where r = "[]" and r' = "[]"])

section \<open>The checksum on the words of the log\<close>

fun pair_sum :: "u32 list \<Rightarrow> u32 \<times> u32 \<Rightarrow> u32 \<times> u32" where
  "pair_sum (x # y # ws) (s1, s2) = (let s1' = s1 + x + s2 in pair_sum ws (s1', s2 + y + s1'))"
| "pair_sum ws c = c"

lemma length_words32 [simp]: "length (words32 be a n) = n"
  by (induction n arbitrary: a) auto

lemma words32_swap: "4 * n \<le> length a \<Longrightarrow> map BYTESWAP32 (words32 be a n) = words32 (\<not> be) a n"
  by (induction n arbitrary: a) (auto simp: load32_swap)

lemma split2: "2 \<le> length ws \<Longrightarrow> ws = ws ! 0 # ws ! 1 # drop 2 ws"
  by (auto simp: eval_nat_numeral Suc_le_length_iff)

lemma pair_sum_step: "2 \<le> length ws \<Longrightarrow> pair_sum ws (s1, s2) =
    (let s1' = s1 + (ws ! 0 + s2) in pair_sum (drop 2 ws) (s1', s2 + (ws ! 1 + s1')))"
  by (subst split2) (auto simp: Let_def add.assoc)

lemma even_list_ge: "even (length ws) \<Longrightarrow> ws \<noteq> [] \<Longrightarrow> 2 \<le> length ws"
  by (cases ws; cases "tl ws") auto

lemma cksum_pairs_sum: "even (length ws) \<Longrightarrow> ws \<noteq> [] \<Longrightarrow> cksum_pairs ws s1 s2 = pair_sum ws (s1, s2)"
proof (induction ws s1 s2 rule: cksum_pairs.induct)
  case (1 ws s1 s2)
  have l: "2 \<le> length ws" using 1 even_list_ge by blast
  show ?case
  proof (cases "2 < length ws")
    case True
    then show ?thesis using 1 l by (subst cksum_pairs.simps, subst pair_sum_step) (auto simp: Let_def)
  next
    case False
    then have "drop 2 ws = []" by simp
    then show ?thesis using False l by (subst cksum_pairs.simps, subst pair_sum_step) (auto simp: Let_def)
  qed
qed

lemma cksum_swap_sum: "even (length ws) \<Longrightarrow> ws \<noteq> [] \<Longrightarrow> cksum_swap ws s1 s2 = pair_sum (map BYTESWAP32 ws) (s1, s2)"
proof (induction ws s1 s2 rule: cksum_swap.induct)
  case (1 ws s1 s2)
  have l: "2 \<le> length ws" using 1 even_list_ge by blast
  show ?case
  proof (cases "2 < length ws")
    case True
    then show ?thesis using 1 l by (subst cksum_swap.simps, subst pair_sum_step) (auto simp: Let_def drop_map)
  next
    case False
    then have "drop 2 ws = []" by simp
    then show ?thesis using False l by (subst cksum_swap.simps, subst pair_sum_step) (auto simp: Let_def drop_map)
  qed
qed

lemma pair_sum_16:
  assumes "16 \<le> length ws"
  shows "pair_sum ws (s1, s2) =
     (let s1 = s1 + (ws ! 0 + s2); s2 = s2 + (ws ! 1 + s1);
          s1 = s1 + (ws ! 2 + s2); s2 = s2 + (ws ! 3 + s1);
          s1 = s1 + (ws ! 4 + s2); s2 = s2 + (ws ! 5 + s1);
          s1 = s1 + (ws ! 6 + s2); s2 = s2 + (ws ! 7 + s1);
          s1 = s1 + (ws ! 8 + s2); s2 = s2 + (ws ! 9 + s1);
          s1 = s1 + (ws ! 10 + s2); s2 = s2 + (ws ! 11 + s1);
          s1 = s1 + (ws ! 12 + s2); s2 = s2 + (ws ! 13 + s1);
          s1 = s1 + (ws ! 14 + s2); s2 = s2 + (ws ! 15 + s1)
      in pair_sum (drop 16 ws) (s1, s2))"
proof -
  have s: "pair_sum (drop k ws) (x, y) = (let x = x + (ws ! k + y); y = y + (ws ! j + x) in pair_sum (drop m ws) (x, y))"
    if "k \<le> 14" "j = k + 1" "m = k + 2" for k j m x y
    using that assms by (subst pair_sum_step) (simp_all add: Let_def)
  have s0: "pair_sum (drop 0 ws) (x, y) = (let x = x + (ws ! 0 + y); y = y + (ws ! 1 + x) in pair_sum (drop 2 ws) (x, y))" for x y
    by (rule s) simp_all
  have s2: "pair_sum (drop 2 ws) (x, y) = (let x = x + (ws ! 2 + y); y = y + (ws ! 3 + x) in pair_sum (drop 4 ws) (x, y))" for x y
    by (rule s) simp_all
  have s4: "pair_sum (drop 4 ws) (x, y) = (let x = x + (ws ! 4 + y); y = y + (ws ! 5 + x) in pair_sum (drop 6 ws) (x, y))" for x y
    by (rule s) simp_all
  have s6: "pair_sum (drop 6 ws) (x, y) = (let x = x + (ws ! 6 + y); y = y + (ws ! 7 + x) in pair_sum (drop 8 ws) (x, y))" for x y
    by (rule s) simp_all
  have s8: "pair_sum (drop 8 ws) (x, y) = (let x = x + (ws ! 8 + y); y = y + (ws ! 9 + x) in pair_sum (drop 10 ws) (x, y))" for x y
    by (rule s) simp_all
  have s10: "pair_sum (drop 10 ws) (x, y) = (let x = x + (ws ! 10 + y); y = y + (ws ! 11 + x) in pair_sum (drop 12 ws) (x, y))" for x y
    by (rule s) simp_all
  have s12: "pair_sum (drop 12 ws) (x, y) = (let x = x + (ws ! 12 + y); y = y + (ws ! 13 + x) in pair_sum (drop 14 ws) (x, y))" for x y
    by (rule s) simp_all
  have s14: "pair_sum (drop 14 ws) (x, y) = (let x = x + (ws ! 14 + y); y = y + (ws ! 15 + x) in pair_sum (drop 16 ws) (x, y))" for x y
    by (rule s) simp_all
  have "pair_sum ws (s1, s2) = pair_sum (drop 0 ws) (s1, s2)" by simp
  then show ?thesis by (simp only: s0 s2 s4 s6 s8 s10 s12 s14)
qed

lemma cksum_unrolled_sum: "length ws mod 16 = 0 \<Longrightarrow> ws \<noteq> [] \<Longrightarrow> cksum_unrolled ws s1 s2 = pair_sum ws (s1, s2)"
proof (induction "length ws" arbitrary: ws s1 s2 rule: less_induct)
  case less
  have l: "16 \<le> length ws" using less(2,3) by (metis length_greater_0_conv linorder_not_le mod_less not_less_zero)
  have rest: "(if 16 < length ws then cksum_unrolled (drop 16 ws) x y else (x, y)) = pair_sum (drop 16 ws) (x, y)" for x y
  proof (cases "16 < length ws")
    case True
    have "length (drop 16 ws) mod 16 = 0" using less(2) l by (simp add: le_mod_geq)
    then show ?thesis using True less(1) [of "drop 16 ws"] by simp
  qed simp
  show ?case by (simp only: cksum_unrolled.simps [of ws] pair_sum_16 [OF l] rest)
qed

text \<open>
  The checksum of a buffer as the log defines it: its words are read in the byte order \<open>big\<close> of the log, whatever
  the byte order of the machine.
\<close>

definition log_cksum :: "bool \<Rightarrow> bytes \<Rightarrow> u32 \<times> u32 \<Rightarrow> u32 \<times> u32" where
  "log_cksum big a c = pair_sum (words32 big a (length a div 4)) c"

lemma walChecksumBytes_sum:
  assumes n: "nByte mod 8 = 0" "0 < nByte" "nByte \<le> length a"
  shows "walChecksumBytes be (big = be) a nByte aIn = pair_sum (words32 big a (nByte div 4)) (case aIn of Some c \<Rightarrow> c | None \<Rightarrow> (0, 0))"
proof -
  let ?ws = "words32 be a (nByte div 4)"
  obtain s1 s2 where c: "(case aIn of Some c \<Rightarrow> c | None \<Rightarrow> (0, 0)) = (s1, s2)" by fastforce
  have e: "even (length ?ws)" "?ws \<noteq> []" using n by (auto elim!: dvdE simp flip: length_0_conv)
  have 64: "length ?ws mod 16 = 0" if "nByte mod 64 = 0" using that by auto
  show ?thesis
  proof (cases "big = be")
    case True
    then show ?thesis using e 64 by (simp add: walChecksumBytes_def c Let_def cksum_pairs_sum cksum_unrolled_sum)
  next
    case False
    then have "map BYTESWAP32 ?ws = words32 big a (nByte div 4)" using words32_swap [of "nByte div 4" a be] n by auto
    then show ?thesis using False e by (simp add: walChecksumBytes_def c cksum_swap_sum)
  qed
qed

lemma words32_append: "4 * n \<le> length a \<Longrightarrow> words32 big (a @ b) n = words32 big a n"
  by (induction n arbitrary: a) (auto simp: load32_def)

lemma walChecksumBytes_log:
  assumes "length a = n" "n mod 8 = 0" "0 < n"
  shows "walChecksumBytes be (big = be) (a @ b) n (Some c) = log_cksum big a c"
    "walChecksumBytes be (big = be) (a @ b) n None = log_cksum big a (0, 0)"
    "walChecksumBytes be (big = be) a n (Some c) = log_cksum big a c"
    "walChecksumBytes be (big = be) a n None = log_cksum big a (0, 0)"
  using assms by (auto simp: walChecksumBytes_sum log_cksum_def words32_append)

section \<open>The content of a log file\<close>

text \<open>A frame: the page number, the size of the database after a commit or 0, and the page image.\<close>

type_synonym wframe = "pgno \<times> nat \<times> bytes"

definition frame_cksum :: "bool \<Rightarrow> u32 \<times> u32 \<Rightarrow> wframe \<Rightarrow> u32 \<times> u32" where
  "frame_cksum big c f = (case f of (q, t, d) \<Rightarrow>
     log_cksum big d (log_cksum big (sqlite3Put4byte (of_nat q) @ sqlite3Put4byte (of_nat t)) c))"

definition frame_bytes :: "bytes \<Rightarrow> u32 \<times> u32 \<Rightarrow> wframe \<Rightarrow> bytes" where
  "frame_bytes salt c f = (case f of (q, t, d) \<Rightarrow>
     sqlite3Put4byte (of_nat q) @ sqlite3Put4byte (of_nat t) @ salt @ sqlite3Put4byte (fst c) @ sqlite3Put4byte (snd c) @ d)"

fun log_frames :: "bool \<Rightarrow> bytes \<Rightarrow> u32 \<times> u32 \<Rightarrow> wframe list \<Rightarrow> bytes" where
  "log_frames big salt c [] = []"
| "log_frames big salt c (f # fs) = frame_bytes salt (frame_cksum big c f) f @ log_frames big salt (frame_cksum big c f) fs"

definition hdr_start :: "bool \<Rightarrow> nat \<Rightarrow> u32 \<Rightarrow> bytes \<Rightarrow> bytes" where
  "hdr_start big sz nck salt =
     sqlite3Put4byte (WAL_MAGIC OR (if big then 1 else 0)) @ sqlite3Put4byte WAL_MAX_VERSION @
     sqlite3Put4byte (of_nat sz) @ sqlite3Put4byte nck @ salt"

definition hdr_cksum :: "bool \<Rightarrow> nat \<Rightarrow> u32 \<Rightarrow> bytes \<Rightarrow> u32 \<times> u32" where
  "hdr_cksum big sz nck salt = log_cksum big (hdr_start big sz nck salt) (0, 0)"

definition wal_header :: "bool \<Rightarrow> nat \<Rightarrow> u32 \<Rightarrow> bytes \<Rightarrow> bytes" where
  "wal_header big sz nck salt =
     hdr_start big sz nck salt @ sqlite3Put4byte (fst (hdr_cksum big sz nck salt)) @ sqlite3Put4byte (snd (hdr_cksum big sz nck salt))"

definition log_file :: "bool \<Rightarrow> nat \<Rightarrow> u32 \<Rightarrow> bytes \<Rightarrow> wframe list \<Rightarrow> bytes" where
  "log_file big sz nck salt fs = wal_header big sz nck salt @ log_frames big salt (hdr_cksum big sz nck salt) fs"

definition frame_ok :: "nat \<Rightarrow> wframe \<Rightarrow> bool" where
  "frame_ok sz f \<longleftrightarrow> (case f of (q, t, d) \<Rightarrow> 0 < q \<and> q < 2 ^ 32 \<and> t < 2 ^ 32 \<and> length d = sz)"

lemma length_Put4 [simp]: "length (sqlite3Put4byte v) = 4"
  by (simp add: sqlite3Put4byte_def)

lemma length_frame_bytes: "frame_ok sz f \<Longrightarrow> length salt = 8 \<Longrightarrow> length (frame_bytes salt c f) = sz + 24"
  by (cases f) (simp add: frame_bytes_def frame_ok_def)

lemma length_log_frames: "\<forall>f\<in>set fs. frame_ok sz f \<Longrightarrow> length salt = 8 \<Longrightarrow> length (log_frames big salt c fs) = length fs * (sz + 24)"
  by (induction fs arbitrary: c) (auto simp: length_frame_bytes)

lemma log_frames_append: "log_frames big salt c (fs @ gs) = log_frames big salt c fs @ log_frames big salt (foldl (frame_cksum big) c fs) gs"
  by (induction fs arbitrary: c) auto

lemma length_wal_header: "length salt = 8 \<Longrightarrow> length (wal_header big sz nck salt) = 32"
  by (simp add: wal_header_def hdr_start_def)

text \<open>The bytes of frame number \<open>Suc k\<close>.\<close>

lemma log_file_frame:
  assumes fs: "\<forall>f\<in>set fs. frame_ok sz f" and salt: "length salt = 8" and k: "k < length fs"
  shows "subbytes (log_file big sz nck salt fs @ junk) (walFrameOffset (Suc k) sz) (sz + 24) =
    frame_bytes salt (frame_cksum big (foldl (frame_cksum big) (hdr_cksum big sz nck salt) (take k fs)) (fs ! k)) (fs ! k)"
proof -
  let ?c = "hdr_cksum big sz nck salt" let ?ck = "foldl (frame_cksum big) ?c (take k fs)"
  have "log_frames big salt ?c fs = log_frames big salt ?c (take k fs @ fs ! k # drop (Suc k) fs)"
    using id_take_nth_drop [OF k] by (rule arg_cong)
  then have "log_file big sz nck salt fs @ junk = (wal_header big sz nck salt @ log_frames big salt ?c (take k fs)) @
      frame_bytes salt (frame_cksum big ?ck (fs ! k)) (fs ! k) @ log_frames big salt (frame_cksum big ?ck (fs ! k)) (drop (Suc k) fs) @ junk"
    by (simp only: log_file_def log_frames_append log_frames.simps append.assoc)
  moreover have "length (wal_header big sz nck salt @ log_frames big salt ?c (take k fs)) = walFrameOffset (Suc k) sz"
  proof -
    have "length (log_frames big salt ?c (take k fs)) = length (take k fs) * (sz + 24)"
      using fs salt by (intro length_log_frames) (auto dest: in_set_takeD)
    then show ?thesis using k length_wal_header [OF salt] by (simp add: walFrameOffset_def)
  qed
  moreover have "length (frame_bytes salt (frame_cksum big ?ck (fs ! k)) (fs ! k)) = sz + 24"
    using fs k salt by (simp add: length_frame_bytes)
  ultimately show ?thesis by (simp only: subbytes_append_exact)
qed

section \<open>Encoding and decoding\<close>

definition log_order :: "wal \<Rightarrow> bool" where
  "log_order w \<longleftrightarrow> bigEndCksum (hdr w) = 1"

lemma native_cksum_eq: "bigEndCksum (hdr w) \<in> {0, 1} \<Longrightarrow> native_cksum w = (log_order w = bigEndian w)"
  by (auto simp: native_cksum_def log_order_def)

text \<open>What the operations on frames read from a connection.\<close>

definition frame_env :: "nat \<Rightarrow> bytes \<Rightarrow> bool \<Rightarrow> wal \<Rightarrow> bool" where
  "frame_env sz salt big w \<longleftrightarrow> bigEndCksum (hdr w) = (if big then 1 else 0) \<and> aSalt (hdr w) = salt \<and> length salt = 8 \<and> wSzPage w = sz \<and>
     sz mod 8 = 0 \<and> 0 < sz"

lemma frame_env_native: "frame_env sz salt big w \<Longrightarrow> native_cksum w = (big = bigEndian w)"
  by (auto simp: frame_env_def native_cksum_def)

lemma walEncodeFrame_ok:
  assumes env: "frame_env sz salt big w" and r: "iReCksum w = 0" and d: "length d = sz"
  shows "walEncodeFrame w q t d = (take 24 (frame_bytes salt (frame_cksum big (aFrameCksum (hdr w)) (q, t, d)) (q, t, d)),
     set_cksum w (frame_cksum big (aFrameCksum (hdr w)) (q, t, d)))"
proof -
  let ?a = "sqlite3Put4byte (of_nat q) @ sqlite3Put4byte (of_nat t)"
  have 1: "walChecksumBytes (bigEndian w) (native_cksum w) ?a 8 (Some c) = log_cksum big ?a c" for c
    unfolding frame_env_native [OF env] by (rule walChecksumBytes_log) simp_all
  have 2: "walChecksumBytes (bigEndian w) (native_cksum w) d (wSzPage w) (Some c) = log_cksum big d c" for c
    unfolding frame_env_native [OF env] using env d by (intro walChecksumBytes_log) (auto simp: frame_env_def)
  have salt: "aSalt (hdr w) = salt" "length salt = 8" using env by (auto simp: frame_env_def)
  show ?thesis by (simp add: walEncodeFrame_def r Let_def 1 2 frame_cksum_def frame_bytes_def salt)
qed

lemma walDecodeFrame_ok:
  assumes env: "frame_env sz salt big w" and f: "frame_ok sz (q, t, d)"
    and b: "b = frame_bytes salt (frame_cksum big (aFrameCksum (hdr w)) (q, t, d)) (q, t, d)"
  shows "walDecodeFrame w (drop 24 b) b = (Some (q, t), set_cksum w (frame_cksum big (aFrameCksum (hdr w)) (q, t, d)))"
proof -
  let ?a = "sqlite3Put4byte (of_nat q) @ sqlite3Put4byte (of_nat t)" let ?c = "frame_cksum big (aFrameCksum (hdr w)) (q, t, d)"
  have salt: "aSalt (hdr w) = salt" "length salt = 8" "wSzPage w = sz" "sz mod 8 = 0" "0 < sz" using env by (auto simp: frame_env_def)
  have d: "length d = sz" "d \<noteq> []" using f salt by (auto simp: frame_ok_def)
  have b': "b = ?a @ salt @ sqlite3Put4byte (fst ?c) @ sqlite3Put4byte (snd ?c) @ d" by (simp add: b frame_bytes_def)
  have parts: "subbytes b 8 8 = salt" "drop 24 b = d" "drop 16 b = sqlite3Put4byte (fst ?c) @ sqlite3Put4byte (snd ?c) @ d"
    "drop 20 b = sqlite3Put4byte (snd ?c) @ d" "drop 4 b = sqlite3Put4byte (of_nat t) @ salt @ sqlite3Put4byte (fst ?c) @ sqlite3Put4byte (snd ?c) @ d"
    using salt by (simp_all add: b' subbytes_def)
  have 1: "walChecksumBytes (bigEndian w) (native_cksum w) b 8 (Some c) = log_cksum big ?a c" for c
    unfolding frame_env_native [OF env] b' by (rule walChecksumBytes_log) simp_all
  have 2: "walChecksumBytes (bigEndian w) (native_cksum w) d (wSzPage w) (Some c) = log_cksum big d c" for c
    unfolding frame_env_native [OF env] using salt d by (intro walChecksumBytes_log) auto
  have q: "sqlite3Get4byte b = of_nat q" by (simp only: b' append.assoc Get4byte_Put4byte)
  have n: "unat (of_nat q :: u32) = q" "unat (of_nat t :: u32) = t" using f by (simp_all add: frame_ok_def unat_of_nat)
  show ?thesis unfolding walDecodeFrame_def parts 1 2 q Let_def Get4byte_Put4byte n
    using salt f by (simp add: frame_cksum_def frame_ok_def)
qed

text \<open>A tail of the file that does not start with a valid frame.\<close>

definition no_frame :: "bool \<Rightarrow> nat \<Rightarrow> bytes \<Rightarrow> u32 \<times> u32 \<Rightarrow> bytes \<Rightarrow> bool" where
  "no_frame big sz salt c junk \<longleftrightarrow> length junk < sz + 24 \<or> subbytes junk 8 8 \<noteq> salt \<or> sqlite3Get4byte junk = 0 \<or>
     log_cksum big (subbytes junk 24 sz) (log_cksum big (take 8 junk) c) \<noteq> (sqlite3Get4byte (drop 16 junk), sqlite3Get4byte (drop 20 junk))"

lemma Get4_take: "4 \<le> n \<Longrightarrow> sqlite3Get4byte (take n a) = sqlite3Get4byte a"
  by (auto simp: sqlite3Get4byte_def byte_at_def)

lemma walDecodeFrame_bad:
  assumes env: "frame_env sz salt big w" and bad: "no_frame big sz salt (aFrameCksum (hdr w)) junk" and l: "sz + 24 \<le> length junk"
  shows "\<exists>w'. walDecodeFrame w (drop 24 (take (sz + 24) junk)) (take (sz + 24) junk) = (None, w') \<and> (\<exists>c. w' = set_cksum w c)"
proof -
  let ?b = "take (sz + 24) junk"
  have salt: "aSalt (hdr w) = salt" "length salt = 8" "wSzPage w = sz" "sz mod 8 = 0" "0 < sz" using env by (auto simp: frame_env_def)
  have b: "drop 24 ?b = subbytes junk 24 sz" "length (subbytes junk 24 sz) = sz" using l by (simp_all add: subbytes_def drop_take)
  have b8: "?b = take 8 junk @ take (sz + 16) (drop 8 junk)" "length (take 8 junk) = 8" using l by (simp_all add: take_add [of 8 "sz + 16", symmetric] add.commute)
  have 1: "walChecksumBytes (bigEndian w) (native_cksum w) ?b 8 (Some c) = log_cksum big (take 8 junk) c" for c
    unfolding frame_env_native [OF env] b8(1) using b8(2) by (intro walChecksumBytes_log) auto
  have 2: "walChecksumBytes (bigEndian w) (native_cksum w) (drop 24 ?b) (wSzPage w) (Some c) = log_cksum big (subbytes junk 24 sz) c" for c
    unfolding frame_env_native [OF env] b(1) using salt b(2) by (intro walChecksumBytes_log) auto
  have g: "sqlite3Get4byte ?b = sqlite3Get4byte junk" "sqlite3Get4byte (drop 16 ?b) = sqlite3Get4byte (drop 16 junk)"
     "sqlite3Get4byte (drop 20 ?b) = sqlite3Get4byte (drop 20 junk)" "subbytes ?b 8 8 = subbytes junk 8 8"
    by (simp_all add: drop_take Get4_take subbytes_def min_def)
  define c where "c = log_cksum big (subbytes junk 24 sz) (log_cksum big (take 8 junk) (aFrameCksum (hdr w)))"
  have bad: "subbytes junk 8 8 \<noteq> salt \<or> sqlite3Get4byte junk = 0 \<or> fst c \<noteq> sqlite3Get4byte (drop 16 junk) \<or> snd c \<noteq> sqlite3Get4byte (drop 20 junk)"
    using bad l by (auto simp: no_frame_def c_def prod_eq_iff)
  have "\<exists>c. w = set_cksum w c" by (rule exI [of _ "aFrameCksum (hdr w)"]) (simp add: set_cksum_def)
  then show ?thesis unfolding walDecodeFrame_def 1 2 g Let_def c_def [symmetric] salt(1) using bad
    by (simp split: if_split) (metis less_numeral_extra(3) surj_pair unsigned_0)
qed

section \<open>Recovery\<close>

lemma unixRead_full:
  assumes "offset + amt \<le> length (contents f)"
  shows "unixRead f amt offset [] = (SQLITE_OK, subbytes (contents f) offset amt, f, [])"
proof -
  have s: "seekAndRead (contents f) off n [] [] = (int n, subbytes (contents f) off n, None, [])" if "off + n \<le> length (contents f)" for off n
  proof -
    have p: "pread (contents f) off n n = subbytes (contents f) off n" "length (subbytes (contents f) off n) = n"
      using that by (auto simp: pread_def subbytes_def min_def max_def)
    then show ?thesis by (simp add: seekAndRead.simps p)
  qed
  have j: "subbytes (contents f) offset k @ subbytes (contents f) (offset + k) (amt - k) = subbytes (contents f) offset amt" if "k \<le> amt" for k
    using that by (simp add: subbytes_def take_add [symmetric] add.commute flip: drop_drop)
  show ?thesis
  proof (cases "offset < mmapSize f \<and> offset + amt \<le> mmapSize f")
    case True
    then show ?thesis by (simp add: unixRead_def)
  next
    case False
    define nCopy where "nCopy = (if offset < mmapSize f then mmapSize f - offset else 0)"
    have k: "nCopy \<le> amt" using False by (auto simp: nCopy_def)
    have e: "seekAndRead (contents f) (offset + nCopy) (amt - nCopy) [] [] =
        (int (amt - nCopy), subbytes (contents f) (offset + nCopy) (amt - nCopy), None, [])"
      using k assms by (intro s) simp
    show ?thesis unfolding unixRead_def Let_def nCopy_def [symmetric] e using False j [OF k] by (simp split: if_split)
  qed
qed

lemma os_read_full: "sysAns w = [] \<Longrightarrow> off + amt \<le> length (contents (walFd w)) \<Longrightarrow> os_read w amt off = (SQLITE_OK, subbytes (contents (walFd w)) off amt, w)"
  by (simp add: os_read_def unixRead_full)

text \<open>The last commit frame among the first \<open>k\<close> frames.\<close>

fun commit_end :: "wframe list \<Rightarrow> nat \<Rightarrow> nat" where
  "commit_end fs 0 = 0"
| "commit_end fs (Suc k) = (if fst (snd (fs ! k)) \<noteq> 0 then Suc k else commit_end fs k)"

definition page_code :: "nat \<Rightarrow> nat" where
  "page_code sz = ((sz AND 0xff00) OR drop_bit 16 sz) mod 2 ^ 16"

text \<open>The state of recovery after \<open>K\<close> frames; \<open>T\<close> frames fit into the file.\<close>

definition log_on_disk :: "bool \<Rightarrow> nat \<Rightarrow> u32 \<Rightarrow> bytes \<Rightarrow> wframe list \<Rightarrow> bytes \<Rightarrow> nat \<Rightarrow> wal \<Rightarrow> bool" where
  "log_on_disk big sz nck salt fs junk T w \<longleftrightarrow> contents (walFd w) = log_file big sz nck salt fs @ junk \<and> sysAns w = [] \<and> lockAns w = [] \<and>
     length salt = 8 \<and> (\<forall>f\<in>set fs. frame_ok sz f) \<and> no_frame big sz salt (foldl (frame_cksum big) (hdr_cksum big sz nck salt) fs) junk \<and>
     length fs \<le> T \<and> 32 + T * (sz + 24) \<le> length (contents (walFd w)) \<and> T + 8193 < 2 ^ 32 \<and> mapped_to (Suc T) w"

definition rec_inv :: "bool \<Rightarrow> nat \<Rightarrow> u32 \<Rightarrow> bytes \<Rightarrow> wframe list \<Rightarrow> nat \<Rightarrow> u32 \<times> u32 \<Rightarrow> wal \<Rightarrow> bool" where
  "rec_inv big sz nck salt fs K ck w \<longleftrightarrow> frame_env sz salt big w \<and> index_ok (map fst (take K fs)) (shm w) \<and> mxFrame (hdr w) = commit_end fs K \<and>
     (commit_end fs K \<noteq> 0 \<longrightarrow> hNPage (hdr w) = fst (snd (fs ! (commit_end fs K - 1))) \<and> hSzPage (hdr w) = page_code sz \<and>
        ck = foldl (frame_cksum big) (hdr_cksum big sz nck salt) (take (commit_end fs K) fs))"

lemma log_on_disk_upd [simp]:
  "log_on_disk big sz nck salt fs junk T (w\<lparr>hdr := h\<rparr>) = log_on_disk big sz nck salt fs junk T w"
  "log_on_disk big sz nck salt fs junk T (w\<lparr>shm := s\<rparr>) = log_on_disk big sz nck salt fs junk T w"
  "log_on_disk big sz nck salt fs junk T (set_cksum w c) = log_on_disk big sz nck salt fs junk T w"
  "log_on_disk big sz nck salt fs junk T (put_page w t p) = log_on_disk big sz nck salt fs junk T w"
  by (simp_all add: log_on_disk_def mapped_to_def set_cksum_def put_page_def)

lemma log_on_disk_cong:
  "walFd w' = walFd w \<Longrightarrow> sysAns w' = sysAns w \<Longrightarrow> lockAns w' = lockAns w \<Longrightarrow> nWiData w' = nWiData w \<Longrightarrow> mapped w' = mapped w \<Longrightarrow>
   log_on_disk big sz nck salt fs junk T w' = log_on_disk big sz nck salt fs junk T w"
  by (simp add: log_on_disk_def mapped_to_def)

lemma hdr_put_page [simp]: "hdr (put_page w t p) = hdr w"
  by (simp add: put_page_def)

lemma rec_inv_cksum: "rec_inv big sz nck salt fs K ck (set_cksum w c) = rec_inv big sz nck salt fs K ck w"
  by (simp add: rec_inv_def set_cksum_def frame_env_def)

lemma frame_fits:
  assumes "log_on_disk big sz nck salt fs junk T w" "K < T"
  shows "walFrameOffset (Suc K) sz + (sz + 24) \<le> length (contents (walFd w))"
proof -
  have "Suc K * (sz + 24) \<le> T * (sz + 24)" using assms(2) by (intro mult_le_mono1) simp
  moreover have "32 + T * (sz + 24) \<le> length (contents (walFd w))" using assms(1) unfolding log_on_disk_def by blast
  moreover have "walFrameOffset (Suc K) sz + (sz + 24) = 32 + Suc K * (sz + 24)" by (simp add: walFrameOffset_def)
  ultimately show ?thesis by linarith
qed

lemma recover_step:
  assumes d: "log_on_disk big sz nck salt fs junk T w" and i: "rec_inv big sz nck salt fs K ck w" and K: "K < length fs"
    and c: "aFrameCksum (hdr w) = foldl (frame_cksum big) (hdr_cksum big sz nck salt) (take K fs)"
  shows "\<exists>w1 ck1. recover_frames w sz (Suc K) (Suc n) ck = recover_frames w1 sz (Suc (Suc K)) n ck1 \<and>
    log_on_disk big sz nck salt fs junk T w1 \<and> rec_inv big sz nck salt fs (Suc K) ck1 w1 \<and>
    aFrameCksum (hdr w1) = foldl (frame_cksum big) (hdr_cksum big sz nck salt) (take (Suc K) fs)"
proof -
  let ?c = "foldl (frame_cksum big) (hdr_cksum big sz nck salt) (take K fs)"
  obtain q t p where f: "fs ! K = (q, t, p)" by (cases "fs ! K")
  have fok: "frame_ok sz (q, t, p)" using d K f by (metis log_on_disk_def nth_mem)
  have env: "frame_env sz salt big w" using i by (simp add: rec_inv_def)
  have fit: "walFrameOffset (Suc K) sz + (sz + 24) \<le> length (contents (walFd w))"
    using d K by (intro frame_fits [OF d]) (simp add: log_on_disk_def)
  define b where "b = frame_bytes salt (frame_cksum big ?c (q, t, p)) (q, t, p)"
  have rd: "os_read w (sz + 24) (walFrameOffset (Suc K) sz) = (SQLITE_OK, b, w)"
    using os_read_full [OF _ fit] d K f log_file_frame [of fs sz salt K big nck junk] by (simp add: log_on_disk_def b_def)
  have dec: "walDecodeFrame w (drop 24 b) b = (Some (q, t), set_cksum w (frame_cksum big ?c (q, t, p)))"
    using walDecodeFrame_ok [OF env fok] c b_def by simp
  let ?w1 = "set_cksum w (frame_cksum big ?c (q, t, p))"
  have "\<exists>s'. walIndexAppend ?w1 (Suc K) q = (SQLITE_OK, ?w1\<lparr>shm := s'\<rparr>) \<and> index_ok (take K (map fst (take K fs)) @ [q]) s' \<and> same_headers (shm ?w1) s'"
  proof (rule walIndexAppend_ok)
    show "mapped_to (Suc K) ?w1" using d K by (auto simp: log_on_disk_def set_cksum_def mapped_to_def)
  qed (use i d K fok in \<open>auto simp: rec_inv_def set_cksum_def log_on_disk_def frame_ok_def\<close>)
  then obtain s' where s': "walIndexAppend ?w1 (Suc K) q = (SQLITE_OK, ?w1\<lparr>shm := s'\<rparr>)" "index_ok (map fst (take K fs) @ [q]) s'"
    using K by auto
  have t: "take (Suc K) fs = take K fs @ [(q, t, p)]" using K f by (simp add: take_Suc_conv_app_nth)
  let ?w2 = "?w1\<lparr>shm := s'\<rparr>"
  show ?thesis
  proof (cases "t = 0")
    case True
    have "recover_frames w sz (Suc K) (Suc n) ck = recover_frames ?w2 sz (Suc (Suc K)) n ck"
      using s'(1) True by (simp add: rd dec)
    moreover have "rec_inv big sz nck salt fs (Suc K) ck ?w2"
      using i s'(2) t f True by (simp add: rec_inv_def set_cksum_def frame_env_def)
    moreover have "log_on_disk big sz nck salt fs junk T ?w2" using d by simp
    moreover have "aFrameCksum (hdr ?w2) = foldl (frame_cksum big) (hdr_cksum big sz nck salt) (take (Suc K) fs)"
      by (simp add: set_cksum_def t)
    ultimately show ?thesis by blast
  next
    case False
    let ?w3 = "?w2\<lparr>hdr := (hdr ?w2)\<lparr>mxFrame := Suc K, hNPage := t, hSzPage := page_code sz\<rparr>\<rparr>"
    have "recover_frames w sz (Suc K) (Suc n) ck = recover_frames ?w3 sz (Suc (Suc K)) n (frame_cksum big ?c (q, t, p))"
      using False by (simp add: rd dec s'(1) page_code_def) (simp add: set_cksum_def)
    moreover have "rec_inv big sz nck salt fs (Suc K) (frame_cksum big ?c (q, t, p)) ?w3"
      using i s'(2) t f False by (simp add: rec_inv_def set_cksum_def frame_env_def)
    moreover have "log_on_disk big sz nck salt fs junk T ?w3" using d by simp
    moreover have "aFrameCksum (hdr ?w3) = foldl (frame_cksum big) (hdr_cksum big sz nck salt) (take (Suc K) fs)"
      by (simp add: set_cksum_def t)
    ultimately show ?thesis by blast
  qed
qed

lemma recover_frames_ok:
  assumes "log_on_disk big sz nck salt fs junk T w" "rec_inv big sz nck salt fs K ck w" "K \<le> length fs" "K + n \<le> T"
    "aFrameCksum (hdr w) = foldl (frame_cksum big) (hdr_cksum big sz nck salt) (take K fs)"
  shows "\<exists>ck' w'. recover_frames w sz (Suc K) n ck = (SQLITE_OK, length fs < K + n, ck', w') \<and>
    log_on_disk big sz nck salt fs junk T w' \<and> rec_inv big sz nck salt fs (min (K + n) (length fs)) ck' w' \<and>
    (K + n \<le> length fs \<longrightarrow> aFrameCksum (hdr w') = foldl (frame_cksum big) (hdr_cksum big sz nck salt) (take (K + n) fs))"
  using assms
proof (induction n arbitrary: K w ck)
  case 0
  then show ?case by simp
next
  case (Suc n)
  show ?case
  proof (cases "K < length fs")
    case True
    obtain w1 ck1 where 1: "recover_frames w sz (Suc K) (Suc n) ck = recover_frames w1 sz (Suc (Suc K)) n ck1"
      "log_on_disk big sz nck salt fs junk T w1" "rec_inv big sz nck salt fs (Suc K) ck1 w1"
      "aFrameCksum (hdr w1) = foldl (frame_cksum big) (hdr_cksum big sz nck salt) (take (Suc K) fs)"
      using recover_step [OF Suc.prems(1,2) True Suc.prems(5)] by blast
    show ?thesis unfolding 1(1) using Suc.IH [OF 1(2,3) _ _ 1(4)] True Suc.prems(4) by simp
  next
    case False
    then have K: "K = length fs" using Suc.prems(3) by simp
    let ?c = "foldl (frame_cksum big) (hdr_cksum big sz nck salt) fs"
    have env: "frame_env sz salt big w" using Suc.prems(2) by (simp add: rec_inv_def)
    have lf: "length (log_file big sz nck salt fs) = 32 + K * (sz + 24)"
      using Suc.prems(1) K length_log_frames [of fs sz salt big] by (simp add: log_on_disk_def log_file_def length_wal_header)
    have len: "length (contents (walFd w)) = 32 + K * (sz + 24) + length junk"
      using Suc.prems(1) lf by (simp add: log_on_disk_def)
    have fit: "walFrameOffset (Suc K) sz + (sz + 24) \<le> length (contents (walFd w))"
      using Suc.prems(4) by (intro frame_fits [OF Suc.prems(1)]) simp
    then have l: "sz + 24 \<le> length junk" unfolding len by (simp add: walFrameOffset_def)
    have "subbytes (contents (walFd w)) (walFrameOffset (Suc K) sz) (sz + 24) = take (sz + 24) junk"
      using Suc.prems(1) lf by (simp add: log_on_disk_def subbytes_def walFrameOffset_def)
    then have rd: "os_read w (sz + 24) (walFrameOffset (Suc K) sz) = (SQLITE_OK, take (sz + 24) junk, w)"
      using os_read_full [OF _ fit] Suc.prems(1) by (simp add: log_on_disk_def)
    have "no_frame big sz salt (aFrameCksum (hdr w)) junk" using Suc.prems(1,5) K by (simp add: log_on_disk_def)
    then obtain c where dec: "walDecodeFrame w (drop 24 (take (sz + 24) junk)) (take (sz + 24) junk) = (None, set_cksum w c)"
      using walDecodeFrame_bad [OF env _ l] by blast
    have "recover_frames w sz (Suc K) (Suc n) ck = (SQLITE_OK, True, ck, set_cksum w c)" by (simp add: rd dec del: drop_take)
    then show ?thesis using Suc.prems K by (simp add: rec_inv_cksum)
  qed
qed

lemma index_ok_put: "length log \<le> table_zero t \<Longrightarrow> index_ok log (shm (put_page w t p)) = index_ok log (shm w)"
  by (auto simp: index_ok_def put_page_def) (metis fun_upd_other linorder_not_le)+

lemma rec_inv_put: "K \<le> table_zero t \<Longrightarrow> rec_inv big sz nck salt fs K ck (put_page w t p) = rec_inv big sz nck salt fs K ck w"
proof -
  assume "K \<le> table_zero t"
  then have "index_ok (map fst (take K fs)) (shm (put_page w t p)) = index_ok (map fst (take K fs)) (shm w)"
    by (intro index_ok_put) simp
  then show ?thesis by (simp add: rec_inv_def put_page_def frame_env_def)
qed

lemma table_below: "T + 4096 < 2 ^ 32 \<Longrightarrow> t \<le> walFramePage T \<Longrightarrow> table_zero t < Suc T"
  by (cases "T = 0") (use walFramePage_iff [of T "walFramePage T"] table_zero_mono [of t "walFramePage T"] in
    \<open>auto simp: walFramePage_eq table_zero_def\<close>)

lemma page_mapped:
  assumes "mapped_to (Suc T) w" "T + 8193 < 2 ^ 32" "t \<le> walFramePage T"
  shows "walIndexPage w t = (SQLITE_OK, True, w)"
proof -
  have "t < nWiData w" "mapped w t" using assms table_below [of T t] unfolding mapped_to_def by auto
  then show ?thesis by (simp add: walIndexPage_def)
qed

lemma recover_tables_ok:
  assumes "log_on_disk big sz nck salt fs junk T w" "rec_inv big sz nck salt fs (table_zero iPg) ck w" "table_zero iPg \<le> length fs"
    "iPg + n = walFramePage T" "aFrameCksum (hdr w) = foldl (frame_cksum big) (hdr_cksum big sz nck salt) (take (table_zero iPg) fs)"
  shows "\<exists>ck' w'. recover_tables w sz T iPg (Suc n) priv ck = (SQLITE_OK, ck', w') \<and> log_on_disk big sz nck salt fs junk T w' \<and>
    rec_inv big sz nck salt fs (length fs) ck' w'"
  using assms
proof (induction n arbitrary: iPg w priv ck)
  case (0 iPg w priv ck)
  let ?K = "table_zero iPg" let ?w0 = "put_page w iPg priv"
  have T: "T + 8193 < 2 ^ 32" "length fs \<le> T" "mapped_to (Suc T) w" using 0(1) by (simp_all add: log_on_disk_def)
  have page: "walIndexPage w iPg = (SQLITE_OK, True, w)"
    by (rule page_mapped [OF T(3,1)]) (use 0(4) in simp)
  have last: "min T (4062 + iPg * 4096) = T"
    using walFramePage_iff [of T iPg] 0(4) T by (cases "T = 0") (auto simp: table_zero_def)
  have first: "1 + (if iPg = 0 then 0 else 4062 + (iPg - 1) * 4096) = Suc ?K" by (simp add: table_zero_def)
  have n: "T + 1 - Suc ?K = T - ?K" by simp
  obtain ck' w' where r: "recover_frames ?w0 sz (Suc ?K) (T - ?K) ck = (SQLITE_OK, length fs < ?K + (T - ?K), ck', w')"
      "log_on_disk big sz nck salt fs junk T w'" "rec_inv big sz nck salt fs (min (?K + (T - ?K)) (length fs)) ck' w'"
    using recover_frames_ok [of big sz nck salt fs junk T ?w0 ?K ck "T - ?K"] 0 T by (auto simp: rec_inv_put)
  have "recover_tables w sz T iPg (Suc 0) priv ck = (SQLITE_OK, ck', w')"
    unfolding recover_tables.simps Let_def page prod.case last first n r(1) by simp
  moreover have "min (?K + (T - ?K)) (length fs) = length fs" using T 0(3) by simp
  ultimately show ?case using r(2,3) by simp
next
  case (Suc n iPg w priv ck)
  let ?K = "table_zero iPg" let ?L = "table_zero (Suc iPg)" let ?w0 = "put_page w iPg priv"
  have T: "T + 8193 < 2 ^ 32" "length fs \<le> T" "mapped_to (Suc T) w" using Suc.prems(1) by (simp_all add: log_on_disk_def)
  have page: "walIndexPage w iPg = (SQLITE_OK, True, w)"
    by (rule page_mapped [OF T(3,1)]) (use Suc.prems(4) in simp)
  have LT: "?L \<le> T" using table_below [of T "Suc iPg"] T Suc.prems(4) by simp
  have last: "min T (4062 + iPg * 4096) = ?L" using LT by (simp add: table_zero_def)
  have first: "1 + (if iPg = 0 then 0 else 4062 + (iPg - 1) * 4096) = Suc ?K" by (simp add: table_zero_def)
  have KL: "?K + (?L - ?K) = ?L" using table_zero_mono [of iPg "Suc iPg"] by simp
  have n: "?L + 1 - Suc ?K = ?L - ?K" by simp
  obtain ck' w' where r: "recover_frames ?w0 sz (Suc ?K) (?L - ?K) ck = (SQLITE_OK, length fs < ?L, ck', w')"
      "log_on_disk big sz nck salt fs junk T w'" "rec_inv big sz nck salt fs (min ?L (length fs)) ck' w'"
      "?L \<le> length fs \<longrightarrow> aFrameCksum (hdr w') = foldl (frame_cksum big) (hdr_cksum big sz nck salt) (take ?L fs)"
    using recover_frames_ok [of big sz nck salt fs junk T ?w0 ?K ck "?L - ?K", unfolded KL] Suc.prems LT by (auto simp: rec_inv_put)
  have run: "recover_tables w sz T iPg (Suc (Suc n)) priv ck =
      (if length fs < ?L then (SQLITE_OK, ck', w') else recover_tables w' sz T (iPg + 1) (Suc n) (wi w' iPg) ck')"
    unfolding recover_tables.simps(2) [of w sz T iPg "Suc n"] Let_def page prod.case last first n r(1) by simp
  show ?case
  proof (cases "length fs < ?L")
    case True
    then show ?thesis unfolding run using r(2,3) by simp
  next
    case False
    then show ?thesis unfolding run using Suc.IH [of w' "Suc iPg" ck' "wi w' iPg"] r(2-4) Suc.prems(4) by simp
  qed
qed

section \<open>The whole of recovery\<close>

definition valid_page_size :: "nat \<Rightarrow> bool" where
  "valid_page_size sz \<longleftrightarrow> sz \<in> set [512, 1024, 2048, 4096, 8192, 16384, 32768, 65536]"

lemma valid_page_size_facts:
  assumes "valid_page_size sz"
  shows "sz AND (sz - 1) = 0" "sz \<le> 65536" "512 \<le> sz" "sz mod 8 = 0" "page_size_of (page_code sz) = sz"
  using assms by (auto simp: valid_page_size_def page_size_of_def page_code_def)

lemma header_parts:
  assumes salt: "length salt = 8" and sz: "valid_page_size sz"
  shows "sqlite3Get4byte (wal_header big sz nck salt) = WAL_MAGIC OR (if big then 1 else 0)"
    "sqlite3Get4byte (drop 4 (wal_header big sz nck salt)) = WAL_MAX_VERSION"
    "unat (sqlite3Get4byte (drop 8 (wal_header big sz nck salt))) = sz"
    "sqlite3Get4byte (drop 12 (wal_header big sz nck salt)) = nck"
    "subbytes (wal_header big sz nck salt) 16 8 = salt"
    "sqlite3Get4byte (drop 24 (wal_header big sz nck salt)) = fst (hdr_cksum big sz nck salt)"
    "sqlite3Get4byte (drop 28 (wal_header big sz nck salt)) = snd (hdr_cksum big sz nck salt)"
proof -
  let ?c = "hdr_cksum big sz nck salt"
  let ?e = "sqlite3Put4byte (fst ?c) @ sqlite3Put4byte (snd ?c)"
  have h: "wal_header big sz nck salt = sqlite3Put4byte (WAL_MAGIC OR (if big then 1 else 0)) @ sqlite3Put4byte WAL_MAX_VERSION @
     sqlite3Put4byte (of_nat sz) @ sqlite3Put4byte nck @ salt @ ?e" by (simp add: wal_header_def hdr_start_def)
  have d: "drop 4 (wal_header big sz nck salt) = sqlite3Put4byte WAL_MAX_VERSION @ sqlite3Put4byte (of_nat sz) @ sqlite3Put4byte nck @ salt @ ?e"
    "drop 8 (wal_header big sz nck salt) = sqlite3Put4byte (of_nat sz) @ sqlite3Put4byte nck @ salt @ ?e"
    "drop 12 (wal_header big sz nck salt) = sqlite3Put4byte nck @ salt @ ?e"
    "drop 24 (wal_header big sz nck salt) = sqlite3Put4byte (fst ?c) @ sqlite3Put4byte (snd ?c)"
    "drop 28 (wal_header big sz nck salt) = sqlite3Put4byte (snd ?c) @ []"
    "subbytes (wal_header big sz nck salt) 16 8 = salt"
    using salt by (simp_all add: h subbytes_def)
  have "unat (of_nat sz :: u32) = sz" using valid_page_size_facts(2) [OF sz] by (simp add: unat_of_nat)
  then show "sqlite3Get4byte (wal_header big sz nck salt) = WAL_MAGIC OR (if big then 1 else 0)"
    "sqlite3Get4byte (drop 4 (wal_header big sz nck salt)) = WAL_MAX_VERSION"
    "unat (sqlite3Get4byte (drop 8 (wal_header big sz nck salt))) = sz"
    "sqlite3Get4byte (drop 12 (wal_header big sz nck salt)) = nck"
    "subbytes (wal_header big sz nck salt) 16 8 = salt"
    "sqlite3Get4byte (drop 24 (wal_header big sz nck salt)) = fst ?c"
    "sqlite3Get4byte (drop 28 (wal_header big sz nck salt)) = snd ?c"
    by (simp_all only: d Get4byte_Put4byte, simp only: h Get4byte_Put4byte)
qed

lemma magic_facts:
  "(WAL_MAGIC OR (if big then 1 else 0)) AND 0xFFFFFFFE = WAL_MAGIC"
  "ucast ((WAL_MAGIC OR (if big then 1 else 0)) AND 1) = (if big then 1 else 0 :: u8)"
  by (cases big; simp)+

lemma recover_log_ok:
  assumes d: "log_on_disk big sz nck salt fs junk T w" and sz: "valid_page_size sz" and h: "hdr w = zero_hdr" and heap: "heapAns w = True # al"
    and n: "nSize = length (contents (walFd w))" "T = (nSize - 32) div (sz + 24)"
  shows "\<exists>ck' w'. recover_log w nSize priv = (SQLITE_OK, ck', w') \<and> log_on_disk big sz nck salt fs junk T w' \<and>
    rec_inv big sz nck salt fs (length fs) ck' w'"
proof -
  let ?b = "wal_header big sz nck salt" let ?c = "hdr_cksum big sz nck salt"
  have salt: "length salt = 8" "T + 8193 < 2 ^ 32" "sysAns w = []" "contents (walFd w) = log_file big sz nck salt fs @ junk"
    using d by (simp_all add: log_on_disk_def)
  have "subbytes (contents (walFd w)) 0 32 = ?b"
    unfolding salt(4) log_file_def using length_wal_header [OF salt(1)] by (simp add: subbytes_def)
  then have rd: "os_read w 32 0 = (SQLITE_OK, ?b, w)"
    using os_read_full [OF salt(3), of 0 32] salt(4) length_wal_header [OF salt(1), of big sz nck] by (simp add: log_file_def)
  define w1 where "w1 = w\<lparr>wSzPage := sz, nCkpt := nck, hdr := (hdr w)\<lparr>bigEndCksum := (if big then 1 else 0), aSalt := salt\<rparr>\<rparr>"
  have nat1: "native_cksum w1 = (big = bigEndian w1)" by (auto simp: w1_def native_cksum_def)
  have "length (hdr_start big sz nck salt) = 24" using salt by (simp add: hdr_start_def)
  then have ck: "walChecksumBytes (bigEndian w1) (native_cksum w1) ?b 24 None = ?c"
    unfolding nat1 wal_header_def hdr_cksum_def by (intro walChecksumBytes_log) auto
  let ?w2 = "(set_cksum w1 ?c)\<lparr>heapAns := al\<rparr>"
  have "recover_log w nSize priv = recover_tables ?w2 sz ((nSize - 32) div (sz + 24) mod 2 ^ 32) 0
      (walFramePage ((nSize - 32) div (sz + 24) mod 2 ^ 32) + 1) priv (0, 0)"
    unfolding recover_log_def rd prod.case Let_def header_parts [OF salt(1) sz] magic_facts w1_def [symmetric] ck
    using valid_page_size_facts [OF sz] heap by (simp add: set_cksum_def w1_def)
  also have "(nSize - 32) div (sz + 24) mod 2 ^ 32 = T" using n(2) salt(2) by simp
  finally have run: "recover_log w nSize priv = recover_tables ?w2 sz T 0 (Suc (walFramePage T)) priv (0, 0)" by simp
  have "log_on_disk big sz nck salt fs junk T ?w2" using d by (subst log_on_disk_cong) (simp_all add: set_cksum_def w1_def)
  moreover have "rec_inv big sz nck salt fs (table_zero 0) (0, 0) ?w2"
    using valid_page_size_facts [OF sz] salt(1)
    by (simp add: rec_inv_def table_zero_def index_ok_def frame_env_def set_cksum_def w1_def h zero_hdr_def)
  ultimately show ?thesis unfolding run
    using recover_tables_ok [of big sz nck salt fs junk T ?w2 0 "(0, 0)" "walFramePage T" priv] by (simp add: table_zero_def set_cksum_def w1_def)
qed

lemma shm_set_mark: "set_mark w i m = w\<lparr>shm := (shm w)\<lparr>ckptInfo := (ckptInfo (shm w))\<lparr>aReadMark := (aReadMark (ckptInfo (shm w)))[i := m]\<rparr>\<rparr>\<rparr>"
  by (simp add: set_mark_def)

lemma walLockExclusive_free: "lockAns w = [] \<Longrightarrow> walLockExclusive w i n = (SQLITE_OK, w)"
  by (simp add: walLockExclusive_def shm_lock_def)

lemma recover_marks_ok: "lockAns w = [] \<Longrightarrow> \<exists>ci. recover_marks w i n SQLITE_OK = (SQLITE_OK, w\<lparr>shm := (shm w)\<lparr>ckptInfo := ci\<rparr>\<rparr>)"
proof (induction n arbitrary: w i)
  case 0
  then show ?case by (intro exI [of _ "ckptInfo (shm w)"]) simp
next
  case (Suc n)
  let ?w = "set_mark w i (if i = 1 \<and> mxFrame (hdr w) \<noteq> 0 then mxFrame (hdr w) else READMARK_NOT_USED)"
  have "lockAns ?w = []" using Suc.prems by (simp add: set_mark_def)
  from Suc.IH [OF this, of "i + 1"] obtain ci where "recover_marks ?w (i + 1) n SQLITE_OK = (SQLITE_OK, ?w\<lparr>shm := (shm ?w)\<lparr>ckptInfo := ci\<rparr>\<rparr>)" by blast
  moreover have "?w\<lparr>shm := (shm ?w)\<lparr>ckptInfo := ci\<rparr>\<rparr> = w\<lparr>shm := (shm w)\<lparr>ckptInfo := ci\<rparr>\<rparr>" by (simp add: set_mark_def)
  ultimately have "recover_marks w i (Suc n) SQLITE_OK = (SQLITE_OK, w\<lparr>shm := (shm w)\<lparr>ckptInfo := ci\<rparr>\<rparr>)"
    by (simp only: recover_marks.simps walLockExclusive_free [OF Suc.prems] prod.case if_True refl)
  then show ?case by blast
qed

text \<open>A header that was written completely is accepted.\<close>

lemma hdr_bytes_cksum [simp]: "hdr_bytes be (h\<lparr>aCksum := c\<rparr>) = hdr_bytes be h"
  by (simp add: hdr_bytes_def)

definition hdr_valid :: "bool \<Rightarrow> wal_hdr \<Rightarrow> bool" where
  "hdr_valid be h \<longleftrightarrow> isInitHdr h \<noteq> 0 \<and> walChecksumBytes be True (hdr_bytes be h) 40 None = aCksum h"

lemma walIndexWriteHdr_valid: "hdr_valid (bigEndian w) (hdr (walIndexWriteHdr w))"
  by (simp add: walIndexWriteHdr_def Let_def hdr_valid_def)

lemma walIndexTryHdr_valid:
  "hdrCopy0 (shm w) = h \<Longrightarrow> hdrCopy1 (shm w) = h \<Longrightarrow> hdr_valid (bigEndian w) h \<Longrightarrow> \<not> fst (walIndexTryHdr w) \<and> hdr (snd (snd (walIndexTryHdr w))) = h"
  by (auto simp: walIndexTryHdr_def hdr_valid_def Let_def)

text \<open>What reading the log establishes, also for a log without frames.\<close>

lemma recover_content:
  assumes d: "log_on_disk big sz nck salt fs junk T w" and sz: "valid_page_size sz" and h: "hdr w = zero_hdr" and heap: "heapAns w = True # al"
    and T: "T = (length (contents (walFd w)) - 32) div (sz + 24)"
  shows "\<exists>ck' w'. (if length (contents (walFd w)) > 32 then recover_log w (length (contents (walFd w))) priv else (SQLITE_OK, (0, 0), w)) =
      (SQLITE_OK, ck', w') \<and> log_on_disk big sz nck salt fs junk T w' \<and> index_ok (map fst fs) (shm w') \<and>
    mxFrame (hdr w') = commit_end fs (length fs) \<and>
     (commit_end fs (length fs) \<noteq> 0 \<longrightarrow> hNPage (hdr w') = fst (snd (fs ! (commit_end fs (length fs) - 1))) \<and> hSzPage (hdr w') = page_code sz \<and>
        ck' = foldl (frame_cksum big) (hdr_cksum big sz nck salt) (take (commit_end fs (length fs)) fs))"
proof (cases "length (contents (walFd w)) > 32")
  case True
  then show ?thesis using recover_log_ok [OF d sz h heap refl T, of priv] by (auto simp: rec_inv_def)
next
  case False
  have "contents (walFd w) = log_file big sz nck salt fs @ junk" "length salt = 8" "\<forall>f\<in>set fs. frame_ok sz f" using d by (simp_all add: log_on_disk_def)
  then have "length fs * (sz + 24) = 0"
    using False length_log_frames [of fs sz salt big] by (simp add: log_file_def length_wal_header)
  then have "fs = []" by simp
  then show ?thesis using False d h by (auto simp: index_ok_def zero_hdr_def)
qed

lemma frame_image:
  assumes "subbytes c (walFrameOffset (Suc k) sz) (sz + 24) = frame_bytes salt ck f" "i = Suc k" "frame_ok sz f" "length salt = 8"
  shows "subbytes c (walFrameOffset i sz + 24) sz = snd (snd f)"
proof -
  have "subbytes c (walFrameOffset i sz + 24) sz = drop 24 (subbytes c (walFrameOffset (Suc k) sz) (sz + 24))"
    by (simp add: assms(2) subbytes_def drop_take add.commute)
  also have "\<dots> = snd (snd f)" unfolding assms(1) using assms(3,4) by (cases f) (simp add: frame_bytes_def frame_ok_def)
  finally show ?thesis .
qed

text \<open>
  C7: After a crash the log file holds the frames of the last transactions, followed by anything that is not a
  valid frame: a torn write, frames of an older log, or nothing.  Recovery then succeeds on a machine of any byte
  order; the new wal-index ends with the last commit frame, its header is accepted by readers, every search finds
  the last committed version of a page, and reading a frame gives the page image that was written.
\<close>

theorem wal_recovery:
  assumes content: "contents (walFd w) = log_file big sz nck salt fs @ junk" and sz: "valid_page_size sz" and salt: "length salt = 8"
    and fs: "\<forall>f\<in>set fs. frame_ok sz f" and bad: "no_frame big sz salt (foldl (frame_cksum big) (hdr_cksum big sz nck salt) fs) junk"
    and env: "sysAns w = []" "statAns w = []" "lockAns w = []" "heapAns w = True # al"
    and T: "T = (length (contents (walFd w)) - 32) div (sz + 24)" "T + 8193 < 2 ^ 32" "mapped_to (Suc T) w"
  shows "\<exists>w'. walIndexRecover w priv = (SQLITE_OK, w') \<and> mxFrame (hdr w') = commit_end fs (length fs) \<and>
    \<not> fst (walIndexTryHdr w') \<and> hdr (snd (snd (walIndexTryHdr w'))) = hdr w' \<and>
    (\<forall>r q. reads_log r \<and> shm r = shm w' \<and> hdr r = hdr w' \<longrightarrow>
       walFindFrame r q = (SQLITE_OK, last_frame (map fst fs) (minFrame r) (commit_end fs (length fs)) q, r)) \<and>
    (\<forall>i. 0 < i \<and> i \<le> commit_end fs (length fs) \<longrightarrow>
       hNPage (hdr w') = fst (snd (fs ! (commit_end fs (length fs) - 1))) \<and>
       aFrameCksum (hdr w') = foldl (frame_cksum big) (hdr_cksum big sz nck salt) (take (commit_end fs (length fs)) fs) \<and>
       sqlite3WalReadFrame w' i sz = (SQLITE_OK, snd (snd (fs ! (i - 1))), w'))"
proof -
  let ?n = "length (contents (walFd w))" let ?m = "commit_end fs (length fs)"
  have lf: "length (log_frames big salt (hdr_cksum big sz nck salt) fs) = length fs * (sz + 24)" using fs salt by (rule length_log_frames)
  have len: "?n = 32 + length fs * (sz + 24) + length junk" using lf length_wal_header [OF salt, of big sz nck] by (simp add: content log_file_def)
  have NT: "length fs \<le> T" unfolding T(1) len by (simp add: less_eq_div_iff_mult_less_eq)
  have TL: "32 + T * (sz + 24) \<le> ?n" using len div_times_less_eq_dividend [of "?n - 32" "sz + 24"] unfolding T(1) by linarith
  let ?w1 = "w\<lparr>hdr := zero_hdr\<rparr>"
  have "log_on_disk big sz nck salt fs junk T w" using assms NT TL unfolding log_on_disk_def by blast
  then have d: "log_on_disk big sz nck salt fs junk T ?w1" by simp
  have h1: "hdr ?w1 = zero_hdr" "heapAns ?w1 = True # al" "T = (length (contents (walFd ?w1)) - 32) div (sz + 24)" and e: "walFd ?w1 = walFd w"
    using env(4) T(1) by simp_all
  have size: "os_size ?w1 = (SQLITE_OK, ?n, ?w1)" using env(2) len by (simp add: os_size_def unixFileSize_def)
  obtain ck w2 where r: "(if ?n > 32 then recover_log ?w1 ?n priv else (SQLITE_OK, (0, 0), ?w1)) = (SQLITE_OK, ck, w2)"
      "log_on_disk big sz nck salt fs junk T w2" "index_ok (map fst fs) (shm w2)" "mxFrame (hdr w2) = ?m"
      "?m \<noteq> 0 \<longrightarrow> hNPage (hdr w2) = fst (snd (fs ! (?m - 1))) \<and> hSzPage (hdr w2) = page_code sz \<and>
        ck = foldl (frame_cksum big) (hdr_cksum big sz nck salt) (take ?m fs)"
    using recover_content [OF d sz h1, where priv = priv, unfolded e] by blast
  define w3 where "w3 = set_cksum w2 ck"
  obtain h where h: "walIndexWriteHdr w3 = w3\<lparr>hdr := h, shm := (shm w3)\<lparr>hdrCopy1 := h, hdrCopy0 := h\<rparr>\<rparr>" "mxFrame h = ?m"
      "hNPage h = hNPage (hdr w2)" "hSzPage h = hSzPage (hdr w2)" "aFrameCksum h = ck"
    using walIndexWriteHdr_eq [of w3] r(4) by (auto simp: w3_def set_cksum_def)
  have valid: "hdr_valid (bigEndian w3) h" using walIndexWriteHdr_valid [of w3] unfolding h(1) by simp
  have a2: "lockAns w2 = []" "sysAns w2 = []" using r(2) by (simp_all add: log_on_disk_def)
  define w4 where "w4 = (let w = walIndexWriteHdr w3 in w\<lparr>shm := (shm w)\<lparr>ckptInfo := (ckptInfo (shm w))\<lparr>nBackfill := 0,
      nBackfillAttempted := mxFrame (hdr w), aReadMark := (aReadMark (ckptInfo (shm w)))[0 := 0]\<rparr>\<rparr>\<rparr>)"
  have w4: "hdr w4 = h" "hdrCopy0 (shm w4) = h" "hdrCopy1 (shm w4) = h" "shmPage (shm w4) = shmPage (shm w2)" "lockAns w4 = []"
     "walFd w4 = walFd w2" "sysAns w4 = []" "bigEndian w4 = bigEndian w3"
    using a2 unfolding w4_def Let_def h(1) by (simp_all add: w3_def set_cksum_def)
  obtain ci where marks: "recover_marks w4 1 (WAL_NREADER - 1) SQLITE_OK = (SQLITE_OK, w4\<lparr>shm := (shm w4)\<lparr>ckptInfo := ci\<rparr>\<rparr>)"
    using recover_marks_ok [OF w4(5)] by blast
  define w' where "w' = w4\<lparr>shm := (shm w4)\<lparr>ckptInfo := ci\<rparr>\<rparr>"
  have run: "walIndexRecover w priv = (SQLITE_OK, w')"
    unfolding walIndexRecover_def Let_def walLockExclusive_free [OF env(3)] prod.case size r(1)
    using marks by (simp add: w'_def w4_def Let_def w3_def)
  have ix: "index_ok (map fst fs) (shm w')" using r(3) w4(4) index_ok_pages [of "shm w'" "shm w2"] by (simp add: w'_def)
  have cm: "commit_end fs k \<le> k" for k by (induction k) auto
  have find: "walFindFrame u q = (SQLITE_OK, last_frame (map fst fs) (minFrame u) ?m q, u)"
    if "reads_log u" "shm u = shm w'" "hdr u = hdr w'" for u q
    using walFindFrame_ok [of "map fst fs" u] that ix cm [of "length fs"] h(2) w4(1) by (simp add: reads_log_def w'_def)
  have rd: "hNPage (hdr w') = fst (snd (fs ! (?m - 1))) \<and> aFrameCksum (hdr w') = foldl (frame_cksum big) (hdr_cksum big sz nck salt) (take ?m fs) \<and>
      sqlite3WalReadFrame w' i sz = (SQLITE_OK, snd (snd (fs ! (i - 1))), w')" if i: "0 < i" "i \<le> ?m" for i
  proof -
    obtain k where k: "i = Suc k" "k < length fs" using i cm [of "length fs"] by (cases i) auto
    have d2: "log_on_disk big sz nck salt fs junk T w2" using r(2) .
    have c: "contents (walFd w') = log_file big sz nck salt fs @ junk" "sysAns w' = []" using d2 w4(6,7) by (simp_all add: w'_def log_on_disk_def)
    have hs: "hSzPage (hdr w') = page_code sz" using r(5) i h(4) w4(1) by (simp add: w'_def)
    have "subbytes (contents (walFd w')) (walFrameOffset i sz + 24) sz = snd (snd (fs ! k))"
      using frame_image [OF log_file_frame [OF fs salt k(2), of big nck junk] k(1) _ salt] k(2) fs unfolding c(1) by simp
    moreover have "walFrameOffset i sz + 24 + sz \<le> length (contents (walFd w'))"
      using frame_fits [OF d2, of k] k NT w4(6) by (simp add: w'_def add.assoc add.commute [of sz])
    ultimately have "sqlite3WalReadFrame w' i sz = (SQLITE_OK, snd (snd (fs ! k)), w')"
      using os_read_full [OF c(2), of "walFrameOffset i sz + 24" sz] valid_page_size_facts(5) [OF sz]
      by (simp add: sqlite3WalReadFrame_def hs)
    then show ?thesis using r(5) i h(3,5) w4(1) k by (simp add: w'_def)
  qed
  show ?thesis
    using run find rd h(2) w4(1) walIndexTryHdr_valid [of w' h] valid w4(2,3,8) by (intro exI [of _ w']) (auto simp: w'_def)
qed

text \<open>A log of three frames, the last of which is not committed, and a torn write after them.\<close>

definition demo_frames :: "wframe list" where
  "demo_frames = [(2, 0, replicate 512 7), (1, 3, replicate 512 9), (2, 0, replicate 512 1)]"

definition demo_log :: bytes where
  "demo_log = log_file True 512 5 (replicate 8 4) demo_frames @ replicate 100 255"

definition demo_crash :: wal where
  "demo_crash = demo_wal\<lparr>walFd := \<lparr>contents = demo_log, mmapSize = 0, szChunk = 0, lastErrno = None\<rparr>, heapAns := [True]\<rparr>"

theorem wal_recovery_witness:
  "\<exists>w'. walIndexRecover demo_crash zero_page = (SQLITE_OK, w') \<and> mxFrame (hdr w') = 2 \<and> hNPage (hdr w') = 3 \<and>
    fst (snd (walFindFrame (demo_wal\<lparr>shm := shm w', hdr := hdr w'\<rparr>) 2)) = 1 \<and>
    sqlite3WalReadFrame w' 1 512 = (SQLITE_OK, replicate 512 7, w')"
proof -
  have fs: "\<forall>f\<in>set demo_frames. frame_ok 512 f" by (simp add: demo_frames_def frame_ok_def)
  have len: "length demo_log = 1740"
    unfolding demo_log_def log_file_def using length_log_frames [OF fs, of "replicate 8 4"] by (simp add: length_wal_header demo_frames_def)
  have c: "commit_end demo_frames (length demo_frames) = 2" by (simp add: demo_frames_def)
  have m: "mapped_to (Suc 3) demo_crash" by (auto simp: mapped_to_def demo_crash_def demo_wal_def table_zero_def split: if_splits)
  have "\<exists>w'. walIndexRecover demo_crash zero_page = (SQLITE_OK, w') \<and> mxFrame (hdr w') = commit_end demo_frames (length demo_frames) \<and>
    \<not> fst (walIndexTryHdr w') \<and> hdr (snd (snd (walIndexTryHdr w'))) = hdr w' \<and>
    (\<forall>r q. reads_log r \<and> shm r = shm w' \<and> hdr r = hdr w' \<longrightarrow>
       walFindFrame r q = (SQLITE_OK, last_frame (map fst demo_frames) (minFrame r) (commit_end demo_frames (length demo_frames)) q, r)) \<and>
    (\<forall>i. 0 < i \<and> i \<le> commit_end demo_frames (length demo_frames) \<longrightarrow>
       hNPage (hdr w') = fst (snd (demo_frames ! (commit_end demo_frames (length demo_frames) - 1))) \<and>
       aFrameCksum (hdr w') = foldl (frame_cksum True) (hdr_cksum True 512 5 (replicate 8 4)) (take (commit_end demo_frames (length demo_frames)) demo_frames) \<and>
       sqlite3WalReadFrame w' i 512 = (SQLITE_OK, snd (snd (demo_frames ! (i - 1))), w'))"
    by (rule wal_recovery [where junk = "replicate 100 255" and al = "[]" and T = 3, OF _ _ _ fs])
      (use m len in \<open>simp_all add: demo_crash_def demo_log_def demo_wal_def valid_page_size_def no_frame_def\<close>)
  then obtain w' where w': "walIndexRecover demo_crash zero_page = (SQLITE_OK, w')" "mxFrame (hdr w') = 2"
    "\<And>r q. reads_log r \<Longrightarrow> shm r = shm w' \<Longrightarrow> hdr r = hdr w' \<Longrightarrow> walFindFrame r q = (SQLITE_OK, last_frame (map fst demo_frames) (minFrame r) 2 q, r)"
    "\<And>i. 0 < i \<Longrightarrow> i \<le> 2 \<Longrightarrow> hNPage (hdr w') = fst (snd (demo_frames ! 1)) \<and> sqlite3WalReadFrame w' i 512 = (SQLITE_OK, snd (snd (demo_frames ! (i - 1))), w')"
    unfolding c by auto
  let ?r = "demo_wal\<lparr>shm := shm w', hdr := hdr w'\<rparr>"
  have "reads_log ?r" using demo_wal_mapped [where n = 2] w'(2) by (simp add: reads_log_def demo_wal_def)
  then have "walFindFrame ?r 2 = (SQLITE_OK, last_frame (map fst demo_frames) 1 2 2, ?r)" using w'(3) [of ?r] by simp
  moreover have "last_frame (map fst demo_frames) 1 2 2 = 1" by (simp add: demo_frames_def eval_nat_numeral)
  ultimately show ?thesis using w'(1,2) w'(4) [of 1] by (simp add: demo_frames_def)
qed

text \<open>
  C13: The checksum of a buffer is the same on every machine: the loop that swaps bytes, the loop that handles
  sixteen words at a time and the plain loop all give the sum of the 32-bit words of the buffer, read in the byte
  order of the log.
\<close>

theorem checksum_equivalent:
  assumes "n mod 8 = 0" "0 < n" "n \<le> length a"
  shows "walChecksumBytes be (big = be) a n aIn = log_cksum big (take n a) (case aIn of Some c \<Rightarrow> c | None \<Rightarrow> (0, 0))"
proof -
  have l: "length (take n a) = n" using assms(3) by (simp only: length_take min.absorb2)
  have "4 * (n div 4) \<le> length (take n a)" unfolding l by (rule times_div_less_eq_dividend)
  then have "words32 big (take n a @ drop n a) (n div 4) = words32 big (take n a) (n div 4)" by (rule words32_append)
  then show ?thesis unfolding walChecksumBytes_sum [OF assms] log_cksum_def l by (simp only: append_take_drop_id)
qed

theorem checksum_equivalent_witness:
  "walChecksumBytes False True (map of_nat [0..<64]) 64 None = walChecksumBytes True False (map of_nat [0..<64]) 64 None"
  using checksum_equivalent [of 64 "map of_nat [0..<64]" False False None] checksum_equivalent [of 64 "map of_nat [0..<64]" True False None]
  by simp

end
