(* ===== verification/UnixLock.thy ===== *)
theory UnixLock
  imports Prelude
begin

text \<open>
  Advisory file locking (\<open>src/src/os_unix.c\<close>: \<open>unixLock\<close>, \<open>posixUnlock\<close>, \<open>unixFileLock\<close>,
  \<open>unixClose\<close>).  Handles of one process on one file share a \<open>unixInodeInfo\<close>; processes meet in the
  kernel's table of record locks on three byte ranges of the database file.

  A routine that makes system calls is a value of \<open>prog\<close>: it returns, or it asks for a record lock
  and goes on with the answer.  Calls of different processes interleave at their system calls; in
  one process the mutex of the inode serialises them.  \<open>lastErrno\<close>, a diagnostic, is left out.
\<close>

section \<open>Locks\<close>

abbreviation NO_LOCK :: nat where "NO_LOCK \<equiv> 0"
abbreviation SHARED_LOCK :: nat where "SHARED_LOCK \<equiv> 1"
abbreviation RESERVED_LOCK :: nat where "RESERVED_LOCK \<equiv> 2"
abbreviation PENDING_LOCK :: nat where "PENDING_LOCK \<equiv> 3"
abbreviation EXCLUSIVE_LOCK :: nat where "EXCLUSIVE_LOCK \<equiv> 4"

definition PENDING_BYTE :: nat where "PENDING_BYTE = 0x40000000"
definition RESERVED_BYTE :: nat where "RESERVED_BYTE = PENDING_BYTE + 1"
definition SHARED_FIRST :: nat where "SHARED_FIRST = PENDING_BYTE + 2"
definition SHARED_SIZE :: nat where "SHARED_SIZE = 510"

datatype ltype = F_UNLCK | F_RDLCK | F_WRLCK

record flock =
  l_type :: ltype
  l_start :: nat
  l_len :: nat

datatype errno = EACCES | EAGAIN | ETIMEDOUT | EBUSY | EINTR | ENOLCK | EPERM | EOTHER

definition sqliteErrorFromPosixError :: "errno \<Rightarrow> rc \<Rightarrow> rc" where
  "sqliteErrorFromPosixError posixError sqliteIOErr =
     (case posixError of
        EPERM \<Rightarrow> SQLITE_PERM
      | EOTHER \<Rightarrow> sqliteIOErr
      | _ \<Rightarrow> SQLITE_BUSY)"

text \<open>
  The state of a process for one database file: the fields of \<open>unixInodeInfo\<close> and the lock level
  of every handle.  \<open>nUnused\<close> is the length of the list \<open>pUnused\<close> of descriptors to be closed;
  \<open>mustClose\<close> tells the end of \<open>unixClose\<close> that its descriptor is still valid.
\<close>

record uproc =
  eInode :: nat
  nShared :: nat
  nLock :: nat
  bProcessLock :: bool
  nUnused :: nat
  eFile :: "nat \<Rightarrow> nat"
  mustClose :: bool

text \<open>
  A routine in terms of its system calls: \<open>Fcntl\<close> asks for a record lock and gets \<open>None\<close> or an
  error, \<open>CloseFd\<close> closes one descriptor of the file.
\<close>

datatype 's prog = Ret rc 's | Fcntl flock "errno option \<Rightarrow> 's prog" | CloseFd "'s prog"

section \<open>The routines\<close>

text \<open>\<open>excl\<close>: the handle was opened read/write from the VFS \<open>unix-excl\<close>.\<close>

definition unixFileLock ::
    "bool \<Rightarrow> flock \<Rightarrow> uproc \<Rightarrow> (errno option \<Rightarrow> uproc \<Rightarrow> uproc prog) \<Rightarrow> uproc prog" where
  "unixFileLock excl pLock st k =
     (if excl then
        if \<not> bProcessLock st then
          Fcntl \<lparr>l_type = F_WRLCK, l_start = SHARED_FIRST, l_len = SHARED_SIZE\<rparr>
            (\<lambda>e. case e of
                Some _ \<Rightarrow> k e st
              | None \<Rightarrow> k None (st\<lparr>bProcessLock := True, nLock := nLock st + 1\<rparr>))
        else k None st
      else Fcntl pLock (\<lambda>e. k e st))"

text \<open>The end of \<open>unixLock\<close>: the level is recorded when the lock was obtained.\<close>

definition lock_done :: "nat \<Rightarrow> nat \<Rightarrow> rc \<Rightarrow> uproc \<Rightarrow> uproc prog" where
  "lock_done f eFileLock rc st =
     Ret rc (if rc = SQLITE_OK then st\<lparr>eFile := (eFile st)(f := eFileLock), eInode := eFileLock\<rparr> else st)"

text \<open>The part of \<open>unixLock\<close> after the lock on the pending byte.\<close>

definition unixLock_tail :: "bool \<Rightarrow> bool \<Rightarrow> nat \<Rightarrow> nat \<Rightarrow> uproc \<Rightarrow> uproc prog" where
  "unixLock_tail excl sharing f eFileLock st =
     (if eFileLock = SHARED_LOCK then
        unixFileLock excl \<lparr>l_type = F_RDLCK, l_start = SHARED_FIRST, l_len = SHARED_SIZE\<rparr> st (\<lambda>e st.
          let rc = (case e of None \<Rightarrow> SQLITE_OK | Some er \<Rightarrow> sqliteErrorFromPosixError er SQLITE_IOERR_LOCK)
          in unixFileLock excl \<lparr>l_type = F_UNLCK, l_start = PENDING_BYTE, l_len = 1\<rparr> st (\<lambda>e st.
               let rc = (if e \<noteq> None \<and> rc = SQLITE_OK then SQLITE_IOERR_UNLOCK else rc)
               in if rc \<noteq> SQLITE_OK then Ret rc st
                  else lock_done f eFileLock rc
                    (st\<lparr>eFile := (eFile st)(f := SHARED_LOCK), nLock := nLock st + 1, nShared := 1\<rparr>)))
      else if eFileLock = EXCLUSIVE_LOCK \<and> nShared st > 1 then lock_done f eFileLock SQLITE_BUSY st
      else if sharing then lock_done f eFileLock SQLITE_BUSY st
      else
        unixFileLock excl
          (if eFileLock = RESERVED_LOCK
           then \<lparr>l_type = F_WRLCK, l_start = RESERVED_BYTE, l_len = 1\<rparr>
           else \<lparr>l_type = F_WRLCK, l_start = SHARED_FIRST, l_len = SHARED_SIZE\<rparr>) st (\<lambda>e st.
          lock_done f eFileLock
            (case e of None \<Rightarrow> SQLITE_OK | Some er \<Rightarrow> sqliteErrorFromPosixError er SQLITE_IOERR_LOCK) st))"

text \<open>\<open>sharing\<close> is the answer of \<open>unixIsSharingShmNode\<close>.\<close>

definition unixLock :: "bool \<Rightarrow> bool \<Rightarrow> nat \<Rightarrow> nat \<Rightarrow> uproc \<Rightarrow> uproc prog" where
  "unixLock excl sharing f eFileLock st =
     (if eFile st f \<ge> eFileLock then Ret SQLITE_OK st
      else if eFile st f \<noteq> eInode st \<and> (eInode st \<ge> PENDING_LOCK \<or> eFileLock > SHARED_LOCK) then
        Ret SQLITE_BUSY st
      else if eFileLock = SHARED_LOCK \<and> (eInode st = SHARED_LOCK \<or> eInode st = RESERVED_LOCK) then
        Ret SQLITE_OK (st\<lparr>eFile := (eFile st)(f := SHARED_LOCK), nShared := nShared st + 1, nLock := nLock st + 1\<rparr>)
      else if eFileLock = SHARED_LOCK \<or> eFileLock = EXCLUSIVE_LOCK \<and> eFile st f = RESERVED_LOCK then
        unixFileLock excl
          \<lparr>l_type = (if eFileLock = SHARED_LOCK then F_RDLCK else F_WRLCK), l_start = PENDING_BYTE, l_len = 1\<rparr> st (\<lambda>e st.
          case e of
            Some er \<Rightarrow> Ret (sqliteErrorFromPosixError er SQLITE_IOERR_LOCK) st
          | None \<Rightarrow>
              unixLock_tail excl sharing f eFileLock
                (if eFileLock = EXCLUSIVE_LOCK
                 then st\<lparr>eFile := (eFile st)(f := PENDING_LOCK), eInode := PENDING_LOCK\<rparr> else st))
      else unixLock_tail excl sharing f eFileLock st)"

text \<open>Closing every descriptor on the list \<open>pUnused\<close>.\<close>

primrec close_fds :: "nat \<Rightarrow> 's prog \<Rightarrow> 's prog" where
  "close_fds 0 k = k"
| "close_fds (Suc n) k = CloseFd (close_fds n k)"

definition closePendingFds :: "uproc \<Rightarrow> (uproc \<Rightarrow> uproc prog) \<Rightarrow> uproc prog" where
  "closePendingFds st k = close_fds (nUnused st) (k (st\<lparr>nUnused := 0\<rparr>))"

text \<open>The part of \<open>posixUnlock\<close> that gives up the shared lock.\<close>

definition unlock_shared :: "bool \<Rightarrow> nat \<Rightarrow> nat \<Rightarrow> uproc \<Rightarrow> uproc prog" where
  "unlock_shared excl f eFileLock st =
     (let finish = (\<lambda>rc st.
            let st = st\<lparr>nLock := nLock st - 1\<rparr>;
                k = (\<lambda>st. Ret rc (if rc = SQLITE_OK then st\<lparr>eFile := (eFile st)(f := eFileLock)\<rparr> else st))
            in if nLock st = 0 then closePendingFds st k else k st)
      in if eFileLock = NO_LOCK then
           let st = st\<lparr>nShared := nShared st - 1\<rparr>
           in if nShared st = 0 then
                unixFileLock excl \<lparr>l_type = F_UNLCK, l_start = 0, l_len = 0\<rparr> st (\<lambda>e st.
                  if e = None then finish SQLITE_OK (st\<lparr>eInode := NO_LOCK\<rparr>)
                  else finish SQLITE_IOERR_UNLOCK (st\<lparr>eInode := NO_LOCK, eFile := (eFile st)(f := NO_LOCK)\<rparr>))
              else finish SQLITE_OK st
         else Ret SQLITE_OK (st\<lparr>eFile := (eFile st)(f := eFileLock)\<rparr>))"

definition unlock_pending :: "bool \<Rightarrow> nat \<Rightarrow> nat \<Rightarrow> uproc \<Rightarrow> uproc prog" where
  "unlock_pending excl f eFileLock st =
     unixFileLock excl \<lparr>l_type = F_UNLCK, l_start = PENDING_BYTE, l_len = 2\<rparr> st (\<lambda>e st.
       if e = None then unlock_shared excl f eFileLock (st\<lparr>eInode := SHARED_LOCK\<rparr>)
       else Ret SQLITE_IOERR_UNLOCK st)"

definition posixUnlock :: "bool \<Rightarrow> nat \<Rightarrow> nat \<Rightarrow> uproc \<Rightarrow> uproc prog" where
  "posixUnlock excl f eFileLock st =
     (if eFile st f \<le> eFileLock then Ret SQLITE_OK st
      else if eFile st f > SHARED_LOCK then
        if eFileLock = SHARED_LOCK then
          unixFileLock excl \<lparr>l_type = F_RDLCK, l_start = SHARED_FIRST, l_len = SHARED_SIZE\<rparr> st (\<lambda>e st.
            if e \<noteq> None then Ret SQLITE_IOERR_RDLOCK st else unlock_pending excl f eFileLock st)
        else unlock_pending excl f eFileLock st
      else unlock_shared excl f eFileLock st)"

definition unixUnlock :: "bool \<Rightarrow> nat \<Rightarrow> nat \<Rightarrow> uproc \<Rightarrow> uproc prog" where
  "unixUnlock excl f eFileLock st = posixUnlock excl f eFileLock st"

text \<open>Deferring the close of a descriptor.\<close>

definition setPendingFd :: "uproc \<Rightarrow> uproc" where
  "setPendingFd st = st\<lparr>nUnused := nUnused st + 1, mustClose := False\<rparr>"

text \<open>
  \<open>unixClose\<close> calls \<open>unixUnlock\<close> to \<open>NO_LOCK\<close>, ignoring its result; then, holding the global mutex, it
  does this under the mutex of the inode; then \<open>closeUnixFile\<close> closes the descriptor unless that was
  deferred.
\<close>

definition unixClose_fd :: "uproc \<Rightarrow> uproc" where
  "unixClose_fd st = (if nLock st \<noteq> 0 then setPendingFd st else st\<lparr>mustClose := True\<rparr>)"

text \<open>
  \<open>unixCheckReservedLock\<close>: \<open>getlk\<close> is the answer of \<open>fcntl(F_GETLK)\<close> for the reserved byte: an
  error, or whether another process holds a lock there.
\<close>

definition unixCheckReservedLock :: "uproc \<Rightarrow> bool option \<Rightarrow> rc \<times> bool" where
  "unixCheckReservedLock st getlk =
     (let reserved = (eInode st > SHARED_LOCK)
      in if \<not> reserved \<and> \<not> bProcessLock st then
           case getlk of None \<Rightarrow> (SQLITE_IOERR_CHECKRESERVEDLOCK, False) | Some other \<Rightarrow> (SQLITE_OK, other)
         else (SQLITE_OK, reserved))"


section \<open>The kernel\<close>

text \<open>The record locks a process holds, byte by byte.\<close>

type_synonym klocks = "nat \<Rightarrow> ltype"

definition in_range :: "flock \<Rightarrow> nat \<Rightarrow> bool" where
  "in_range l b \<longleftrightarrow> l_start l \<le> b \<and> (l_len l = 0 \<or> b < l_start l + l_len l)"

definition set_locks :: "flock \<Rightarrow> klocks \<Rightarrow> klocks" where
  "set_locks l own = (\<lambda>b. if in_range l b then l_type l else own b)"

definition compatible :: "ltype \<Rightarrow> ltype \<Rightarrow> bool" where
  "compatible a b \<longleftrightarrow> a = F_UNLCK \<or> b = F_UNLCK \<or> a = F_RDLCK \<and> b = F_RDLCK"

definition grant :: "(nat \<Rightarrow> klocks) \<Rightarrow> nat \<Rightarrow> flock \<Rightarrow> bool" where
  "grant kl p l \<longleftrightarrow> (\<forall>b q. in_range l b \<longrightarrow> q \<noteq> p \<longrightarrow> compatible (l_type l) (kl q b))"

section \<open>What a lock level promises\<close>

definition shared_range :: "nat set" where
  "shared_range = {SHARED_FIRST..<SHARED_FIRST + SHARED_SIZE}"

definition shared_held :: "klocks \<Rightarrow> bool" where "shared_held own \<longleftrightarrow> (\<forall>b\<in>shared_range. own b \<noteq> F_UNLCK)"
definition shared_write :: "klocks \<Rightarrow> bool" where "shared_write own \<longleftrightarrow> (\<forall>b\<in>shared_range. own b = F_WRLCK)"

definition supports :: "klocks \<Rightarrow> nat \<Rightarrow> bool" where
  "supports own level \<longleftrightarrow>
     (SHARED_LOCK \<le> level \<longrightarrow> shared_held own) \<and>
     (level = RESERVED_LOCK \<or> level = PENDING_LOCK \<longrightarrow> own RESERVED_BYTE = F_WRLCK) \<and>
     (level = PENDING_LOCK \<longrightarrow> own PENDING_BYTE = F_WRLCK) \<and>
     (level = EXCLUSIVE_LOCK \<longrightarrow> shared_write own)"

definition holders :: "uproc \<Rightarrow> nat set" where
  "holders st = {g. eFile st g \<noteq> NO_LOCK}"

text \<open>The bookkeeping of a process: the counters, and which levels its handles may have together.\<close>

definition proc_ok :: "uproc \<Rightarrow> bool" where
  "proc_ok st \<longleftrightarrow>
     finite (holders st) \<and> nShared st = card (holders st) \<and> nLock st = nShared st \<and> \<not> bProcessLock st \<and>
     eInode st \<le> EXCLUSIVE_LOCK \<and> (holders st = {} \<longleftrightarrow> eInode st = NO_LOCK) \<and>
     (\<forall>g. eFile st g \<in> {NO_LOCK, SHARED_LOCK, eInode st}) \<and>
     (eInode st > SHARED_LOCK \<longrightarrow> (\<exists>g. eFile st g = eInode st)) \<and>
     (\<forall>g h. eFile st g > SHARED_LOCK \<and> eFile st h > SHARED_LOCK \<longrightarrow> g = h) \<and>
     (eInode st = EXCLUSIVE_LOCK \<longrightarrow> nShared st = 1)"

definition idle_ok :: "uproc \<Rightarrow> klocks \<Rightarrow> bool" where
  "idle_ok st own \<longleftrightarrow> proc_ok st \<and> supports own (eInode st)"

text \<open>The levels that hold throughout a call on handle \<open>f\<close> whose lower level is \<open>low\<close>.\<close>

definition kept_levels :: "nat \<Rightarrow> nat \<Rightarrow> uproc \<Rightarrow> klocks \<Rightarrow> bool" where
  "kept_levels f low st own \<longleftrightarrow> (\<forall>g. supports own (if g = f then low else eFile st g))"

text \<open>
  Every run of a routine from a state with the locks \<open>own\<close> keeps \<open>G\<close> and ends with \<open>I\<close>: a lock
  request may be granted or refused, a request to unlock is granted.
\<close>

primrec safe :: "('s \<Rightarrow> klocks \<Rightarrow> bool) \<Rightarrow> (klocks \<Rightarrow> bool) \<Rightarrow> 's prog \<Rightarrow> klocks \<Rightarrow> bool" where
  "safe I G (Ret rc s) own \<longleftrightarrow> G own \<and> I s own"
| "safe I G (Fcntl l c) own \<longleftrightarrow>
     G own \<and> safe I G (c None) (set_locks l own) \<and> (l_type l \<noteq> F_UNLCK \<longrightarrow> (\<forall>e. safe I G (c (Some e)) own))"
| "safe I G (CloseFd c) own \<longleftrightarrow> G own \<and> safe I G c (\<lambda>b. F_UNLCK)"

lemmas lock_bytes = PENDING_BYTE_def RESERVED_BYTE_def SHARED_FIRST_def SHARED_SIZE_def

lemma lock_bytes_distinct [simp]:
  "PENDING_BYTE \<notin> shared_range" "RESERVED_BYTE \<notin> shared_range" "PENDING_BYTE \<noteq> RESERVED_BYTE"
  "RESERVED_BYTE \<noteq> PENDING_BYTE"
  by (simp_all add: shared_range_def lock_bytes)

lemma in_range_locks:
  "in_range \<lparr>l_type = t, l_start = PENDING_BYTE, l_len = Suc 0\<rparr> b \<longleftrightarrow> b = PENDING_BYTE"
  "in_range \<lparr>l_type = t, l_start = RESERVED_BYTE, l_len = Suc 0\<rparr> b \<longleftrightarrow> b = RESERVED_BYTE"
  "in_range \<lparr>l_type = t, l_start = PENDING_BYTE, l_len = 2\<rparr> b \<longleftrightarrow> b = PENDING_BYTE \<or> b = RESERVED_BYTE"
  "in_range \<lparr>l_type = t, l_start = SHARED_FIRST, l_len = SHARED_SIZE\<rparr> b \<longleftrightarrow> b \<in> shared_range"
  "in_range \<lparr>l_type = t, l_start = 0, l_len = 0\<rparr> b"
  by (auto simp: in_range_def shared_range_def lock_bytes)

lemma shared_range_ne: "\<exists>b. b \<in> shared_range"
  by (auto simp: shared_range_def lock_bytes)

lemma set_locks_shared [simp]:
  "shared_held (set_locks \<lparr>l_type = t, l_start = PENDING_BYTE, l_len = Suc 0\<rparr> own) = shared_held own"
  "shared_held (set_locks \<lparr>l_type = t, l_start = RESERVED_BYTE, l_len = Suc 0\<rparr> own) = shared_held own"
  "shared_held (set_locks \<lparr>l_type = t, l_start = PENDING_BYTE, l_len = 2\<rparr> own) = shared_held own"
  "shared_held (set_locks \<lparr>l_type = t, l_start = SHARED_FIRST, l_len = SHARED_SIZE\<rparr> own) \<longleftrightarrow> t \<noteq> F_UNLCK"
  "shared_write (set_locks \<lparr>l_type = t, l_start = PENDING_BYTE, l_len = Suc 0\<rparr> own) = shared_write own"
  "shared_write (set_locks \<lparr>l_type = t, l_start = RESERVED_BYTE, l_len = Suc 0\<rparr> own) = shared_write own"
  "shared_write (set_locks \<lparr>l_type = t, l_start = PENDING_BYTE, l_len = 2\<rparr> own) = shared_write own"
  "shared_write (set_locks \<lparr>l_type = t, l_start = SHARED_FIRST, l_len = SHARED_SIZE\<rparr> own) \<longleftrightarrow> t = F_WRLCK"
proof -
  obtain b0 where b0: "b0 \<in> shared_range" using shared_range_ne by blast
  have far: "b \<noteq> PENDING_BYTE" "b \<noteq> RESERVED_BYTE" if "b \<in> shared_range" for b
    using that lock_bytes_distinct by metis+
  show "shared_held (set_locks \<lparr>l_type = t, l_start = PENDING_BYTE, l_len = Suc 0\<rparr> own) = shared_held own"
    "shared_held (set_locks \<lparr>l_type = t, l_start = RESERVED_BYTE, l_len = Suc 0\<rparr> own) = shared_held own"
    "shared_held (set_locks \<lparr>l_type = t, l_start = PENDING_BYTE, l_len = 2\<rparr> own) = shared_held own"
    "shared_write (set_locks \<lparr>l_type = t, l_start = PENDING_BYTE, l_len = Suc 0\<rparr> own) = shared_write own"
    "shared_write (set_locks \<lparr>l_type = t, l_start = RESERVED_BYTE, l_len = Suc 0\<rparr> own) = shared_write own"
    "shared_write (set_locks \<lparr>l_type = t, l_start = PENDING_BYTE, l_len = 2\<rparr> own) = shared_write own"
    by (simp_all add: shared_held_def shared_write_def set_locks_def in_range_locks far cong: ball_cong)
  show "shared_held (set_locks \<lparr>l_type = t, l_start = SHARED_FIRST, l_len = SHARED_SIZE\<rparr> own) \<longleftrightarrow> t \<noteq> F_UNLCK"
    "shared_write (set_locks \<lparr>l_type = t, l_start = SHARED_FIRST, l_len = SHARED_SIZE\<rparr> own) \<longleftrightarrow> t = F_WRLCK"
    using b0 by (auto simp: shared_held_def shared_write_def set_locks_def in_range_locks)
qed

lemma set_locks_bytes [simp]:
  "set_locks \<lparr>l_type = t, l_start = PENDING_BYTE, l_len = Suc 0\<rparr> own PENDING_BYTE = t"
  "set_locks \<lparr>l_type = t, l_start = PENDING_BYTE, l_len = Suc 0\<rparr> own RESERVED_BYTE = own RESERVED_BYTE"
  "set_locks \<lparr>l_type = t, l_start = RESERVED_BYTE, l_len = Suc 0\<rparr> own PENDING_BYTE = own PENDING_BYTE"
  "set_locks \<lparr>l_type = t, l_start = RESERVED_BYTE, l_len = Suc 0\<rparr> own RESERVED_BYTE = t"
  "set_locks \<lparr>l_type = t, l_start = SHARED_FIRST, l_len = SHARED_SIZE\<rparr> own PENDING_BYTE = own PENDING_BYTE"
  "set_locks \<lparr>l_type = t, l_start = SHARED_FIRST, l_len = SHARED_SIZE\<rparr> own RESERVED_BYTE = own RESERVED_BYTE"
  by (auto simp: set_locks_def in_range_locks)

lemma supports_0 [simp]: "supports own NO_LOCK"
  by (simp add: supports_def)

lemma supports_SHARED: "supports own level \<Longrightarrow> SHARED_LOCK \<le> level \<Longrightarrow> supports own SHARED_LOCK"
  by (simp add: supports_def)

lemma supports_1 [simp]: "supports own (Suc NO_LOCK) = shared_held own"
  by (simp add: supports_def)

lemma idle_supports: "idle_ok st own \<Longrightarrow> supports own (eFile st g)"
proof -
  assume i: "idle_ok st own"
  then have "eFile st g \<in> {NO_LOCK, SHARED_LOCK, eInode st}" "supports own (eInode st)"
    "holders st = {} \<longleftrightarrow> eInode st = NO_LOCK"
    by (auto simp: idle_ok_def proc_ok_def)
  moreover have "eFile st g = NO_LOCK" if "holders st = {}" using that by (auto simp: holders_def)
  ultimately show ?thesis using supports_SHARED [of own "eInode st"] by fastforce
qed

section \<open>The routines are safe\<close>

lemma holders_upd:
  "holders (st\<lparr>eFile := (eFile st)(f := v)\<rparr>) = (if v = NO_LOCK then holders st - {f} else insert f (holders st))"
  "holders (st\<lparr>eInode := a\<rparr>) = holders st" "holders (st\<lparr>nShared := b\<rparr>) = holders st"
  "holders (st\<lparr>nLock := c\<rparr>) = holders st" "holders (st\<lparr>nUnused := d\<rparr>) = holders st"
  "holders (st\<lparr>mustClose := m\<rparr>) = holders st"
  by (auto simp: holders_def)


lemma proc_okD:
  assumes "proc_ok st"
  shows "finite (holders st)" "nShared st = card (holders st)" "nLock st = nShared st" "\<not> bProcessLock st"
    "eInode st \<le> 4" "holders st = {} \<longleftrightarrow> eInode st = 0" "eFile st g = 0 \<or> eFile st g = 1 \<or> eFile st g = eInode st"
    "eInode st > 1 \<Longrightarrow> \<exists>g. eFile st g = eInode st" "eInode st = 4 \<Longrightarrow> nShared st = 1"
    "eFile st g > 1 \<Longrightarrow> eFile st h > 1 \<Longrightarrow> g = h"
  using assms by (auto simp: proc_ok_def)

lemma file_holder: "f \<in> holders st \<longleftrightarrow> eFile st f \<noteq> 0"
  by (simp add: holders_def)

lemma proc_ok_unlocked: "proc_ok st \<Longrightarrow> eInode st = 0 \<Longrightarrow> eFile st g = 0 \<and> nShared st = 0 \<and> nLock st = 0 \<and> holders st = {}"
  using proc_okD(2,3,6) [of st] file_holder [of g st] by auto

text \<open>The effect of a change of the levels on the bookkeeping.\<close>

lemma proc_okI:
  assumes "finite (holders s)" "nShared s = card (holders s)" "nLock s = nShared s" "\<not> bProcessLock s" "eInode s \<le> 4"
    "holders s = {} \<longleftrightarrow> eInode s = 0" "\<And>g. eFile s g = 0 \<or> eFile s g = 1 \<or> eFile s g = eInode s"
    "eInode s > 1 \<Longrightarrow> \<exists>g. eFile s g = eInode s" "eInode s = 4 \<Longrightarrow> nShared s = 1"
    "\<And>g h. eFile s g > 1 \<Longrightarrow> eFile s h > 1 \<Longrightarrow> g = h"
  shows "proc_ok s"
  using assms unfolding proc_ok_def by blast

lemma proc_ok_first_shared:
  assumes "proc_ok st" "eInode st = 0"
  shows "proc_ok (st\<lparr>nLock := Suc (nLock st), nShared := 1, eFile := (eFile st)(f := 1), eInode := 1\<rparr>)"
proof -
  have z: "eFile st g = 0" "nLock st = 0" for g using proc_ok_unlocked [OF assms] by auto
  then have "holders (st\<lparr>nLock := Suc (nLock st), nShared := 1, eFile := (eFile st)(f := 1), eInode := 1\<rparr>) = {f}"
    by (auto simp: holders_def)
  then show ?thesis using z proc_okD(4) [OF assms(1)] by (intro proc_okI) (auto split: if_splits)
qed

lemma proc_ok_more_shared:
  assumes ok: "proc_ok st" and i: "eInode st = 1 \<or> eInode st = 2" and f: "eFile st f = 0"
  shows "proc_ok (st\<lparr>eFile := (eFile st)(f := 1), nShared := Suc (nShared st), nLock := Suc (nLock st)\<rparr>)"
proof -
  note o = proc_okD [OF ok]
  let ?s = "st\<lparr>eFile := (eFile st)(f := 1), nShared := Suc (nShared st), nLock := Suc (nLock st)\<rparr>"
  have h: "holders ?s = insert f (holders st)" "f \<notin> holders st" using f by (auto simp: holders_def)
  show ?thesis
  proof (rule proc_okI)
    assume gt: "eInode ?s > 1"
    then obtain g where "eFile st g = eInode st" using o(8) by auto
    then show "\<exists>g. eFile ?s g = eInode ?s" using f gt by (intro exI [of _ g]) auto
  next
    show "eFile ?s g > 1 \<Longrightarrow> eFile ?s h > 1 \<Longrightarrow> g = h" for g h using o(10) [of g h] by (auto split: if_splits)
    show "eFile ?s g = 0 \<or> eFile ?s g = 1 \<or> eFile ?s g = eInode ?s" for g using o(7) [of g] by auto
  qed (use h o(1-6) i in auto)
qed

lemma proc_ok_raise:
  assumes ok: "proc_ok st" and f: "eFile st f = eInode st" "1 \<le> eInode st"
    and new: "eInode st < new" "new \<le> 4" "new = 4 \<Longrightarrow> nShared st = 1"
  shows "proc_ok (st\<lparr>eFile := (eFile st)(f := new), eInode := new\<rparr>)"
proof -
  note o = proc_okD [OF ok]
  let ?s = "st\<lparr>eFile := (eFile st)(f := new), eInode := new\<rparr>"
  have h: "holders ?s = holders st" using f new by (auto simp: holders_def)
  have others: "eFile st g = 0 \<or> eFile st g = 1" if "g \<noteq> f" for g
    using o(7) [of g] o(10) [of f g] f that by fastforce
  show ?thesis
  proof (rule proc_okI)
    show "eFile ?s g > 1 \<Longrightarrow> eFile ?s h > 1 \<Longrightarrow> g = h" for g h
      using others [of g] others [of h] by (auto split: if_splits)
    show "eFile ?s g = 0 \<or> eFile ?s g = 1 \<or> eFile ?s g = eInode ?s" for g using others [of g] by auto
    show "holders ?s = {} \<longleftrightarrow> eInode ?s = 0" using h o(6) f(2) new(1) by auto
  qed (use h o(1-5) new in auto)
qed

lemma posix_error_not_ok [simp]: "sqliteErrorFromPosixError e SQLITE_IOERR_LOCK \<noteq> SQLITE_OK"
  by (cases e) (simp_all add: sqliteErrorFromPosixError_def)

lemma exclusive_tail_safe:
  assumes p: "proc_ok st" and f: "eFile st f = eInode st" "1 \<le> eInode st" "eInode st < 4"
    and su: "supports own (eInode st)"
    and G: "G own" "G (set_locks \<lparr>l_type = F_WRLCK, l_start = SHARED_FIRST, l_len = SHARED_SIZE\<rparr> own)"
  shows "safe idle_ok G (unixLock_tail False sharing f 4 st) own"
proof -
  have one: "nShared st = 1" if "\<not> 1 < nShared st"
  proof -
    have "card (holders st) \<noteq> 0" using f(2) proc_okD(1,6) [OF p] by (simp add: card_eq_0_iff)
    then show ?thesis using that proc_okD(2) [OF p] by linarith
  qed
  have "idle_ok st own" using p su by (simp add: idle_ok_def)
  moreover have "proc_ok (st\<lparr>eFile := (eFile st)(f := 4), eInode := 4\<rparr>)" if "\<not> 1 < nShared st"
    using proc_ok_raise [OF p f(1,2), of 4] f(3) one [OF that] by simp
  ultimately show ?thesis
    using G by (auto simp: unixLock_tail_def unixFileLock_def lock_done_def idle_ok_def supports_def)
qed

lemma unixLock_safe:
  assumes ok: "idle_ok st own" and w: "want \<in> {1, 2, 4}" and a: "eFile st f = 0 \<Longrightarrow> want = 1"
  shows "safe idle_ok (\<lambda>own. \<forall>g. supports own (eFile st g)) (unixLock False sharing f want st) own"
proof -
  have p: "proc_ok st" and su: "supports own (eInode st)" and all: "\<forall>g. supports own (eFile st g)"
    using ok idle_supports by (auto simp: idle_ok_def)
  note o = proc_okD [OF p]
  show ?thesis
  proof (cases "want \<le> eFile st f \<or> eFile st f \<noteq> eInode st \<and> (3 \<le> eInode st \<or> 1 < want)")
    case True
    then show ?thesis using ok all by (auto simp: unixLock_def)
  next
    case False
    then have lt: "eFile st f < want" and eq: "eFile st f \<noteq> eInode st \<Longrightarrow> eInode st < 3 \<and> want = 1" using w by auto
    consider (s1) "want = 1" "eInode st = 0" | (s2) "want = 1" "eInode st = 1 \<or> eInode st = 2"
      | (r) "want \<noteq> 1" "eFile st f = eInode st" "1 \<le> eInode st"
      using w eq lt a by force
    then show ?thesis
    proof cases
      case s1
      have z: "eFile st g = 0" for g using proc_ok_unlocked [OF p s1(2)] by simp
      then show ?thesis
        using s1 p proc_ok_first_shared [OF p s1(2), of f]
        by (simp add: unixLock_def unixLock_tail_def unixFileLock_def lock_done_def idle_ok_def Let_def
            del: One_nat_def, simp)
    next
      case s2
      then show ?thesis
        using lt all su proc_ok_more_shared [OF p s2(2), of f]
        by (auto simp: unixLock_def idle_ok_def supports_def)
    next
      case r
      have sh: "shared_held own" using su r(3) by (simp add: supports_def)
      have "eInode st = 1 \<or> eInode st = 2 \<or> eInode st = 3" "want = 2 \<or> want = 4" using r lt w by auto
      then consider (res) "want = 2" "eInode st = 1" | (pend) "want = 4" "eInode st = 2"
        | (excl) "want = 4" "eInode st = 1 \<or> eInode st = 3" using lt r by auto
      then show ?thesis
      proof cases
        case res
        then show ?thesis
          using r(2) p su all sh proc_ok_raise [OF p r(2,3), of 2]
          by (auto simp: unixLock_def unixLock_tail_def unixFileLock_def lock_done_def idle_ok_def supports_def)
      next
        case pend
        let ?own = "set_locks \<lparr>l_type = F_WRLCK, l_start = PENDING_BYTE, l_len = 1\<rparr> own"
        let ?st = "st\<lparr>eFile := (eFile st)(f := 3), eInode := 3\<rparr>"
        have "\<forall>g. supports ?own (eFile st g)" using all by (simp add: supports_def)
        moreover have "proc_ok ?st" using proc_ok_raise [OF p r(2,3), of 3] pend by simp
        ultimately have "safe idle_ok (\<lambda>own. \<forall>g. supports own (eFile st g)) (unixLock_tail False sharing f 4 ?st) ?own"
          using su pend by (intro exclusive_tail_safe) (auto simp: supports_def)
        then show ?thesis
          using pend r(2) all ok by (simp add: unixLock_def unixFileLock_def)
      next
        case excl
        then show ?thesis
          using r(2,3) all su by (auto simp: unixLock_def intro!: exclusive_tail_safe [OF p]) (auto simp: supports_def)
      qed
    qed
  qed
qed


lemma proc_ok_none:
  assumes "\<And>g. eFile s g = 0" "nShared s = 0" "nLock s = 0" "eInode s = 0" "\<not> bProcessLock s"
  shows "proc_ok s"
  using assms by (intro proc_okI) (auto simp: holders_def)

lemma proc_ok_lower:
  assumes ok: "proc_ok st" and f: "eFile st f > 1" and s: "eFile s = (eFile st)(f := 1)" "eInode s = 1"
    "nShared s = nShared st" "nLock s = nLock st" "bProcessLock s = bProcessLock st"
  shows "proc_ok s"
proof -
  note o = proc_okD [OF ok]
  have h: "holders s = holders st" using f s(1) by (auto simp: holders_def)
  have others: "eFile st g = 0 \<or> eFile st g = 1" if "g \<noteq> f" for g
    using o(7) [of g] o(10) [of f g] f that by fastforce
  have ne: "holders st \<noteq> {}" using f file_holder [of f st] by auto
  show ?thesis
  proof (rule proc_okI)
    show "eFile s g > 1 \<Longrightarrow> eFile s h > 1 \<Longrightarrow> g = h" for g h
      using others [of g] others [of h] by (auto simp: s split: if_splits)
    show "eFile s g = 0 \<or> eFile s g = 1 \<or> eFile s g = eInode s" for g using others [of g] by (auto simp: s)
  qed (use h ne o(1-4) s in auto)
qed

lemma proc_ok_drop:
  assumes ok: "proc_ok st" and f: "eFile st f \<noteq> 0" and n: "nShared st \<noteq> 1"
    and s: "eFile s = (eFile st)(f := 0)" "eInode s = (if eFile st f > 1 then 1 else eInode st)"
    "nShared s = nShared st - 1" "nLock s = nLock st - 1" "bProcessLock s = bProcessLock st"
  shows "proc_ok s"
proof -
  note o = proc_okD [OF ok]
  have fh: "f \<in> holders st" using f by (simp add: file_holder)
  have h: "holders s = holders st - {f}" using s(1) by (auto simp: holders_def)
  have ne: "holders s \<noteq> {}"
  proof
    assume "holders s = {}"
    then have "holders st = {f}" using h fh by auto
    then show False using n o(2) by simp
  qed
  have others: "eFile st g = 0 \<or> eFile st g = 1" if "g \<noteq> f" "eFile st f > 1" for g
    using o(7) [of g] o(10) [of f g] that by fastforce
  have i: "1 \<le> eInode st" using o(6) fh by (cases "eInode st = 0") auto
  show ?thesis
  proof (rule proc_okI)
    show "eFile s g > 1 \<Longrightarrow> eFile s h > 1 \<Longrightarrow> g = h" for g h
      using o(10) [of g h] by (auto simp: s split: if_splits)
    show "eFile s g = 0 \<or> eFile s g = 1 \<or> eFile s g = eInode s" for g
      using others [of g] o(7) [of g] by (auto simp: s)
    show "nShared s = card (holders s)" using o(1,2) h fh s by simp
    show "eInode s = 4 \<Longrightarrow> nShared s = 1" using o(9) n s by (auto split: if_splits)
    assume "eInode s > 1"
    then have gt: "eInode st > 1" "\<not> eFile st f > 1" using s(2) by (auto split: if_splits)
    then obtain g where "eFile st g = eInode st" using o(8) by blast
    then show "\<exists>g. eFile s g = eInode s" using gt s by (intro exI [of _ g]) auto
  qed (use h ne o(1,3,4,5) i s in auto)
qed

lemma close_fds_safe: "G own \<Longrightarrow> G (\<lambda>b. F_UNLCK) \<Longrightarrow> safe I G k own \<Longrightarrow> safe I G k (\<lambda>b. F_UNLCK) \<Longrightarrow> safe I G (close_fds n k) own"
  by (induction n arbitrary: own) auto

lemma unlock_shared_safe:
  assumes ok: "proc_ok st" and f: "eFile st f \<noteq> 0"
    and s: "eFile s = eFile st" "eInode s = (if eFile st f > 1 then 1 else eInode st)"
    "nShared s = nShared st" "nLock s = nLock st" "bProcessLock s = bProcessLock st"
    and su: "supports own (eInode s)"
  shows "safe idle_ok (kept_levels f 0 st) (unlock_shared False f 0 s) own"
proof -
  note o = proc_okD [OF ok]
  have fh: "f \<in> holders st" using f by (simp add: file_holder)
  show ?thesis
  proof (cases "nShared st = 1")
    case True
    then obtain x where "holders st = {x}" using o(2) by (auto simp: card_Suc_eq)
    then have "holders st = {f}" using fh by simp
    then have z: "eFile st g = 0" if "g \<noteq> f" for g using that file_holder [of g st] by auto
    let ?s = "s\<lparr>nShared := 0, eInode := 0, nLock := 0, nUnused := 0, eFile := (eFile s)(f := 0)\<rparr>"
    have "proc_ok ?s" using z s o(4) by (intro proc_ok_none) auto
    then have i: "idle_ok ?s own'" for own' by (simp add: idle_ok_def)
    have G: "kept_levels f 0 st own'" for own' using z by (simp add: kept_levels_def)
    have "unlock_shared False f 0 s = Fcntl \<lparr>l_type = F_UNLCK, l_start = 0, l_len = 0\<rparr> (\<lambda>e.
        if e = None then close_fds (nUnused s) (Ret SQLITE_OK ?s)
        else close_fds (nUnused s) (Ret SQLITE_IOERR_UNLOCK (s\<lparr>nShared := 0, eInode := 0, eFile := (eFile s)(f := 0), nLock := 0, nUnused := 0\<rparr>)))"
      using True s(3,4) o(3) by (simp add: unlock_shared_def unixFileLock_def Let_def closePendingFds_def cong: if_cong)
    then show ?thesis using G i by (simp add: close_fds_safe)
  next
    case False
    moreover have "nShared st \<noteq> 0" using fh o(1,2) by auto
    ultimately have n: "nShared st - 1 \<noteq> 0" "nLock st - 1 \<noteq> 0" using o(3) by auto
    let ?s = "s\<lparr>nShared := nShared s - 1, nLock := nLock s - 1, eFile := (eFile s)(f := 0)\<rparr>"
    have "proc_ok ?s" by (rule proc_ok_drop [OF ok f False]) (use s in simp_all)
    then have i: "idle_ok ?s own" using su by (simp add: idle_ok_def)
    have "kept_levels f 0 st own"
      unfolding kept_levels_def
    proof
      fix g show "supports own (if g = f then 0 else eFile st g)"
        using idle_supports [OF i, of g] s(1) by (cases "g = f") simp_all
    qed
    moreover have "unlock_shared False f 0 s = Ret SQLITE_OK ?s"
      using n s(3,4) by (simp add: unlock_shared_def Let_def)
    ultimately show ?thesis using i by simp
  qed
qed

lemma posixUnlock_safe:
  assumes ok: "idle_ok st own" and t: "t = 0 \<or> t = 1"
  shows "safe idle_ok (kept_levels f (min (eFile st f) t) st) (posixUnlock False f t st) own"
proof -
  have p: "proc_ok st" and su: "supports own (eInode st)" and all: "\<forall>g. supports own (eFile st g)"
    using ok idle_supports by (auto simp: idle_ok_def)
  note o = proc_okD [OF p]
  consider (noop) "eFile st f \<le> t" | (sh) "eFile st f = 1" "t = 0" | (hi) "1 < eFile st f" using t by linarith
  then show ?thesis
  proof cases
    case noop
    then have "min (eFile st f) t = eFile st f" by simp
    with noop show ?thesis using ok all by (auto simp: posixUnlock_def kept_levels_def)
  next
    case sh
    then show ?thesis
      using unlock_shared_safe [OF p _ refl _ refl refl refl, of f own] su by (simp add: posixUnlock_def)
  next
    case hi
    then have hold: "shared_held own" using all by (auto simp: supports_def dest: spec [of _ f])
    have others: "eFile st g = 0 \<or> eFile st g = 1" if "g \<noteq> f" for g
      using o(7) [of g] o(10) [of f g] hi that by fastforce
    have keep: "kept_levels f (min (eFile st f) t) st own'" if "shared_held own'" for own'
      unfolding kept_levels_def
    proof
      fix g show "supports own' (if g = f then min (eFile st f) t else eFile st g)"
        using that others [of g] t hi by (auto simp: supports_def min_def)
    qed
    let ?u = "\<lambda>own. set_locks \<lparr>l_type = F_UNLCK, l_start = PENDING_BYTE, l_len = 2\<rparr> own"
    from t show ?thesis
    proof
      assume t: "t = 0"
      have "safe idle_ok (kept_levels f 0 st)
          (unlock_shared False f 0 (st\<lparr>eInode := 1\<rparr>)) (?u own)"
        using hi hold by (intro unlock_shared_safe [OF p]) auto
      then show ?thesis
        using hi keep [OF hold] ok t by (simp add: posixUnlock_def unlock_pending_def unixFileLock_def)
    next
      assume t: "t = 1"
      let ?r = "set_locks \<lparr>l_type = F_RDLCK, l_start = SHARED_FIRST, l_len = SHARED_SIZE\<rparr> own"
      have "proc_ok (st\<lparr>eInode := 1, eFile := (eFile st)(f := 1)\<rparr>)"
        by (rule proc_ok_lower [OF p hi]) simp_all
      then show ?thesis
        using hi t keep [of ?r] keep [of "?u ?r"] keep [OF hold] ok
        by (simp add: posixUnlock_def unlock_pending_def unixFileLock_def unlock_shared_def idle_ok_def)
    qed
  qed
qed

lemma idle_ok_upd [simp]:
  "idle_ok (st\<lparr>mustClose := m\<rparr>) own = idle_ok st own" "idle_ok (st\<lparr>nUnused := n\<rparr>) own = idle_ok st own"
  by (simp_all add: idle_ok_def proc_ok_def holders_def)

text \<open>A descriptor is left to be closed at once only when no handle holds a lock.\<close>

lemma unixClose_fd_ok:
  assumes "idle_ok st own"
  shows "idle_ok (unixClose_fd st) own" "mustClose (unixClose_fd st) \<longleftrightarrow> holders st = {}"
    "holders (unixClose_fd st) = holders st"
proof -
  have "holders st = {} \<longleftrightarrow> nLock st = 0" using assms proc_okD(1-3) [of st] by (auto simp: idle_ok_def)
  then show "idle_ok (unixClose_fd st) own" "mustClose (unixClose_fd st) \<longleftrightarrow> holders st = {}"
    "holders (unixClose_fd st) = holders st"
    using assms by (auto simp: unixClose_fd_def setPendingFd_def holders_upd)
qed


section \<open>Processes on one database file\<close>

text \<open>
  A call in progress: its handle, the level of the handle that is guaranteed meanwhile, whether it
  is a close, and the rest of the routine.
\<close>

record call =
  cfile :: nat
  clow :: nat
  cclose :: bool
  cprog :: "uproc prog"

text \<open>
  \<open>inClose\<close> counts the threads of a process that are in \<open>unixClose\<close> after its call of \<open>unixUnlock\<close>, and
  \<open>toClose\<close> the descriptors that a thread in \<open>closeUnixFile\<close> is about to close after it gave up the mutex
  of the inode.  Two fields record what happened to a process: \<open>unlockFailed\<close>, a system call that was to
  release a lock failed; \<open>raced\<close>, a thread made a call while another one was about to close a descriptor.
\<close>

record world =
  kl :: "nat \<Rightarrow> klocks"
  ps :: "nat \<Rightarrow> uproc"
  run :: "nat \<Rightarrow> call option"
  inClose :: "nat \<Rightarrow> nat"
  toClose :: "nat \<Rightarrow> nat"
  unlockFailed :: "nat \<Rightarrow> bool"
  raced :: "nat \<Rightarrow> bool"

text \<open>A thread calls a routine; it needs the mutex of the inode only.\<close>

definition begin_call :: "world \<Rightarrow> nat \<Rightarrow> call \<Rightarrow> world" where
  "begin_call w p c = w\<lparr>run := (run w)(p := Some c), raced := (raced w)(p := raced w p \<or> toClose w p \<noteq> 0)\<rparr>"

definition lock_call :: "world \<Rightarrow> nat \<Rightarrow> nat \<Rightarrow> nat \<Rightarrow> bool \<Rightarrow> call" where
  "lock_call w p f want sharing =
     \<lparr>cfile = f, clow = eFile (ps w p) f, cclose = False, cprog = unixLock False sharing f want (ps w p)\<rparr>"

definition unlock_call :: "world \<Rightarrow> nat \<Rightarrow> nat \<Rightarrow> nat \<Rightarrow> bool \<Rightarrow> call" where
  "unlock_call w p f target closing =
     \<lparr>cfile = f, clow = min (eFile (ps w p) f) target, cclose = closing, cprog = unixUnlock False f target (ps w p)\<rparr>"

text \<open>
  The steps: a call of \<open>unixLock\<close>, \<open>unixUnlock\<close> or \<open>unixClose\<close> starts; a system call succeeds or fails, any
  of them with any error; a call returns; a thread in \<open>unixClose\<close> goes on; a descriptor is closed.  Closing any
  descriptor of a file drops all record locks of the process on it.  The global mutex allows one thread
  between \<open>unixClose_fd\<close> and the end of \<open>closeUnixFile\<close>.
\<close>

inductive wstep :: "world \<Rightarrow> world \<Rightarrow> bool" where
  call_lock: "run w p = None \<Longrightarrow> want \<in> {SHARED_LOCK, RESERVED_LOCK, EXCLUSIVE_LOCK} \<Longrightarrow>
    eFile (ps w p) f = NO_LOCK \<longrightarrow> want = SHARED_LOCK \<Longrightarrow> wstep w (begin_call w p (lock_call w p f want sharing))"
| call_unlock: "run w p = None \<Longrightarrow> target = NO_LOCK \<or> target = SHARED_LOCK \<Longrightarrow>
    wstep w (begin_call w p (unlock_call w p f target False))"
| call_close: "run w p = None \<Longrightarrow> wstep w (begin_call w p (unlock_call w p f NO_LOCK True))"
| fcntl_ok: "run w p = Some c \<Longrightarrow> cprog c = Fcntl l k \<Longrightarrow> grant (kl w) p l \<Longrightarrow>
    wstep w (w\<lparr>kl := (kl w)(p := set_locks l (kl w p)), run := (run w)(p := Some (c\<lparr>cprog := k None\<rparr>))\<rparr>)"
| fcntl_err: "run w p = Some c \<Longrightarrow> cprog c = Fcntl l k \<Longrightarrow>
    wstep w (w\<lparr>run := (run w)(p := Some (c\<lparr>cprog := k (Some e)\<rparr>)),
      unlockFailed := (unlockFailed w)(p := unlockFailed w p \<or> l_type l = F_UNLCK)\<rparr>)"
| close_unused: "run w p = Some c \<Longrightarrow> cprog c = CloseFd k \<Longrightarrow>
    wstep w (w\<lparr>kl := (kl w)(p := (\<lambda>b. F_UNLCK)), run := (run w)(p := Some (c\<lparr>cprog := k\<rparr>))\<rparr>)"
| return: "run w p = Some c \<Longrightarrow> cprog c = Ret rc st \<Longrightarrow>
    wstep w (w\<lparr>run := (run w)(p := None), ps := (ps w)(p := st),
      inClose := (inClose w)(p := inClose w p + (if cclose c then 1 else 0))\<rparr>)"
| close_rest: "run w p = None \<Longrightarrow> inClose w p \<noteq> 0 \<Longrightarrow> toClose w p = 0 \<Longrightarrow> st = unixClose_fd (ps w p) \<Longrightarrow>
    wstep w (w\<lparr>ps := (ps w)(p := st\<lparr>mustClose := False\<rparr>), inClose := (inClose w)(p := inClose w p - 1),
      toClose := (toClose w)(p := if mustClose st then 1 else 0)\<rparr>)"
| close_fd: "toClose w p \<noteq> 0 \<Longrightarrow>
    wstep w (w\<lparr>kl := (kl w)(p := (\<lambda>b. F_UNLCK)), toClose := (toClose w)(p := 0)\<rparr>)"

text \<open>The processes the guarantee is given for.\<close>

definition sound :: "world \<Rightarrow> nat \<Rightarrow> bool" where
  "sound w p \<longleftrightarrow> \<not> unlockFailed w p \<and> \<not> raced w p"

definition initial_proc :: uproc where
  "initial_proc = \<lparr>eInode = NO_LOCK, nShared = 0, nLock = 0, bProcessLock = False, nUnused = 0, eFile = (\<lambda>f. NO_LOCK), mustClose = False\<rparr>"

definition initial_world :: world where
  "initial_world = \<lparr>kl = (\<lambda>p b. F_UNLCK), ps = (\<lambda>p. initial_proc), run = (\<lambda>p. None), inClose = (\<lambda>p. 0), toClose = (\<lambda>p. 0),
     unlockFailed = (\<lambda>p. False), raced = (\<lambda>p. False)\<rparr>"

definition reachable :: "world \<Rightarrow> bool" where
  "reachable w \<longleftrightarrow> wstep\<^sup>*\<^sup>* initial_world w"

text \<open>The lock level a handle can rely on: the recorded one, during a call the lower of the two.\<close>

definition held_level :: "world \<Rightarrow> nat \<Rightarrow> nat \<Rightarrow> nat" where
  "held_level w p f =
     (case run w p of None \<Rightarrow> eFile (ps w p) f | Some c \<Rightarrow> if f = cfile c then clow c else eFile (ps w p) f)"

definition kernel_ok :: "(nat \<Rightarrow> klocks) \<Rightarrow> bool" where
  "kernel_ok kls \<longleftrightarrow> (\<forall>p q b. p \<noteq> q \<longrightarrow> compatible (kls p b) (kls q b))"

definition call_ok :: "uproc \<Rightarrow> klocks \<Rightarrow> call \<Rightarrow> bool" where
  "call_ok st own c \<longleftrightarrow> proc_ok st \<and> clow c \<le> eFile st (cfile c) \<and>
     safe idle_ok (kept_levels (cfile c) (clow c) st) (cprog c) own"

text \<open>The invariant of one process, and that of the world: only the locks in the kernel concern all processes.\<close>

definition process_ok :: "world \<Rightarrow> nat \<Rightarrow> bool" where
  "process_ok w p \<longleftrightarrow>
     (case run w p of None \<Rightarrow> idle_ok (ps w p) (kl w p) | Some c \<Rightarrow> call_ok (ps w p) (kl w p) c) \<and>
     (toClose w p \<noteq> 0 \<longrightarrow> run w p = None \<and> holders (ps w p) = {})"

definition world_ok :: "world \<Rightarrow> bool" where
  "world_ok w \<longleftrightarrow> kernel_ok (kl w) \<and> (\<forall>p. sound w p \<longrightarrow> process_ok w p)"

lemma kernel_ok_set: "kernel_ok kls \<Longrightarrow> grant kls p l \<Longrightarrow> kernel_ok (kls(p := set_locks l (kls p)))"
  by (auto simp: kernel_ok_def grant_def set_locks_def compatible_def)

lemma kernel_ok_clear: "kernel_ok kls \<Longrightarrow> kernel_ok (kls(p := (\<lambda>b. F_UNLCK)))"
  by (auto simp: kernel_ok_def compatible_def)

lemma process_okD:
  assumes "process_ok w p"
  shows "run w p = None \<Longrightarrow> idle_ok (ps w p) (kl w p)" "run w p = Some c \<Longrightarrow> call_ok (ps w p) (kl w p) c"
    "run w p = Some c \<Longrightarrow> toClose w p = 0" "toClose w p \<noteq> 0 \<Longrightarrow> run w p = None \<and> holders (ps w p) = {}"
proof -
  show closing: "toClose w p \<noteq> 0 \<Longrightarrow> run w p = None \<and> holders (ps w p) = {}" using assms unfolding process_ok_def by blast
  show "run w p = None \<Longrightarrow> idle_ok (ps w p) (kl w p)" "run w p = Some c \<Longrightarrow> call_ok (ps w p) (kl w p) c"
    using assms unfolding process_ok_def by simp_all
  show "run w p = Some c \<Longrightarrow> toClose w p = 0" using closing by fastforce
qed

text \<open>A step changes one process, and no process becomes sound.\<close>

lemma world_ok_proc:
  assumes ok: "world_ok w" and k: "kernel_ok (kl w')"
    and others: "\<And>q. q \<noteq> p \<Longrightarrow> kl w' q = kl w q \<and> ps w' q = ps w q \<and> run w' q = run w q \<and> toClose w' q = toClose w q"
    and sound: "\<And>q. sound w' q \<Longrightarrow> sound w q"
    and p: "process_ok w p \<Longrightarrow> sound w' p \<Longrightarrow> process_ok w' p"
  shows "world_ok w'"
proof -
  have "process_ok w' q" if q: "sound w' q" for q
  proof (cases "q = p")
    case True
    then show ?thesis using ok sound [OF q] p q by (simp add: world_ok_def)
  next
    case False
    then have "process_ok w' q = process_ok w q" using others [OF False] by (cases "run w q") (simp_all add: process_ok_def)
    then show ?thesis using ok sound [OF q] by (simp add: world_ok_def)
  qed
  then show ?thesis using k by (simp add: world_ok_def)
qed

lemma begin_call_ok:
  assumes "world_ok w" "run w p = None" "idle_ok (ps w p) (kl w p) \<Longrightarrow> call_ok (ps w p) (kl w p) c"
  shows "world_ok (begin_call w p c)"
proof (rule world_ok_proc [OF assms(1), of _ p])
  show "kernel_ok (kl (begin_call w p c))" using assms(1) by (simp add: world_ok_def begin_call_def)
  assume "process_ok w p" "sound (begin_call w p c) p"
  then show "process_ok (begin_call w p c) p"
    using assms(2,3) process_okD(1) [of w p] by (auto simp: process_ok_def begin_call_def sound_def)
qed (auto simp: begin_call_def sound_def split: if_splits)

lemma world_ok_step:
  assumes "wstep w w'" "world_ok w"
  shows "world_ok w'"
proof -
  have k: "kernel_ok (kl w)" using assms(2) by (simp add: world_ok_def)
  from assms(1) show ?thesis
  proof cases
    case (call_lock p want f sharing)
    have "kept_levels f (eFile (ps w p) f) (ps w p) = (\<lambda>own. \<forall>g. supports own (eFile (ps w p) g))"
      by (rule ext) (auto simp: kept_levels_def)
    then show ?thesis
      unfolding call_lock(1) using call_lock(2-) unixLock_safe [of "ps w p" "kl w p" want f sharing]
      by (intro begin_call_ok [OF assms(2)]) (auto simp: call_ok_def lock_call_def idle_ok_def)
  next
    case (call_unlock p target f)
    then show ?thesis
      using posixUnlock_safe [of "ps w p" "kl w p" target f]
      by (auto intro!: begin_call_ok [OF assms(2)] simp: call_ok_def unlock_call_def idle_ok_def unixUnlock_def)
  next
    case (call_close p f)
    then show ?thesis
      using posixUnlock_safe [of "ps w p" "kl w p" 0 f]
      by (auto intro!: begin_call_ok [OF assms(2)] simp: call_ok_def unlock_call_def idle_ok_def unixUnlock_def)
  next
    case (fcntl_ok p c l k')
    show ?thesis
    proof (rule world_ok_proc [OF assms(2), of w' p])
      show "kernel_ok (kl w')" using kernel_ok_set [OF k fcntl_ok(4)] fcntl_ok(1) by simp
      show "process_ok w p \<Longrightarrow> sound w' p \<Longrightarrow> process_ok w' p"
        using process_okD(2,3) [of w p c] fcntl_ok by (auto simp: process_ok_def call_ok_def)
    qed (use fcntl_ok(1) in \<open>simp_all add: sound_def\<close>)
  next
    case (fcntl_err p c l k' e)
    show ?thesis
    proof (rule world_ok_proc [OF assms(2), of w' p])
      show "kernel_ok (kl w')" using k fcntl_err(1) by simp
      show "process_ok w p \<Longrightarrow> sound w' p \<Longrightarrow> process_ok w' p"
        using process_okD(2,3) [of w p c] fcntl_err by (auto simp: process_ok_def call_ok_def sound_def)
    qed (use fcntl_err(1) in \<open>auto simp: sound_def split: if_splits\<close>)
  next
    case (close_unused p c k')
    show ?thesis
    proof (rule world_ok_proc [OF assms(2), of w' p])
      show "kernel_ok (kl w')" using kernel_ok_clear [OF k, of p] close_unused(1) by simp
      show "process_ok w p \<Longrightarrow> sound w' p \<Longrightarrow> process_ok w' p"
        using process_okD(2,3) [of w p c] close_unused by (auto simp: process_ok_def call_ok_def)
    qed (use close_unused(1) in \<open>simp_all add: sound_def\<close>)
  next
    case (return p c rc st)
    show ?thesis
    proof (rule world_ok_proc [OF assms(2), of w' p])
      show "kernel_ok (kl w')" using k return(1) by simp
      show "process_ok w p \<Longrightarrow> sound w' p \<Longrightarrow> process_ok w' p"
        using process_okD(2,3) [of w p c] return by (auto simp: process_ok_def call_ok_def)
    qed (use return(1) in \<open>simp_all add: sound_def\<close>)
  next
    case (close_rest p st)
    show ?thesis
    proof (rule world_ok_proc [OF assms(2), of w' p])
      show "kernel_ok (kl w')" using k close_rest(1) by simp
      assume "process_ok w p"
      then have "idle_ok (ps w p) (kl w p)" using process_okD(1) close_rest(2) by blast
      then show "process_ok w' p" using unixClose_fd_ok [of "ps w p" "kl w p"] close_rest by (simp add: process_ok_def holders_upd)
    qed (use close_rest(1) in \<open>simp_all add: sound_def\<close>)
  next
    case (close_fd p)
    show ?thesis
    proof (rule world_ok_proc [OF assms(2), of w' p])
      show "kernel_ok (kl w')" using kernel_ok_clear [OF k, of p] close_fd(1) by simp
      assume "process_ok w p"
      then have "run w p = None" "holders (ps w p) = {}" "idle_ok (ps w p) (kl w p)"
        using process_okD(1,4) [of w p] close_fd(2) by auto
      moreover from this have "eInode (ps w p) = 0" using proc_okD(6) [of "ps w p"] by (simp add: idle_ok_def)
      ultimately show "process_ok w' p" using close_fd(1) by (simp add: process_ok_def idle_ok_def)
    qed (use close_fd(1) in \<open>simp_all add: sound_def\<close>)
  qed
qed

lemma reachable_ok: "reachable w \<Longrightarrow> world_ok w"
  unfolding reachable_def
proof (induction rule: rtranclp_induct)
  case base
  have "proc_ok initial_proc" by (rule proc_ok_none) (simp_all add: initial_proc_def)
  then show ?case
    by (auto simp: world_ok_def process_ok_def initial_world_def kernel_ok_def compatible_def idle_ok_def initial_proc_def holders_def)
next
  case (step y z)
  then show ?case by (blast intro: world_ok_step)
qed

lemma held_supports:
  assumes "process_ok w p"
  shows "supports (kl w p) (held_level w p f)" "held_level w p f \<le> eFile (ps w p) f" "proc_ok (ps w p)"
proof -
  have r: "case run w p of None \<Rightarrow> idle_ok (ps w p) (kl w p) | Some c \<Rightarrow> call_ok (ps w p) (kl w p) c"
    using assms by (simp add: process_ok_def)
  have g: "safe I G pr own \<Longrightarrow> G own" for I G own and pr :: "uproc prog" by (cases pr) auto
  show "held_level w p f \<le> eFile (ps w p) f" "proc_ok (ps w p)"
    using r by (auto simp: held_level_def call_ok_def idle_ok_def split: option.splits)
  show "supports (kl w p) (held_level w p f)"
  proof (cases "run w p")
    case None
    then show ?thesis using r idle_supports by (simp add: held_level_def)
  next
    case (Some c)
    then have "kept_levels (cfile c) (clow c) (ps w p) (kl w p)" using r by (auto simp: call_ok_def intro: g)
    then have "supports (kl w p) (if f = cfile c then clow c else eFile (ps w p) f)" by (simp add: kept_levels_def)
    then show ?thesis using Some by (simp add: held_level_def)
  qed
qed

lemma supports_exclusive:
  assumes "kernel_ok (kl w)" "p \<noteq> q"
  shows "supports (kl w p) 4 \<Longrightarrow> supports (kl w q) m \<Longrightarrow> m = 0"
    "supports (kl w p) k \<Longrightarrow> k = 2 \<or> k = 3 \<Longrightarrow> supports (kl w q) m \<Longrightarrow> m = 2 \<or> m = 3 \<Longrightarrow> False"
proof -
  have c: "compatible (kl w p b) (kl w q b)" for b using assms by (auto simp: kernel_ok_def)
  obtain b where b: "b \<in> shared_range" using shared_range_ne by blast
  show "supports (kl w p) 4 \<Longrightarrow> supports (kl w q) m \<Longrightarrow> m = 0"
    using c [of b] b by (cases "m = 0") (auto simp: supports_def shared_write_def shared_held_def compatible_def)
  show "supports (kl w p) k \<Longrightarrow> k = 2 \<or> k = 3 \<Longrightarrow> supports (kl w q) m \<Longrightarrow> m = 2 \<or> m = 3 \<Longrightarrow> False"
    using c [of RESERVED_BYTE] by (auto simp: supports_def compatible_def)
qed


section \<open>A process that runs alone\<close>

text \<open>The end of a routine whose requests are all granted.\<close>

primrec granted :: "'s prog \<Rightarrow> klocks \<Rightarrow> 's \<times> klocks" where
  "granted (Ret rc s) own = (s, own)"
| "granted (Fcntl l c) own = granted (c None) (set_locks l own)"
| "granted (CloseFd c) own = granted c (\<lambda>b. F_UNLCK)"

text \<open>The world after the call in progress of process \<open>p\<close>.\<close>

definition finish_call :: "world \<Rightarrow> nat \<Rightarrow> call \<Rightarrow> world" where
  "finish_call w p c =
     (let (st, own) = granted (cprog c) (kl w p)
      in w\<lparr>kl := (kl w)(p := own), run := (run w)(p := None), ps := (ps w)(p := st),
           inClose := (inClose w)(p := inClose w p + (if cclose c then 1 else 0))\<rparr>)"

definition whole_call :: "world \<Rightarrow> nat \<Rightarrow> call \<Rightarrow> world" where
  "whole_call w p c = finish_call (begin_call w p c) p c"

text \<open>Whether the locks of the other processes allow every request of a routine.\<close>

primrec can_run :: "(nat \<Rightarrow> klocks) \<Rightarrow> nat \<Rightarrow> 's prog \<Rightarrow> bool" where
  "can_run kls p (Ret rc s) \<longleftrightarrow> True"
| "can_run kls p (Fcntl l c) \<longleftrightarrow> grant kls p l \<and> can_run kls p (c None)"
| "can_run kls p (CloseFd c) \<longleftrightarrow> can_run kls p c"

lemma can_run_own [simp]: "can_run (kls(p := own)) p pr = can_run kls p pr"
  by (induction pr) (auto simp: grant_def)

lemma can_run_alone: "(\<And>q b. q \<noteq> p \<Longrightarrow> kls q b = F_UNLCK) \<Longrightarrow> can_run kls p pr"
  by (induction pr) (auto simp: grant_def compatible_def)

lemma granted_run:
  assumes "run w p = Some c" "can_run (kl w) p (cprog c)"
  shows "wstep\<^sup>*\<^sup>* w (finish_call w p c)"
  using assms
proof (induction "cprog c" arbitrary: w c)
  case (Ret rc s)
  then show ?case
    using wstep.return [OF Ret(2) Ret(1) [symmetric]]
    by (simp add: finish_call_def Ret(1) [symmetric] fun_upd_idem r_into_rtranclp)
next
  case (Fcntl l k)
  let ?c = "c\<lparr>cprog := k None\<rparr>"
  let ?w = "w\<lparr>kl := (kl w)(p := set_locks l (kl w p)), run := (run w)(p := Some ?c)\<rparr>"
  have g: "grant (kl w) p l" "can_run (kl w) p (k None)" using Fcntl.prems(2) by (simp_all add: Fcntl.hyps(2) [symmetric])
  then have "wstep w ?w" using wstep.fcntl_ok [OF Fcntl.prems(1) Fcntl.hyps(2) [symmetric]] by blast
  moreover have "wstep\<^sup>*\<^sup>* ?w (finish_call ?w p ?c)" by (rule Fcntl.hyps(1)) (use g in auto)
  moreover have "finish_call ?w p ?c = finish_call w p c"
    by (simp add: finish_call_def Fcntl.hyps(2) [symmetric])
  ultimately show ?case by (metis converse_rtranclp_into_rtranclp)
next
  case (CloseFd k)
  let ?c = "c\<lparr>cprog := k\<rparr>"
  let ?w = "w\<lparr>kl := (kl w)(p := (\<lambda>b. F_UNLCK)), run := (run w)(p := Some ?c)\<rparr>"
  have "wstep w ?w" by (rule wstep.close_unused [OF CloseFd.prems(1) CloseFd.hyps(2) [symmetric]])
  moreover have "wstep\<^sup>*\<^sup>* ?w (finish_call ?w p ?c)"
    by (rule CloseFd.hyps(1)) (use CloseFd.prems(2) in \<open>auto simp: CloseFd.hyps(2) [symmetric]\<close>)
  moreover have "finish_call ?w p ?c = finish_call w p c"
    by (simp add: finish_call_def CloseFd.hyps(2) [symmetric])
  ultimately show ?case by (metis converse_rtranclp_into_rtranclp)
qed

lemma run_call:
  assumes "reachable w" "can_run (kl w) p (cprog c)" "wstep w (begin_call w p c)"
  shows "reachable (whole_call w p c)"
proof -
  have "wstep\<^sup>*\<^sup>* (begin_call w p c) (finish_call (begin_call w p c) p c)"
    using assms(2) by (intro granted_run) (simp_all add: begin_call_def)
  then show ?thesis
    using assms(1,3) unfolding reachable_def whole_call_def by (meson converse_rtranclp_into_rtranclp rtranclp_trans)
qed

lemma alone_lock:
  assumes "reachable w" "\<And>q b. q \<noteq> p \<Longrightarrow> kl w q b = F_UNLCK" "run w p = None"
    "want \<in> {SHARED_LOCK, RESERVED_LOCK, EXCLUSIVE_LOCK}" "eFile (ps w p) f = NO_LOCK \<longrightarrow> want = SHARED_LOCK"
  shows "reachable (whole_call w p (lock_call w p f want False))"
  using run_call [OF assms(1) can_run_alone wstep.call_lock [OF assms(3-5)]] assms(2) by simp

lemma reachable_step: "reachable w \<Longrightarrow> wstep w w' \<Longrightarrow> reachable w'"
  unfolding reachable_def by (rule rtranclp.rtrancl_into_rtrancl)

lemmas routine_defs = unixLock_def unixLock_tail_def unixFileLock_def lock_done_def unixClose_fd_def unixUnlock_def
  posixUnlock_def lock_call_def unlock_call_def begin_call_def finish_call_def whole_call_def initial_world_def initial_proc_def

section \<open>Properties\<close>

text \<open>
  C9: In every interleaving of lock, unlock and close calls of any number of processes, with any
  number of handles each, where every system call may fail with any error: an EXCLUSIVE lock excludes
  every other lock, and at most one handle holds a RESERVED or higher lock.  This is for the handles of the
  processes in which no system call that was to release a lock failed and no thread made a call while another
  one was about to close a descriptor; what happens to other processes does not matter.
\<close>

theorem lock_mutual_exclusion:
  assumes r: "reachable w" and s: "sound w p" "sound w q" and ne: "(p, f) \<noteq> (q, g)"
  shows "(held_level w p f = EXCLUSIVE_LOCK \<longrightarrow> held_level w q g = NO_LOCK) \<and>
    (RESERVED_LOCK \<le> held_level w p f \<longrightarrow> held_level w q g \<le> SHARED_LOCK)"
proof -
  have ok: "kernel_ok (kl w)" "process_ok w p" "process_ok w q" using reachable_ok [OF r] s by (auto simp: world_ok_def)
  let ?k = "held_level w p f" and ?m = "held_level w q g"
  note hp = held_supports [OF ok(2)] and hq = held_supports [OF ok(3)]
  have le: "?k \<le> 4" "?m \<le> 4"
    using hp(2) [of f] proc_okD(5) [OF hp(3)] proc_okD(7) [OF hp(3), of f]
      hq(2) [of g] proc_okD(5) [OF hq(3)] proc_okD(7) [OF hq(3), of g] by auto
  show ?thesis
  proof (cases "p = q")
    case False
    note e = supports_exclusive [OF ok(1) False] and e' = supports_exclusive [OF ok(1) False [symmetric]]
    have "?k = 4 \<longrightarrow> ?m = 0" using e(1) hp(1) hq(1) by metis
    moreover have "?m = 4 \<longrightarrow> ?k = 0" using e'(1) hp(1) hq(1) by metis
    moreover have "\<not> ((?k = 2 \<or> ?k = 3) \<and> (?m = 2 \<or> ?m = 3))" using e(2) hp(1) hq(1) by blast
    ultimately show ?thesis using le by arith
  next
    case True
    then have fg: "f \<noteq> g" using ne by simp
    note o = proc_okD [OF hp(3)]
    have "eFile (ps w p) g = 0" if "?k = 4"
    proof -
      have "eFile (ps w p) f = 4" using that hp(2) [of f] o(5) o(7) [of f] by auto
      then have "nShared (ps w p) = 1" "f \<in> holders (ps w p)" using o(7) [of f] o(9) by (auto simp: file_holder)
      then have "holders (ps w p) = {f}" using o(2) by (auto simp: card_Suc_eq)
      then show ?thesis using fg file_holder [of g "ps w p"] by auto
    qed
    moreover have "eFile (ps w p) g \<le> 1" if "2 \<le> ?k"
      using that hp(2) [of f] o(10) [of f g] fg by fastforce
    ultimately show ?thesis using hq(2) [of g] True by auto
  qed
qed

theorem lock_mutual_exclusion_witness:
  "let w = whole_call initial_world 0 (lock_call initial_world 0 7 SHARED_LOCK False);
       w = whole_call w 0 (lock_call w 0 7 EXCLUSIVE_LOCK False)
   in held_level w 0 7 = EXCLUSIVE_LOCK \<and> held_level w 1 3 = NO_LOCK"
proof -
  let ?w1 = "whole_call initial_world 0 (lock_call initial_world 0 7 SHARED_LOCK False)"
  let ?w2 = "whole_call ?w1 0 (lock_call ?w1 0 7 EXCLUSIVE_LOCK False)"
  have "reachable initial_world" by (simp add: reachable_def)
  then have "reachable ?w1"
    by (rule alone_lock) (simp_all add: initial_world_def)
  then have "reachable ?w2"
    by (rule alone_lock) (simp_all add: routine_defs)
  moreover have "held_level ?w2 0 7 = EXCLUSIVE_LOCK"
    by (simp add: routine_defs held_level_def)
  moreover have "sound ?w2 0" "sound ?w2 1" by (simp_all add: routine_defs sound_def)
  ultimately show ?thesis using lock_mutual_exclusion [of ?w2 0 1 7 3] by simp
qed

text \<open>
  C24: With a thread that makes a call at that moment the guarantee fails, without any failing system call:
  \<open>unixClose\<close> gives up the mutex of the inode before it closes the descriptor, and closing it drops the record
  locks another thread of the process obtained in between, so a handle with a recorded SHARED lock and a handle
  of another process with an EXCLUSIVE lock are reachable.
\<close>

theorem close_race:
  "\<exists>w. reachable w \<and> run w = (\<lambda>p. None) \<and> unlockFailed w = (\<lambda>p. False) \<and>
     eFile (ps w 0) 1 = SHARED_LOCK \<and> eFile (ps w 1) 0 = EXCLUSIVE_LOCK"
proof -
  let ?w0 = initial_world
  let ?wa = "whole_call ?w0 0 (unlock_call ?w0 0 0 NO_LOCK True)"
  let ?st = "unixClose_fd (ps ?wa 0)"
  let ?w1 = "?wa\<lparr>ps := (ps ?wa)(0 := ?st\<lparr>mustClose := False\<rparr>), inClose := (inClose ?wa)(0 := inClose ?wa 0 - 1),
      toClose := (toClose ?wa)(0 := if mustClose ?st then 1 else 0)\<rparr>"
  let ?w2 = "whole_call ?w1 0 (lock_call ?w1 0 1 SHARED_LOCK False)"
  let ?w3 = "?w2\<lparr>kl := (kl ?w2)(0 := (\<lambda>b. F_UNLCK)), toClose := (toClose ?w2)(0 := 0)\<rparr>"
  let ?w4 = "whole_call ?w3 1 (lock_call ?w3 1 0 SHARED_LOCK False)"
  let ?w5 = "whole_call ?w4 1 (lock_call ?w4 1 0 EXCLUSIVE_LOCK False)"
  have w0: "reachable ?w0" by (simp add: reachable_def)
  have wa: "reachable ?wa" by (rule run_call [OF w0 can_run_alone wstep.call_close]) (simp_all add: initial_world_def)
  have "wstep ?wa ?w1" by (rule wstep.close_rest) (simp_all add: routine_defs)
  with wa have "reachable ?w1" by (rule reachable_step)
  then have w2: "reachable ?w2" by (rule alone_lock) (simp_all add: routine_defs)
  have "wstep ?w2 ?w3" by (rule wstep.close_fd) (simp add: routine_defs)
  with w2 have "reachable ?w3" by (rule reachable_step)
  then have "reachable ?w4" by (rule alone_lock) (simp_all add: routine_defs)
  then have "reachable ?w5" by (rule alone_lock) (simp_all add: routine_defs)
  moreover have "run ?w5 = (\<lambda>p. None) \<and> unlockFailed ?w5 = (\<lambda>p. False) \<and> eFile (ps ?w5 0) 1 = SHARED_LOCK \<and> eFile (ps ?w5 1) 0 = EXCLUSIVE_LOCK"
    by (simp add: routine_defs fun_eq_iff)
  ultimately show ?thesis by blast
qed


end
