(* ===== verification/MemJournal.thy ===== *)
theory MemJournal
  imports UnixFile
begin

text \<open>
  The in-memory rollback journal (\<open>src/src/memjournal.c\<close>).  The journal is a linked list of chunks
  of \<open>nChunkSize\<close> bytes; a \<open>FilePoint\<close> is an offset and a chunk.  Here the list is a list of byte
  strings, and a pointer to a chunk its index in the list.  A write that makes the journal longer
  than \<open>nSpill\<close> moves it to a file of the VFS.  The VFS is a table of function pointers the journal
  is opened with; its operations are parameters of the model.
\<close>

section \<open>State\<close>

record file_point =
  iOffset :: nat
  pChunk :: "nat option"

record mem_journal =
  nChunkSize :: nat
  nSpill :: int
  chunks :: "bytes list"
  endpoint :: file_point
  readpoint :: file_point

text \<open>A journal handle: in memory, or a file of the VFS once it was spilled.\<close>

datatype 'f journal = InMemory mem_journal | Real 'f

definition null_point :: file_point where
  "null_point = \<lparr>iOffset = 0, pChunk = None\<rparr>"

section \<open>Operations\<close>

text \<open>The loop that looks for the chunk of offset \<open>iOfst\<close>.\<close>

fun seek_chunk :: "nat \<Rightarrow> nat \<Rightarrow> nat \<Rightarrow> nat \<Rightarrow> bytes list \<Rightarrow> nat" where
  "seek_chunk nChunk iOfst iOff i [] = i"
| "seek_chunk nChunk iOfst iOff i (c # cs) =
     (if iOff + nChunk \<le> iOfst then seek_chunk nChunk iOfst (iOff + nChunk) (Suc i) cs else i)"

text \<open>
  The copy loop, from chunk \<open>i\<close> on (\<open>cs\<close> are the chunks from there): the bytes read and the chunk
  the loop ends at.  The last argument of the result is \<open>None\<close> for the null pointer.
\<close>

fun read_loop :: "nat \<Rightarrow> nat \<Rightarrow> bytes list \<Rightarrow> nat \<Rightarrow> nat \<Rightarrow> bytes \<times> nat option" where
  "read_loop nChunk i [] off nRead = ([], None)"
| "read_loop nChunk i (c # cs) off nRead =
     (let iSpace = nChunk - off;
          nCopy = min nRead (nChunk - off);
          zOut = subbytes c off nCopy
      in if nRead < iSpace then (zOut, Some i)
         else if cs = [] then (zOut, None)
         else if nRead = iSpace then (zOut, Some (Suc i))
         else case read_loop nChunk (Suc i) cs 0 (nRead - iSpace) of (z, p) \<Rightarrow> (zOut @ z, p))"

text \<open>\<open>None\<close> is the null-pointer access the \<open>ALWAYS\<close> of the source excludes.\<close>

definition memjrnlRead :: "mem_journal \<Rightarrow> nat \<Rightarrow> nat \<Rightarrow> (rc \<times> bytes \<times> mem_journal) option" where
  "memjrnlRead p iAmt iOfst =
     (if iAmt + iOfst > iOffset (endpoint p) then Some (SQLITE_IOERR_SHORT_READ, [], p)
      else
        let start = (if iOffset (readpoint p) \<noteq> iOfst \<or> iOfst = 0
                     then Some (seek_chunk (nChunkSize p) iOfst 0 0 (chunks p))
                     else pChunk (readpoint p))
        in case start of
             None \<Rightarrow> None
           | Some i \<Rightarrow>
               if i \<ge> length (chunks p) then None
               else case read_loop (nChunkSize p) i (drop i (chunks p)) (iOfst mod nChunkSize p) iAmt of
                      (zOut, q) \<Rightarrow>
                        Some (SQLITE_OK, zOut, p\<lparr>readpoint :=
                          \<lparr>iOffset = (if q = None then 0 else iOfst + iAmt), pChunk = q\<rparr>\<rparr>))"

text \<open>Freeing a list of chunks leaves no chunk.\<close>

definition memjrnlFreeChunks :: "bytes list \<Rightarrow> bytes list" where
  "memjrnlFreeChunks pFirst = []"

text \<open>The loop of \<open>memjrnlTruncate\<close> that looks for the last chunk to keep.\<close>

fun trunc_chunk :: "nat \<Rightarrow> nat \<Rightarrow> nat \<Rightarrow> nat \<Rightarrow> bytes list \<Rightarrow> nat" where
  "trunc_chunk nChunk sz iOff i [] = i"
| "trunc_chunk nChunk sz iOff i (c # cs) =
     (if iOff < sz then trunc_chunk nChunk sz (iOff + nChunk) (Suc i) cs else i)"

definition memjrnlTruncate :: "mem_journal \<Rightarrow> nat \<Rightarrow> rc \<times> mem_journal" where
  "memjrnlTruncate p sz =
     (if sz < iOffset (endpoint p) then
        let (cs, pIter) =
          (if sz = 0 then (memjrnlFreeChunks (chunks p), None)
           else
             let i = trunc_chunk (nChunkSize p) sz (nChunkSize p) 0 (chunks p)
             in if i < length (chunks p)
                then (take (Suc i) (chunks p) @ memjrnlFreeChunks (drop (Suc i) (chunks p)), Some i)
                else (chunks p, None))
        in (SQLITE_OK, p\<lparr>chunks := cs, endpoint := \<lparr>iOffset = sz, pChunk = pIter\<rparr>,
              readpoint := null_point\<rparr>)
      else (SQLITE_OK, p))"

text \<open>
  The loop of \<open>memjrnlWrite\<close> that appends \<open>zWrite\<close>.  A new chunk has an arbitrary content, here
  \<open>junk\<close> in every byte.
\<close>

function write_loop :: "u8 \<Rightarrow> mem_journal \<Rightarrow> bytes \<Rightarrow> heap_answers \<Rightarrow> rc \<times> mem_journal \<times> heap_answers" where
  "write_loop junk p zWrite al =
     (if zWrite = [] \<or> nChunkSize p = 0 then (SQLITE_OK, p, al)
      else
        let iChunkOffset = iOffset (endpoint p) mod nChunkSize p;
            iSpace = min (length zWrite) (nChunkSize p - iChunkOffset);
            store = (\<lambda>p. p\<lparr>chunks := (chunks p)[the (pChunk (endpoint p)) :=
                       blit (chunks p ! the (pChunk (endpoint p))) iChunkOffset (take iSpace zWrite)],
                     endpoint := (endpoint p)\<lparr>iOffset := iOffset (endpoint p) + iSpace\<rparr>\<rparr>)
        in if iChunkOffset = 0 then
             case next_alloc al of (ok, al) \<Rightarrow>
               if \<not> ok then (SQLITE_IOERR_NOMEM, p, al)
               else
                 let p = p\<lparr>chunks := chunks p @ [replicate (nChunkSize p) junk],
                       endpoint := (endpoint p)\<lparr>pChunk := Some (length (chunks p))\<rparr>\<rparr>
                 in write_loop junk (store p) (drop iSpace zWrite) al
           else write_loop junk (store p) (drop iSpace zWrite) al)"
  by pat_completeness auto
termination
  by (relation "measure (\<lambda>(junk, p, zWrite, al). length zWrite)") (auto simp: min_def)

declare write_loop.simps [simp del]

text \<open>
  Moving the journal to a file: \<open>osOpen\<close> is the result of opening the file, \<open>osWrite\<close> its write
  method.  The file is opened in the memory of the journal handle, which is cleared before; \<open>copy\<close> is what the
  handle was, its chunks are freed only after the last one is in the file, and on an error the handle gets its
  old value again and the file is closed.
\<close>

fun flush_loop :: "('f \<Rightarrow> bytes \<Rightarrow> nat \<Rightarrow> rc \<times> 'f) \<Rightarrow> nat \<Rightarrow> nat \<Rightarrow> bytes list \<Rightarrow> nat \<Rightarrow> 'f \<Rightarrow> rc \<times> 'f" where
  "flush_loop osWrite nEnd nChunk [] iOff f = (SQLITE_OK, f)"
| "flush_loop osWrite nEnd nChunk (c # cs) iOff f =
     (let nChunk = (if iOff + nChunk > nEnd then nEnd - iOff else nChunk)
      in case osWrite f (take nChunk c) iOff of (rc, f) \<Rightarrow>
           if rc \<noteq> SQLITE_OK then (rc, f) else flush_loop osWrite nEnd nChunk cs (iOff + nChunk) f)"

definition memjrnlCreateFile ::
    "rc \<times> 'f \<Rightarrow> ('f \<Rightarrow> bytes \<Rightarrow> nat \<Rightarrow> rc \<times> 'f) \<Rightarrow> mem_journal \<Rightarrow> rc \<times> 'f journal" where
  "memjrnlCreateFile osOpen osWrite p =
     (let copy = p
      in case osOpen of (rc, pReal) \<Rightarrow>
           case (if rc = SQLITE_OK
                 then case flush_loop osWrite (iOffset (endpoint copy)) (nChunkSize copy) (chunks copy) 0 pReal of (rc, pReal) \<Rightarrow>
                   (rc, pReal, if rc = SQLITE_OK then copy\<lparr>chunks := memjrnlFreeChunks (chunks copy)\<rparr> else copy)
                 else (rc, pReal, copy)) of (rc, pReal, copy) \<Rightarrow>
             if rc \<noteq> SQLITE_OK then (rc, InMemory copy) else (rc, Real pReal))"

definition memjrnlWrite ::
    "rc \<times> 'f \<Rightarrow> ('f \<Rightarrow> bytes \<Rightarrow> nat \<Rightarrow> rc \<times> 'f) \<Rightarrow> u8 \<Rightarrow> mem_journal \<Rightarrow> bytes \<Rightarrow> nat \<Rightarrow> heap_answers \<Rightarrow>
      rc \<times> 'f journal \<times> heap_answers" where
  "memjrnlWrite osOpen osWrite junk p zBuf iOfst al =
     (if nSpill p > 0 \<and> int (length zBuf + iOfst) > nSpill p then
        case memjrnlCreateFile osOpen osWrite p of
          (rc, Real f) \<Rightarrow> (case osWrite f zBuf iOfst of (rc, f) \<Rightarrow> (rc, Real f, al))
        | (rc, InMemory p) \<Rightarrow> (rc, InMemory p, al)
      else
        let p = (if iOfst > 0 \<and> iOfst \<noteq> iOffset (endpoint p) then snd (memjrnlTruncate p iOfst) else p)
        in if iOfst = 0 \<and> chunks p \<noteq> [] then
             (SQLITE_OK, InMemory (p\<lparr>chunks := (chunks p)[0 := blit (chunks p ! 0) 0 zBuf]\<rparr>), al)
           else case write_loop junk p zBuf al of (rc, p, al) \<Rightarrow> (rc, InMemory p, al))"

definition memjrnlClose :: "mem_journal \<Rightarrow> rc \<times> mem_journal" where
  "memjrnlClose p = (SQLITE_OK, p\<lparr>chunks := memjrnlFreeChunks (chunks p)\<rparr>)"

definition memjrnlSync :: "mem_journal \<Rightarrow> rc" where
  "memjrnlSync p = SQLITE_OK"

definition memjrnlFileSize :: "mem_journal \<Rightarrow> rc \<times> nat" where
  "memjrnlFileSize p = (SQLITE_OK, iOffset (endpoint p))"

text \<open>\<open>sizeof(FileChunk)\<close> is 16 where pointers have eight bytes.\<close>

abbreviation MEMJOURNAL_DFLT_FILECHUNKSIZE :: nat where "MEMJOURNAL_DFLT_FILECHUNKSIZE \<equiv> 1024"

definition sqlite3JournalOpen :: "rc \<times> 'f \<Rightarrow> int \<Rightarrow> rc \<times> 'f journal" where
  "sqlite3JournalOpen osOpen nSpill' =
     (if nSpill' = 0 then (case osOpen of (rc, f) \<Rightarrow> (rc, Real f))
      else (SQLITE_OK, InMemory
        \<lparr>nChunkSize = (if nSpill' > 0 then nat nSpill' else 8 + MEMJOURNAL_DFLT_FILECHUNKSIZE - 16),
         nSpill = nSpill', chunks = [], endpoint = null_point, readpoint = null_point\<rparr>))"

definition sqlite3MemJournalOpen :: "rc \<times> 'f \<Rightarrow> 'f journal" where
  "sqlite3MemJournalOpen osOpen = snd (sqlite3JournalOpen osOpen (-1))"

fun sqlite3JournalIsInMemory :: "'f journal \<Rightarrow> bool" where
  "sqlite3JournalIsInMemory (InMemory p) = True"
| "sqlite3JournalIsInMemory (Real f) = False"

text \<open>
  The methods of a journal handle as \<open>sqlite3OsRead\<close> and \<open>sqlite3OsWrite\<close> call them: those of the
  in-memory journal, or those of the file once the journal was spilled.
\<close>

fun sqlite3OsRead ::
    "('f \<Rightarrow> nat \<Rightarrow> nat \<Rightarrow> rc \<times> bytes \<times> 'f) \<Rightarrow> 'f journal \<Rightarrow> nat \<Rightarrow> nat \<Rightarrow> (rc \<times> bytes \<times> 'f journal) option" where
  "sqlite3OsRead osRead (InMemory p) amt offset =
     map_option (\<lambda>(rc, b, p). (rc, b, InMemory p)) (memjrnlRead p amt offset)"
| "sqlite3OsRead osRead (Real f) amt offset = (case osRead f amt offset of (rc, b, f) \<Rightarrow> Some (rc, b, Real f))"

fun sqlite3OsWrite ::
    "rc \<times> 'f \<Rightarrow> ('f \<Rightarrow> bytes \<Rightarrow> nat \<Rightarrow> rc \<times> 'f) \<Rightarrow> u8 \<Rightarrow> 'f journal \<Rightarrow> bytes \<Rightarrow> nat \<Rightarrow> heap_answers \<Rightarrow>
      rc \<times> 'f journal \<times> heap_answers" where
  "sqlite3OsWrite osOpen osWrite junk (InMemory p) zBuf offset al = memjrnlWrite osOpen osWrite junk p zBuf offset al"
| "sqlite3OsWrite osOpen osWrite junk (Real f) zBuf offset al =
     (case osWrite f zBuf offset of (rc, f) \<Rightarrow> (rc, Real f, al))"

section \<open>The journal as a byte string\<close>

definition journal_bytes :: "mem_journal \<Rightarrow> bytes" where
  "journal_bytes p = take (iOffset (endpoint p)) (concat (chunks p))"

text \<open>
  The invariant: the chunks have the chunk size and are exactly as many as the length needs, the
  end point is in the last chunk, and the read point, where it is set, is in the chunk of its offset.
\<close>

definition journal_ok :: "mem_journal \<Rightarrow> bool" where
  "journal_ok p \<longleftrightarrow>
     (let n = nChunkSize p; cs = chunks p; e = iOffset (endpoint p)
      in 0 < n \<and> (\<forall>c\<in>set cs. length c = n) \<and> e \<le> n * length cs \<and> n * length cs < e + n \<and>
         pChunk (endpoint p) = (if cs = [] then None else Some (length cs - 1)) \<and>
         (iOffset (readpoint p) = 0 \<or>
          pChunk (readpoint p) = Some (iOffset (readpoint p) div n) \<and> iOffset (readpoint p) div n < length cs))"


lemma journal_okD:
  assumes "journal_ok p"
  shows "0 < nChunkSize p" "\<forall>c\<in>set (chunks p). length c = nChunkSize p"
    "iOffset (endpoint p) \<le> nChunkSize p * length (chunks p)"
    "nChunkSize p * length (chunks p) < iOffset (endpoint p) + nChunkSize p"
    "pChunk (endpoint p) = (if chunks p = [] then None else Some (length (chunks p) - 1))"
    "iOffset (readpoint p) \<noteq> 0 \<Longrightarrow> pChunk (readpoint p) = Some (iOffset (readpoint p) div nChunkSize p) \<and>
      iOffset (readpoint p) div nChunkSize p < length (chunks p)"
  using assms by (auto simp: journal_ok_def Let_def)

lemma length_concat_chunks: "\<forall>c\<in>set cs. length c = n \<Longrightarrow> length (concat cs) = n * length cs"
  by (induction cs) auto

lemma length_journal_bytes: "journal_ok p \<Longrightarrow> length (journal_bytes p) = iOffset (endpoint p)"
  using journal_okD(3) [of p] length_concat_chunks [OF journal_okD(2), of p] by (simp add: journal_bytes_def)

text \<open>Reading.\<close>

lemma seek_chunk_eq:
  "0 < n \<Longrightarrow> iOff \<le> iOfst \<Longrightarrow> seek_chunk n iOfst iOff i cs = i + min (length cs) ((iOfst - iOff) div n)"
proof (induction cs arbitrary: iOff i)
  case (Cons c cs)
  show ?case
  proof (cases "iOff + n \<le> iOfst")
    case True
    then have "(iOfst - iOff) div n = Suc ((iOfst - (iOff + n)) div n)"
      using Cons.prems le_div_geq [of n "iOfst - iOff"] by simp
    then show ?thesis using Cons True by simp
  next
    case False
    then show ?thesis using Cons.prems by simp
  qed
qed simp

lemma read_loop_eq:
  assumes "\<forall>c\<in>set cs. length c = n" "off < n" "off + nRead \<le> n * length cs" "cs \<noteq> []"
  shows "read_loop n i cs off nRead =
    (subbytes (concat cs) off nRead, if off + nRead < n * length cs then Some (i + (off + nRead) div n) else None)"
  using assms
proof (induction cs arbitrary: i off nRead)
  case (Cons c cs)
  have c: "length c = n" using Cons.prems by simp
  consider "nRead < n - off" | "nRead = n - off" | "n - off < nRead" by linarith
  then show ?case
  proof cases
    case 1
    then have "off + nRead < n" "min nRead (n - off) = nRead" using Cons.prems(2) by auto
    then show ?thesis using 1 c by (simp add: subbytes_def)
  next
    case 2
    then have "off + nRead = n" using Cons.prems(2) by auto
    then show ?thesis using 2 c Cons.prems(2) by (cases "cs = []") (auto simp: subbytes_def)
  next
    case 3
    then have cs: "cs \<noteq> []" using Cons.prems by auto
    let ?m = "nRead - (n - off)"
    have m: "?m \<le> n * length cs" "off + nRead = n + ?m" using 3 Cons.prems by auto
    have "read_loop n (Suc i) cs 0 ?m =
        (subbytes (concat cs) 0 ?m, if ?m < n * length cs then Some (Suc i + ?m div n) else None)"
      using Cons.IH [of 0 ?m "Suc i"] Cons.prems cs m by simp
    moreover have "subbytes (concat (c # cs)) off nRead = subbytes c off (min nRead (n - off)) @ subbytes (concat cs) 0 ?m"
      using 3 c Cons.prems(2) by (simp add: subbytes_def)
    moreover have "(off + nRead) div n = Suc (?m div n)" unfolding m(2) using Cons.prems(2) by (simp add: div_add_self1)
    moreover have "off + nRead < n * length (c # cs) \<longleftrightarrow> ?m < n * length cs" unfolding m(2) by simp
    ultimately show ?thesis using 3 cs by (simp add: Let_def)
  qed
qed simp

lemma concat_drop_chunks:
  "\<forall>c\<in>set cs. length c = n \<Longrightarrow> concat (drop i cs) = drop (n * i) (concat cs)"
proof (induction cs arbitrary: i)
  case (Cons c cs)
  then show ?case by (cases i) auto
qed simp

lemma memjrnlRead_eq:
  assumes ok: "journal_ok p" and amt: "0 < iAmt" "iAmt + iOfst \<le> length (journal_bytes p)"
  shows "\<exists>p'. memjrnlRead p iAmt iOfst = Some (SQLITE_OK, subbytes (journal_bytes p) iOfst iAmt, p') \<and>
    journal_ok p' \<and> journal_bytes p' = journal_bytes p \<and> nSpill p' = nSpill p"
proof -
  note o = journal_okD [OF ok]
  let ?n = "nChunkSize p" and ?cs = "chunks p" and ?e = "iOffset (endpoint p)"
  have e: "iAmt + iOfst \<le> ?e" using amt length_journal_bytes [OF ok] by simp
  let ?i = "iOfst div ?n"
  have ofs: "iOfst = ?n * ?i + iOfst mod ?n" by simp
  have i: "?i < length ?cs"
  proof -
    have "?n * ?i < ?n * length ?cs" using ofs e amt o(3) by linarith
    then show ?thesis by simp
  qed
  have start: "(if iOffset (readpoint p) \<noteq> iOfst \<or> iOfst = 0 then Some (seek_chunk ?n iOfst 0 0 ?cs)
      else pChunk (readpoint p)) = Some ?i"
    using o(1,6) i by (auto simp: seek_chunk_eq)
  let ?q = "if iOfst mod ?n + iAmt < ?n * length (drop ?i ?cs) then Some (?i + (iOfst mod ?n + iAmt) div ?n) else None"
  have fit: "iOfst mod ?n + iAmt \<le> ?n * length (drop ?i ?cs)"
  proof -
    have "?n * length (drop ?i ?cs) = ?n * length ?cs - ?n * ?i" by (simp add: diff_mult_distrib2)
    then show ?thesis using ofs e o(3) by linarith
  qed
  have "read_loop ?n ?i (drop ?i ?cs) (iOfst mod ?n) iAmt = (subbytes (concat (drop ?i ?cs)) (iOfst mod ?n) iAmt, ?q)"
    by (rule read_loop_eq) (use o(1,2) i fit in \<open>auto dest: in_set_dropD\<close>)
  moreover have "subbytes (concat (drop ?i ?cs)) (iOfst mod ?n) iAmt = subbytes (journal_bytes p) iOfst iAmt"
    using concat_drop_chunks [OF o(2), of ?i] e ofs
    by (simp add: subbytes_def journal_bytes_def drop_take min_def add.commute)
  ultimately have r: "memjrnlRead p iAmt iOfst = Some (SQLITE_OK, subbytes (journal_bytes p) iOfst iAmt,
      p\<lparr>readpoint := \<lparr>iOffset = (if ?q = None then 0 else iOfst + iAmt), pChunk = ?q\<rparr>\<rparr>)"
    unfolding memjrnlRead_def Let_def start using e i by simp
  have "?i + (iOfst mod ?n + iAmt) div ?n = (iOfst + iAmt) div ?n"
  proof -
    have "iOfst + iAmt = (iOfst mod ?n + iAmt) + ?n * ?i" using ofs by linarith
    then show ?thesis using o(1) by (metis add.commute div_mult_self2 less_numeral_extra(3))
  qed
  moreover have "iOfst mod ?n + iAmt < ?n * length (drop ?i ?cs) \<Longrightarrow> (iOfst + iAmt) div ?n < length ?cs"
  proof -
    assume "iOfst mod ?n + iAmt < ?n * length (drop ?i ?cs)"
    then have "iOfst + iAmt < ?n * length ?cs" using ofs by (simp only: length_drop diff_mult_distrib2)
    then show ?thesis using o(1) by (simp add: div_less_iff_less_mult mult.commute)
  qed
  ultimately have "journal_ok (p\<lparr>readpoint := \<lparr>iOffset = (if ?q = None then 0 else iOfst + iAmt), pChunk = ?q\<rparr>\<rparr>)"
    using o by (simp add: journal_ok_def Let_def)
  then show ?thesis using r by (simp add: journal_bytes_def)
qed


text \<open>Truncating.\<close>

lemma trunc_chunk_eq:
  "0 < n \<Longrightarrow> m < sz \<Longrightarrow> trunc_chunk n sz (n + m) i cs = i + min (length cs) ((sz - 1 - m) div n)"
proof (induction cs arbitrary: m i)
  case (Cons c cs)
  show ?case
  proof (cases "n + m < sz")
    case True
    have e: "sz - 1 - m - n = sz - 1 - (n + m)" by simp
    have "(sz - 1 - m) div n = Suc ((sz - 1 - (n + m)) div n)"
      using Cons.prems True le_div_geq [of n "sz - 1 - m"] unfolding e by simp
    then show ?thesis using Cons.IH [of "n + m" "Suc i"] Cons.prems True by (simp add: add.commute)
  next
    case False
    then show ?thesis using Cons.prems by simp
  qed
qed simp

lemma concat_take_chunks:
  "\<forall>c\<in>set cs. length c = n \<Longrightarrow> concat (take i cs) = take (n * i) (concat cs)"
proof (induction cs arbitrary: i)
  case (Cons c cs)
  then show ?case by (cases i) auto
qed simp

lemma memjrnlTruncate_eq:
  assumes ok: "journal_ok p"
  shows "\<exists>p'. memjrnlTruncate p sz = (SQLITE_OK, p') \<and> journal_ok p' \<and>
    journal_bytes p' = take sz (journal_bytes p) \<and> nSpill p' = nSpill p \<and> nChunkSize p' = nChunkSize p"
proof -
  note o = journal_okD [OF ok]
  let ?n = "nChunkSize p" and ?cs = "chunks p" and ?e = "iOffset (endpoint p)"
  consider "?e \<le> sz" | "sz < ?e" "sz = 0" | "sz < ?e" "0 < sz" by linarith
  then show ?thesis
  proof cases
    case 1
    then show ?thesis using ok length_journal_bytes [OF ok] by (simp add: memjrnlTruncate_def)
  next
    case 2
    then show ?thesis
      using o(1) by (simp add: memjrnlTruncate_def memjrnlFreeChunks_def journal_ok_def journal_bytes_def null_point_def)
  next
    case 3
    define i where "i = (sz - 1) div ?n"
    have "?n * i \<le> sz - 1" "sz - 1 < ?n * Suc i"
      using o(1) unfolding i_def by (simp_all add: dividend_less_times_div mult.commute)
    then have b: "?n * i < sz" "sz \<le> ?n * Suc i" using 3 by linarith+
    have i: "i < length ?cs"
    proof -
      have "?n * i < ?n * length ?cs" using b(1) 3 o(3) by linarith
      then show ?thesis by simp
    qed
    have t: "trunc_chunk ?n sz ?n 0 ?cs = i"
      using trunc_chunk_eq [of ?n 0 sz 0 ?cs] o(1) 3 i by (simp add: i_def)
    have l: "length (take (Suc i) ?cs) = Suc i" "take (Suc i) ?cs \<noteq> []" using i by auto
    let ?p = "p\<lparr>chunks := take (Suc i) ?cs, endpoint := \<lparr>iOffset = sz, pChunk = Some i\<rparr>, readpoint := null_point\<rparr>"
    have "memjrnlTruncate p sz = (SQLITE_OK, ?p)"
      using 3 t i by (simp add: memjrnlTruncate_def memjrnlFreeChunks_def Let_def)
    moreover have "journal_ok ?p"
      using o(1,2) b l by (auto simp: journal_ok_def Let_def null_point_def simp del: length_take dest: in_set_takeD)
    moreover have "journal_bytes ?p = take sz (journal_bytes p)"
      using concat_take_chunks [OF o(2), of "Suc i"] b 3 by (simp add: journal_bytes_def min_def)
    ultimately show ?thesis by simp
  qed
qed

text \<open>Appending.\<close>

lemma append_new_chunk:
  assumes ok: "journal_ok p" and full: "iOffset (endpoint p) mod nChunkSize p = 0"
    and w: "w \<noteq> []" "length w \<le> nChunkSize p"
    and p': "p' = p\<lparr>chunks := chunks p @ [blit (replicate (nChunkSize p) junk) 0 w],
      endpoint := \<lparr>iOffset = iOffset (endpoint p) + length w, pChunk = Some (length (chunks p))\<rparr>\<rparr>"
  shows "journal_ok p' \<and> journal_bytes p' = journal_bytes p @ w"
proof -
  note o = journal_okD [OF ok]
  let ?n = "nChunkSize p" and ?e = "iOffset (endpoint p)"
  obtain q where q: "?e = ?n * q" using full by (metis dvd_def dvd_eq_mod_eq_0)
  have "q = length (chunks p)"
  proof -
    have "?n * q \<le> ?n * length (chunks p)" "?n * length (chunks p) < ?n * Suc q" using o(3,4) q by auto
    then show ?thesis using o(1) by (simp add: mult_less_cancel1 del: mult_Suc_right)
  qed
  then have e: "?e = ?n * length (chunks p)" using q by simp
  have "journal_ok p'"
    using o e w by (auto simp: journal_ok_def Let_def p' Suc_lessD)
  moreover have "take (length w) (blit (replicate ?n junk) 0 w) = w" using w by (simp add: blit_def)
  ultimately show ?thesis
    using e length_concat_chunks [OF o(2)] by (simp add: journal_bytes_def p')
qed

lemma append_last_chunk:
  assumes ok: "journal_ok p" and part: "iOffset (endpoint p) mod nChunkSize p \<noteq> 0"
    and w: "iOffset (endpoint p) mod nChunkSize p + length w \<le> nChunkSize p"
    and p': "p' = p\<lparr>chunks := (chunks p)[length (chunks p) - 1 :=
        blit (chunks p ! (length (chunks p) - 1)) (iOffset (endpoint p) mod nChunkSize p) w],
      endpoint := (endpoint p)\<lparr>iOffset := iOffset (endpoint p) + length w\<rparr>\<rparr>"
  shows "journal_ok p' \<and> journal_bytes p' = journal_bytes p @ w"
proof -
  note o = journal_okD [OF ok]
  let ?n = "nChunkSize p" and ?e = "iOffset (endpoint p)" and ?off = "iOffset (endpoint p) mod nChunkSize p"
  have ne: "chunks p \<noteq> []" using part o(3) by auto
  then obtain cs c where cs: "chunks p = cs @ [c]" by (metis append_butlast_last_id)
  have c: "length c = ?n" "\<forall>c\<in>set cs. length c = ?n" using o(2) cs by auto
  have "?e div ?n = length cs"
  proof -
    have "?e \<noteq> ?n * Suc (length cs)" using part by (metis mod_mult_self1_is_0)
    then have "?n * length cs \<le> ?e" "?e < ?n * Suc (length cs)" using o(3,4) cs by auto
    then show ?thesis by (simp add: div_nat_eqI mult.commute)
  qed
  then have e: "?e = ?n * length cs + ?off" by (metis mult_div_mod_eq)
  have up: "chunks p' = cs @ [blit c ?off w]" "iOffset (endpoint p') = ?n * length cs + ?off + length w"
    using cs e by (simp_all add: p')
  have "journal_ok p'"
    using o cs c e w part up by (auto simp: journal_ok_def Let_def p')
  moreover have "journal_bytes p' = concat cs @ take (?off + length w) (blit c ?off w)"
    unfolding journal_bytes_def up using length_concat_chunks [OF c(2)] by simp
  moreover have "take (?off + length w) (blit c ?off w) = take ?off c @ w"
    using w c(1) mod_less_divisor [OF o(1), of ?e] by (simp add: blit_def)
  moreover have "journal_bytes p = concat cs @ take ?off c"
    unfolding journal_bytes_def using length_concat_chunks [OF c(2)] cs by (subst e) simp
  ultimately show ?thesis by simp
qed


lemma file_point_both: "(e :: file_point)\<lparr>pChunk := a, iOffset := b\<rparr> = \<lparr>iOffset = b, pChunk = a\<rparr>"
  by (cases e) simp

lemma write_loop_step:
  assumes ok: "journal_ok p" and z: "z \<noteq> []"
  obtains al1 where "write_loop junk p z al = (SQLITE_IOERR_NOMEM, p, al1)"
  | m q al1 where "0 < m" "m \<le> length z" "write_loop junk p z al = write_loop junk q (drop m z) al1"
    "journal_ok q" "journal_bytes q = journal_bytes p @ take m z" "nSpill q = nSpill p" "nChunkSize q = nChunkSize p"
proof -
  note o = journal_okD [OF ok]
  let ?n = "nChunkSize p" and ?off = "iOffset (endpoint p) mod nChunkSize p"
  let ?m = "min (length z) (?n - ?off)"
  have m: "0 < ?m" "?off + ?m \<le> ?n" "?m \<le> length z" using z mod_less_divisor [OF o(1), of "iOffset (endpoint p)"] by auto
  show thesis
  proof (cases "?off = 0")
    case True
    obtain b al1 where al: "next_alloc al = (b, al1)" by fastforce
    let ?q = "p\<lparr>chunks := chunks p @ [blit (replicate ?n junk) 0 (take ?m z)],
      endpoint := \<lparr>iOffset = iOffset (endpoint p) + length (take ?m z), pChunk = Some (length (chunks p))\<rparr>\<rparr>"
    have q: "journal_ok ?q \<and> journal_bytes ?q = journal_bytes p @ take ?m z"
      by (rule append_new_chunk [OF ok True _ _ refl]) (use m z in auto)
    have "write_loop junk p z al = (if b then write_loop junk ?q (drop ?m z) al1 else (SQLITE_IOERR_NOMEM, p, al1))"
      using z o(1) True al by (subst write_loop.simps) (simp add: Let_def file_point_both)
    then show thesis using that(1) that(2) [OF m(1,3), of ?q al1] q by (cases b) auto
  next
    case False
    let ?q = "p\<lparr>chunks := (chunks p)[length (chunks p) - 1 := blit (chunks p ! (length (chunks p) - 1)) ?off (take ?m z)],
      endpoint := (endpoint p)\<lparr>iOffset := iOffset (endpoint p) + length (take ?m z)\<rparr>\<rparr>"
    have q: "journal_ok ?q \<and> journal_bytes ?q = journal_bytes p @ take ?m z"
      by (rule append_last_chunk [OF ok False _ refl]) (use m in auto)
    have ne: "chunks p \<noteq> []" using False o(3) by auto
    have "write_loop junk p z al = write_loop junk ?q (drop ?m z) al"
      using z o(1,5) ne False by (subst write_loop.simps) (simp add: Let_def)
    then show thesis using that(2) [OF m(1,3), of ?q al] q by auto
  qed
qed

lemma write_loop_result:
  "journal_ok p \<Longrightarrow> write_loop junk p z al = (r, p', al') \<Longrightarrow>
     journal_ok p' \<and> nSpill p' = nSpill p \<and> nChunkSize p' = nChunkSize p \<and>
     (\<exists>k\<le>length z. journal_bytes p' = journal_bytes p @ take k z \<and> (if r = SQLITE_OK then k = length z else r = SQLITE_IOERR_NOMEM))"
proof (induction "length z" arbitrary: p z al rule: less_induct)
  case less
  show ?case
  proof (cases "z = []")
    case True
    then show ?thesis using less(2,3) by (auto simp: write_loop.simps [of junk p])
  next
    case False
    from less(2) this show ?thesis
    proof (rule write_loop_step [of p z junk al])
      fix al1 assume "write_loop junk p z al = (SQLITE_IOERR_NOMEM, p, al1)"
      then show ?thesis using less(2,3) by (auto intro: exI [of _ 0])
    next
      fix m q al1
      assume m: "0 < m" "m \<le> length z" and w: "write_loop junk p z al = write_loop junk q (drop m z) al1"
        and q: "journal_ok q" "journal_bytes q = journal_bytes p @ take m z" "nSpill q = nSpill p" "nChunkSize q = nChunkSize p"
      have "length (drop m z) < length z" using m by simp
      from less(1) [OF this q(1)] w less(3) obtain k where k: "journal_ok p'" "nSpill p' = nSpill q" "nChunkSize p' = nChunkSize q" "k \<le> length (drop m z)"
        "journal_bytes p' = journal_bytes q @ take k (drop m z)" "if r = SQLITE_OK then k = length (drop m z) else r = SQLITE_IOERR_NOMEM"
        by auto
      show ?thesis
        using k q m by (intro conjI exI [of _ "m + k"]) (auto simp: take_add)
    qed
  qed
qed

text \<open>A write in memory, after the journal was cut back to the offset of the write.\<close>

lemma memory_write:
  assumes ok: "journal_ok p" and off: "off \<le> length (journal_bytes p)" "off = 0 \<longrightarrow> journal_bytes p = []"
    and mem: "\<not> (nSpill p > 0 \<and> int (length b + off) > nSpill p)"
    and w: "memjrnlWrite osOpen osWrite junk p b off al = (r, h, al')"
  shows "\<exists>p' k. h = InMemory p' \<and> journal_ok p' \<and> nSpill p' = nSpill p \<and> nChunkSize p' = nChunkSize p \<and> k \<le> length b \<and>
    journal_bytes p' = take off (journal_bytes p) @ take k b \<and> (if r = SQLITE_OK then k = length b else r = SQLITE_IOERR_NOMEM)"
proof -
  let ?p = "if off > 0 \<and> off \<noteq> iOffset (endpoint p) then snd (memjrnlTruncate p off) else p"
  have len: "length (journal_bytes p) = iOffset (endpoint p)" by (rule length_journal_bytes [OF ok])
  have p: "journal_ok ?p" "journal_bytes ?p = take off (journal_bytes p)" "nSpill ?p = nSpill p" "nChunkSize ?p = nChunkSize p"
    using memjrnlTruncate_eq [OF ok, of off] ok off len by auto
  have "chunks ?p = []" if "off = 0"
    using that off len journal_okD(1,4) [OF ok] by auto
  then have "memjrnlWrite osOpen osWrite junk p b off al = (case write_loop junk ?p b al of (rc, p, al) \<Rightarrow> (rc, InMemory p, al))"
    using mem unfolding memjrnlWrite_def Let_def by auto
  then show ?thesis
    using w write_loop_result [OF p(1), of junk b al] p(2-4) by (auto split: prod.splits)
qed

text \<open>Overwriting the start of the journal, as for its header.\<close>

lemma header_write:
  assumes ok: "journal_ok p" and b: "length b \<le> length (journal_bytes p)" "length b < nChunkSize p" "journal_bytes p \<noteq> []"
    and mem: "\<not> (nSpill p > 0 \<and> int (length b) > nSpill p)"
  shows "\<exists>p'. memjrnlWrite osOpen osWrite junk p b 0 al = (SQLITE_OK, InMemory p', al) \<and> journal_ok p' \<and>
    journal_bytes p' = blit (journal_bytes p) 0 b \<and> nSpill p' = nSpill p"
proof -
  note o = journal_okD [OF ok]
  obtain c cs where cs: "chunks p = c # cs" using b(3) by (cases "chunks p") (auto simp: journal_bytes_def)
  have c: "length c = nChunkSize p" using o(2) cs by simp
  let ?p = "p\<lparr>chunks := (chunks p)[0 := blit (chunks p ! 0) 0 b]\<rparr>"
  have w: "memjrnlWrite osOpen osWrite junk p b 0 al = (SQLITE_OK, InMemory ?p, al)"
    using mem cs by (auto simp: memjrnlWrite_def)
  have "blit c 0 b @ concat cs = b @ drop (length b) (c @ concat cs)" using c b(2) by (simp add: blit_def)
  then have "journal_bytes ?p = take (iOffset (endpoint p)) (b @ drop (length b) (concat (chunks p)))"
    using cs by (simp add: journal_bytes_def)
  also have "\<dots> = b @ drop (length b) (journal_bytes p)"
    using b(1) length_journal_bytes [OF ok] by (simp add: journal_bytes_def drop_take)
  finally have "journal_bytes ?p = b @ drop (length b) (journal_bytes p)" .
  moreover have "journal_ok ?p" using o cs c unfolding journal_ok_def Let_def by auto
  ultimately show ?thesis using w b(1) by (auto simp: blit_def)
qed


section \<open>Spilling to a file\<close>

fun handle_bytes :: "('f \<Rightarrow> bytes) \<Rightarrow> 'f journal \<Rightarrow> bytes" where
  "handle_bytes fb (InMemory p) = journal_bytes p"
| "handle_bytes fb (Real f) = fb f"

fun handle_ok :: "('f \<Rightarrow> bool) \<Rightarrow> 'f journal \<Rightarrow> bool" where
  "handle_ok fok (InMemory p) \<longleftrightarrow> journal_ok p \<and> nChunkSize p < 131072"
| "handle_ok fok (Real f) \<longleftrightarrow> fok f"

text \<open>Appending a list of records one after the other, as the pager writes its journal.\<close>

fun append_records ::
    "('h \<Rightarrow> bytes \<Rightarrow> nat \<Rightarrow> heap_answers \<Rightarrow> rc \<times> 'h \<times> heap_answers) \<Rightarrow> 'h \<Rightarrow> nat \<Rightarrow> bytes list \<Rightarrow> heap_answers \<Rightarrow> 'h option" where
  "append_records wr h iOff [] al = Some h"
| "append_records wr h iOff (b # bs) al =
     (case wr h b iOff al of (rc, h, al) \<Rightarrow>
        if rc = SQLITE_OK then append_records wr h (iOff + length b) bs al else None)"

context vfs_file
begin

lemma flush_loop_bytes:
  assumes "inv f" "length (fbytes f) = iOff" "iOff < nEnd \<or> cs = []" "\<forall>c\<in>set cs. length c = n" "n < 131072"
    "nEnd \<le> iOff + n * length cs" "iOff + n * length cs < nEnd + n" "flush_loop fwrite nEnd n cs iOff f = (SQLITE_OK, f')"
  shows "inv f' \<and> fbytes f' = fbytes f @ take (nEnd - iOff) (concat cs)"
  using assms
proof (induction cs arbitrary: iOff f)
  case (Cons c cs)
  let ?n = "if iOff + n > nEnd then nEnd - iOff else n"
  obtain rc f1 where w: "fwrite f (take ?n c) iOff = (rc, f1)" by fastforce
  have c: "length c = n" using Cons.prems(4) by simp
  have rc: "rc = SQLITE_OK" and rest: "flush_loop fwrite nEnd ?n cs (iOff + ?n) f1 = (SQLITE_OK, f')"
    using Cons.prems(8) w by (auto simp: Let_def split: if_splits)
  have pos: "0 < n" using Cons.prems(7) by (cases "n = 0") (use Cons.prems(6) in auto)
  have b: "take ?n c \<noteq> []" "length (take ?n c) < 131072" "length (take ?n c) = ?n" using Cons.prems(3,5) c pos by auto
  have f1: "inv f1 \<and> fbytes f1 = fbytes f @ take ?n c"
    using append_ok [OF Cons.prems(1) b(1,2) Cons.prems(2) [symmetric]] w rc by simp
  show ?case
  proof (cases "cs = []")
    case True
    then have "nEnd \<le> iOff + n" using Cons.prems(6) by simp
    then show ?thesis using True rest f1 c by (auto split: if_splits)
  next
    case False
    then have "n \<le> n * length cs" by (cases cs) auto
    moreover have "iOff + (n + n * length cs) < nEnd + n" using Cons.prems(7) by simp
    ultimately have full: "iOff + n < nEnd" by linarith
    have "inv f' \<and> fbytes f' = fbytes f1 @ take (nEnd - (iOff + n)) (concat cs)"
    proof (rule Cons.IH)
      show "length (fbytes f1) = iOff + n" using f1 Cons.prems(2) full c by simp
      show "flush_loop fwrite nEnd n cs (iOff + n) f1 = (SQLITE_OK, f')" using rest full by simp
    qed (use f1 full Cons.prems in \<open>auto simp: algebra_simps\<close>)
    then show ?thesis using f1 full c by (simp add: take_append [symmetric])
  qed
qed simp

text \<open>The file a journal is moved to holds the bytes of the journal; on an error nothing changes.\<close>

lemma memjrnlCreateFile_bytes:
  assumes ok: "handle_ok inv (InMemory p)" and f: "inv f" "fbytes f = []"
    and c: "memjrnlCreateFile (ro, f) fwrite p = (r, h)"
  shows "if r = SQLITE_OK then \<exists>f'. h = Real f' \<and> inv f' \<and> fbytes f' = journal_bytes p else h = InMemory p"
proof (cases "ro = SQLITE_OK")
  case True
  obtain rf f' where l: "flush_loop fwrite (iOffset (endpoint p)) (nChunkSize p) (chunks p) 0 f = (rf, f')" by fastforce
  have jo: "journal_ok p" "nChunkSize p < 131072" using ok by auto
  note o = journal_okD [OF jo(1)]
  show ?thesis
  proof (cases "rf = SQLITE_OK")
    case okf: True
    have "0 < iOffset (endpoint p) \<or> chunks p = []" using o(4) by (cases "chunks p") auto
    then have "inv f' \<and> fbytes f' = fbytes f @ take (iOffset (endpoint p) - 0) (concat (chunks p))"
      using o f jo(2) l okf by (intro flush_loop_bytes [of f 0 _ "chunks p" "nChunkSize p"]) auto
    then show ?thesis using c True l okf f by (auto simp: memjrnlCreateFile_def Let_def journal_bytes_def)
  next
    case False
    then show ?thesis using c True l by (simp add: memjrnlCreateFile_def Let_def)
  qed
next
  case False
  then show ?thesis using c by (simp add: memjrnlCreateFile_def Let_def)
qed

lemma journal_append:
  assumes ok: "handle_ok inv h" and f: "inv f" "fbytes f = []" and b: "b \<noteq> []" "length b < 131072"
    and w: "sqlite3OsWrite (ro, f) fwrite junk h b (length (handle_bytes fbytes h)) al = (SQLITE_OK, h', al')"
  shows "handle_ok inv h' \<and> handle_bytes fbytes h' = handle_bytes fbytes h @ b"
proof (cases h)
  case (Real g)
  obtain rc g' where g': "fwrite g b (length (fbytes g)) = (rc, g')" by fastforce
  then have "rc = SQLITE_OK" "h' = Real g'" using w Real by auto
  moreover have "inv g" using ok Real by simp
  ultimately have "inv g' \<and> fbytes g' = fbytes g @ b" using append_ok [OF _ b refl, of g g'] g' by simp
  then show ?thesis using \<open>h' = Real g'\<close> Real by simp
next
  case (InMemory p)
  have jo: "journal_ok p" "nChunkSize p < 131072" using ok InMemory by auto
  let ?off = "length (journal_bytes p)"
  show ?thesis
  proof (cases "nSpill p > 0 \<and> int (length b + ?off) > nSpill p")
    case False
    have "memjrnlWrite (ro, f) fwrite junk p b ?off al = (SQLITE_OK, h', al')" using w InMemory by simp
    from memory_write [OF jo(1) _ _ False this] obtain p' k where "h' = InMemory p'" "journal_ok p'" "nChunkSize p' = nChunkSize p"
      "journal_bytes p' = take ?off (journal_bytes p) @ take k b" "k = length b" by auto
    then show ?thesis using InMemory jo(2) by simp
  next
    case True
    obtain rc h1 where c: "memjrnlCreateFile (ro, f) fwrite p = (rc, h1)" by fastforce
    note cf = memjrnlCreateFile_bytes [OF _ f c]
    show ?thesis
    proof (cases h1)
      case (Real g)
      then have g: "inv g" "fbytes g = journal_bytes p" using cf jo by (auto split: if_splits)
      obtain rw g' where w': "fwrite g b ?off = (rw, g')" by fastforce
      have "(rw, Real g', al) = (SQLITE_OK, h', al')"
        using w w' \<open>h = InMemory p\<close> True c Real by (simp add: memjrnlWrite_def)
      then have "h' = Real g'" "rw = SQLITE_OK" by simp_all
      moreover from this have "inv g' \<and> fbytes g' = fbytes g @ b" using append_ok [OF g(1) b, of ?off g'] w' g(2) by simp
      ultimately show ?thesis using g(2) \<open>h = InMemory p\<close> by simp
    next
      case (InMemory q)
      then have "rc = SQLITE_OK" using w True c \<open>h = InMemory p\<close> by (auto simp: memjrnlWrite_def)
      then show ?thesis using cf jo InMemory by simp
    qed
  qed
qed

lemma append_records_bytes:
  assumes "handle_ok inv h" "inv f" "fbytes f = []" "\<forall>b\<in>set bs. b \<noteq> [] \<and> length b < 131072"
    "append_records (sqlite3OsWrite (ro, f) fwrite junk) h (length (handle_bytes fbytes h)) bs al = Some h'"
  shows "handle_ok inv h' \<and> handle_bytes fbytes h' = handle_bytes fbytes h @ concat bs"
  using assms
proof (induction bs arbitrary: h al)
  case (Cons b bs)
  obtain rc h1 al1 where w: "sqlite3OsWrite (ro, f) fwrite junk h b (length (handle_bytes fbytes h)) al = (rc, h1, al1)"
    by (metis prod_cases3)
  have rc: "rc = SQLITE_OK" using Cons.prems(5) w by (auto split: if_splits)
  have "handle_ok inv h1 \<and> handle_bytes fbytes h1 = handle_bytes fbytes h @ b"
    using journal_append [OF Cons.prems(1-3) _ _ w [unfolded rc]] Cons.prems(4) by simp
  then show ?case using Cons.IH [of h1 al1] Cons.prems w rc by simp
qed simp

text \<open>A write that fails keeps the bytes before it.\<close>

lemma journal_write_keeps:
  assumes ok: "handle_ok inv h" and f: "inv f" "fbytes f = []" and b: "b \<noteq> []" "length b < 131072"
    and w: "sqlite3OsWrite (ro, f) fwrite junk h b (length (handle_bytes fbytes h)) al = (r, h', al')"
  shows "handle_ok inv h' \<and> take (length (handle_bytes fbytes h)) (handle_bytes fbytes h') = handle_bytes fbytes h"
proof (cases h)
  case (Real g)
  then have g: "inv g" using ok by simp
  obtain rc g' where g': "fwrite g b (length (fbytes g)) = (rc, g')" by fastforce
  then have "h' = Real g'" using w Real by auto
  then show ?thesis using Real write_inv [OF g b g'] write_keeps [OF g b _ g'] by simp
next
  case (InMemory p)
  have jo: "journal_ok p" "nChunkSize p < 131072" using ok InMemory by auto
  let ?off = "length (journal_bytes p)"
  show ?thesis
  proof (cases "nSpill p > 0 \<and> int (length b + ?off) > nSpill p")
    case False
    have "memjrnlWrite (ro, f) fwrite junk p b ?off al = (r, h', al')" using w InMemory by simp
    from memory_write [OF jo(1) _ _ False this] obtain p' k where "h' = InMemory p'" "journal_ok p'" "nChunkSize p' = nChunkSize p"
      "journal_bytes p' = take ?off (journal_bytes p) @ take k b" by auto
    then show ?thesis using InMemory jo(2) by simp
  next
    case True
    obtain rc h1 where c: "memjrnlCreateFile (ro, f) fwrite p = (rc, h1)" by fastforce
    note cf = memjrnlCreateFile_bytes [OF _ f c]
    show ?thesis
    proof (cases h1)
      case (Real g)
      then have g: "inv g" "fbytes g = journal_bytes p" using cf jo by (auto split: if_splits)
      obtain rw g' where w': "fwrite g b ?off = (rw, g')" by fastforce
      then have "h' = Real g'" using w \<open>h = InMemory p\<close> True c Real by (simp add: memjrnlWrite_def)
      then show ?thesis using \<open>h = InMemory p\<close> g write_inv [OF g(1) b w'] write_keeps [OF g(1) b _ w'] by simp
    next
      case (InMemory q)
      then have "h' = InMemory p" using w True c \<open>h = InMemory p\<close> cf jo by (auto simp: memjrnlWrite_def split: if_splits)
      then show ?thesis using ok \<open>h = InMemory p\<close> by simp
    qed
  qed
qed

lemma journal_read:
  assumes "handle_ok inv h" "0 < n" "off + n \<le> length (handle_bytes fbytes h)"
  shows "\<exists>r b h'. sqlite3OsRead fread h n off = Some (r, b, h') \<and>
    (r = SQLITE_OK \<longrightarrow> b = subbytes (handle_bytes fbytes h) off n) \<and> (sqlite3JournalIsInMemory h \<longrightarrow> r = SQLITE_OK)"
proof (cases h)
  case (InMemory p)
  then show ?thesis using memjrnlRead_eq [of p n off] assms by (auto simp: add.commute)
next
  case (Real g)
  obtain r b g' where "fread g n off = (r, b, g')" by (metis prod_cases3)
  then show ?thesis using Real read_ok [of g n off b g'] assms by auto
qed

text \<open>Reading a record of a journal whose bytes begin with the records.\<close>

lemma journal_read_record:
  assumes "handle_ok inv h" "take (length (concat bs)) (handle_bytes fbytes h) = concat bs" "\<forall>b\<in>set bs. b \<noteq> []" "k < length bs"
  shows "\<exists>r b h'. sqlite3OsRead fread h (length (bs ! k)) (length (concat (take k bs))) = Some (r, b, h') \<and>
    (r = SQLITE_OK \<longrightarrow> b = bs ! k) \<and> (sqlite3JournalIsInMemory h \<longrightarrow> r = SQLITE_OK)"
proof -
  have split: "concat bs = concat (take k bs) @ bs ! k @ concat (drop (Suc k) bs)"
    by (subst id_take_nth_drop [OF assms(4)]) simp
  then have le: "length (concat (take k bs)) + length (bs ! k) \<le> length (concat bs)" by (metis length_append le_add1 add.assoc)
  have total: "length (concat bs) \<le> length (handle_bytes fbytes h)" using assms(2) by (metis length_take min.cobounded1)
  have "subbytes (handle_bytes fbytes h) (length (concat (take k bs))) (length (bs ! k)) =
      subbytes (take (length (concat bs)) (handle_bytes fbytes h)) (length (concat (take k bs))) (length (bs ! k))"
    using le by (simp add: subbytes_def drop_take)
  also have "\<dots> = bs ! k" unfolding assms(2) by (subst split) (simp add: subbytes_append_exact)
  finally have "subbytes (handle_bytes fbytes h) (length (concat (take k bs))) (length (bs ! k)) = bs ! k" .
  moreover have "0 < length (bs ! k)" using assms(3,4) by simp
  ultimately show ?thesis
    using journal_read [OF assms(1), of "length (bs ! k)" "length (concat (take k bs))"] le total by simp
qed

lemma journal_record:
  assumes "handle_ok inv h" "handle_bytes fbytes h = []" "inv f" "fbytes f = []" "\<forall>b\<in>set bs. b \<noteq> [] \<and> length b < 131072"
    "append_records (sqlite3OsWrite (ro, f) fwrite junk) h 0 bs al = Some h'" "k < length bs"
  shows "\<exists>r b h''. sqlite3OsRead fread h' (length (bs ! k)) (length (concat (take k bs))) = Some (r, b, h'') \<and>
    (r = SQLITE_OK \<longrightarrow> b = bs ! k) \<and> (sqlite3JournalIsInMemory h' \<longrightarrow> r = SQLITE_OK)"
proof -
  have h': "handle_ok inv h' \<and> handle_bytes fbytes h' = concat bs"
    using append_records_bytes [OF assms(1,3,4,5), of ro junk al h'] assms(2,6) by simp
  then show ?thesis using assms(5,7) by (intro journal_read_record) auto
qed

end

section \<open>Properties\<close>

lemma journal_open_ok:
  assumes "sqlite3JournalOpen osOpen n = (SQLITE_OK, h)" "n < 131072" "n \<noteq> 0"
  shows "handle_ok fok h \<and> handle_bytes fb h = []"
  using assms by (auto simp: sqlite3JournalOpen_def journal_ok_def journal_bytes_def null_point_def Let_def nat_less_iff)

text \<open>
  C10: A rollback journal gives every record back: after a journal is opened with any spill limit below
  128 KiB and records are appended, in memory or, from the limit on, on a Unix file, reading the
  place of the k-th record returns that record; the read of a journal in memory always succeeds.
\<close>

theorem journal_roundtrip:
  assumes "sqlite3JournalOpen (ro, f) nSpill' = (SQLITE_OK, h)" "nSpill' < 131072" "nSpill' \<noteq> 0"
    and "unix_inv f" "unix_bytes f = []" "\<forall>b\<in>set bs. b \<noteq> [] \<and> length b < 131072"
    and "append_records (sqlite3OsWrite (ro, f) unix_write junk) h 0 bs al = Some h'" "k < length bs"
  shows "\<exists>r b h''. sqlite3OsRead unix_read h' (length (bs ! k)) (length (concat (take k bs))) = Some (r, b, h'') \<and>
    (r = SQLITE_OK \<longrightarrow> b = bs ! k) \<and> (sqlite3JournalIsInMemory h' \<longrightarrow> r = SQLITE_OK)"
  using journal_open_ok [OF assms(1-3), of unix_inv unix_bytes] unix.journal_record [OF _ _ assms(4-8)] by blast

definition demo_file :: "unix_file \<times> sys_answer list" where
  "demo_file = (\<lparr>contents = [], mmapSize = 0, szChunk = 0, lastErrno = None\<rparr>, [Transfer 5])"

definition demo_records :: "bytes list" where
  "demo_records = [[1, 2, 3], [4, 5, 6, 7], [8, 9]]"

theorem journal_roundtrip_witness:
  "\<exists>h h' r b h''. sqlite3JournalOpen (SQLITE_OK, demo_file) 8 = (SQLITE_OK, h) \<and>
     append_records (sqlite3OsWrite (SQLITE_OK, demo_file) unix_write 0) h 0 demo_records [True] = Some h' \<and>
     \<not> sqlite3JournalIsInMemory h' \<and> sqlite3OsRead unix_read h' 4 3 = Some (r, b, h'') \<and> (r = SQLITE_OK \<longrightarrow> b = [4, 5, 6, 7])"
proof -
  obtain h where h: "sqlite3JournalOpen (SQLITE_OK, demo_file) 8 = (SQLITE_OK, h)"
    by (simp add: sqlite3JournalOpen_def)
  then obtain h' where h': "append_records (sqlite3OsWrite (SQLITE_OK, demo_file) unix_write 0) h 0 demo_records [True] = Some h'"
    "\<not> sqlite3JournalIsInMemory h'"
    by (auto simp: sqlite3JournalOpen_def demo_records_def demo_file_def memjrnlWrite_def write_loop.simps Let_def null_point_def
      memjrnlCreateFile_def unix_write_def unixWrite_def unixWrite_loop.simps seekAndWrite_def file_write_def blit_def)
  have e: "demo_records ! 1 = [4, 5, 6, 7]" "length (demo_records ! 1) = 4" "length (concat (take 1 demo_records)) = 3"
    by (simp_all add: demo_records_def)
  have "unix_inv demo_file" "unix_bytes demo_file = []" "\<forall>b\<in>set demo_records. b \<noteq> [] \<and> length b < 131072" "1 < length demo_records"
    by (simp_all add: unix_inv_def unix_bytes_def file_ok_def demo_file_def demo_records_def)
  from journal_roundtrip [OF h _ _ this(1-3) h'(1) this(4), unfolded e(2,3), unfolded e(1)] h h' show ?thesis by auto
qed

text \<open>A journal above its limit is a file, and one in memory keeps its limit.\<close>

fun within_limit :: "int \<Rightarrow> nat \<Rightarrow> 'f journal \<Rightarrow> bool" where
  "within_limit n len (InMemory p) \<longleftrightarrow> nSpill p = n"
| "within_limit n len (Real f) \<longleftrightarrow> n > 0 \<and> int len > n"

lemma write_loop_refused:
  "write_loop junk p z al = (r, p', al') \<Longrightarrow> nSpill p' = nSpill p \<and> (r \<noteq> SQLITE_OK \<longrightarrow> False \<in> set al \<or> al' = [])"
proof (induction junk p z al rule: write_loop.induct)
  case (1 junk p z al)
  let ?off = "iOffset (endpoint p) mod nChunkSize p"
  show ?case
  proof (cases "z = [] \<or> nChunkSize p = 0")
    case True
    then show ?thesis using 1(3) by (auto simp: write_loop.simps [of junk p])
  next
    case z: False
    show ?thesis
    proof (cases "?off = 0")
      case True
      obtain b al1 where al: "next_alloc al = (b, al1)" by fastforce
      have tl: "set al1 \<subseteq> set al" using al by (cases al) auto
      show ?thesis
      proof (cases b)
        case True
        from 1(1) [OF z refl refl refl \<open>?off = 0\<close> al [symmetric] _ refl] True 1(3) z \<open>?off = 0\<close> al tl
        show ?thesis by (auto simp: write_loop.simps [of junk p] Let_def)
      next
        case False
        then have "False \<in> set al \<or> al1 = []" using al by (cases al) auto
        then show ?thesis using 1(3) z \<open>?off = 0\<close> al False by (auto simp: write_loop.simps [of junk p] Let_def)
      qed
    next
      case False
      from 1(2) [OF z refl refl refl False] 1(3) z False show ?thesis by (auto simp: write_loop.simps [of junk p] Let_def)
    qed
  qed
qed

lemma memjrnlTruncate_nSpill: "nSpill (snd (memjrnlTruncate p sz)) = nSpill p"
  by (simp add: memjrnlTruncate_def split_def Let_def)

lemma journal_write_result:
  assumes "within_limit n off h" "sqlite3OsWrite (ro, f) fwrite junk h b off al = (r, h', al')" "b \<noteq> []"
  shows "within_limit n (off + length b) h'"
    "r \<noteq> SQLITE_OK \<Longrightarrow> False \<in> set al \<or> al' = [] \<or> n > 0 \<and> int (off + length b) > n \<and> (sqlite3JournalIsInMemory h' \<longrightarrow> h' = h)"
proof -
  have "within_limit n (off + length b) h' \<and>
    (r \<noteq> SQLITE_OK \<longrightarrow> False \<in> set al \<or> al' = [] \<or> n > 0 \<and> int (off + length b) > n \<and> (sqlite3JournalIsInMemory h' \<longrightarrow> h' = h))"
  proof (cases h)
    case (Real g)
    then show ?thesis using assms by (auto split: prod.splits)
  next
    case (InMemory p)
    then have p: "nSpill p = n" and w: "memjrnlWrite (ro, f) fwrite junk p b off al = (r, h', al')" using assms by auto
    show ?thesis
    proof (cases "n > 0 \<and> int (length b + off) > n")
      case True
      obtain rc h1 where c: "memjrnlCreateFile (ro, f) fwrite p = (rc, h1)" by fastforce
      then have h1: "h1 = InMemory p \<or> (\<exists>g. h1 = Real g)" by (auto simp: memjrnlCreateFile_def Let_def split: prod.splits if_splits)
      then show ?thesis
      proof
        assume "h1 = InMemory p"
        then have "h' = h" using w True p c InMemory by (auto simp: memjrnlWrite_def)
        then show ?thesis using True p InMemory by (simp add: add.commute)
      next
        assume "\<exists>g. h1 = Real g"
        then show ?thesis using w True p c by (auto simp: memjrnlWrite_def split: prod.splits)
      qed
    next
      case False
      let ?p = "if off > 0 \<and> off \<noteq> iOffset (endpoint p) then snd (memjrnlTruncate p off) else p"
      obtain rc p1 al1 where l: "write_loop junk ?p b al = (rc, p1, al1)" by (metis prod_cases3)
      have sp: "nSpill ?p = n" using p memjrnlTruncate_nSpill by simp
      note wl = write_loop_refused [OF l]
      have "(r = SQLITE_OK \<and> (\<exists>q. h' = InMemory q \<and> nSpill q = n)) \<or> (r, h', al') = (rc, InMemory p1, al1)"
        using w False p l sp unfolding memjrnlWrite_def Let_def by (auto split: if_splits)
      then show ?thesis using wl sp by auto
    qed
  qed
  then show "within_limit n (off + length b) h'"
    "r \<noteq> SQLITE_OK \<Longrightarrow> False \<in> set al \<or> al' = [] \<or> n > 0 \<and> int (off + length b) > n \<and> (sqlite3JournalIsInMemory h' \<longrightarrow> h' = h)"
    by blast+
qed

lemma append_records_limit:
  "within_limit n off h \<Longrightarrow> \<forall>b\<in>set bs. b \<noteq> [] \<Longrightarrow> append_records (sqlite3OsWrite (ro, f) fwrite junk) h off bs al = Some h' \<Longrightarrow>
     within_limit n (off + length (concat bs)) h'"
proof (induction bs arbitrary: h off al)
  case (Cons b bs)
  obtain rc h1 al1 where w: "sqlite3OsWrite (ro, f) fwrite junk h b off al = (rc, h1, al1)" by (metis prod_cases3)
  then have "append_records (sqlite3OsWrite (ro, f) fwrite junk) h1 (off + length b) bs al1 = Some h'"
    using Cons.prems(3) by (auto split: if_splits)
  with Cons.IH [OF journal_write_result(1) [OF Cons.prems(1) w]] Cons.prems(2) show ?case by (simp add: add.assoc)
qed simp

text \<open>
  C18: A write to a journal loses nothing, whatever happens to it: after some records were appended, the write of
  one more may succeed, run out of memory, fail to open or to fill the file the journal is moved to, or fail on
  that file; in every case each of the earlier records is still read back.  The write fails only if an
  allocation was refused or the record passes the limit, and then a journal that is still in memory is
  unchanged; after a success the new record is read back too.
\<close>

theorem journal_write_failure:
  assumes "sqlite3JournalOpen (ro, f) nSpill' = (SQLITE_OK, h)" "nSpill' < 131072" "nSpill' \<noteq> 0"
    and "unix_inv f" "unix_bytes f = []" "\<forall>b\<in>set (bs @ [new]). b \<noteq> [] \<and> length b < 131072"
    and "append_records (sqlite3OsWrite (ro, f) unix_write junk) h 0 bs al = Some h1"
    and "sqlite3OsWrite (ro, f) unix_write junk h1 new (length (concat bs)) al1 = (r, h2, al2)"
  shows "(\<forall>k < length bs + (if r = SQLITE_OK then 1 else 0).
       \<exists>rr b h3. sqlite3OsRead unix_read h2 (length ((bs @ [new]) ! k)) (length (concat (take k (bs @ [new])))) = Some (rr, b, h3) \<and>
         (rr = SQLITE_OK \<longrightarrow> b = (bs @ [new]) ! k) \<and> (sqlite3JournalIsInMemory h2 \<longrightarrow> rr = SQLITE_OK)) \<and>
    (r \<noteq> SQLITE_OK \<longrightarrow> False \<in> set al1 \<or> al2 = [] \<or>
       nSpill' > 0 \<and> int (length (concat (bs @ [new]))) > nSpill' \<and> (sqlite3JournalIsInMemory h2 \<longrightarrow> h2 = h1))"
proof -
  have open_ok: "handle_ok unix_inv h \<and> handle_bytes unix_bytes h = []" by (rule journal_open_ok [OF assms(1-3)])
  have bs: "\<forall>b\<in>set bs. b \<noteq> [] \<and> length b < 131072" and new: "new \<noteq> []" "length new < 131072" using assms(6) by auto
  have h1: "handle_ok unix_inv h1 \<and> handle_bytes unix_bytes h1 = concat bs"
    using unix.append_records_bytes [OF _ assms(4,5) bs, of h ro junk al h1] open_ok assms(7) by simp
  then have w: "sqlite3OsWrite (ro, f) unix_write junk h1 new (length (handle_bytes unix_bytes h1)) al1 = (r, h2, al2)" using assms(8) by simp
  have h2: "handle_ok unix_inv h2" "take (length (concat bs)) (handle_bytes unix_bytes h2) = concat bs"
    using unix.journal_write_keeps [OF _ assms(4,5) new w] h1 by auto
  have all: "handle_bytes unix_bytes h2 = concat (bs @ [new])" if "r = SQLITE_OK"
    using unix.journal_append [OF _ assms(4,5) new w [unfolded that]] h1 by simp
  have limit: "within_limit nSpill' 0 h" using assms(1,3) by (auto simp: sqlite3JournalOpen_def)
  have "within_limit nSpill' (length (concat bs)) h1"
    using append_records_limit [OF limit _ assms(7)] bs by simp
  note res = journal_write_result(2) [OF this assms(8) new(1)]
  have "\<exists>rr b h3. sqlite3OsRead unix_read h2 (length ((bs @ [new]) ! k)) (length (concat (take k (bs @ [new])))) = Some (rr, b, h3) \<and>
      (rr = SQLITE_OK \<longrightarrow> b = (bs @ [new]) ! k) \<and> (sqlite3JournalIsInMemory h2 \<longrightarrow> rr = SQLITE_OK)"
    if k: "k < length bs + (if r = SQLITE_OK then 1 else 0)" for k
  proof (cases "k < length bs")
    case True
    then show ?thesis using unix.journal_read_record [OF h2 _ True] bs by (simp add: nth_append)
  next
    case False
    then have ok: "r = SQLITE_OK" and "k < length (bs @ [new])" using k by (auto split: if_splits)
    then show ?thesis using all [OF ok] h2(1) assms(6) by (intro unix.journal_read_record) auto
  qed
  then show ?thesis using res by (auto simp: add.commute)
qed

text \<open>A journal with two records whose third does not fit into memory, and whose file cannot be opened.\<close>

theorem journal_write_failure_witness:
  "\<exists>h h1 r h2 al2 rr b h3. sqlite3JournalOpen (SQLITE_CANTOPEN, demo_file) 8 = (SQLITE_OK, h) \<and>
     append_records (sqlite3OsWrite (SQLITE_CANTOPEN, demo_file) unix_write 0) h 0 [[1, 2, 3], [4, 5, 6, 7]] [True] = Some h1 \<and>
     sqlite3OsWrite (SQLITE_CANTOPEN, demo_file) unix_write 0 h1 [8, 9] 7 [True] = (r, h2, al2) \<and> r = SQLITE_CANTOPEN \<and> h2 = h1 \<and>
     sqlite3OsRead unix_read h2 4 3 = Some (rr, b, h3) \<and> (rr = SQLITE_OK \<longrightarrow> b = [4, 5, 6, 7])"
proof -
  let ?h = "InMemory \<lparr>nChunkSize = 8, nSpill = 8, chunks = [], endpoint = null_point, readpoint = null_point\<rparr>"
  let ?h1 = "InMemory \<lparr>nChunkSize = 8, nSpill = 8, chunks = [[1, 2, 3, 4, 5, 6, 7, 0]], endpoint = \<lparr>iOffset = 7, pChunk = Some 0\<rparr>, readpoint = null_point\<rparr>"
  have h: "sqlite3JournalOpen (SQLITE_CANTOPEN, demo_file) 8 = (SQLITE_OK, ?h)" by (simp add: sqlite3JournalOpen_def)
  have h1: "append_records (sqlite3OsWrite (SQLITE_CANTOPEN, demo_file) unix_write 0) ?h 0 [[1, 2, 3], [4, 5, 6, 7]] [True] = Some ?h1"
    by (simp add: memjrnlWrite_def write_loop.simps Let_def null_point_def blit_def)
  have w: "sqlite3OsWrite (SQLITE_CANTOPEN, demo_file) unix_write 0 ?h1 [8, 9] (length (concat [[1, 2, 3], [4, 5, 6, 7 :: u8]])) [True] = (SQLITE_CANTOPEN, ?h1, [True])"
    by (simp add: memjrnlWrite_def memjrnlCreateFile_def Let_def)
  have d: "unix_inv demo_file" "unix_bytes demo_file = []"
    by (simp_all add: unix_inv_def unix_bytes_def file_ok_def demo_file_def)
  have bs: "\<forall>b\<in>set ([[1, 2, 3], [4, 5, 6, 7]] @ [[8, 9 :: u8]]). b \<noteq> [] \<and> length b < 131072" by simp
  have "\<exists>rr b h3. sqlite3OsRead unix_read ?h1 4 3 = Some (rr, b, h3) \<and> (rr = SQLITE_OK \<longrightarrow> b = [4, 5, 6, 7])"
    using journal_write_failure [OF h _ _ d bs h1 w, THEN conjunct1, rule_format, of 1] by (auto simp: numeral_eq_Suc)
  moreover have seven: "length (concat [[1, 2, 3], [4, 5, 6, 7 :: u8]]) = 7" by simp
  ultimately show ?thesis using h h1 w [unfolded seven] by blast
qed

end
