(* ===== verification/Spec2Isabelle.thy ===== *)
theory Spec2Isabelle
  imports Varint Cell Bitvec PageStore Payload CursorBounds WalRecover UnixLock MemJournal
begin

text \<open>
  \<^bold>\<open>A verification development for litebtree.\<close>

  litebtree is the storage layer of SQLite cut down to an ordered key/value store.  Its sources are under
  \<open>src/src/\<close>.  The public interface (\<open>btreelite_api.c\<close>) opens a file and works on one tree through a cursor.
  The b-tree (\<open>btree.c\<close>, \<open>btreeInt.h\<close>) keeps sorted cells on pages of fixed size: a cell has a key of at most
  255 bytes and a value, the end of a long value is on a chain of overflow pages, and pages that are not in use
  are on the freelist.  The pager (\<open>pager.c\<close>) hands out page images and makes transactions atomic with a
  rollback journal or a write-ahead log (\<open>wal.c\<close>); it keeps pages in a cache (\<open>pcache.c\<close>, \<open>pcache1.c\<close>) and
  remembers the pages it has journalled in bitmaps (\<open>bitvec.c\<close>).  The operating system layer
  (\<open>os_unix.c\<close>) reads, writes and locks files; a journal may also be in memory (\<open>memjournal.c\<close>).

  \<^bold>\<open>How the code is modelled.\<close>  A C buffer is a list of bytes, and a pointer into a page is the page number and
  an offset.  A structure is a record with the fields of the source, a routine is a function from the state to
  its result code, its outputs and the new state.  Integers whose bits or wrap-around matter are words of their
  width; sizes, offsets, page numbers and frame numbers are natural numbers with every cast and every wrap that
  can be reached written out.  What lies outside a routine is an input: the answers of the kernel, of memory
  allocation, of the pager and of the shared-memory locks are lists that are consumed one entry per call, and a
  property holds for every list that its hypotheses allow.  Most hypotheses allow any failure; recovery of the
  log, success of an allocation from the freelist, and the lookup and iteration of the interface are stated for
  runs in which no call fails, and mutual exclusion for processes in which no release of a lock failed.
  Assertions, debug code and code that the build leaves out (auto-vacuum, structured exception handling) are not
  part of the model.

  \<^bold>\<open>The theories and what they show.\<close>

  \<^item> \<open>Prelude\<close>: result codes, byte buffers, allocation answers, facts about words.

  \<^item> \<open>Varint\<close> (\<open>util.c\<close>, \<open>btreelite_compat.c\<close>): variable-length and fixed-length integers.  The unrolled
    decoder is the reference decoder on every buffer, and reads back what the encoder writes.

  \<^item> \<open>Cell\<close> and \<open>Page\<close> (\<open>btree.c\<close>, \<open>btreeInt.h\<close>): the structures of a page and of a cell, parsing cells,
    initialising a page, free-space computation, \<open>allocateSpace\<close>, \<open>freeSpace\<close>, \<open>defragmentPage\<close>,
    \<open>insertCell\<close>, \<open>insertCellFast\<close>, \<open>dropCell\<close>.  \<open>PageSpace\<close> has the invariant of the freeblock chain,
    \<open>PageCells\<close> the relation between a page and the list of its cells, and \<open>PageStore\<close> the interface
    \<open>cell_store\<close>, interpreted on the routines of the source: a page implements a list of cells.

  \<^item> \<open>Bitvec\<close> (\<open>bitvec.c\<close>): the bitmap with its three representations implements a set; a refused
    allocation is reported and leaves a well-formed bitmap.

  \<^item> \<open>Freelist\<close> (\<open>btree.c\<close>): \<open>allocateBtreePage\<close>, \<open>freePage2\<close>, \<open>clearCellOverflow\<close> over the trunk
    and leaf pages of the freelist.  No page in use is handed out and no page is lost; an allocation fails only with an
    error of the pager or when a page it may take is still referenced, a free only with an error of the pager or
    a refused allocation of memory.

  \<^item> \<open>Payload\<close> (\<open>btree.c\<close>): \<open>fillInCell\<close> and \<open>accessPayload\<close> with the overflow chain, its cache and
    direct reads.  A value is read back as it was written; after freeing its chain the free pages are those that
    were free before and the pages the file was extended by.

  \<^item> \<open>Cursor\<close>, \<open>CursorTree\<close>, \<open>CursorSteps\<close>, \<open>CursorBounds\<close> (\<open>btree.c\<close>): the moves of a cursor in a tree,
    the relation between pages and a search tree, the effect of every move as a position in the sorted list of
    keys, saving and restoring a position.  On arbitrary file content the stack of a cursor is within its bounds,
    and a move that succeeds ends on an existing cell.

  \<^item> \<open>Api\<close> (\<open>btreelite_api.c\<close>): the read side of the public interface.  Lookup, seek and iteration agree
    with the list of keys of the tree; the locale \<open>ordered_cursor\<close> is interpreted in both directions.

  \<^item> \<open>UnixLock\<close> (\<open>os_unix.c\<close>): the five-level locking protocol on POSIX advisory locks as programs whose
    steps are system calls, each of which may fail, interleaved between processes.  EXCLUSIVE excludes every other
    lock; two theorems show how the guarantee is lost, by a call during the close of a descriptor and by a failing
    release.

  \<^item> \<open>UnixFile\<close> (\<open>os_unix.c\<close>): reads and writes over arbitrary partial transfers, interrupts and errors.

  \<^item> \<open>MemJournal\<close> (\<open>memjournal.c\<close>): the in-memory journal and its move to a file, over an interface of file
    operations (locale \<open>vfs_file\<close>) that is interpreted with \<open>UnixFile\<close>.  Records are read back from memory or from the
    file, and a failed write loses none of them.

  \<^item> \<open>Wal\<close> (\<open>wal.c\<close>): the state of a connection to a write-ahead log, mapping and locking the shared wal-index,
    its hash tables, searching and rolling back.  \<open>WalIndex\<close>: the tables of the wal-index represent the sequence of
    the page numbers of the frames, and a search finds the last visible frame of a page.

  \<^item> \<open>WalLog\<close> (\<open>wal.c\<close>): checksums, encoding and decoding frames, the header of the wal-index, writing frames,
    restarting the log and recovery.

  \<^item> \<open>WalTxn\<close>: append, commit, rollback and savepoints refine operations on the sequence of frames, and a
    reader keeps its snapshot.  \<open>WalRecover\<close>: the format of the log file stated independently of the code, the three
    checksum loops compute one sum, and recovery finds exactly the committed frames.

  \<^bold>\<open>Loops and bounds.\<close>  Every loop is a terminating function.  Where the C loop ends because of a bound that the
  code checks (the depth of a cursor, the number of collisions, the length of the freelist) the bound of the code
  is the argument the recursion is on; chains of overflow pages are walked with the number of bytes that are left,
  and descents of a cursor with the depth limit \<open>BTCURSOR_MAX_DEPTH\<close>; a search in a table of the wal-index stops
  after as many collisions as the code allows.  Reads and writes that the kernel interrupts are repeated along the
  list of its answers, and an exhausted list means that every further call is served in full.  No fuel is used that
  the code does not have.

  \<^bold>\<open>Not modelled.\<close>  Tree updates with their balancing (\<open>sqlite3BtreeInsert\<close>, \<open>sqlite3BtreeDelete\<close>,
  \<open>balance_nonroot\<close>) and transactions of the b-tree; the pager and the page cache; opening and closing a write-ahead
  log, its read transactions (but for the choice of a read mark that restarting the log uses) and checkpoints;
  opening of files, shared-memory mapping and the other locking styles of \<open>os_unix.c\<close>; memory allocation, mutexes, formatted output and text encodings,
  which have no storage logic of their own.
\<close>

end
